(* ===== verification/Prelude.thy ===== *)
theory Prelude
  imports Main "HOL-Library.Word" "HOL-Library.Sublist" "HOL-Library.Char_ord"
    "HOL-Library.List_Lexorder"
begin

text \<open>
  What the components share: the reading of Go's \<open>time.Time\<close> and \<open>time.Duration\<close>, the string
  functions of Go's standard library that the code calls, decimal numbers as \<open>strconv\<close> prints
  and reads them, and the generic lemmas about lists that several components use.

  Times. A \<open>time.Time\<close> is a count of nanoseconds since Go's zero time, so \<open>IsZero\<close> is equality
  with 0, and a \<open>time.Duration\<close> is a count of nanoseconds. \<open>time_sub\<close> is \<open>Time.Sub\<close>, which
  saturates at the ends of the 64-bit range: a difference with the zero time is the largest
  duration, never a wrapped one.

  Strings. A Go string is its bytes, a HOL \<open>string\<close> is a list of 8-bit characters, so both
  count the same thing. White space is ASCII white space.
\<close>

named_theorems time_simps "the durations and the saturating difference of times"
named_theorems str_simps "evaluation of the string functions"


section \<open>Times and durations\<close>

type_synonym duration = int
type_synonym time = int

definition second :: duration where "second = 1000000000"
definition minute :: duration where "minute = 60 * second"
definition hour :: duration where "hour = 60 * minute"

definition max_duration :: duration where "max_duration = 2 ^ 63 - 1"
definition min_duration :: duration where "min_duration = - (2 ^ 63)"

definition time_sub :: "time \<Rightarrow> time \<Rightarrow> duration" where
  "time_sub t u = max min_duration (min max_duration (t - u))"

lemmas duration_defs [time_simps] =
  second_def minute_def hour_def max_duration_def min_duration_def

lemma time_sub_exact [time_simps]:
  "min_duration \<le> t - u \<Longrightarrow> t - u \<le> max_duration \<Longrightarrow> time_sub t u = t - u"
  by (simp add: time_sub_def)

lemma time_sub_less_iff: "d \<le> max_duration \<Longrightarrow> min_duration < d \<Longrightarrow> time_sub t u < d \<longleftrightarrow> t - u < d"
  by (auto simp: time_sub_def)

lemma time_sub_ge_iff: "d \<le> max_duration \<Longrightarrow> min_duration < d \<Longrightarrow> d \<le> time_sub t u \<longleftrightarrow> d \<le> t - u"
  by (auto simp: time_sub_def)

lemma time_sub_self [simp]: "time_sub t t = 0"
  by (simp add: time_sub_def max_duration_def min_duration_def)

lemma time_sub_mono: "t \<le> t' \<Longrightarrow> time_sub t u \<le> time_sub t' u"
  by (auto simp: time_sub_def)

lemma time_sub_antimono: "u \<le> u' \<Longrightarrow> time_sub t u' \<le> time_sub t u"
  by (auto simp: time_sub_def)


text \<open>Go's signed 64-bit arithmetic wraps: \<open>int64 x\<close> is the value \<open>x\<close> leaves in such a variable.\<close>

definition int64 :: "int \<Rightarrow> int" where
  "int64 x = (x + 2 ^ 63) mod 2 ^ 64 - 2 ^ 63"

lemma int64_id: "min_duration \<le> x \<Longrightarrow> x \<le> max_duration \<Longrightarrow> int64 x = x"
  by (simp add: int64_def min_duration_def max_duration_def)

lemma int64_range: "min_duration \<le> int64 x" "int64 x \<le> max_duration"
  by (simp_all add: int64_def min_duration_def max_duration_def pos_mod_bound
    order.strict_implies_order flip: less_iff_succ_less_eq)

section \<open>Decimal numbers: \<open>strconv.Itoa\<close> and \<open>strconv.Atoi\<close>\<close>

definition digit_char :: "nat \<Rightarrow> char" where
  "digit_char d = char_of (48 + d)"

definition is_digit :: "char \<Rightarrow> bool" where
  "is_digit c \<longleftrightarrow> 48 \<le> (of_char c :: nat) \<and> (of_char c :: nat) \<le> 57"

definition digit_val :: "char \<Rightarrow> nat" where
  "digit_val c = of_char c - 48"

fun dec_of_nat :: "nat \<Rightarrow> string" where
  "dec_of_nat n = (if n < 10 then [digit_char n] else dec_of_nat (n div 10) @ [digit_char (n mod 10)])"

declare dec_of_nat.simps [simp del]

definition dec_of_int :: "int \<Rightarrow> string" where
  "dec_of_int i = (if i < 0 then CHR ''-'' # dec_of_nat (nat (- i)) else dec_of_nat (nat i))"

definition dec_value :: "string \<Rightarrow> nat" where
  "dec_value s = foldl (\<lambda>n c. 10 * n + digit_val c) 0 s"

definition dec_num :: "string \<Rightarrow> int" where
  "dec_num s = foldl (\<lambda>n c. 10 * n + int (digit_val c)) 0 s"

lemma dec_num_eq: "dec_num s = int (dec_value s)"
proof -
  have "foldl (\<lambda>n c. 10 * n + int (digit_val c)) (int k) s = int (foldl (\<lambda>n c. 10 * n + digit_val c) k s)" for k
  proof (induction s arbitrary: k)
    case (Cons c s)
    from Cons [of "10 * k + digit_val c"] show ?case by simp
  qed simp
  from this [of 0] show ?thesis by (simp add: dec_num_def dec_value_def)
qed

text \<open>\<open>Atoi\<close>: an optional sign, at least one digit and nothing else, in the 64-bit range.\<close>

definition atoi :: "string \<Rightarrow> int option" where
  "atoi s =
     (let neg = (s \<noteq> [] \<and> hd s = CHR ''-'');
          ds = (if s \<noteq> [] \<and> (hd s = CHR ''-'' \<or> hd s = CHR ''+'') then tl s else s);
          v = (if neg then - dec_num ds else dec_num ds)
      in if ds \<noteq> [] \<and> list_all is_digit ds \<and> min_duration \<le> v \<and> v \<le> max_duration
         then Some v else None)"

lemma of_char_digit_char: "d < 10 \<Longrightarrow> (of_char (digit_char d) :: nat) = 48 + d"
  by (simp add: digit_char_def)

lemma is_digit_digit_char [simp]: "d < 10 \<Longrightarrow> is_digit (digit_char d)"
  by (simp add: is_digit_def of_char_digit_char)

lemma digit_val_digit_char [simp]: "d < 10 \<Longrightarrow> digit_val (digit_char d) = d"
  by (simp add: digit_val_def of_char_digit_char)

lemma dec_of_nat_not_Nil [simp]: "dec_of_nat n \<noteq> []"
  by (subst dec_of_nat.simps) simp

lemma dec_of_nat_digits: "list_all is_digit (dec_of_nat n)"
proof (induction n rule: dec_of_nat.induct)
  case (1 n)
  then show ?case by (subst dec_of_nat.simps) (auto simp: list_all_iff)
qed

lemma dec_value_dec_of_nat [simp]: "dec_value (dec_of_nat n) = n"
proof (induction n rule: dec_of_nat.induct)
  case (1 n)
  then show ?case by (subst dec_of_nat.simps) (simp add: dec_value_def)
qed

lemma length_dec_of_nat: "n < 10 ^ k \<Longrightarrow> 0 < k \<Longrightarrow> length (dec_of_nat n) \<le> k"
proof (induction n arbitrary: k rule: dec_of_nat.induct)
  case (1 n)
  show ?case
  proof (cases "n < 10")
    case True
    with 1 show ?thesis by (subst dec_of_nat.simps) simp
  next
    case False
    from 1(3) obtain j where j: "k = Suc j" by (cases k) auto
    moreover have "0 < j" using False 1(2) j by (cases j) auto
    ultimately have k: "k = Suc j" "0 < j" by simp_all
    have "n div 10 < 10 ^ j" using 1(2) k by (simp add: div_less_iff_less_mult mult.commute)
    with False 1(1) k show ?thesis by (subst dec_of_nat.simps) simp
  qed
qed

lemma digit_char_zero: "d < 10 \<Longrightarrow> digit_char d = CHR ''0'' \<longleftrightarrow> d = 0"
proof -
  assume "d < 10"
  moreover have "digit_char d = CHR ''0'' \<longleftrightarrow> (of_char (digit_char d) :: nat) = of_char (CHR ''0'')"
    by (simp only: of_char_eq_iff)
  ultimately show ?thesis by (simp add: of_char_digit_char)
qed

lemma dec_of_nat_no_leading_zero: "0 < n \<Longrightarrow> hd (dec_of_nat n) \<noteq> CHR ''0''"
proof (induction n rule: dec_of_nat.induct)
  case (1 n)
  then show ?case by (subst dec_of_nat.simps) (auto simp: digit_char_zero)
qed

lemma dec_of_nat_hd_digit: "is_digit (hd (dec_of_nat n))"
  using dec_of_nat_digits [of n] by (cases "dec_of_nat n") auto

lemma not_digit_signs [simp]: "\<not> is_digit CHR ''-''" "\<not> is_digit CHR ''+''" "\<not> is_digit CHR '' ''"
  "\<not> is_digit CHR ''=''" "\<not> is_digit CHR ''?''" "\<not> is_digit CHR 0x0A"
  by (simp_all add: is_digit_def)

lemma atoi_dec_of_nat: "int n \<le> max_duration \<Longrightarrow> atoi (dec_of_nat n) = Some (int n)"
proof -
  assume "int n \<le> max_duration"
  moreover have "hd (dec_of_nat n) \<noteq> CHR ''-''" "hd (dec_of_nat n) \<noteq> CHR ''+''"
    using dec_of_nat_hd_digit [of n] by auto
  ultimately show ?thesis
    by (simp add: atoi_def Let_def dec_num_eq dec_of_nat_digits min_duration_def)
qed


section \<open>String functions\<close>

definition is_space :: "char \<Rightarrow> bool" where
  "is_space c \<longleftrightarrow> c = CHR '' '' \<or> (9 \<le> (of_char c :: nat) \<and> (of_char c :: nat) \<le> 13)"

text \<open>\<open>strings.Fields\<close>.\<close>

fun str_fields_aux :: "string \<Rightarrow> string \<Rightarrow> string list" where
  "str_fields_aux cur [] = (if cur = [] then [] else [rev cur])"
| "str_fields_aux cur (c # cs) =
     (if is_space c then (if cur = [] then str_fields_aux [] cs else rev cur # str_fields_aux [] cs)
      else str_fields_aux (c # cur) cs)"

definition str_fields :: "string \<Rightarrow> string list" where
  "str_fields s = str_fields_aux [] s"

text \<open>\<open>strings.TrimSpace\<close>, \<open>strings.Cut\<close> at one byte, \<open>strings.Split\<close> at one byte, \<open>strings.Join\<close>.\<close>

definition trim_space :: "string \<Rightarrow> string" where
  "trim_space s = rev (dropWhile is_space (rev (dropWhile is_space s)))"

definition cut :: "char \<Rightarrow> string \<Rightarrow> (string \<times> string) option" where
  "cut sep s =
     (let before = takeWhile (\<lambda>c. c \<noteq> sep) s; rest = dropWhile (\<lambda>c. c \<noteq> sep) s
      in case rest of [] \<Rightarrow> None | _ # after \<Rightarrow> Some (before, after))"

fun split_on :: "char \<Rightarrow> string \<Rightarrow> string list" where
  "split_on sep [] = [[]]"
| "split_on sep (c # cs) =
     (case split_on sep cs of
        [] \<Rightarrow> [[c]]
      | w # ws \<Rightarrow> (if c = sep then [] # w # ws else (c # w) # ws))"

fun join_with :: "string \<Rightarrow> string list \<Rightarrow> string" where
  "join_with sep [] = []"
| "join_with sep [x] = x"
| "join_with sep (x # y # zs) = x @ sep @ join_with sep (y # zs)"

definition trim_prefix :: "string \<Rightarrow> string \<Rightarrow> string" where
  "trim_prefix p s = (if prefix p s then drop (length p) s else s)"

lemma str_fields_aux_word:
  "list_all (\<lambda>c. \<not> is_space c) w \<Longrightarrow> str_fields_aux cur (w @ cs) = str_fields_aux (rev w @ cur) cs"
  by (induction w arbitrary: cur) auto

lemma str_fields_aux_end: "cur \<noteq> [] \<Longrightarrow> is_space c \<Longrightarrow> str_fields_aux cur (c # cs) = rev cur # str_fields_aux [] cs"
  by simp

text \<open>A word followed by white space is the first field; what follows gives the others.\<close>

lemma str_fields_Cons:
  "w \<noteq> [] \<Longrightarrow> list_all (\<lambda>c. \<not> is_space c) w \<Longrightarrow> is_space c \<Longrightarrow>
   str_fields (w @ c # cs) = w # str_fields cs"
  by (simp add: str_fields_def str_fields_aux_word)

lemma str_fields_last:
  "w \<noteq> [] \<Longrightarrow> list_all (\<lambda>c. \<not> is_space c) w \<Longrightarrow> str_fields w = [w]"
  using str_fields_aux_word [of w "[]" "[]"] by (simp add: str_fields_def)

lemma takeWhile_until: "sep \<notin> set a \<Longrightarrow> takeWhile (\<lambda>c. c \<noteq> sep) (a @ sep # b) = a"
  by (induction a) auto

lemma dropWhile_until: "sep \<notin> set a \<Longrightarrow> dropWhile (\<lambda>c. c \<noteq> sep) (a @ sep # b) = sep # b"
  by (induction a) auto

lemma cut_app: "sep \<notin> set a \<Longrightarrow> cut sep (a @ sep # b) = Some (a, b)"
  by (simp add: cut_def Let_def takeWhile_until dropWhile_until)

lemma cut_None: "sep \<notin> set a \<Longrightarrow> cut sep a = None"
proof -
  assume "sep \<notin> set a"
  then have "dropWhile (\<lambda>c. c \<noteq> sep) a = []" by (induction a) auto
  then show ?thesis unfolding cut_def Let_def by (simp only: list.case)
qed

lemma is_space_simps [simp]: "is_space CHR '' ''" "is_space CHR 0x0A" "is_space CHR 0x09" "\<not> is_space CHR ''=''"
  by (simp_all add: is_space_def)

lemma digit_not_space: "is_digit c \<Longrightarrow> \<not> is_space c"
  by (auto simp: is_digit_def is_space_def)

lemma digits_not_space: "list_all is_digit ds \<Longrightarrow> list_all (\<lambda>c. \<not> is_space c) ds"
  by (auto simp: list_all_iff digit_not_space)

lemma split_on_not_Nil [simp]: "split_on sep s \<noteq> []"
  by (induction s) (auto split: list.split)

lemma split_on_line: "sep \<notin> set a \<Longrightarrow> split_on sep (a @ sep # b) = a # split_on sep b"
  by (induction a) (auto split: list.split)

lemma split_on_last: "sep \<notin> set a \<Longrightarrow> split_on sep a = [a]"
  by (induction a) (auto split: list.split)


section \<open>Lists\<close>

lemma last_filter_index:
  assumes "xs \<noteq> []"
  shows "last xs = xs ! (length xs - 1)"
  using assms by (simp add: last_conv_nth)

end
