(* ===== verification/Deadman.thy ===== *)
theory Deadman
  imports Prelude
begin

text \<open>
  The guest-side deadman, \<open>src/agent/guestagent/deadman\<close>: the pure decision and the reboot gate
  (\<open>decision.go\<close>), the verdict the guest publishes and the line it answers with (\<open>gate.go\<close>), and
  the driver that turns ticks into persisted episodes and reboots (\<open>deadman.go\<close>).

  A tick's outside world (the clock, the DRBD read, the contact stamp) is an argument of
  \<open>evaluate\<close>; what the tick does to the outside world is the list of \<open>effect\<close>s it returns, in the
  order the code performs them, so that a crash between two of them is a prefix of the list. Log
  lines are not modelled. \<open>Serve\<close>, the socket loop, answers every connection with \<open>render\<close> and
  is not modelled further.
\<close>


section \<open>The decision\<close>

datatype action = Serve | Hold | Reboot

record decide_input =
  since_contact_in :: duration
  deadman_in :: duration
  allowed_in :: bool
  since_reboot_in :: duration
  attempt_in :: int

definition reboot_cadence :: duration where "reboot_cadence = 2 * hour"

definition backoff :: "int \<Rightarrow> duration" where
  "backoff attempt = (if attempt \<le> 0 then 0 else reboot_cadence)"

definition decide :: "decide_input \<Rightarrow> action" where
  "decide i =
     (if since_contact_in i < deadman_in i then Serve
      else if \<not> allowed_in i then Hold
      else if since_reboot_in i < backoff (attempt_in i) then Hold
      else Reboot)"

definition default_deadman :: duration where "default_deadman = 6 * minute"
definition default_jitter :: duration where "default_jitter = 60 * second"
definition self_update_window :: duration where "self_update_window = 180 * second + 60 * second"

text \<open>
  \<open>EffectiveDeadman\<close> spreads the base by a hash of the seed. The hash is Go's \<open>fnv.New64a\<close>:
  the 64-bit FNV-1a offset basis and prime, the multiplication wrapping.
  The source adds base and jitter as 64-bit durations; here the sum is exact, which is the same as long as
  base and window together stay below two hundred years.
\<close>

definition fnv64a_step :: "64 word \<Rightarrow> char \<Rightarrow> 64 word" where
  "fnv64a_step h c = xor h (word_of_nat (of_char c)) * 1099511628211"

definition fnv64a :: "string \<Rightarrow> 64 word" where
  "fnv64a s = foldl fnv64a_step 14695981039346656037 s"

definition effective_deadman :: "duration \<Rightarrow> duration \<Rightarrow> string \<Rightarrow> duration" where
  "effective_deadman base window seed =
     (if window \<le> 0 then base else base + uint (fnv64a seed) mod window)"

record fabric =
  fab_peers :: nat
  fab_connected :: nat
  fab_quorate :: bool

definition majority :: "nat \<Rightarrow> nat" where
  "majority peers = (peers + 1) div 2 + 1"

definition reboot_allowed :: "fabric \<Rightarrow> bool" where
  "reboot_allowed f =
     (if fab_peers f = 0 then True
      else if \<not> fab_quorate f then True
      else fab_connected f \<ge> majority (fab_peers f))"

lemmas decision_defs = decide_def backoff_def reboot_cadence_def reboot_allowed_def majority_def

lemma decide_Reboot_iff:
  "decide i = Reboot \<longleftrightarrow>
     deadman_in i \<le> since_contact_in i \<and> allowed_in i \<and> backoff (attempt_in i) \<le> since_reboot_in i"
  by (auto simp: decide_def)

lemma decide_Serve_iff: "decide i = Serve \<longleftrightarrow> since_contact_in i < deadman_in i"
  by (auto simp: decide_def)

lemma effective_deadman_bounds:
  "base \<le> effective_deadman base window seed"
  "0 < window \<Longrightarrow> effective_deadman base window seed < base + window"
  by (auto simp: effective_deadman_def)

text \<open>A majority of the voters is more than half of them, this node among the voters.\<close>

lemma majority_more_than_half: "majority peers \<le> connected \<Longrightarrow> peers + 1 < 2 * connected"
  by (simp add: majority_def)


section \<open>The gate, served outward\<close>

definition gate_port :: nat where "gate_port = 7790"

definition join_host_port :: "string \<Rightarrow> string \<Rightarrow> string" where
  "join_host_port host port =
     (if CHR '':'' \<in> set host then ''['' @ host @ '']:'' @ port else host @ '':'' @ port)"

definition gate_addr :: "string \<Rightarrow> string" where
  "gate_addr node_ip = (if node_ip = [] then [] else join_host_port node_ip (dec_of_nat gate_port))"

definition gate_proto :: string where "gate_proto = ''briard-gate/1''"

record gate =
  gate_known :: bool
  gate_allowed :: bool
  gate_stamp :: time

definition zero_gate :: gate where
  "zero_gate = \<lparr>gate_known = False, gate_allowed = False, gate_stamp = 0\<rparr>"

text \<open>\<open>Publish\<close>: the second argument says whether the fabric read failed.\<close>

definition publish :: "gate \<Rightarrow> bool \<Rightarrow> bool \<Rightarrow> time \<Rightarrow> gate" where
  "publish g allowed failed now =
     (if failed then g\<lparr>gate_known := False\<rparr>
      else g\<lparr>gate_known := True, gate_allowed := allowed, gate_stamp := now\<rparr>)"

definition bool_digit :: "bool \<Rightarrow> string" where
  "bool_digit b = (if b then ''1'' else ''0'')"

definition verdict_age :: "gate \<Rightarrow> time \<Rightarrow> int" where
  "verdict_age g now = max (time_sub now (gate_stamp g) div second) 0"

definition render :: "gate \<Rightarrow> time \<Rightarrow> string" where
  "render g now =
     (if \<not> gate_known g then gate_proto @ '' allowed=? age=?'' @ [CHR 0x0A]
      else gate_proto @ '' allowed='' @ bool_digit (gate_allowed g)
             @ '' age='' @ dec_of_int (verdict_age g now) @ [CHR 0x0A])"

lemma verdict_age_nonneg [simp]: "0 \<le> verdict_age g now"
  by (simp add: verdict_age_def)

lemma verdict_age_bound: "verdict_age g now * second \<le> max_duration"
proof -
  have "time_sub now (gate_stamp g) \<le> max_duration"
    by (simp add: time_sub_def max_duration_def min_duration_def)
  then have "time_sub now (gate_stamp g) div second \<le> max_duration div second"
    by (simp add: second_def zdiv_mono1)
  then show ?thesis by (auto simp: verdict_age_def max_duration_def second_def)
qed


section \<open>The driver: episodes, ticks, effects\<close>

record episode =
  ep_attempt :: int
  ep_last_reboot :: time
  ep_since :: time

definition zero_episode :: episode where
  "zero_episode = \<lparr>ep_attempt = 0, ep_last_reboot = 0, ep_since = 0\<rparr>"

record last_episode =
  last_since :: time
  last_until :: time
  last_reboots :: int

text \<open>
  The monitor's configuration. \<open>m_state\<close>, \<open>m_gate\<close> and \<open>m_reboot\<close> say whether the code's
  pointer or function field is set; \<open>m_last_contact\<close> is \<open>Some\<close> of what the \<open>LastContact\<close> function
  reads when it is set, and \<open>m_contact\<close> is the in-process stamp used otherwise.
\<close>

record monitor =
  m_node :: string
  m_base :: duration
  m_window :: duration
  m_state :: bool
  m_gate :: bool
  m_reboot :: bool
  m_last_contact :: "time option"
  m_contact :: time

definition contact :: "monitor \<Rightarrow> time \<Rightarrow> monitor" where
  "contact m now = m\<lparr>m_contact := now\<rparr>"

definition since_contact :: "monitor \<Rightarrow> time \<Rightarrow> duration" where
  "since_contact m now =
     (case m_last_contact m of
        Some lc \<Rightarrow> (if lc = 0 then 0 else time_sub now lc)
      | None \<Rightarrow> time_sub now (m_contact m))"

text \<open>
  What a tick does to the world, in order: publish a verdict, store the finished episode for the
  host, store the live episode, ask for a graceful reboot.
\<close>

datatype effect =
    EPublish bool bool
  | ESaveLast last_episode
  | ESave episode
  | EReboot

text \<open>
  What the tick's fabric read gave: \<open>None\<close> when no reader is configured, else a failed read or a
  fabric. A missing reader leaves the zero fabric and no error.
\<close>

type_synonym fabric_read = "(unit + fabric) option"

definition zero_fabric :: fabric where
  "zero_fabric = \<lparr>fab_peers = 0, fab_connected = 0, fab_quorate = False\<rparr>"

definition read_failed :: "fabric_read \<Rightarrow> bool" where
  "read_failed r = (case r of Some (Inl _) \<Rightarrow> True | _ \<Rightarrow> False)"

definition read_fabric :: "fabric_read \<Rightarrow> fabric" where
  "read_fabric r = (case r of Some (Inr f) \<Rightarrow> f | _ \<Rightarrow> zero_fabric)"

definition read_allowed :: "fabric_read \<Rightarrow> bool" where
  "read_allowed r = (\<not> read_failed r \<and> reboot_allowed (read_fabric r))"

definition seed_of :: "monitor \<Rightarrow> episode \<Rightarrow> string" where
  "seed_of m ep = m_node m @ '':'' @ dec_of_int (ep_attempt ep)"

definition never :: duration where "never = 2 ^ 62"

definition since_reboot :: "time \<Rightarrow> episode \<Rightarrow> duration" where
  "since_reboot now ep = (if ep_last_reboot ep = 0 then never else time_sub now (ep_last_reboot ep))"

definition tick_input :: "monitor \<Rightarrow> fabric_read \<Rightarrow> time \<Rightarrow> episode \<Rightarrow> decide_input" where
  "tick_input m r now ep =
     \<lparr>since_contact_in = since_contact m now,
      deadman_in = effective_deadman (m_base m) (m_window m) (seed_of m ep),
      allowed_in = read_allowed r,
      since_reboot_in = since_reboot now ep,
      attempt_in = ep_attempt ep\<rparr>"

definition rebooted :: "episode \<Rightarrow> time \<Rightarrow> episode" where
  "rebooted ep now =
     (let ep' = ep\<lparr>ep_attempt := ep_attempt ep + 1, ep_last_reboot := now\<rparr>
      in if ep_since ep' = 0 then ep'\<lparr>ep_since := now\<rparr> else ep')"

definition evaluate ::
  "monitor \<Rightarrow> fabric_read \<Rightarrow> time \<Rightarrow> episode \<Rightarrow> bool \<Rightarrow> episode \<times> bool \<times> effect list" where
  "evaluate m r now ep degraded =
     (let pub = (if m_gate m then [EPublish (read_allowed r) (read_failed r)] else []);
          save = (\<lambda>e. if m_state m then [ESave e] else [])
      in case decide (tick_input m r now ep) of
           Serve \<Rightarrow>
             (if degraded then
                (zero_episode, False,
                 pub @ (if m_state m
                        then [ESaveLast \<lparr>last_since = ep_since ep, last_until = now,
                                         last_reboots = ep_attempt ep\<rparr>]
                        else []) @ save zero_episode)
              else (ep, degraded, pub))
         | Hold \<Rightarrow>
             (if \<not> degraded then
                (let ep' = ep\<lparr>ep_since := now\<rparr> in (ep', True, pub @ save ep'))
              else (ep, degraded, pub))
         | Reboot \<Rightarrow>
             (let ep' = rebooted ep now
              in (ep', True, pub @ save ep' @ (if m_reboot m then [EReboot] else []))))"

text \<open>
  \<open>Run\<close>: load the persisted episode, then one \<open>evaluate\<close> per tick. The monitor of each tick carries
  the contact stamp as it reads at that tick.
\<close>

type_synonym tick = "monitor \<times> fabric_read \<times> time"

fun run_ticks :: "episode \<Rightarrow> bool \<Rightarrow> tick list \<Rightarrow> episode \<times> bool \<times> effect list" where
  "run_ticks ep degraded [] = (ep, degraded, [])"
| "run_ticks ep degraded ((m, r, now) # ts) =
     (let (ep', degraded', es) = evaluate m r now ep degraded;
          (ep'', degraded'', es') = run_ticks ep' degraded' ts
      in (ep'', degraded'', es @ es'))"

definition run :: "episode \<Rightarrow> tick list \<Rightarrow> episode \<times> bool \<times> effect list" where
  "run loaded ts = run_ticks loaded (ep_since loaded \<noteq> 0) ts"

text \<open>
  The node-local store: the live episode's file and the finished one's beside it. \<open>Load\<close> reads an
  absent or corrupt file as the zero episode, which is what \<open>disk_episode\<close> starts as.
\<close>

record disk =
  disk_episode :: episode
  disk_last :: "last_episode option"

definition empty_disk :: disk where
  "empty_disk = \<lparr>disk_episode = zero_episode, disk_last = None\<rparr>"

fun apply_effect :: "disk \<Rightarrow> effect \<Rightarrow> disk" where
  "apply_effect d (ESaveLast l) = d\<lparr>disk_last := Some l\<rparr>"
| "apply_effect d (ESave e) = d\<lparr>disk_episode := e\<rparr>"
| "apply_effect d (EPublish _ _) = d"
| "apply_effect d EReboot = d"

definition apply_effects :: "disk \<Rightarrow> effect list \<Rightarrow> disk" where
  "apply_effects d es = foldl apply_effect d es"

lemma apply_effects_simps [simp]:
  "apply_effects d [] = d"
  "apply_effects d (e # es) = apply_effects (apply_effect d e) es"
  "apply_effects d (es @ es') = apply_effects (apply_effects d es) es'"
  by (simp_all add: apply_effects_def)

text \<open>\<open>LastPath\<close> and \<open>dir\<close>: the finished episode's file is beside the live one's.\<close>

definition dir_of :: "string \<Rightarrow> string" where
  "dir_of path =
     (case dropWhile (\<lambda>c. c \<noteq> CHR ''/'') (rev path) of
        [] \<Rightarrow> ''.''
      | _ # before \<Rightarrow> rev before)"

definition last_path :: "string \<Rightarrow> string" where
  "last_path path = dir_of path @ ''/last-episode.json''"


section \<open>Lemmas of the driver\<close>

lemma evaluate_Reboot_iff:
  "m_reboot m \<Longrightarrow>
   EReboot \<in> set (snd (snd (evaluate m r now ep degraded))) \<longleftrightarrow> decide (tick_input m r now ep) = Reboot"
  by (auto simp: evaluate_def Let_def split: action.split)

lemma evaluate_reboots_decided:
  "EReboot \<in> set (snd (snd (evaluate m r now ep degraded))) \<Longrightarrow> decide (tick_input m r now ep) = Reboot"
  by (auto simp: evaluate_def Let_def split: action.splits if_splits)

lemma evaluate_on_Reboot:
  "decide (tick_input m r now ep) = Reboot \<Longrightarrow>
   fst (evaluate m r now ep degraded) = rebooted ep now \<and> fst (snd (evaluate m r now ep degraded))"
  by (simp add: evaluate_def Let_def)

lemma rebooted_simps [simp]:
  "ep_attempt (rebooted ep now) = ep_attempt ep + 1"
  "ep_last_reboot (rebooted ep now) = now"
  by (simp_all add: rebooted_def Let_def)

text \<open>The episode in memory and the one on disk agree between ticks of a monitor with a store.\<close>

definition synced :: "disk \<Rightarrow> episode \<Rightarrow> bool \<Rightarrow> bool" where
  "synced d ep degraded \<longleftrightarrow> disk_episode d = ep \<and> (degraded \<longleftrightarrow> ep_since ep \<noteq> 0)"

lemma evaluate_synced:
  assumes "m_state m" and "now \<noteq> 0" and "synced d ep degraded"
    and "evaluate m r now ep degraded = (ep', degraded', es)"
  shows "synced (apply_effects d es) ep' degraded'"
  using assms
  by (auto simp: evaluate_def synced_def Let_def zero_episode_def rebooted_def
      split: action.splits if_splits)

lemma run_ticks_synced:
  assumes "\<forall>(m, r, now)\<in>set ts. m_state m \<and> now \<noteq> 0" and "synced d ep degraded"
    and "run_ticks ep degraded ts = (ep', degraded', es)"
  shows "synced (apply_effects d es) ep' degraded'"
  using assms
proof (induction ts arbitrary: d ep degraded es)
  case Nil
  then show ?case by simp
next
  case (Cons t ts)
  obtain m r now where t: "t = (m, r, now)" by (cases t)
  obtain ep1 dg1 es1 where e1: "evaluate m r now ep degraded = (ep1, dg1, es1)" by (metis prod_cases3)
  obtain es2 where r2: "run_ticks ep1 dg1 ts = (ep', degraded', es2)" and es: "es = es1 @ es2"
    using Cons.prems(3) by (auto simp: t e1 split: prod.splits)
  have "synced (apply_effects d es1) ep1 dg1"
    using Cons.prems(1,2) e1 by (auto simp: t intro: evaluate_synced)
  then show ?case using Cons.IH Cons.prems(1) r2 es by simp
qed

text \<open>The times of the ticks that ask for a reboot.\<close>

fun reboot_times :: "episode \<Rightarrow> bool \<Rightarrow> tick list \<Rightarrow> time list" where
  "reboot_times ep degraded [] = []"
| "reboot_times ep degraded ((m, r, now) # ts) =
     (let (ep', degraded', es) = evaluate m r now ep degraded
      in (if EReboot \<in> set es then [now] else []) @ reboot_times ep' degraded' ts)"

text \<open>
  A tick of a link silent for the base and the whole jitter window: whatever the attempt's seed,
  the deadman has fired.
\<close>

definition silent_tick :: "tick \<Rightarrow> bool" where
  "silent_tick t = (case t of (m, r, now) \<Rightarrow>
     m_reboot m \<and> 0 < now \<and> m_base m + max 0 (m_window m) \<le> since_contact m now)"

lemma silent_not_Serve:
  assumes "silent_tick (m, r, now)"
  shows "decide (tick_input m r now ep) \<noteq> Serve"
proof -
  have "effective_deadman (m_base m) (m_window m) (seed_of m ep) \<le> m_base m + max 0 (m_window m)"
  proof (cases "0 < m_window m")
    case True
    then show ?thesis using effective_deadman_bounds(2) [OF True, of "m_base m" "seed_of m ep"] by linarith
  qed (simp add: effective_deadman_def)
  with assms show ?thesis by (auto simp: decide_Serve_iff tick_input_def silent_tick_def)
qed

lemma silent_step:
  assumes "silent_tick (m, r, now)" and "evaluate m r now ep degraded = (ep', degraded', es)"
  shows "EReboot \<in> set es \<Longrightarrow> ep_attempt ep' = ep_attempt ep + 1 \<and> ep_last_reboot ep' = now \<and>
            backoff (ep_attempt ep) \<le> since_reboot now ep"
    and "EReboot \<notin> set es \<Longrightarrow> ep_attempt ep' = ep_attempt ep \<and> ep_last_reboot ep' = ep_last_reboot ep"
proof -
  have r: "m_reboot m" using assms(1) by (simp add: silent_tick_def)
  show "EReboot \<in> set es \<Longrightarrow> ep_attempt ep' = ep_attempt ep + 1 \<and> ep_last_reboot ep' = now \<and>
            backoff (ep_attempt ep) \<le> since_reboot now ep"
    using evaluate_reboots_decided [of m r now ep degraded] evaluate_on_Reboot [of m r now ep degraded]
      assms(2) by (auto simp: decide_Reboot_iff tick_input_def)
  show "EReboot \<notin> set es \<Longrightarrow> ep_attempt ep' = ep_attempt ep \<and> ep_last_reboot ep' = ep_last_reboot ep"
    using assms(2) silent_not_Serve [OF assms(1), of ep] r
    by (auto simp: evaluate_def Let_def split: action.splits if_splits)
qed

lemma reboot_times_after:
  assumes "\<forall>t\<in>set ts. silent_tick t" and "0 < ep_attempt ep" and "0 < ep_last_reboot ep"
    and "sorted (ep_last_reboot ep # map (\<lambda>(m, r, now). now) ts)"
  shows "\<forall>t\<in>set (reboot_times ep degraded ts). ep_last_reboot ep + reboot_cadence \<le> t"
  using assms
proof (induction ts arbitrary: ep degraded)
  case Nil
  then show ?case by simp
next
  case (Cons t ts)
  obtain m r now where t: "t = (m, r, now)" by (cases t)
  obtain ep' dg' es where e: "evaluate m r now ep degraded = (ep', dg', es)" by (metis prod_cases3)
  have sil: "silent_tick (m, r, now)" and now: "0 < now"
    using Cons.prems(1) by (auto simp: t silent_tick_def)
  note st = silent_step [OF sil e]
  show ?case
  proof (cases "EReboot \<in> set es")
    case True
    with st(1) Cons.prems(2) have "reboot_cadence \<le> since_reboot now ep" and a: "ep_attempt ep' = ep_attempt ep + 1"
      and l: "ep_last_reboot ep' = now" by (simp_all add: backoff_def)
    then have gap: "ep_last_reboot ep + reboot_cadence \<le> now"
      using Cons.prems(3) by (simp add: since_reboot_def time_sub_ge_iff reboot_cadence_def time_simps)
    have "\<forall>t\<in>set (reboot_times ep' dg' ts). now + reboot_cadence \<le> t"
      using Cons.IH [of ep' dg'] Cons.prems a l now by (simp add: t)
    moreover have "0 \<le> reboot_cadence" by (simp add: reboot_cadence_def time_simps)
    ultimately show ?thesis using gap True e by (fastforce simp: t)
  next
    case False
    with st(2) Cons.IH [of ep' dg'] Cons.prems e show ?thesis by (simp add: t)
  qed
qed

lemma reboot_times_spaced:
  assumes "\<forall>t\<in>set ts. silent_tick t" and "0 \<le> ep_attempt ep"
    and "sorted (map (\<lambda>(m, r, now). now) ts)"
  shows "sorted_wrt (\<lambda>t1 t2. t1 + reboot_cadence \<le> t2) (reboot_times ep degraded ts)"
  using assms
proof (induction ts arbitrary: ep degraded)
  case Nil
  then show ?case by simp
next
  case (Cons t ts)
  obtain m r now where t: "t = (m, r, now)" by (cases t)
  obtain ep' dg' es where e: "evaluate m r now ep degraded = (ep', dg', es)" by (metis prod_cases3)
  have sil: "silent_tick (m, r, now)" and now: "0 < now"
    using Cons.prems(1) by (auto simp: t silent_tick_def)
  note st = silent_step [OF sil e]
  have rest: "sorted_wrt (\<lambda>t1 t2. t1 + reboot_cadence \<le> t2) (reboot_times ep' dg' ts)"
    using Cons.IH [of ep' dg'] Cons.prems st by (cases "EReboot \<in> set es") (auto simp: t)
  show ?case
  proof (cases "EReboot \<in> set es")
    case True
    then have "\<forall>u\<in>set (reboot_times ep' dg' ts). now + reboot_cadence \<le> u"
      using reboot_times_after [of ts ep' dg'] Cons.prems st(1) now by (simp add: t)
    with True rest e show ?thesis by (simp add: t)
  qed (use rest e in \<open>simp add: t\<close>)
qed


section \<open>Properties\<close>

text \<open>
  C1: The deadman never takes a home below quorum. Whenever a tick asks for a reboot, the link has
  been silent for at least the base threshold, the cluster was read in that very tick, and either
  the node has no peers, or it has already lost quorum, or the peers connected to it are more than
  half of all voters, so they stay quorate without it. A failed read never reboots.
\<close>
theorem reboot_quorum_safe:
  assumes "EReboot \<in> set (snd (snd (evaluate m (Some rd) now ep degraded)))"
  shows "\<exists>f. rd = Inr f \<and> m_base m \<le> since_contact m now \<and>
    (fab_peers f = 0 \<or> \<not> fab_quorate f \<or> fab_peers f + 1 < 2 * fab_connected f)"
proof -
  have d: "decide (tick_input m (Some rd) now ep) = Reboot"
    using assms by (rule evaluate_reboots_decided)
  then have base: "m_base m \<le> since_contact m now"
    using effective_deadman_bounds(1) [of "m_base m" "m_window m" "seed_of m ep"]
    by (simp add: decide_Reboot_iff tick_input_def)
  have al: "read_allowed (Some rd)" using d by (simp add: decide_Reboot_iff tick_input_def)
  then obtain f where f: "rd = Inr f" "reboot_allowed f"
    by (auto simp: read_allowed_def read_failed_def read_fabric_def split: sum.splits)
  then show ?thesis using base majority_more_than_half
    by (auto simp: reboot_allowed_def split: if_splits)
qed

definition example_monitor :: monitor where
  "example_monitor = \<lparr>m_node = ''n1'', m_base = default_deadman, m_window = default_jitter,
     m_state = True, m_gate = True, m_reboot = True, m_last_contact = Some 1000, m_contact = 0\<rparr>"

definition example_fabric :: fabric where
  "example_fabric = \<lparr>fab_peers = 2, fab_connected = 2, fab_quorate = True\<rparr>"

theorem reboot_quorum_safe_witness:
  "EReboot \<in> set (snd (snd (evaluate example_monitor (Some (Inr example_fabric)) (1000 + 10 * minute) zero_episode False)))
   \<and> (\<exists>f. (Inr example_fabric :: unit + fabric) = Inr f \<and>
        m_base example_monitor \<le> since_contact example_monitor (1000 + 10 * minute) \<and>
        (fab_peers f = 0 \<or> \<not> fab_quorate f \<or> fab_peers f + 1 < 2 * fab_connected f))"
proof -
  have "EReboot \<in> set (snd (snd (evaluate example_monitor (Some (Inr example_fabric)) (1000 + 10 * minute) zero_episode False)))"
    by code_simp
  with reboot_quorum_safe [OF this] show ?thesis by blast
qed

text \<open>
  The inter-reboot cadence holds for as long as the silence lasts. Over any run of ticks on
  which the link has been silent for the base threshold and the whole jitter window, starting from
  any episode, any two reboots the deadman asks for are at least two hours apart.
\<close>
lemma cadence_between_reboots:
  assumes "\<forall>t\<in>set ts. silent_tick t" and "0 \<le> ep_attempt ep"
    and "sorted (map (\<lambda>(m, r, now). now) ts)"
  shows "sorted_wrt (\<lambda>t1 t2. t1 + 2 * hour \<le> t2) (reboot_times ep degraded ts)"
  using reboot_times_spaced [OF assms] by (simp add: reboot_cadence_def)

definition example_ticks :: "tick list" where
  "example_ticks =
     map (\<lambda>n. (example_monitor, Some (Inr example_fabric), 1000 + 10 * minute + n * hour)) [0, 1, 2, 3]"

text \<open>
  A degraded stretch is never lost across a crash. After any run from the persisted episode,
  if a stretch is in progress then, however many of the next tick's effects reach the disk before
  the machine goes down, the disk holds either the live episode with its start or the finished
  record of it for the host to collect.
\<close>
lemma episode_never_lost:
  assumes "\<forall>(m, r, now)\<in>set ts. m_state m \<and> now \<noteq> 0" and "m_state m"
    and "run (disk_episode d) ts = (ep, True, es)"
    and "evaluate m r now ep True = (ep', degraded', es')"
    and "d' = apply_effects (apply_effects d es) (take k es')"
  shows "ep_since (disk_episode d') = ep_since ep \<and> ep_since ep \<noteq> 0 \<or>
         disk_last d' = Some \<lparr>last_since = ep_since ep, last_until = now, last_reboots = ep_attempt ep\<rparr>"
proof -
  have "synced d (disk_episode d) (ep_since (disk_episode d) \<noteq> 0)" by (simp add: synced_def)
  then have "synced (apply_effects d es) ep True"
    using run_ticks_synced [OF assms(1)] assms(3) unfolding run_def by blast
  then have s: "disk_episode (apply_effects d es) = ep" "ep_since ep \<noteq> 0" by (auto simp: synced_def)
  show ?thesis
    using assms(2,4,5) s
    by (auto simp: evaluate_def Let_def rebooted_def take_Cons' zero_episode_def split: action.splits if_splits)
qed

section \<open>What the persisted episode does not carry across a reboot\<close>

text \<open>
  In production the contact stamp is a file on a tmpfs, so the first tick after a reboot reads no
  contact, \<open>since_contact\<close> is 0 and the verdict is \<open>Serve\<close>: the episode loaded from disk is closed
  as if the link had returned, and the attempt count that was to pace later reboots is dropped.
\<close>

lemma fresh_boot_drops_episode:
  assumes "m_last_contact m = Some 0" and "0 < m_base m" and "ep_since ep \<noteq> 0"
  shows "fst (run ep [(m, r, now)]) = zero_episode"
proof -
  have "decide (tick_input m r now ep) = Serve"
    using assms effective_deadman_bounds(1) [of "m_base m" "m_window m" "seed_of m ep"]
    by (simp add: decide_Serve_iff tick_input_def since_contact_def)
  then show ?thesis using assms(3) by (simp add: run_def evaluate_def Let_def)
qed

text \<open>
  The effective threshold is drawn again after each reboot, from a seed that holds the attempt. If
  the new draw is longer than the silence so far, the next tick reads the same silence as a
  returned link, resets the episode, and a later tick reboots again at attempt 0, without the
  cadence: a reboot that was asked for and did not happen is asked for again at once.
\<close>

lemma redrawn_threshold_skips_cadence:
  "reboot_times zero_episode False
     (map (\<lambda>s. (example_monitor, Some (Inr example_fabric), 1000 + s * second)) [385, 400, 415, 430])
   = [1000 + 400 * second, 1000 + 430 * second]"
  by code_simp

end
