(* ===== verification/GateProbe.thy ===== *)
theory GateProbe
  imports Deadman
begin

text \<open>
  The host's reading of the guest's reboot gate, \<open>src/agent/host/gateprobe.go\<close>: one line of
  key=value text is parsed into a verdict, and everything that is not a recent, well-formed verdict
  is the same as having learned nothing. The guest's half of the contract is the \<open>gate\<close> of
  theory \<open>Deadman\<close>; the locale \<open>gate_channel\<close> states what the recovery ladder relies on, and it
  is interpreted on the two halves of the code.
\<close>


section \<open>The client\<close>

record gate_verdict =
  gv_reached :: bool
  gv_fresh :: bool
  gv_allowed :: bool

definition zero_verdict :: gate_verdict where
  "zero_verdict = \<lparr>gv_reached = False, gv_fresh = False, gv_allowed = False\<rparr>"

definition guest_gate_stale :: duration where "guest_gate_stale = 5 * minute"

text \<open>One field of the reply: the verdict so far and the age, if one was read.\<close>

definition gate_field :: "gate_verdict \<times> duration option \<Rightarrow> string \<Rightarrow> gate_verdict \<times> duration option" where
  "gate_field acc f =
     (case cut CHR ''='' f of
        None \<Rightarrow> acc
      | Some (k, val) \<Rightarrow>
          (if k = ''allowed'' then
             (if val = ''1'' then ((fst acc)\<lparr>gv_fresh := True, gv_allowed := True\<rparr>, snd acc)
              else if val = ''0'' then ((fst acc)\<lparr>gv_fresh := True, gv_allowed := False\<rparr>, snd acc)
              else acc)
           else if k = ''age'' then
             (case atoi val of Some n \<Rightarrow> (fst acc, Some (int64 (n * second))) | None \<Rightarrow> acc)
           else acc))"

definition parse_gate :: "string \<Rightarrow> gate_verdict option" where
  "parse_gate line =
     (case str_fields (trim_space line) of
        [] \<Rightarrow> None
      | w # ws \<Rightarrow>
          (if w \<noteq> gate_proto then None
           else (let (v, age) = foldl gate_field (zero_verdict\<lparr>gv_reached := True\<rparr>, None) ws
                 in if gv_fresh v \<and> (case age of None \<Rightarrow> True | Some a \<Rightarrow> guest_gate_stale < a)
                    then Some (v\<lparr>gv_fresh := False\<rparr>) else Some v)))"

text \<open>
  The read of one reply: \<open>None\<close> is a dial that failed, otherwise the bytes that arrived before the
  connection ended. The scanner hands over the first line without its line ending, and gives up on
  a line that does not fit its 4096-byte buffer.
\<close>

definition gate_buffer :: nat where "gate_buffer = 4096"

definition scan_line :: "string \<Rightarrow> string option" where
  "scan_line bytes =
     (let line = takeWhile (\<lambda>c. c \<noteq> CHR 0x0A) bytes
      in if bytes = [] \<or> gate_buffer \<le> length line then None
         else Some (if line \<noteq> [] \<and> last line = CHR 0x0D then butlast line else line))"

definition read_gate :: "string option \<Rightarrow> gate_verdict" where
  "read_gate reply =
     (case reply of
        None \<Rightarrow> zero_verdict
      | Some bytes \<Rightarrow>
          (case scan_line bytes of
             None \<Rightarrow> zero_verdict
           | Some line \<Rightarrow> (case parse_gate line of None \<Rightarrow> zero_verdict | Some v \<Rightarrow> v)))"

text \<open>The one condition the ladder asks of a verdict: the guest freshly says no.\<close>

definition denies :: "gate_verdict \<Rightarrow> bool" where
  "denies v = (gv_reached v \<and> gv_fresh v \<and> \<not> gv_allowed v)"

lemma not_denies_zero [simp]: "\<not> denies zero_verdict"
  by (simp add: denies_def zero_verdict_def)


section \<open>What the ladder relies on\<close>

text \<open>
  The interface between the two sides. \<open>answer\<close> is what the guest sends and \<open>opinion\<close> its verdict
  with the age it has when it is sent; \<open>learn\<close> is what the host makes of the bytes.
\<close>

locale gate_channel =
  fixes answer :: "'g \<Rightarrow> time \<Rightarrow> string"
    and opinion :: "'g \<Rightarrow> time \<Rightarrow> (bool \<times> int) option"
    and learn :: "string option \<Rightarrow> gate_verdict"
  assumes silence: "learn None = zero_verdict"
    and no_opinion: "opinion g now = None \<Longrightarrow> \<not> gv_fresh (learn (Some (answer g now)))"
    and recent: "opinion g now = Some (b, age) \<Longrightarrow> age * second \<le> guest_gate_stale \<Longrightarrow>
      learn (Some (answer g now)) = \<lparr>gv_reached = True, gv_fresh = True, gv_allowed = b\<rparr>"
    and stale: "opinion g now = Some (b, age) \<Longrightarrow> guest_gate_stale < age * second \<Longrightarrow>
      \<not> gv_fresh (learn (Some (answer g now)))"
begin

lemma denies_iff:
  "denies (learn (Some (answer g now))) \<longleftrightarrow>
     (\<exists>age. opinion g now = Some (False, age) \<and> age * second \<le> guest_gate_stale)"
proof (cases "opinion g now")
  case None
  then show ?thesis using no_opinion by (simp add: denies_def)
next
  case (Some p)
  obtain b age where p: "p = (b, age)" by (cases p)
  show ?thesis
  proof (cases "age * second \<le> guest_gate_stale")
    case True
    then show ?thesis using recent [of g now b age] Some p by (cases b) (auto simp: denies_def)
  next
    case False
    then show ?thesis using stale [of g now b age] Some p by (auto simp: denies_def)
  qed
qed

lemma silence_never_denies: "\<not> denies (learn None)"
  by (simp add: silence)

end


section \<open>The code's two halves meet the contract\<close>

definition gate_opinion :: "gate \<Rightarrow> time \<Rightarrow> (bool \<times> int) option" where
  "gate_opinion g now = (if gate_known g then Some (gate_allowed g, verdict_age g now) else None)"

definition unknown_line :: string where
  "unknown_line = gate_proto @ '' allowed=? age=?''"

definition allowed_kv :: "bool \<Rightarrow> string" where
  "allowed_kv b = ''allowed='' @ bool_digit b"

definition age_kv :: "nat \<Rightarrow> string" where
  "age_kv n = ''age='' @ dec_of_nat n"

definition known_line :: "bool \<Rightarrow> nat \<Rightarrow> string" where
  "known_line b n = gate_proto @ CHR '' '' # allowed_kv b @ CHR '' '' # age_kv n"

lemma dec_of_int_nonneg: "0 \<le> i \<Longrightarrow> dec_of_int i = dec_of_nat (nat i)"
  by (simp add: dec_of_int_def)

lemma render_lines:
  "render g now = (if gate_known g then known_line (gate_allowed g) (nat (verdict_age g now))
                   else unknown_line) @ [CHR 0x0A]"
  by (simp add: render_def known_line_def unknown_line_def dec_of_int_nonneg allowed_kv_def age_kv_def)

lemma dec_of_nat_not_space: "list_all (\<lambda>c. \<not> is_space c) (dec_of_nat n)"
  by (rule digits_not_space [OF dec_of_nat_digits])

lemma dec_of_nat_no_sep [simp]: "\<not> is_digit c \<Longrightarrow> c \<notin> set (dec_of_nat n)"
  using dec_of_nat_digits [of n] by (auto simp: list_all_iff)

lemma trim_space_id:
  assumes "s \<noteq> []" and "\<not> is_space (hd s)" and "\<not> is_space (last s)"
  shows "trim_space s = s"
proof -
  have "dropWhile is_space s = s" using assms(1,2) by (cases s) auto
  moreover have "dropWhile is_space (rev s) = rev s"
    using assms(1,3) by (cases s rule: rev_cases) auto
  ultimately show ?thesis by (simp add: trim_space_def)
qed

lemma kv_words:
  "list_all (\<lambda>c. \<not> is_space c) (allowed_kv b)" "allowed_kv b \<noteq> []"
  "list_all (\<lambda>c. \<not> is_space c) (age_kv n)" "age_kv n \<noteq> []"
  "list_all (\<lambda>c. \<not> is_space c) gate_proto" "gate_proto \<noteq> []"
  using dec_of_nat_not_space [of n]
  by (auto simp: allowed_kv_def age_kv_def bool_digit_def gate_proto_def is_space_def)

lemma str_fields_known_line: "str_fields (known_line b n) = [gate_proto, allowed_kv b, age_kv n]"
  by (simp add: known_line_def str_fields_Cons str_fields_last kv_words)

lemma known_line_ends: "\<not> is_space (hd (known_line b n))" "\<not> is_space (last (known_line b n))" "known_line b n \<noteq> []"
proof -
  have "\<not> is_space (last (age_kv n))" using kv_words(3,4) [of n] by (auto simp: list_all_iff)
  then show "\<not> is_space (last (known_line b n))" by (simp add: known_line_def kv_words)
qed (simp_all add: known_line_def gate_proto_def is_space_def)

lemma gate_field_allowed:
  "gate_field (v, a) (allowed_kv b) = (v\<lparr>gv_fresh := True, gv_allowed := b\<rparr>, a)"
  using cut_app [of "CHR ''=''" "''allowed''" "bool_digit b"]
  by (simp add: gate_field_def allowed_kv_def bool_digit_def)

lemma gate_field_age:
  "int n * second \<le> max_duration \<Longrightarrow> gate_field (v, a) (age_kv n) = (v, Some (int n * second))"
  using cut_app [of "CHR ''=''" "''age''" "dec_of_nat n"]
  by (simp add: gate_field_def age_kv_def atoi_dec_of_nat int64_id time_simps)

lemma parse_known_line:
  assumes "int n * second \<le> max_duration"
  shows "parse_gate (known_line b n) =
    Some \<lparr>gv_reached = True, gv_fresh = (int n * second \<le> guest_gate_stale), gv_allowed = b\<rparr>"
  using assms
  by (simp add: parse_gate_def trim_space_id known_line_ends str_fields_known_line gate_field_allowed
      gate_field_age zero_verdict_def)

lemma parse_unknown_line:
  "parse_gate unknown_line = Some \<lparr>gv_reached = True, gv_fresh = False, gv_allowed = False\<rparr>"
  by code_simp

lemma age_digits: "int n * second \<le> max_duration \<Longrightarrow> n < 10 ^ 10"
  by (simp add: time_simps)

lemma known_line_scans:
  assumes "int n * second \<le> max_duration"
  shows "scan_line (known_line b n @ [CHR 0x0A]) = Some (known_line b n)"
proof -
  have nl: "CHR 0x0A \<notin> set (known_line b n)"
    by (auto simp: known_line_def allowed_kv_def age_kv_def gate_proto_def bool_digit_def)
  have "length (dec_of_nat n) \<le> 10" using age_digits [OF assms] by (intro length_dec_of_nat) simp_all
  then have len: "length (known_line b n) < gate_buffer"
    by (simp add: known_line_def allowed_kv_def age_kv_def gate_proto_def bool_digit_def gate_buffer_def)
  have "last (known_line b n) \<noteq> CHR 0x0D"
    using known_line_ends(2) [of b n] by (auto simp: is_space_def)
  with nl len show ?thesis
    by (simp add: scan_line_def takeWhile_until known_line_ends(3))
qed

lemma unknown_line_scans: "scan_line (unknown_line @ [CHR 0x0A]) = Some unknown_line"
  by code_simp

lemma read_gate_render:
  "read_gate (Some (render g now)) =
     (if gate_known g
      then \<lparr>gv_reached = True, gv_fresh = (verdict_age g now * second \<le> guest_gate_stale),
            gv_allowed = gate_allowed g\<rparr>
      else \<lparr>gv_reached = True, gv_fresh = False, gv_allowed = False\<rparr>)"
proof -
  have "int (nat (verdict_age g now)) * second \<le> max_duration" using verdict_age_bound by simp
  from parse_known_line [OF this] known_line_scans [OF this] show ?thesis
    by (simp add: read_gate_def render_lines unknown_line_scans parse_unknown_line)
qed

interpretation gate_link: gate_channel render gate_opinion read_gate
  by unfold_locales
    (auto simp: read_gate_render gate_opinion_def split: if_splits, simp add: read_gate_def)


section \<open>Properties\<close>

text \<open>
  The line the guest's gate renders is read back by the host as exactly the published verdict.
  For every gate state and every clock, the host learns: reached, fresh if and only if a verdict is
  known and at most five minutes old, and the published answer; nothing published, or a failed
  read, comes back as not fresh.
\<close>
lemma gate_round_trip:
  "read_gate (Some (render g now)) =
     \<lparr>gv_reached = True,
      gv_fresh = (gate_known g \<and> max (time_sub now (gate_stamp g) div second) 0 * second \<le> 5 * minute),
      gv_allowed = (gate_known g \<and> gate_allowed g)\<rparr>"
  by (simp add: read_gate_render verdict_age_def guest_gate_stale_def)

end
