(* ===== verification/GuestRecovery.thy ===== *)
theory GuestRecovery
  imports GateProbe
begin

text \<open>
  The host's rung of the unresponsive-guest ladder, \<open>src/agent/host/guestrecover.go\<close>: the ladder's
  state and its pure decision (\<open>next\<close>, \<open>served\<close>, the two alert latches), and the loop \<open>recover\<close>,
  one pass at a time.

  A pass reads the outside world at fixed points: whether the unit runs, whether a channel answered
  within the window, what the gate said, whether a bring-up worked, the clock. These readings are
  the record \<open>pass_obs\<close>, in the order the code takes them; what the pass does is a list of
  \<open>event\<close>s. The sentence kept for the local door (\<open>say\<close>) and log lines carry no decision and are
  not modelled. A bring-up or power cycle (\<open>converge\<close>, \<open>rebootGuest\<close>) is an observation: the boot
  identity it ends on, or a failure.
\<close>


section \<open>The ladder's state and timings\<close>

definition guest_recovery_window :: duration where "guest_recovery_window = 10 * minute"
definition guest_reboot_cadence :: duration where "guest_reboot_cadence = reboot_cadence"
definition guest_recovery_reset :: duration where "guest_recovery_reset = 30 * minute"
definition guest_relaunch_burst :: int where "guest_relaunch_burst = 3"
definition guest_relaunch_floor :: duration where "guest_relaunch_floor = 30 * second"

record recovery =
  rc_window :: duration
  rc_cadence :: duration
  rc_reset :: duration
  rc_floor :: duration
  rc_attempts :: int
  rc_announced :: bool
  rc_cleared :: bool

definition zero_recovery :: recovery where
  "zero_recovery = \<lparr>rc_window = 0, rc_cadence = 0, rc_reset = 0, rc_floor = 0,
     rc_attempts = 0, rc_announced = False, rc_cleared = False\<rparr>"

text \<open>\<open>waitFor\<close>; the argument is the override read from the environment, 0 when unset or not positive.\<close>

definition wait_for :: "duration \<Rightarrow> recovery \<Rightarrow> duration" where
  "wait_for override r =
     (if rc_window r \<le> 0 then (if 0 < override then override else guest_recovery_window) else rc_window r)"

definition cadence_for :: "recovery \<Rightarrow> duration" where
  "cadence_for r = (if rc_cadence r \<le> 0 then guest_reboot_cadence else rc_cadence r)"

definition floor_for :: "recovery \<Rightarrow> duration" where
  "floor_for r = (if rc_floor r \<le> 0 then guest_relaunch_floor else rc_floor r)"

definition reset_after :: "recovery \<Rightarrow> duration" where
  "reset_after r = (if rc_reset r \<le> 0 then guest_recovery_reset else rc_reset r)"

definition served :: "recovery \<Rightarrow> duration \<Rightarrow> recovery" where
  "served r up =
     (if reset_after r \<le> up then r\<lparr>rc_attempts := 0, rc_announced := False, rc_cleared := False\<rparr> else r)"

definition take_announce :: "recovery \<Rightarrow> recovery \<times> bool" where
  "take_announce r = (if rc_announced r then (r, False) else (r\<lparr>rc_announced := True\<rparr>, True))"

definition take_clear :: "recovery \<Rightarrow> recovery \<times> bool" where
  "take_clear r =
     (if \<not> rc_announced r \<or> rc_cleared r then (r, False) else (r\<lparr>rc_cleared := True\<rparr>, True))"

datatype step = StepRelaunch | StepReboot | StepHold

definition next_step :: "recovery \<Rightarrow> gate_verdict \<Rightarrow> duration \<Rightarrow> bool \<Rightarrow> recovery \<times> step" where
  "next_step r g since_action unit_down =
     (if unit_down then
        (if guest_relaunch_burst \<le> rc_attempts r \<and> since_action < cadence_for r then (r, StepHold)
         else (r\<lparr>rc_attempts := rc_attempts r + 1\<rparr>, StepRelaunch))
      else if since_action < cadence_for r then (r, StepHold)
      else if gv_reached g \<and> gv_fresh g \<and> \<not> gv_allowed g then (r, StepHold)
      else (r\<lparr>rc_attempts := rc_attempts r + 1\<rparr>, StepReboot))"

lemma next_step_Reboot_iff:
  "snd (next_step r g since down) = StepReboot \<longleftrightarrow> \<not> down \<and> cadence_for r \<le> since \<and> \<not> denies g"
  by (auto simp: next_step_def denies_def)

lemma next_step_Relaunch_iff:
  "snd (next_step r g since down) = StepRelaunch \<longleftrightarrow>
     down \<and> (rc_attempts r < guest_relaunch_burst \<or> cadence_for r \<le> since)"
  by (auto simp: next_step_def)

lemma next_step_attempts:
  "rc_attempts (fst (next_step r g since down)) =
     rc_attempts r + (if snd (next_step r g since down) = StepHold then 0 else 1)"
  by (simp add: next_step_def)

lemma next_step_frame [simp]:
  "cadence_for (fst (next_step r g since down)) = cadence_for r"
  "rc_announced (fst (next_step r g since down)) = rc_announced r"
  "rc_cleared (fst (next_step r g since down)) = rc_cleared r"
  by (auto simp: next_step_def cadence_for_def)

lemma latch_frame [simp]:
  "rc_attempts (fst (take_announce r)) = rc_attempts r" "cadence_for (fst (take_announce r)) = cadence_for r"
  "rc_attempts (fst (take_clear r)) = rc_attempts r" "cadence_for (fst (take_clear r)) = cadence_for r"
  by (auto simp: take_announce_def take_clear_def cadence_for_def)


section \<open>One pass of the loop\<close>

text \<open>
  What the ladder tells the owner and does to the machine. \<open>Opened\<close> and \<open>Cleared\<close> are the two
  alerts that go out; \<open>Relaunched\<close> and \<open>PowerCycled\<close> carry the time the action started;
  \<open>Converged\<close> is the bring-up of a guest that answers but is a different boot.
\<close>

datatype situation = KeepsStopping int | GateDenied | Restarting

datatype event = Opened situation | Cleared | Relaunched time | PowerCycled time | Converged

text \<open>
  The readings of one pass. \<open>ob_now\<close> is the clock where the time since the last action is taken,
  \<open>ob_act\<close> the clock where an action is stamped. \<open>ob_running\<close> and \<open>ob_still\<close> are the two readings
  of the unit; \<open>ob_answer\<close> is the boot id behind a channel that came back within the window;
  \<open>ob_done\<close> says the agent's context has ended where the pass looks at it; \<open>ob_bring_up\<close> is the
  boot id a launch, a power cycle or a convergence ended on, \<open>None\<close> if it failed.
\<close>

record pass_obs =
  ob_now :: time
  ob_act :: time
  ob_running :: bool
  ob_still :: bool
  ob_answer :: "string option"
  ob_gate :: gate_verdict
  ob_bring_up :: "string option"
  ob_done :: bool

text \<open>
  \<open>ld_last\<close> is the local \<open>lastAction\<close>, zero at the start of every call; \<open>ld_bound\<close> is the boot id
  of the channel this agent last bound, \<open>None\<close> when there is none (\<open>u.client\<close> nil).
\<close>

record ladder =
  ld_rec :: recovery
  ld_last :: time
  ld_bound :: "string option"

datatype outcome = Again | Returned string | Stopped

definition announce :: "recovery \<Rightarrow> situation \<Rightarrow> recovery \<times> event list" where
  "announce r s = (let (r', due) = take_announce r in (r', if due then [Opened s] else []))"

definition resolved :: "recovery \<Rightarrow> recovery \<times> event list" where
  "resolved r = (let (r', due) = take_clear r in (r', if due then [Cleared] else []))"

definition guest_rebooted :: "string option \<Rightarrow> string \<Rightarrow> bool" where
  "guest_rebooted bound now =
     (case bound of None \<Rightarrow> False | Some was \<Rightarrow> was \<noteq> [] \<and> now \<noteq> [] \<and> was \<noteq> now)"

definition since_action :: "ladder \<Rightarrow> time \<Rightarrow> duration" where
  "since_action l now = (if ld_last l = 0 then never else time_sub now (ld_last l))"

text \<open>What a pass does when an action has brought the guest to boot \<open>b\<close>: tell, bind, return.\<close>

definition finish :: "ladder \<Rightarrow> event list \<Rightarrow> string \<Rightarrow> ladder \<times> event list \<times> outcome" where
  "finish l es b =
     (let (r, es') = resolved (ld_rec l) in (l\<lparr>ld_rec := r, ld_bound := Some b\<rparr>, es @ es', Returned b))"

definition pass_stopped :: "ladder \<Rightarrow> pass_obs \<Rightarrow> ladder \<times> event list \<times> outcome" where
  "pass_stopped l o' =
     (let (r, st) = next_step (ld_rec l) zero_verdict (since_action l (ob_now o')) True
      in if st = StepHold then
           (let (r', es) = announce r (KeepsStopping (rc_attempts r))
            in (l\<lparr>ld_rec := r'\<rparr>, es,
                if ob_answer o' \<noteq> None then Again else if ob_done o' then Stopped else Again))
         else
           (let l' = l\<lparr>ld_rec := r, ld_last := ob_act o'\<rparr>
            in case ob_bring_up o' of
                 None \<Rightarrow> (l', [Relaunched (ob_act o')], if ob_done o' then Stopped else Again)
               | Some b \<Rightarrow> finish l' [Relaunched (ob_act o')] b))"

definition pass_running :: "ladder \<Rightarrow> pass_obs \<Rightarrow> ladder \<times> event list \<times> outcome" where
  "pass_running l o' =
     (case ob_answer o' of
        Some boot \<Rightarrow>
          (if guest_rebooted (ld_bound l) boot \<or> ld_bound l = None then
             (case ob_bring_up o' of
                None \<Rightarrow> (l, [Converged], Again)
              | Some b \<Rightarrow> finish l [Converged] b)
           else finish l [] boot)
      | None \<Rightarrow>
          (if ob_done o' then (l, [], Stopped)
           else if \<not> ob_still o' then (l, [], Again)
           else
             (let (r, st) = next_step (ld_rec l) (ob_gate o') (since_action l (ob_now o')) False
              in if st = StepHold then
                   (let (r', es) = announce r GateDenied in (l\<lparr>ld_rec := r'\<rparr>, es, Again))
                 else
                   (let (r', es) = announce r Restarting;
                        l' = l\<lparr>ld_rec := r', ld_last := ob_act o'\<rparr>
                    in case ob_bring_up o' of
                         None \<Rightarrow> (l', es @ [PowerCycled (ob_act o')], Again)
                       | Some b \<Rightarrow> finish l' (es @ [PowerCycled (ob_act o')]) b))))"

definition pass :: "ladder \<Rightarrow> pass_obs \<Rightarrow> ladder \<times> event list \<times> outcome" where
  "pass l o' = (if \<not> ob_running o' then pass_stopped l o' else pass_running l o')"

text \<open>
  \<open>recover\<close>: passes until one returns a channel or the agent stops. A call starts with no last
  action. The observations are a finite prefix of what the world would give; running out of them is
  the outcome \<open>Again\<close>: the ladder is still climbing.
\<close>

fun passes :: "ladder \<Rightarrow> pass_obs list \<Rightarrow> ladder \<times> event list \<times> outcome" where
  "passes l [] = (l, [], Again)"
| "passes l (o' # os) =
     (case pass l o' of
        (l', es, Again) \<Rightarrow> (case passes l' os of (l'', es', out) \<Rightarrow> (l'', es @ es', out))
      | (l', es, out) \<Rightarrow> (l', es, out))"

definition recover :: "recovery \<Rightarrow> string option \<Rightarrow> pass_obs list \<Rightarrow> ladder \<times> event list \<times> outcome" where
  "recover r bound os = passes \<lparr>ld_rec = r, ld_last = 0, ld_bound = bound\<rparr> os"


section \<open>Lemmas of a pass\<close>

fun is_act :: "event \<Rightarrow> bool" where
  "is_act (Relaunched _) = True"
| "is_act (PowerCycled _) = True"
| "is_act _ = False"

fun is_cycle :: "event \<Rightarrow> bool" where
  "is_cycle (PowerCycled _) = True"
| "is_cycle _ = False"

fun act_time :: "event \<Rightarrow> time" where
  "act_time (Relaunched t) = t"
| "act_time (PowerCycled t) = t"
| "act_time _ = 0"

fun is_opened :: "event \<Rightarrow> bool" where
  "is_opened (Opened _) = True"
| "is_opened _ = False"

definition actions :: "event list \<Rightarrow> event list" where
  "actions es = filter is_act es"

lemma actions_simps [simp]:
  "actions [] = []" "actions (es @ es') = actions es @ actions es'"
  by (simp_all add: actions_def)

text \<open>What one pass may do: nothing, or one action that respects the cadence and the burst.\<close>

definition act_ok :: "ladder \<Rightarrow> event \<Rightarrow> bool" where
  "act_ok l e \<longleftrightarrow>
     (is_cycle e \<or> guest_relaunch_burst \<le> rc_attempts (ld_rec l)) \<longrightarrow>
     ld_last l = 0 \<or> ld_last l + cadence_for (ld_rec l) \<le> act_time e"

definition pass_inv :: "ladder \<Rightarrow> event list \<Rightarrow> ladder \<Rightarrow> pass_obs \<Rightarrow> bool" where
  "pass_inv l es l' o' \<longleftrightarrow>
     cadence_for (ld_rec l') = cadence_for (ld_rec l) \<and>
     (actions es = [] \<and> ld_last l' = ld_last l \<and> rc_attempts (ld_rec l') = rc_attempts (ld_rec l) \<or>
      (\<exists>e. actions es = [e] \<and> is_act e \<and> act_time e = ob_act o' \<and> ld_last l' = ob_act o' \<and>
           rc_attempts (ld_rec l') = rc_attempts (ld_rec l) + 1 \<and> act_ok l e))"

lemma cadence_le_max: "cadence_for r \<le> since_action l now \<Longrightarrow> 0 < cadence_for r \<Longrightarrow>
   ld_last l = 0 \<or> ld_last l + cadence_for r \<le> now"
  by (auto simp: since_action_def time_sub_def max_duration_def min_duration_def split: if_splits)

lemma cadence_pos: "0 < cadence_for r"
  by (simp add: cadence_for_def guest_reboot_cadence_def reboot_cadence_def time_simps)

lemma announce_quiet [simp]: "actions (snd (announce r s)) = []"
  by (simp add: announce_def take_announce_def actions_def Let_def)

lemma resolved_quiet [simp]: "actions (snd (resolved r)) = []"
  by (simp add: resolved_def take_clear_def actions_def Let_def)

lemma announce_frame [simp]:
  "rc_attempts (fst (announce r s)) = rc_attempts r" "cadence_for (fst (announce r s)) = cadence_for r"
  by (simp_all add: announce_def case_prod_beta Let_def)

lemma resolved_frame [simp]:
  "rc_attempts (fst (resolved r)) = rc_attempts r" "cadence_for (fst (resolved r)) = cadence_for r"
  by (simp_all add: resolved_def case_prod_beta Let_def)

lemma finish_inv:
  assumes "pass_inv l es l' o'" and "finish l' es b = (l'', es'', out)"
  shows "pass_inv l es'' l'' o'"
  using assms by (auto simp: finish_def pass_inv_def case_prod_beta Let_def)

lemma pass_inv_quiet: "actions es = [] \<Longrightarrow> pass_inv l es l o'"
  by (simp add: pass_inv_def)

lemma pass_inv_act:
  assumes "next_step (ld_rec l) g (since_action l (ob_now o')) down = (r, st)"
    and "st = StepRelaunch \<and> e = Relaunched (ob_act o') \<or> st = StepReboot \<and> e = PowerCycled (ob_act o')"
    and "ob_now o' \<le> ob_act o'" and "actions es = [e]"
    and "rc_attempts r' = rc_attempts r" and "cadence_for r' = cadence_for r"
  shows "pass_inv l es (l\<lparr>ld_rec := r', ld_last := ob_act o'\<rparr>) o'"
proof -
  have att: "rc_attempts r = rc_attempts (ld_rec l) + 1" and cad: "cadence_for r = cadence_for (ld_rec l)"
    using next_step_attempts [of "ld_rec l" g "since_action l (ob_now o')" down]
      next_step_frame(1) [of "ld_rec l" g "since_action l (ob_now o')" down] assms(1,2) by auto
  have "act_ok l e"
  proof -
    have "is_cycle e \<or> guest_relaunch_burst \<le> rc_attempts (ld_rec l) \<Longrightarrow>
      cadence_for (ld_rec l) \<le> since_action l (ob_now o')"
      using assms(1,2) next_step_Reboot_iff [of "ld_rec l" g "since_action l (ob_now o')" down]
        next_step_Relaunch_iff [of "ld_rec l" g "since_action l (ob_now o')" down] by auto
    then show ?thesis
      using cadence_le_max [of "ld_rec l" l "ob_now o'"] cadence_pos assms(2,3)
      by (auto simp: act_ok_def)
  qed
  then show ?thesis using assms att cad by (auto simp: pass_inv_def)
qed

lemma pass_stopped_inv:
  assumes "pass_stopped l o' = (l', es, out)" and "ob_now o' \<le> ob_act o'"
  shows "pass_inv l es l' o'"
proof -
  obtain r st where n: "next_step (ld_rec l) zero_verdict (since_action l (ob_now o')) True = (r, st)"
    by (cases "next_step (ld_rec l) zero_verdict (since_action l (ob_now o')) True")
  show ?thesis
  proof (cases "st = StepHold")
    case True
    have r: "rc_attempts r = rc_attempts (ld_rec l)" "cadence_for r = cadence_for (ld_rec l)"
      using next_step_attempts [of "ld_rec l" zero_verdict "since_action l (ob_now o')" True]
        next_step_frame(1) [of "ld_rec l" zero_verdict "since_action l (ob_now o')" True] n True by auto
    with assms(1) n True announce_quiet [of r "KeepsStopping (rc_attempts r)"]
      announce_frame [of r "KeepsStopping (rc_attempts r)"]
    show ?thesis by (auto simp: pass_stopped_def pass_inv_def case_prod_beta Let_def)
  next
    case False
    then have st: "st = StepRelaunch" using n by (auto simp: next_step_def split: if_splits)
    let ?l' = "l\<lparr>ld_rec := r, ld_last := ob_act o'\<rparr>"
    have "pass_inv l [Relaunched (ob_act o')] ?l' o'"
      by (rule pass_inv_act [OF n]) (use st assms(2) in \<open>simp_all add: actions_def\<close>)
    then show ?thesis using assms(1) n False
      by (auto simp: pass_stopped_def Let_def split: option.splits intro: finish_inv)
  qed
qed

lemma pass_running_inv:
  assumes "pass_running l o' = (l', es, out)" and "ob_now o' \<le> ob_act o'"
  shows "pass_inv l es l' o'"
proof (cases "ob_answer o'")
  case (Some boot)
  have "pass_inv l [Converged] l o'" "pass_inv l [] l o'" by (simp_all add: pass_inv_def actions_def)
  then show ?thesis using assms(1) Some finish_inv
    by (auto simp: pass_running_def split: option.splits if_splits)
next
  case None
  obtain r st where n: "next_step (ld_rec l) (ob_gate o') (since_action l (ob_now o')) False = (r, st)"
    by (cases "next_step (ld_rec l) (ob_gate o') (since_action l (ob_now o')) False")
  consider "ob_done o'" | "\<not> ob_done o'" "\<not> ob_still o'" | "\<not> ob_done o'" "ob_still o'" by blast
  then show ?thesis
  proof cases
    case 3
    show ?thesis
    proof (cases "st = StepHold")
      case True
      have r: "rc_attempts r = rc_attempts (ld_rec l)" "cadence_for r = cadence_for (ld_rec l)"
        using next_step_attempts [of "ld_rec l" "ob_gate o'" "since_action l (ob_now o')" False]
          next_step_frame(1) [of "ld_rec l" "ob_gate o'" "since_action l (ob_now o')" False] n True by auto
      with assms(1) n None 3 True announce_quiet [of r GateDenied] announce_frame [of r GateDenied]
      show ?thesis by (auto simp: pass_running_def pass_inv_def case_prod_beta Let_def)
    next
      case False
      then have st: "st = StepReboot" using n by (auto simp: next_step_def split: if_splits)
      obtain r' ea where a: "announce r Restarting = (r', ea)" by (cases "announce r Restarting")
      let ?l' = "l\<lparr>ld_rec := r', ld_last := ob_act o'\<rparr>"
      have "pass_inv l (ea @ [PowerCycled (ob_act o')]) ?l' o'"
        by (rule pass_inv_act [OF n])
          (use st assms(2) a announce_quiet [of r Restarting] announce_frame [of r Restarting]
            in \<open>simp_all add: actions_def\<close>)
      then show ?thesis using assms(1) None 3 n False a
        by (auto simp: pass_running_def Let_def split: option.splits intro: finish_inv)
    qed
  qed (use assms(1) None in \<open>simp_all add: pass_running_def pass_inv_quiet\<close>)
qed

lemma pass_inv_holds: "pass l o' = (l', es, out) \<Longrightarrow> ob_now o' \<le> ob_act o' \<Longrightarrow> pass_inv l es l' o'"
  using pass_stopped_inv pass_running_inv by (auto simp: pass_def split: if_splits)


section \<open>Lemmas of a whole call\<close>

text \<open>The clock readings of a run of passes are in order, and later than \<open>t\<close>.\<close>

fun clocked :: "time \<Rightarrow> pass_obs list \<Rightarrow> bool" where
  "clocked t [] = True"
| "clocked t (o' # os) = (t \<le> ob_now o' \<and> ob_now o' \<le> ob_act o' \<and> clocked (ob_act o') os)"

lemma clocked_mono: "clocked t os \<Longrightarrow> t' \<le> t \<Longrightarrow> clocked t' os"
  by (cases os) auto

lemma passes_Cons:
  assumes "passes l (o' # os) = (l', es, out)"
  obtains l1 es1 out1 where "pass l o' = (l1, es1, out1)"
    and "out1 \<noteq> Again \<Longrightarrow> l' = l1 \<and> es = es1 \<and> out = out1"
    and "\<And>es2. out1 = Again \<Longrightarrow> passes l1 os = (l', es2, out) \<Longrightarrow> es = es1 @ es2"
    and "out1 = Again \<Longrightarrow> \<exists>es2. passes l1 os = (l', es2, out) \<and> es = es1 @ es2"
  using assms by (cases "pass l o'") (auto split: prod.splits outcome.splits)

text \<open>
  Every action is at the clock of its pass, and an action that is a power cycle, or a relaunch past
  the burst, is a cadence later than the ladder's last action and than every action before it.
\<close>

definition spaced :: "ladder \<Rightarrow> event list \<Rightarrow> bool" where
  "spaced l as \<longleftrightarrow>
     (\<forall>j < length as. is_cycle (as ! j) \<or> guest_relaunch_burst \<le> rc_attempts (ld_rec l) + int j \<longrightarrow>
        (ld_last l = 0 \<or> ld_last l + cadence_for (ld_rec l) \<le> act_time (as ! j)) \<and>
        (\<forall>i < j. act_time (as ! i) + cadence_for (ld_rec l) \<le> act_time (as ! j)))"

lemma spaced_Cons:
  assumes "act_ok l e" and "spaced l' as" and "ld_last l' = act_time e" and "0 < act_time e"
    and "cadence_for (ld_rec l') = cadence_for (ld_rec l)"
    and "rc_attempts (ld_rec l') = rc_attempts (ld_rec l) + 1"
    and "ld_last l \<le> act_time e" and "0 \<le> ld_last l"
  shows "spaced l (e # as)"
  unfolding spaced_def
proof (intro allI impI)
  fix j
  assume j: "j < length (e # as)"
    and c: "is_cycle ((e # as) ! j) \<or> guest_relaunch_burst \<le> rc_attempts (ld_rec l) + int j"
  show "(ld_last l = 0 \<or> ld_last l + cadence_for (ld_rec l) \<le> act_time ((e # as) ! j)) \<and>
        (\<forall>i<j. act_time ((e # as) ! i) + cadence_for (ld_rec l) \<le> act_time ((e # as) ! j))"
  proof (cases j)
    case 0
    then show ?thesis using c assms(1) by (auto simp: act_ok_def)
  next
    case (Suc k)
    then have "is_cycle (as ! k) \<or> guest_relaunch_burst \<le> rc_attempts (ld_rec l') + int k"
      using c assms(6) by auto
    then have h: "ld_last l' + cadence_for (ld_rec l') \<le> act_time (as ! k)"
      "\<And>i. i < k \<Longrightarrow> act_time (as ! i) + cadence_for (ld_rec l') \<le> act_time (as ! k)"
      using assms(2-4) j Suc by (auto simp: spaced_def)
    show ?thesis
    proof (intro conjI allI impI)
      show "ld_last l = 0 \<or> ld_last l + cadence_for (ld_rec l) \<le> act_time ((e # as) ! j)"
        using h(1) Suc assms(3,5,7) by auto
      fix i assume "i < j"
      then show "act_time ((e # as) ! i) + cadence_for (ld_rec l) \<le> act_time ((e # as) ! j)"
        using h Suc assms(3,5) by (cases i) auto
    qed
  qed
qed

lemma passes_spaced:
  assumes "passes l os = (l', es, out)" and "clocked t os" and "0 < t"
    and "0 \<le> ld_last l" and "ld_last l \<le> t"
  shows "spaced l (actions es)"
  using assms
proof (induction os arbitrary: l t es)
  case Nil
  then show ?case by (auto simp: spaced_def)
next
  case (Cons o' os)
  obtain l1 es1 out1 where p: "pass l o' = (l1, es1, out1)"
    and stop: "out1 \<noteq> Again \<Longrightarrow> l' = l1 \<and> es = es1 \<and> out = out1"
    and go: "out1 = Again \<Longrightarrow> \<exists>es2. passes l1 os = (l', es2, out) \<and> es = es1 @ es2"
    using passes_Cons [OF Cons.prems(1)] by metis
  have t: "t \<le> ob_now o'" "ob_now o' \<le> ob_act o'" "clocked (ob_act o') os" "0 < ob_act o'"
    using Cons.prems(2,3) by auto
  have inv: "pass_inv l es1 l1 o'" using p t(2) by (rule pass_inv_holds)
  have last: "0 \<le> ld_last l1" "ld_last l1 \<le> ob_act o'"
    using inv t Cons.prems(4,5) by (auto simp: pass_inv_def)
  obtain rest where es: "actions es = actions es1 @ actions rest" and sp: "spaced l1 (actions rest)"
  proof (cases "out1 = Again")
    case True
    then show ?thesis using go Cons.IH [OF _ t(3,4) last] that by force
  next
    case False
    then show ?thesis using stop that [of "[]"] by (simp add: spaced_def)
  qed
  from inv consider (quiet) "actions es1 = []" "ld_last l1 = ld_last l"
      "rc_attempts (ld_rec l1) = rc_attempts (ld_rec l)" "cadence_for (ld_rec l1) = cadence_for (ld_rec l)"
    | (act) e where "actions es1 = [e]" "act_time e = ob_act o'" "ld_last l1 = ob_act o'"
      "rc_attempts (ld_rec l1) = rc_attempts (ld_rec l) + 1" "act_ok l e"
      "cadence_for (ld_rec l1) = cadence_for (ld_rec l)"
    by (auto simp: pass_inv_def)
  then show ?case
  proof cases
    case quiet
    then show ?thesis using es sp by (simp add: spaced_def)
  next
    case (act e)
    then have "spaced l (e # actions rest)"
      using sp t Cons.prems(4,5) by (intro spaced_Cons) auto
    then show ?thesis using es act(1) by simp
  qed
qed

text \<open>The alerts: each latch is spent when its alert goes out, and only \<open>served\<close> gives it back.\<close>

definition latch :: "bool \<Rightarrow> nat" where
  "latch b = (if b then 1 else 0)"

definition n_opened :: "event list \<Rightarrow> nat" where
  "n_opened es = length (filter is_opened es)"

definition n_cleared :: "event list \<Rightarrow> nat" where
  "n_cleared es = length (filter (\<lambda>e. e = Cleared) es)"

definition alerts_inv :: "recovery \<Rightarrow> event list \<Rightarrow> recovery \<Rightarrow> bool" where
  "alerts_inv r es r' \<longleftrightarrow>
     latch (rc_announced r') = latch (rc_announced r) + n_opened es \<and>
     latch (rc_cleared r') = latch (rc_cleared r) + n_cleared es \<and>
     (n_cleared es \<noteq> 0 \<longrightarrow> rc_announced r')"

lemma n_alerts_simps [simp]:
  "n_opened [] = 0" "n_opened (e # es) = (if is_opened e then 1 else 0) + n_opened es"
  "n_opened (es @ es') = n_opened es + n_opened es'"
  "n_cleared [] = 0" "n_cleared (e # es) = (if e = Cleared then 1 else 0) + n_cleared es"
  "n_cleared (es @ es') = n_cleared es + n_cleared es'"
  by (simp_all add: n_opened_def n_cleared_def)

lemma announce_alerts: "announce r s = (r', es) \<Longrightarrow> alerts_inv r es r'"
  by (auto simp: announce_def take_announce_def alerts_inv_def latch_def Let_def split: if_splits)

lemma resolved_alerts: "resolved r = (r', es) \<Longrightarrow> alerts_inv r es r'"
  by (auto simp: resolved_def take_clear_def alerts_inv_def latch_def Let_def split: if_splits)

lemma alerts_inv_cong:
  "rc_announced r = rc_announced q \<Longrightarrow> rc_cleared r = rc_cleared q \<Longrightarrow> alerts_inv q es r' \<Longrightarrow> alerts_inv r es r'"
  by (simp add: alerts_inv_def)

lemma next_step_alerts:
  "next_step r g since down = (q, st) \<Longrightarrow> alerts_inv q es r' \<Longrightarrow> alerts_inv r es r'"
  using next_step_frame(2,3) [of r g since down] by (auto intro: alerts_inv_cong)

lemma next_step_reset: "next_step r g since down = (q, st) \<Longrightarrow> rc_reset q = rc_reset r"
  by (auto simp: next_step_def split: if_splits)

lemma alerts_inv_trans:
  "alerts_inv r es r' \<Longrightarrow> alerts_inv r' es' r'' \<Longrightarrow> alerts_inv r (es @ es') r''"
  by (auto simp: alerts_inv_def latch_def split: if_splits)

lemma latch_le: "latch b \<le> 1"
  by (simp add: latch_def)

lemma alerts_inv_le:
  assumes "alerts_inv r es r'"
  shows "n_opened es \<le> 1" and "n_cleared es \<le> 1"
  using assms latch_le [of "rc_announced r'"] latch_le [of "rc_cleared r'"]
  by (simp_all only: alerts_inv_def)

lemma alerts_inv_cleared:
  assumes "alerts_inv r es r'" and "n_cleared es \<noteq> 0" and "n_opened es = 0"
  shows "rc_announced r"
  using assms by (cases "rc_announced r"; cases "rc_announced r'") (simp_all add: alerts_inv_def latch_def)

text \<open>A relation between the ladder before and after that a pass keeps, by its parts.\<close>

definition pass_alerts_inv :: "ladder \<Rightarrow> event list \<Rightarrow> ladder \<Rightarrow> bool" where
  "pass_alerts_inv l es l' \<longleftrightarrow>
     alerts_inv (ld_rec l) es (ld_rec l') \<and> rc_reset (ld_rec l') = rc_reset (ld_rec l)"

lemma announce_reset: "announce r s = (r', es) \<Longrightarrow> rc_reset r' = rc_reset r"
  by (auto simp: announce_def take_announce_def Let_def split: if_splits)

lemma resolved_reset: "resolved r = (r', es) \<Longrightarrow> rc_reset r' = rc_reset r"
  by (auto simp: resolved_def take_clear_def Let_def split: if_splits)

lemma finish_alerts:
  assumes "pass_alerts_inv l es l'" and "finish l' es b = (l'', es'', out)"
  shows "pass_alerts_inv l es'' l''"
proof -
  obtain q qs where q: "resolved (ld_rec l') = (q, qs)" by (cases "resolved (ld_rec l')")
  then have "l'' = l'\<lparr>ld_rec := q, ld_bound := Some b\<rparr>" "es'' = es @ qs"
    using assms(2) by (auto simp: finish_def)
  then show ?thesis
    using assms(1) resolved_alerts [OF q] resolved_reset [OF q] alerts_inv_trans
    by (auto simp: pass_alerts_inv_def)
qed

lemma quiet_alerts: "n_opened es = 0 \<Longrightarrow> n_cleared es = 0 \<Longrightarrow> pass_alerts_inv l es l"
  by (simp add: pass_alerts_inv_def alerts_inv_def)

lemma next_quiet_alerts:
  "next_step (ld_rec l) g since down = (q, st) \<Longrightarrow> n_opened es = 0 \<Longrightarrow> n_cleared es = 0 \<Longrightarrow>
   pass_alerts_inv l es (l\<lparr>ld_rec := q, ld_last := t\<rparr>)"
  using next_step_reset [of "ld_rec l" g since down q st]
    next_step_alerts [of "ld_rec l" g since down q st es q]
  by (auto simp: pass_alerts_inv_def alerts_inv_def)

lemma next_announce_alerts:
  assumes "next_step (ld_rec l) g since down = (q, st)" and "announce q s = (q', qs)"
    and "n_opened es = 0" and "n_cleared es = 0"
  shows "pass_alerts_inv l (qs @ es) (l\<lparr>ld_rec := q'\<rparr>)"
    and "pass_alerts_inv l (qs @ es) (l\<lparr>ld_rec := q', ld_last := t\<rparr>)"
proof -
  have "alerts_inv (ld_rec l) (qs @ es) q'"
    using next_step_alerts [OF assms(1) announce_alerts [OF assms(2)]] assms(3,4)
    by (simp add: alerts_inv_def)
  then show "pass_alerts_inv l (qs @ es) (l\<lparr>ld_rec := q'\<rparr>)"
    "pass_alerts_inv l (qs @ es) (l\<lparr>ld_rec := q', ld_last := t\<rparr>)"
    using next_step_reset [OF assms(1)] announce_reset [OF assms(2)]
    by (simp_all add: pass_alerts_inv_def)
qed

lemma pass_stopped_alerts:
  assumes "pass_stopped l o' = (l', es, out)"
  shows "pass_alerts_inv l es l'"
proof -
  obtain q st where n: "next_step (ld_rec l) zero_verdict (since_action l (ob_now o')) True = (q, st)"
    by (cases "next_step (ld_rec l) zero_verdict (since_action l (ob_now o')) True")
  obtain q' qs where a: "announce q (KeepsStopping (rc_attempts q)) = (q', qs)"
    by (cases "announce q (KeepsStopping (rc_attempts q))")
  show ?thesis
  proof (cases "st = StepHold")
    case True
    then show ?thesis using assms n a next_announce_alerts(1) [OF n a, of "[]"]
      by (simp add: pass_stopped_def Let_def)
  next
    case False
    have "pass_alerts_inv l [Relaunched (ob_act o')] (l\<lparr>ld_rec := q, ld_last := ob_act o'\<rparr>)"
      using n by (rule next_quiet_alerts) simp_all
    then show ?thesis using assms n False finish_alerts
      by (auto simp: pass_stopped_def Let_def split: option.splits)
  qed
qed

lemma pass_running_alerts:
  assumes "pass_running l o' = (l', es, out)"
  shows "pass_alerts_inv l es l'"
proof (cases "ob_answer o'")
  case (Some boot)
  have "pass_alerts_inv l [Converged] l" "pass_alerts_inv l [] l" by (simp_all add: quiet_alerts)
  then show ?thesis using assms Some finish_alerts
    by (auto simp: pass_running_def split: option.splits if_splits)
next
  case None
  obtain q st where n: "next_step (ld_rec l) (ob_gate o') (since_action l (ob_now o')) False = (q, st)"
    by (cases "next_step (ld_rec l) (ob_gate o') (since_action l (ob_now o')) False")
  obtain q' qs where a: "announce q GateDenied = (q', qs)" by (cases "announce q GateDenied")
  obtain p' ps where b: "announce q Restarting = (p', ps)" by (cases "announce q Restarting")
  have h: "pass_alerts_inv l qs (l\<lparr>ld_rec := q'\<rparr>)"
    using next_announce_alerts(1) [OF n a, of "[]"] by simp
  have c: "pass_alerts_inv l (ps @ [PowerCycled (ob_act o')]) (l\<lparr>ld_rec := p', ld_last := ob_act o'\<rparr>)"
    using n b by (rule next_announce_alerts(2)) simp_all
  show ?thesis using assms None n a b h c finish_alerts [OF c]
    by (auto simp: pass_running_def Let_def quiet_alerts split: option.splits if_splits)
qed

lemma pass_alerts: "pass l o' = (l', es, out) \<Longrightarrow> pass_alerts_inv l es l'"
  using pass_stopped_alerts pass_running_alerts by (auto simp: pass_def split: if_splits)

lemma pass_alerts_inv_trans:
  "pass_alerts_inv l es l' \<Longrightarrow> pass_alerts_inv l' es' l'' \<Longrightarrow> pass_alerts_inv l (es @ es') l''"
  using alerts_inv_trans by (auto simp: pass_alerts_inv_def)

lemma passes_alerts: "passes l os = (l', es, out) \<Longrightarrow> pass_alerts_inv l es l'"
proof (induction os arbitrary: l es)
  case Nil
  then show ?case by (auto simp: quiet_alerts)
next
  case (Cons o' os)
  obtain l1 es1 out1 where p: "pass l o' = (l1, es1, out1)"
    and stop: "out1 \<noteq> Again \<Longrightarrow> l' = l1 \<and> es = es1 \<and> out = out1"
    and go: "out1 = Again \<Longrightarrow> \<exists>es2. passes l1 os = (l', es2, out) \<and> es = es1 @ es2"
    using passes_Cons [OF Cons.prems] by metis
  note a = pass_alerts [OF p]
  show ?case
  proof (cases "out1 = Again")
    case True
    then obtain es2 where "passes l1 os = (l', es2, out)" "es = es1 @ es2" using go by blast
    then show ?thesis using Cons.IH pass_alerts_inv_trans [OF a] by blast
  qed (use stop a in simp)
qed

text \<open>
  An incident: calls of \<open>recover\<close> one after another, each with the time the channel it ended on
  stayed up before it died again.
\<close>

fun incident :: "recovery \<Rightarrow> (string option \<times> pass_obs list \<times> duration) list \<Rightarrow> recovery \<times> event list" where
  "incident r [] = (r, [])"
| "incident r ((bound, os, up) # cs) =
     (case recover r bound os of
        (l, es, _) \<Rightarrow> (case incident (served (ld_rec l) up) cs of (r', es') \<Rightarrow> (r', es @ es')))"

lemma incident_alerts:
  assumes "\<forall>(bound, os, up)\<in>set cs. up < reset_after r" and "incident r cs = (r', es)"
  shows "alerts_inv r es r'"
  using assms
proof (induction cs arbitrary: r es)
  case Nil
  then show ?case by (auto simp: alerts_inv_def)
next
  case (Cons c cs)
  obtain bound os up where c: "c = (bound, os, up)" by (cases c)
  obtain l es1 out where rec: "recover r bound os = (l, es1, out)" by (metis prod_cases3)
  have same: "reset_after (ld_rec l) = reset_after r"
    using passes_alerts [OF rec [unfolded recover_def]] by (simp add: pass_alerts_inv_def reset_after_def)
  then have "served (ld_rec l) up = ld_rec l"
    using Cons.prems(1) by (simp add: served_def c)
  then obtain es2 where "incident (ld_rec l) cs = (r', es2)" "es = es1 @ es2"
    using Cons.prems(2) by (auto simp: c rec split: prod.splits)
  moreover have "alerts_inv r es1 (ld_rec l)"
    using passes_alerts [OF rec [unfolded recover_def]] by (simp add: pass_alerts_inv_def)
  ultimately show ?case using Cons.IH Cons.prems(1) same alerts_inv_trans by fastforce
qed

lemma pass_cycle_gate:
  assumes "pass l o' = (l', es, out)" and "PowerCycled t \<in> set es"
  shows "ob_running o' \<and> ob_still o' \<and> ob_answer o' = None \<and> \<not> denies (ob_gate o')"
proof -
  have fin: "finish k as b = (k', es, out) \<Longrightarrow> PowerCycled t \<in> set as" for k as b k'
    using assms(2) by (auto simp: finish_def resolved_def Let_def split: prod.splits if_splits)
  have ann: "announce q s = (q', qs) \<Longrightarrow> PowerCycled t \<notin> set qs" for q s q' qs
    by (auto simp: announce_def Let_def split: prod.splits if_splits)
  obtain q st where n: "next_step (ld_rec l) (ob_gate o') (since_action l (ob_now o')) False = (q, st)"
    by (cases "next_step (ld_rec l) (ob_gate o') (since_action l (ob_now o')) False")
  show ?thesis
  proof (cases "ob_running o'")
    case False
    then have "pass_stopped l o' = (l', es, out)" using assms(1) by (simp add: pass_def)
    then have False using assms(2) ann
      by (auto simp: pass_stopped_def Let_def split: prod.splits if_splits option.splits dest!: fin)
    then show ?thesis ..
  next
    case True
    then have p: "pass_running l o' = (l', es, out)" using assms(1) by (simp add: pass_def)
    then have a: "ob_answer o' = None"
      using assms(2) by (auto simp: pass_running_def split: option.splits if_splits dest!: fin)
    then have "ob_still o'" "st \<noteq> StepHold" using p assms(2) ann n
      by (auto simp: pass_running_def Let_def split: prod.splits if_splits)
    moreover have "st = StepReboot" using n \<open>st \<noteq> StepHold\<close> by (auto simp: next_step_def split: if_splits)
    ultimately show ?thesis using True a n
      next_step_Reboot_iff [of "ld_rec l" "ob_gate o'" "since_action l (ob_now o')" False] by simp
  qed
qed


section \<open>Properties\<close>

definition example_obs :: pass_obs where
  "example_obs = \<lparr>ob_now = 1000 + hour, ob_act = 1000 + hour + 10 * minute, ob_running = True,
     ob_still = True, ob_answer = None, ob_gate = zero_verdict, ob_bring_up = None, ob_done = False\<rparr>"

definition example_later :: "duration \<Rightarrow> pass_obs" where
  "example_later d = example_obs\<lparr>ob_now := ob_now example_obs + d, ob_act := ob_act example_obs + d\<rparr>"

text \<open>
  C11: Within one climb of the recovery ladder, a power cycle of the guest comes at least the
  cadence (two hours as shipped) after every earlier action of that climb, and once the burst of
  three is spent so does every relaunch of a guest that keeps stopping.
\<close>
theorem recovery_actions_spaced:
  assumes "recover r bound os = (l, es, out)" and "clocked t os" and "0 < t"
    and "i < j" and "j < length (actions es)"
    and "is_cycle (actions es ! j) \<or> guest_relaunch_burst \<le> rc_attempts r + int j"
  shows "act_time (actions es ! i) + cadence_for r \<le> act_time (actions es ! j)"
  using passes_spaced [OF assms(1) [unfolded recover_def] assms(2,3)] assms(3-6)
  by (auto simp: spaced_def)

theorem recovery_actions_spaced_witness:
  "let os = map example_later [0, hour, 2 * hour, 3 * hour] in
   actions (fst (snd (recover zero_recovery None os)))
     = [PowerCycled (1000 + hour + 10 * minute), PowerCycled (1000 + 4 * hour + 10 * minute)]
   \<and> act_time (actions (fst (snd (recover zero_recovery None os))) ! 0) + cadence_for zero_recovery
     \<le> act_time (actions (fst (snd (recover zero_recovery None os))) ! 1)"
proof -
  let ?os = "map example_later [0, hour, 2 * hour, 3 * hour]"
  obtain l es out where r: "recover zero_recovery None ?os = (l, es, out)" by (metis prod_cases3)
  have a: "actions (fst (snd (recover zero_recovery None ?os)))
     = [PowerCycled (1000 + hour + 10 * minute), PowerCycled (1000 + 4 * hour + 10 * minute)]"
    by code_simp
  then have acts: "actions es = [PowerCycled (1000 + hour + 10 * minute), PowerCycled (1000 + 4 * hour + 10 * minute)]"
    using r by simp
  have c: "clocked 1 ?os" by code_simp
  have "act_time (actions es ! 0) + cadence_for zero_recovery \<le> act_time (actions es ! 1)"
    by (rule recovery_actions_spaced [OF r c]) (simp_all add: acts)
  then show ?thesis using a r by simp
qed

text \<open>
  C12: The host never power-cycles a guest whose own gate freshly says no. If the guest's deadman
  read a fabric in which its departure would cost the peers their quorum, and the host reads the
  served line within five minutes of that tick, then whatever else that pass of the ladder sees,
  it does not power-cycle the guest.
\<close>
theorem gate_withholds_power_cycle:
  assumes "\<not> reboot_allowed f" and "g = publish old (read_allowed (Some (Inr f))) (read_failed (Some (Inr f))) t"
    and "t \<le> now" and "now - t \<le> 5 * minute"
    and "ob_gate o' = read_gate (Some (render g now))"
    and "pass l o' = (l', es, out)"
  shows "PowerCycled u \<notin> set es"
proof
  assume "PowerCycled u \<in> set es"
  with pass_cycle_gate [OF assms(6)] have nd: "\<not> denies (read_gate (Some (render g now)))"
    by (simp add: assms(5))
  have "gate_opinion g now = Some (False, verdict_age g now)"
    using assms(1,2) by (simp add: publish_def gate_opinion_def read_allowed_def read_failed_def read_fabric_def)
  moreover have "time_sub now t = now - t" using assms(3,4) by (simp add: time_sub_def time_simps)
  then have "verdict_age g now * second \<le> guest_gate_stale"
    using assms(1-4) by (simp add: verdict_age_def publish_def read_allowed_def read_failed_def
        read_fabric_def guest_gate_stale_def time_simps)
  ultimately have "denies (read_gate (Some (render g now)))"
    using gate_link.denies_iff by blast
  with nd show False ..
qed

definition critical_fabric :: fabric where
  "critical_fabric = \<lparr>fab_peers = 2, fab_connected = 1, fab_quorate = True\<rparr>"

theorem gate_withholds_power_cycle_witness:
  "\<not> reboot_allowed critical_fabric \<and>
   (let g = publish zero_gate False False 1000;
        o' = example_obs\<lparr>ob_gate := read_gate (Some (render g (1000 + minute)))\<rparr>
    in PowerCycled (ob_act o') \<notin> set (fst (snd (pass \<lparr>ld_rec = zero_recovery, ld_last = 0, ld_bound = None\<rparr> o'))))"
proof -
  define g where "g = publish zero_gate (read_allowed (Some (Inr critical_fabric)))
    (read_failed (Some (Inr critical_fabric))) 1000"
  define o' where "o' = example_obs\<lparr>ob_gate := read_gate (Some (render g (1000 + minute)))\<rparr>"
  have na: "\<not> reboot_allowed critical_fabric" by code_simp
  obtain l es out where p: "pass \<lparr>ld_rec = zero_recovery, ld_last = 0, ld_bound = None\<rparr> o' = (l, es, out)"
    by (metis prod_cases3)
  have gate: "ob_gate o' = read_gate (Some (render g (1000 + minute)))" by (simp add: o'_def)
  have near: "(1000::int) \<le> 1000 + minute" "1000 + minute - 1000 \<le> 5 * minute" by (simp_all add: time_simps)
  have e: "PowerCycled (ob_act o') \<notin> set es"
    by (rule gate_withholds_power_cycle [OF na g_def near gate p])
  have c: "read_allowed (Some (Inr critical_fabric)) = False" "read_failed (Some (Inr critical_fabric)) = False"
    by code_simp+
  have "PowerCycled (ob_act o') \<notin> set (fst (snd (pass \<lparr>ld_rec = zero_recovery, ld_last = 0, ld_bound = None\<rparr> o')))"
    unfolding p using e by simp
  with na show ?thesis unfolding g_def o'_def Let_def c by blast
qed

text \<open>
  An incident tells the owner once that the guest is in trouble and at most once that it is
  back. Over any number of climbs between which the channel never stayed up long enough to end the
  incident, at most one trouble alert and at most one all-clear go out, and no all-clear without a
  trouble alert in this incident or standing from before it.
\<close>
lemma incident_alerts_once:
  assumes "\<forall>(bound, os, up)\<in>set cs. up < reset_after r" and "incident r cs = (r', es)"
  shows "length (filter is_opened es) \<le> 1 \<and> length (filter (\<lambda>e. e = Cleared) es) \<le> 1 \<and>
    (Cleared \<in> set es \<longrightarrow> rc_announced r \<or> (\<exists>s. Opened s \<in> set es))"
proof -
  have inv: "alerts_inv r es r'" using assms by (rule incident_alerts)
  have le: "n_opened es \<le> 1" "n_cleared es \<le> 1" by (rule alerts_inv_le [OF inv])+
  have "rc_announced r \<or> (\<exists>s. Opened s \<in> set es)" if "Cleared \<in> set es"
  proof (cases "n_opened es = 0")
    case True
    have "n_cleared es \<noteq> 0" using that by (auto simp: n_cleared_def filter_empty_conv)
    from alerts_inv_cleared [OF inv this True] show ?thesis ..
  next
    case False
    then obtain e where e: "e \<in> set es" "is_opened e" by (auto simp: n_opened_def filter_empty_conv)
    then obtain s where "e = Opened s" by (metis is_opened.elims(2))
    with e show ?thesis by blast
  qed
  with le show ?thesis by (auto simp: n_opened_def n_cleared_def)
qed

lemma actions_Cons: "actions (e # es) = (if is_act e then e # actions es else actions es)"
  by (simp add: actions_def)

text \<open>
  C24: The ladder never gives up, and does the one thing each state asks for. Whatever it has spent so
  far, a pass that finds the unit stopped relaunches it, at once within the first burst and otherwise
  once a cadence has gone by since its last action, and does nothing else to the machine; a pass that
  finds it running but silent through the window power-cycles it once that cadence has gone by, and does
  nothing else to it, unless the guest's gate freshly says no. The action counts as one more attempt,
  and when it does not bring the guest up the ladder goes on climbing.
\<close>
theorem ladder_never_gives_up:
  assumes "cadence_for (ld_rec l) \<le> since_action l (ob_now o') \<or>
      \<not> ob_running o' \<and> rc_attempts (ld_rec l) < guest_relaunch_burst"
    and "ob_running o' \<Longrightarrow> ob_still o' \<and> ob_answer o' = None \<and> \<not> denies (ob_gate o')"
    and "\<not> ob_done o'"
    and "pass l o' = (l', es, out)"
  shows "actions es = [if ob_running o' then PowerCycled (ob_act o') else Relaunched (ob_act o')] \<and>
    rc_attempts (ld_rec l') = rc_attempts (ld_rec l) + 1 \<and>
    (ob_bring_up o' = None \<longrightarrow> out = Again)"
proof (cases "ob_running o'")
  case False
  let ?n = "next_step (ld_rec l) zero_verdict (since_action l (ob_now o')) True"
  have "snd ?n = StepRelaunch" using assms(1) False by (auto simp: next_step_Relaunch_iff)
  moreover from this have "rc_attempts (fst ?n) = rc_attempts (ld_rec l) + 1" by (simp add: next_step_attempts)
  ultimately show ?thesis using assms(3,4) False
    by (auto simp: pass_def pass_stopped_def finish_def Let_def case_prod_beta actions_Cons split: option.splits)
next
  case True
  let ?n = "next_step (ld_rec l) (ob_gate o') (since_action l (ob_now o')) False"
  have "snd ?n = StepReboot" using assms(1,2) True by (simp add: next_step_Reboot_iff)
  moreover from this have "rc_attempts (fst ?n) = rc_attempts (ld_rec l) + 1" by (simp add: next_step_attempts)
  ultimately show ?thesis using assms(2-4) True
    by (auto simp: pass_def pass_running_def finish_def Let_def case_prod_beta actions_Cons split: option.splits)
qed

definition spent_ladder :: ladder where
  "spent_ladder = \<lparr>ld_rec = zero_recovery\<lparr>rc_attempts := 500\<rparr>, ld_last = 1000, ld_bound = None\<rparr>"

theorem ladder_never_gives_up_witness:
  "actions (fst (snd (pass spent_ladder ((example_later (2 * hour))\<lparr>ob_running := False\<rparr>)))) =
     [Relaunched (ob_act (example_later (2 * hour)))] \<and>
   actions (fst (snd (pass spent_ladder (example_later (2 * hour))))) =
     [PowerCycled (ob_act (example_later (2 * hour)))]"
proof -
  let ?o = "example_later (2 * hour)" and ?s = "(example_later (2 * hour))\<lparr>ob_running := False\<rparr>"
  have c: "cadence_for (ld_rec spent_ladder) \<le> since_action spent_ladder (ob_now ?o)" by code_simp
  have o': "ob_running ?o" "ob_still ?o" "ob_answer ?o = None" "\<not> denies (ob_gate ?o)" "\<not> ob_done ?o"
    by code_simp+
  have "actions (fst (snd (pass spent_ladder ?s))) = [Relaunched (ob_act ?o)]"
    using ladder_never_gives_up [of spent_ladder ?s "fst (pass spent_ladder ?s)" "fst (snd (pass spent_ladder ?s))"
        "snd (snd (pass spent_ladder ?s))"] c o' by simp
  moreover have "actions (fst (snd (pass spent_ladder ?o))) = [PowerCycled (ob_act ?o)]"
    using ladder_never_gives_up [of spent_ladder ?o "fst (pass spent_ladder ?o)" "fst (snd (pass spent_ladder ?o))"
        "snd (snd (pass spent_ladder ?o))"] c o' by simp
  ultimately show ?thesis ..
qed

text \<open>
  The guest goes first. With the shipped timings, for every node name and attempt the guest's
  own deadman fires after a routine self-update has had its whole window and before the host's
  ladder may act on the silence, so the graceful reboot always gets its chance.
\<close>
lemma guest_fires_first:
  "self_update_window < effective_deadman default_deadman default_jitter (seed_of m ep) \<and>
   effective_deadman default_deadman default_jitter (seed_of m ep) < wait_for 0 zero_recovery"
  using effective_deadman_bounds(1) [of default_deadman default_jitter "seed_of m ep"]
    effective_deadman_bounds(2) [of default_jitter default_deadman "seed_of m ep"]
  by (simp add: default_deadman_def default_jitter_def self_update_window_def wait_for_def
      zero_recovery_def guest_recovery_window_def time_simps)


section \<open>What a new climb forgets\<close>

text \<open>
  The last action is a local of \<open>recover\<close>, so the damping of a crash loop holds within one climb
  only: a guest that is relaunched, converges and stops again enters a new climb, in which any
  number of attempts past the burst is relaunched at once.
\<close>

lemma new_climb_forgets_cadence:
  assumes "\<not> ob_running o'"
  shows "Relaunched (ob_act o') \<in> set (fst (snd (pass \<lparr>ld_rec = r, ld_last = 0, ld_bound = b\<rparr> o')))
    \<or> never < cadence_for r"
proof (cases "never < cadence_for r")
  case False
  then have "snd (next_step r zero_verdict never True) = StepRelaunch"
    by (simp add: next_step_Relaunch_iff)
  then show ?thesis using assms
    by (auto simp: pass_def pass_stopped_def finish_def since_action_def Let_def case_prod_beta split: option.split)
qed simp

end
