(* ===== verification/Drbd.thy ===== *)
theory Drbd
  imports Prelude
begin

text \<open>
  The guest's reading of DRBD and the resource file it writes (\<open>agent/drbd/status.go\<close>,
  \<open>agent/drbd/config.go\<close>, and the serving predicates of \<open>shared/model/model.go\<close>).

  The status is the decoded \<open>drbdsetup status --json\<close>: a list of resources, or a decode error. The
  folds over devices and connections are the code's loops, in their order. The resource file is
  rendered as text; its connection stanzas are read back word by word to state which nodes it wires.
\<close>


section \<open>The status and the cluster it shows\<close>

record device =
  dev_quorum :: bool
  dev_disk :: string

record peer_device =
  pd_disk :: string
  pd_client :: bool

record connection =
  cn_node_id :: int
  cn_name :: string
  cn_state :: string
  cn_role :: string
  cn_devices :: "peer_device list"

record status_resource =
  sr_name :: string
  sr_role :: string
  sr_devices :: "device list"
  sr_connections :: "connection list"

record quorum_state =
  qs_primary :: bool
  qs_quorate :: bool
  qs_connected :: nat
  qs_diskful :: bool
  qs_uptodate :: bool

definition serving :: "quorum_state \<Rightarrow> bool" where
  "serving q = (qs_primary q \<and> qs_quorate q)"

record peer_state =
  ps_name :: string
  ps_node_id :: int
  ps_connected :: bool
  ps_role :: string
  ps_diskful :: bool
  ps_uptodate :: bool

definition can_take_over :: "peer_state \<Rightarrow> bool" where
  "can_take_over p = (ps_connected p \<and> ps_diskful p \<and> ps_uptodate p)"

record cluster =
  cl_state :: quorum_state
  cl_peers :: "peer_state list"

fun peers_take_over :: "peer_state list \<Rightarrow> bool" where
  "peers_take_over [] = False"
| "peers_take_over (p # ps) = (if can_take_over p then True else peers_take_over ps)"

definition peer_can_take_over :: "cluster \<Rightarrow> bool" where
  "peer_can_take_over c = peers_take_over (cl_peers c)"

datatype status_error = Undecodable | NoResource | NotInStatus string

type_synonym raw_status = "status_resource list option"

definition fold_quorate :: "device list \<Rightarrow> bool" where
  "fold_quorate ds = foldl (\<lambda>q d. if \<not> dev_quorum d then False else q) (ds \<noteq> []) ds"

definition fold_device :: "bool \<times> bool \<times> bool \<Rightarrow> device \<Rightarrow> bool \<times> bool \<times> bool" where
  "fold_device = (\<lambda>(quorate, diskful, uptodate) d.
     (if \<not> dev_quorum d then False else quorate,
      if dev_disk d = ''Diskless'' then False else diskful,
      if dev_disk d \<noteq> ''UpToDate'' then False else uptodate))"

definition fold_peer_device :: "bool \<times> bool \<Rightarrow> peer_device \<Rightarrow> bool \<times> bool" where
  "fold_peer_device = (\<lambda>(diskful, uptodate) d.
     (if pd_client d \<or> pd_disk d = ''Diskless'' then False else diskful,
      if pd_disk d \<noteq> ''UpToDate'' then False else uptodate))"

definition peer_of :: "connection \<Rightarrow> peer_state" where
  "peer_of c =
     (let some = cn_devices c \<noteq> [];
          (diskful, uptodate) = foldl fold_peer_device (some, some) (cn_devices c)
      in \<lparr>ps_name = cn_name c, ps_node_id = cn_node_id c, ps_connected = (cn_state c = ''Connected''),
          ps_role = cn_role c, ps_diskful = diskful, ps_uptodate = uptodate\<rparr>)"

definition count_connected :: "nat \<Rightarrow> connection \<Rightarrow> nat" where
  "count_connected n c = (if cn_state c = ''Connected'' then n + 1 else n)"

definition cluster_of :: "status_resource \<Rightarrow> cluster" where
  "cluster_of r =
     (let some = sr_devices r \<noteq> [];
          (quorate, diskful, uptodate) = foldl fold_device (some, some, some) (sr_devices r)
      in \<lparr>cl_state = \<lparr>qs_primary = (sr_role r = ''Primary''), qs_quorate = quorate,
            qs_connected = foldl count_connected 0 (sr_connections r),
            qs_diskful = diskful, qs_uptodate = uptodate\<rparr>,
          cl_peers = map peer_of (sr_connections r)\<rparr>)"

fun find_resource :: "status_resource list \<Rightarrow> string \<Rightarrow> status_error + cluster" where
  "find_resource [] name = Inl (NotInStatus name)"
| "find_resource (r # rs) name = (if sr_name r \<noteq> name then find_resource rs name else Inr (cluster_of r))"

definition parse_cluster :: "raw_status \<Rightarrow> string \<Rightarrow> status_error + cluster" where
  "parse_cluster raw name = (case raw of None \<Rightarrow> Inl Undecodable | Some rs \<Rightarrow> find_resource rs name)"

definition parse_status :: "raw_status \<Rightarrow> string \<Rightarrow> status_error + quorum_state" where
  "parse_status raw name = map_sum id cl_state (parse_cluster raw name)"

definition peer_counts :: "raw_status \<Rightarrow> status_error + nat \<times> nat \<times> bool" where
  "peer_counts raw =
     (case raw of
        None \<Rightarrow> Inl Undecodable
      | Some [] \<Rightarrow> Inl NoResource
      | Some (r # _) \<Rightarrow>
          Inr (length (sr_connections r), foldl count_connected 0 (sr_connections r),
               fold_quorate (sr_devices r)))"


section \<open>What the folds compute\<close>

lemma fold_quorate_acc:
  "foldl (\<lambda>q d. if \<not> dev_quorum d then False else q) q ds = (q \<and> list_all dev_quorum ds)"
  by (induction ds arbitrary: q) auto

lemma fold_device_acc:
  "foldl fold_device (q, k, u) ds =
     (q \<and> list_all dev_quorum ds, k \<and> list_all (\<lambda>d. dev_disk d \<noteq> ''Diskless'') ds,
      u \<and> list_all (\<lambda>d. dev_disk d = ''UpToDate'') ds)"
  by (induction ds arbitrary: q k u) (auto simp: fold_device_def)

lemma fold_peer_device_acc:
  "foldl fold_peer_device (k, u) ds =
     (k \<and> list_all (\<lambda>d. \<not> pd_client d \<and> pd_disk d \<noteq> ''Diskless'') ds,
      u \<and> list_all (\<lambda>d. pd_disk d = ''UpToDate'') ds)"
  by (induction ds arbitrary: k u) (auto simp: fold_peer_device_def)

lemma count_connected_acc:
  "foldl count_connected n cs = n + length (filter (\<lambda>c. cn_state c = ''Connected'') cs)"
  by (induction cs arbitrary: n) (auto simp: count_connected_def)

lemmas status_folds = fold_quorate_acc fold_device_acc fold_peer_device_acc count_connected_acc

lemma peers_take_over_iff: "peers_take_over ps \<longleftrightarrow> (\<exists>p\<in>set ps. can_take_over p)"
  by (induction ps) auto

lemma can_take_over_peer_of:
  "can_take_over (peer_of c) \<longleftrightarrow>
     cn_state c = ''Connected'' \<and> cn_devices c \<noteq> [] \<and>
     list_all (\<lambda>d. \<not> pd_client d \<and> pd_disk d = ''UpToDate'') (cn_devices c)"
  by (auto simp: can_take_over_def peer_of_def Let_def fold_peer_device_acc list_all_iff)

lemma find_resource_Inr:
  "find_resource rs name = Inr c \<longleftrightarrow>
     (\<exists>r. find (\<lambda>r. sr_name r = name) rs = Some r \<and> c = cluster_of r)"
  by (induction rs) auto

lemma serving_cluster_of:
  "serving (cl_state (cluster_of r)) \<longleftrightarrow>
     sr_role r = ''Primary'' \<and> sr_devices r \<noteq> [] \<and> list_all dev_quorum (sr_devices r)"
  by (simp add: serving_def cluster_of_def Let_def fold_device_acc)


section \<open>The resource file\<close>

definition data_vg :: string where "data_vg = ''briardvol''"
definition data_lv :: string where "data_lv = ''data''"
definition meta_lv :: string where "meta_lv = ''metadata''"
definition data_device :: string where "data_device = ''/dev/mapper/'' @ data_vg @ ''-'' @ data_lv"
definition meta_device :: string where "meta_device = ''/dev/mapper/'' @ data_vg @ ''-'' @ meta_lv"

record peer =
  pr_name :: string
  pr_node_id :: int
  pr_address :: string
  pr_disk :: string
  pr_witness_local :: string

record resource =
  rs_name :: string
  rs_device :: string
  rs_peers :: "peer list"

definition diskful_peers :: "resource \<Rightarrow> nat" where
  "diskful_peers r = foldl (\<lambda>n p. if pr_disk p \<noteq> [] then n + 1 else n) 0 (rs_peers r)"

text \<open>One line of the file: \<open>n\<close> tabs, the words separated by one space, an end of line.\<close>

definition conf_line :: "nat \<Rightarrow> string list \<Rightarrow> string" where
  "conf_line n ws = replicate n (CHR 0x09) @ join_with '' '' ws @ [CHR 0x0A]"

definition stop :: "string \<Rightarrow> string" where
  "stop w = w @ '';''"

definition write_on :: "resource \<Rightarrow> peer \<Rightarrow> bool \<Rightarrow> string" where
  "write_on r p with_addr =
     conf_line 1 [''on'', pr_name p, ''{''] @
     conf_line 2 [''node-id'', stop (dec_of_int (pr_node_id p))] @
     (if with_addr then conf_line 2 [''address'', stop (pr_address p)] else []) @
     conf_line 2 [''volume'', ''0'', ''{''] @
     conf_line 3 [''device'', stop (rs_device r)] @
     (if pr_disk p = [] then conf_line 3 [''disk'', ''none;'']
      else conf_line 3 [''disk'', stop (pr_disk p)] @ conf_line 3 [''meta-disk'', stop meta_device]) @
     conf_line 2 [''}''] @ conf_line 1 [''}'']"

definition write_mesh :: "resource \<Rightarrow> string" where
  "write_mesh r =
     concat (map (\<lambda>p. write_on r p True) (rs_peers r)) @
     conf_line 1 [''connection-mesh'', ''{''] @
     conf_line 2 [''hosts'', stop (join_with '' '' (map pr_name (rs_peers r)))] @
     conf_line 1 [''}'']"

definition host_line :: "string \<Rightarrow> string \<Rightarrow> string" where
  "host_line name addr = conf_line 2 [''host'', name, ''address'', stop addr]"

definition write_explicit :: "resource \<Rightarrow> peer \<Rightarrow> peer list \<Rightarrow> string" where
  "write_explicit r witness anchors =
     concat (map (\<lambda>p. write_on r p False) (rs_peers r)) @
     conf_line 1 [''connection'', ''{''] @
     concat (map (\<lambda>a. host_line (pr_name a) (pr_address a)) anchors) @
     conf_line 1 [''}''] @
     concat (map (\<lambda>a.
       conf_line 1 [''connection'', ''{''] @
       host_line (pr_name a) (pr_witness_local a) @
       host_line (pr_name witness) (pr_address witness) @
       conf_line 1 [''}'']) anchors)"

definition split_disks :: "peer list \<Rightarrow> peer list \<times> peer list" where
  "split_disks ps = foldl (\<lambda>(diskless, anchors) p.
     if pr_disk p = [] then (diskless @ [p], anchors) else (diskless, anchors @ [p])) ([], []) ps"

definition witness_split :: "resource \<Rightarrow> (peer \<times> peer list) option" where
  "witness_split r =
     (let (diskless, anchors) = split_disks (rs_peers r)
      in if length diskless \<noteq> 1 \<or> length anchors = 0 then None
         else if list_ex (\<lambda>a. pr_witness_local a = []) anchors then None
         else Some (hd diskless, anchors))"

definition config :: "resource \<Rightarrow> string" where
  "config r =
     conf_line 0 [''resource'', rs_name r, ''{''] @
     conf_line 1 [''net'', ''{''] @ conf_line 2 [''protocol'', ''C;''] @ conf_line 1 [''}''] @
     conf_line 1 [''options'', ''{''] @
     conf_line 2 [''auto-promote'', ''no;''] @
     conf_line 2 [''quorum'', ''majority;''] @
     conf_line 2 [''on-no-quorum'', ''io-error;''] @
     conf_line 2 [''on-suspended-primary-outdated'', ''force-secondary;''] @
     conf_line 1 [''}''] @
     (case witness_split r of
        Some (witness, anchors) \<Rightarrow> write_explicit r witness anchors
      | None \<Rightarrow> write_mesh r) @
     conf_line 0 [''}'']"


section \<open>Reading the stanzas back\<close>

text \<open>
  A reader in the role of drbdadm: the file as lines of words; a stanza of \<open>host .. address ..\<close>
  lines is a connection, a \<open>hosts\<close> line is a mesh. It knows nothing of the writer.
\<close>

definition words_of :: "string \<Rightarrow> string list list" where
  "words_of text = map str_fields (split_on (CHR 0x0A) text)"

definition unstop :: "string \<Rightarrow> string" where
  "unstop w = (if w \<noteq> [] \<and> last w = CHR '';'' then butlast w else w)"

fun read_hosts :: "string list list \<Rightarrow> (string \<times> string) list \<times> string list list" where
  "read_hosts ([kw, name, kv, addr] # ls) =
     (if kw = ''host'' \<and> kv = ''address'' then (let (hs, rest) = read_hosts ls in ((name, unstop addr) # hs, rest))
      else ([], [kw, name, kv, addr] # ls))"
| "read_hosts ls = ([], ls)"

fun connections_of :: "string list list \<Rightarrow> (string \<times> string) list list" where
  "connections_of [] = []"
| "connections_of (l # ls) =
     (if l = [''connection'', ''{''] then fst (read_hosts ls) # connections_of ls
      else connections_of ls)"

fun mesh_of :: "string list list \<Rightarrow> string list option" where
  "mesh_of [] = None"
| "mesh_of (l # ls) =
     (case l of
        kw # hs \<Rightarrow> (if kw = ''hosts'' then Some (map unstop hs) else mesh_of ls)
      | [] \<Rightarrow> mesh_of ls)"

text \<open>The values the \<open>on\<close> blocks give under a keyword, each with the name of its block.\<close>

fun values_of :: "string \<Rightarrow> string \<Rightarrow> string list list \<Rightarrow> (string \<times> string) list" where
  "values_of kw cur [] = []"
| "values_of kw cur (l # ls) =
     (case l of
        [k, v] \<Rightarrow> (if k = kw then (cur, unstop v) # values_of kw cur ls else values_of kw cur ls)
      | [k, n, b] \<Rightarrow> values_of kw (if k = ''on'' \<and> b = ''{'' then n else cur) ls
      | _ \<Rightarrow> values_of kw cur ls)"

definition node_values :: "string \<Rightarrow> string \<Rightarrow> (string \<times> string) list" where
  "node_values kw text = values_of kw [] (words_of text)"

definition wordy :: "string \<Rightarrow> bool" where
  "wordy w = (w \<noteq> [] \<and> list_all (\<lambda>c. \<not> is_space c) w \<and> last w \<noteq> CHR '';'')"

text \<open>A resource whose names and addresses are words, as the pairing directive writes them.\<close>

definition wordy_peer :: "peer \<Rightarrow> bool" where
  "wordy_peer p = (wordy (pr_name p) \<and> wordy (pr_address p) \<and>
     (pr_disk p = [] \<or> wordy (pr_disk p)) \<and> (pr_witness_local p = [] \<or> wordy (pr_witness_local p)))"

definition wordy_resource :: "resource \<Rightarrow> bool" where
  "wordy_resource r = (wordy (rs_name r) \<and> wordy (rs_device r) \<and> list_all wordy_peer (rs_peers r))"


lemma str_fields_space: "is_space c \<Longrightarrow> str_fields (c # s) = str_fields s"
  by (simp add: str_fields_def)

lemma str_fields_tabs: "str_fields (replicate n (CHR 0x09) @ s) = str_fields s"
  by (induction n) (simp_all add: str_fields_space)

definition word_list :: "string list \<Rightarrow> bool" where
  "word_list ws = list_all (\<lambda>w. w \<noteq> [] \<and> list_all (\<lambda>c. \<not> is_space c) w) ws"

lemma word_list_simps [simp]:
  "word_list []" "word_list (w # ws) \<longleftrightarrow> (w \<noteq> [] \<and> list_all (\<lambda>c. \<not> is_space c) w) \<and> word_list ws"
  by (simp_all add: word_list_def)

lemma str_fields_join: "word_list ws \<Longrightarrow> str_fields (join_with '' '' ws) = ws"
proof (induction "'' ''" ws rule: join_with.induct)
  case 1 then show ?case by (simp add: str_fields_def)
next
  case (2 x) then show ?case by (simp add: str_fields_last)
next
  case (3 x y zs)
  then show ?case using str_fields_Cons [of x "CHR '' ''" "join_with '' '' (y # zs)"] by simp
qed

lemma join_no_newline: "word_list ws \<Longrightarrow> CHR 0x0A \<notin> set (join_with '' '' ws)"
proof (induction "'' ''" ws rule: join_with.induct)
  case 1 then show ?case by simp
next
  case (2 x) then show ?case by (auto simp: list_all_iff)
next
  case (3 x y zs) then show ?case by (auto simp: list_all_iff)
qed

lemma words_of_line:
  assumes "word_list ws"
  shows "words_of (conf_line n ws @ rest) = ws # words_of rest"
proof -
  have "CHR 0x0A \<notin> set (replicate n (CHR 0x09) @ join_with '' '' ws)"
    using join_no_newline [OF assms] by simp
  from split_on_line [OF this, of rest] show ?thesis
    by (simp add: conf_line_def words_of_def str_fields_tabs str_fields_join [OF assms])
qed

lemma words_of_Nil [simp]: "words_of [] = [[]]"
  by (simp add: words_of_def str_fields_def)

lemma wordy_stop: "wordy w \<Longrightarrow> stop w \<noteq> [] \<and> list_all (\<lambda>c. \<not> is_space c) (stop w)"
  by (simp add: wordy_def stop_def is_space_def)

lemma unstop_stop [simp]: "unstop (stop w) = w"
  by (simp add: unstop_def stop_def)

lemma wordy_word: "wordy w \<Longrightarrow> w \<noteq> [] \<and> list_all (\<lambda>c. \<not> is_space c) w"
  by (simp add: wordy_def)

lemma dec_of_int_wordy: "wordy (dec_of_int n)"
proof -
  have d: "wordy (dec_of_nat m)" for m
  proof -
    have "last (dec_of_nat m) \<in> set (dec_of_nat m)" using dec_of_nat_not_Nil last_in_set by blast
    then have "is_digit (last (dec_of_nat m))" using dec_of_nat_digits [of m] by (simp add: list_all_iff)
    then have "last (dec_of_nat m) \<noteq> CHR '';''" by (auto simp: is_digit_def)
    then show ?thesis using digits_not_space [OF dec_of_nat_digits [of m]] dec_of_nat_not_Nil [of m]
      by (simp add: wordy_def)
  qed
  show ?thesis
    using d [of "nat n"] d [of "nat (- n)"] dec_of_nat_not_Nil
    by (auto simp: dec_of_int_def wordy_def is_space_def)
qed

definition on_words :: "resource \<Rightarrow> peer \<Rightarrow> bool \<Rightarrow> string list list" where
  "on_words r p with_addr =
     [[''on'', pr_name p, ''{''], [''node-id'', stop (dec_of_int (pr_node_id p))]] @
     (if with_addr then [[''address'', stop (pr_address p)]] else []) @
     [[''volume'', ''0'', ''{''], [''device'', stop (rs_device r)]] @
     (if pr_disk p = [] then [[''disk'', ''none;'']]
      else [[''disk'', stop (pr_disk p)], [''meta-disk'', stop meta_device]]) @
     [[''}''], [''}'']]"

lemma plain_words:
  "list_all (\<lambda>c. \<not> is_space c) ''on''" "list_all (\<lambda>c. \<not> is_space c) ''node-id''"
  "list_all (\<lambda>c. \<not> is_space c) ''address''" "list_all (\<lambda>c. \<not> is_space c) ''volume''"
  "list_all (\<lambda>c. \<not> is_space c) ''device''" "list_all (\<lambda>c. \<not> is_space c) ''disk''"
  "list_all (\<lambda>c. \<not> is_space c) ''none;''" "list_all (\<lambda>c. \<not> is_space c) ''meta-disk''"
  "list_all (\<lambda>c. \<not> is_space c) (stop meta_device)" "list_all (\<lambda>c. \<not> is_space c) ''{''"
  "list_all (\<lambda>c. \<not> is_space c) ''}''" "list_all (\<lambda>c. \<not> is_space c) ''0''"
  "list_all (\<lambda>c. \<not> is_space c) ''host''" "list_all (\<lambda>c. \<not> is_space c) ''connection''"
  "list_all (\<lambda>c. \<not> is_space c) ''connection-mesh''" "list_all (\<lambda>c. \<not> is_space c) ''hosts''"
  "list_all (\<lambda>c. \<not> is_space c) ''resource''" "stop meta_device \<noteq> []"
  by code_simp+

lemma words_write_on:
  assumes "wordy_peer p" and "wordy (rs_device r)"
  shows "words_of (write_on r p b @ rest) = on_words r p b @ words_of rest"
proof -
  have "wordy (pr_name p)" "wordy (pr_address p)" "pr_disk p = [] \<or> wordy (pr_disk p)"
    using assms(1) by (simp_all add: wordy_peer_def)
  note w = wordy_word [OF this(1)] wordy_stop [OF this(2)] wordy_stop [OF assms(2)]
    wordy_stop [OF dec_of_int_wordy [of "pr_node_id p"]]
  show ?thesis
  proof (cases "pr_disk p = []")
    case True
    then show ?thesis using w plain_words
      by (cases b) (simp_all add: write_on_def on_words_def words_of_line)
  next
    case False
    then have "wordy (pr_disk p)" using \<open>pr_disk p = [] \<or> wordy (pr_disk p)\<close> by simp
    from wordy_stop [OF this] show ?thesis using False w plain_words
      by (cases b) (simp_all add: write_on_def on_words_def words_of_line)
  qed
qed

lemma words_write_ons:
  assumes "list_all wordy_peer ps" and "wordy (rs_device r)"
  shows "words_of (concat (map (\<lambda>p. write_on r p b) ps) @ rest) = concat (map (\<lambda>p. on_words r p b) ps) @ words_of rest"
  using assms(1) by (induction ps) (simp_all add: words_write_on assms(2))

text \<open>Blocks that are no stanza are passed over by the reader.\<close>

lemma connections_of_app:
  "list_all (\<lambda>l. l \<noteq> [''connection'', ''{'']) ls \<Longrightarrow> connections_of (ls @ rest) = connections_of rest"
  by (induction ls) auto

lemma mesh_of_app:
  "list_all (\<lambda>l. l = [] \<or> hd l \<noteq> ''hosts'') ls \<Longrightarrow> mesh_of (ls @ rest) = mesh_of rest"
  by (induction ls) (auto split: list.split)

lemma on_words_plain:
  "list_all (\<lambda>l. l \<noteq> [''connection'', ''{'']) (concat (map (\<lambda>p. on_words r p b) ps))"
  "list_all (\<lambda>l. l = [] \<or> hd l \<noteq> ''hosts'') (concat (map (\<lambda>p. on_words r p b) ps))"
  by (induction ps) (auto simp: on_words_def)

lemma words_host_line:
  assumes "wordy name" and "wordy addr"
  shows "words_of (host_line name addr @ rest) = [''host'', name, ''address'', stop addr] # words_of rest"
  using wordy_word [OF assms(1)] wordy_stop [OF assms(2)] plain_words
  by (simp add: host_line_def words_of_line)

lemma words_host_lines:
  assumes "list_all (\<lambda>a. wordy (n a) \<and> wordy (f a)) as"
  shows "words_of (concat (map (\<lambda>a. host_line (n a) (f a)) as) @ rest) =
    map (\<lambda>a. [''host'', n a, ''address'', stop (f a)]) as @ words_of rest"
  using assms by (induction as) (simp_all add: words_host_line)

lemma read_hosts_lines:
  "read_hosts (map (\<lambda>a. [''host'', n a, ''address'', stop (f a)]) as @ [''}''] # rest) =
     (map (\<lambda>a. (n a, f a)) as, [''}''] # rest)"
  by (induction as) simp_all

lemma connections_of_stanza:
  "connections_of ([''connection'', ''{''] # map (\<lambda>a. [''host'', n a, ''address'', stop (f a)]) as @ [''}''] # rest) =
     map (\<lambda>a. (n a, f a)) as # connections_of rest"
proof -
  have "connections_of (map (\<lambda>a. [''host'', n a, ''address'', stop (f a)]) as @ [''}''] # rest) = connections_of rest"
    using connections_of_app [of "map (\<lambda>a. [''host'', n a, ''address'', stop (f a)]) as @ [[''}'']]" rest]
    by (simp add: list_all_iff)
  then show ?thesis by (simp add: read_hosts_lines)
qed

lemma split_disks_filter:
  "split_disks ps = (filter (\<lambda>p. pr_disk p = []) ps, filter (\<lambda>p. pr_disk p \<noteq> []) ps)"
proof -
  have "foldl (\<lambda>(diskless, anchors) p.
     if pr_disk p = [] then (diskless @ [p], anchors) else (diskless, anchors @ [p])) (d, a) ps =
     (d @ filter (\<lambda>p. pr_disk p = []) ps, a @ filter (\<lambda>p. pr_disk p \<noteq> []) ps)" for d a
    by (induction ps arbitrary: d a) auto
  then show ?thesis by (simp add: split_disks_def)
qed

lemma witness_split_Some:
  "witness_split r = Some (w, as) \<longleftrightarrow>
     filter (\<lambda>p. pr_disk p = []) (rs_peers r) = [w] \<and> as = filter (\<lambda>p. pr_disk p \<noteq> []) (rs_peers r) \<and>
     as \<noteq> [] \<and> list_all (\<lambda>a. pr_witness_local a \<noteq> []) as"
  by (auto simp: witness_split_def split_disks_filter Let_def list_all_iff list_ex_iff length_Suc_conv
      split: if_splits)

text \<open>The four safety options and the rest of the head, as words; none of it is a stanza.\<close>

definition head_words :: "resource \<Rightarrow> string list list" where
  "head_words r =
     [[''resource'', rs_name r, ''{''], [''net'', ''{''], [''protocol'', ''C;''], [''}''],
      [''options'', ''{''], [''auto-promote'', ''no;''], [''quorum'', ''majority;''],
      [''on-no-quorum'', ''io-error;''], [''on-suspended-primary-outdated'', ''force-secondary;''], [''}'']]"

lemma head_plain:
  "list_all (\<lambda>l. l \<noteq> [''connection'', ''{'']) (head_words r)" "list_all (\<lambda>l. l = [] \<or> hd l \<noteq> ''hosts'') (head_words r)"
  by (simp_all add: head_words_def)

lemma head_plain_words:
  "word_list [''net'', ''{'']" "word_list [''protocol'', ''C;'']" "word_list [''options'', ''{'']"
  "word_list [''auto-promote'', ''no;'']" "word_list [''quorum'', ''majority;'']"
  "word_list [''on-no-quorum'', ''io-error;'']" "word_list [''on-suspended-primary-outdated'', ''force-secondary;'']"
  "word_list [''}'']" "word_list [''connection'', ''{'']" "word_list [''connection-mesh'', ''{'']"
  by code_simp+

lemma words_config:
  assumes "wordy (rs_name r)"
  shows "words_of (config r) = head_words r @
    words_of ((case witness_split r of Some (w, as) \<Rightarrow> write_explicit r w as | None \<Rightarrow> write_mesh r) @ conf_line 0 [''}''])"
proof -
  have "word_list [''resource'', rs_name r, ''{'']"
    using wordy_word [OF assms] plain_words by simp
  note w = this head_plain_words
  show ?thesis by (simp only: config_def append_assoc words_of_line [OF w(1)] words_of_line [OF w(2)]
      words_of_line [OF w(3)] words_of_line [OF w(4)] words_of_line [OF w(5)] words_of_line [OF w(6)]
      words_of_line [OF w(7)] words_of_line [OF w(8)] words_of_line [OF w(9)] head_words_def append_Cons append_Nil)
qed

definition stanza_words :: "peer \<Rightarrow> peer \<Rightarrow> string list list" where
  "stanza_words w a = [[''connection'', ''{''], [''host'', pr_name a, ''address'', stop (pr_witness_local a)],
     [''host'', pr_name w, ''address'', stop (pr_address w)], [''}'']]"

lemma words_conf_stanza:
  assumes "wordy (pr_name w)" "wordy (pr_address w)" "wordy (pr_name a)" "wordy (pr_witness_local a)"
  shows "words_of (conf_line 1 [''connection'', ''{''] @
      host_line (pr_name a) (pr_witness_local a) @ host_line (pr_name w) (pr_address w) @
      conf_line 1 [''}''] @ rest) = stanza_words w a @ words_of rest"
  using assms by (simp add: words_of_line [OF head_plain_words(9)] words_of_line [OF head_plain_words(8)]
      words_host_line stanza_words_def)

lemma words_conf_stanzas:
  assumes "wordy (pr_name w)" "wordy (pr_address w)"
    and "list_all (\<lambda>a. wordy (pr_name a) \<and> wordy (pr_witness_local a)) as"
  shows "words_of (concat (map (\<lambda>a. conf_line 1 [''connection'', ''{''] @
      host_line (pr_name a) (pr_witness_local a) @ host_line (pr_name w) (pr_address w) @
      conf_line 1 [''}'']) as) @ conf_line 0 [''}'']) = concat (map (stanza_words w) as) @ [[''}''], []]"
  using assms(3)
proof (induction as)
  case Nil
  then show ?case using words_of_line [OF head_plain_words(8), of 0 "[]"] by simp
next
  case (Cons a as)
  then have a: "wordy (pr_name a)" "wordy (pr_witness_local a)" by simp_all
  show ?case using Cons
    by (simp only: list.map concat.simps append_assoc words_conf_stanza [OF assms(1,2) a] list.pred_inject(2))
qed

lemma connections_of_stanzas:
  "connections_of (concat (map (stanza_words w) as) @ [[''}''], []]) =
     map (\<lambda>a. [(pr_name a, pr_witness_local a), (pr_name w, pr_address w)]) as"
  by (induction as) (simp_all add: stanza_words_def)

text \<open>The links of a forwarded-witness resource: the anchors among themselves, each to the witness.\<close>

lemma words_explicit:
  assumes "wordy_resource r" and "witness_split r = Some (w, as)"
  shows "words_of (config r) = head_words r @ concat (map (\<lambda>p. on_words r p False) (rs_peers r)) @
      [''connection'', ''{''] # map (\<lambda>a. [''host'', pr_name a, ''address'', stop (pr_address a)]) as @ [''}''] #
      concat (map (stanza_words w) as) @ [[''}''], []]"
proof -
  have ws: "wordy (rs_name r)" "wordy (rs_device r)" "list_all wordy_peer (rs_peers r)"
    using assms(1) by (simp_all add: wordy_resource_def)
  have "w \<in> set (filter (\<lambda>p. pr_disk p = []) (rs_peers r))" and "set as \<subseteq> set (rs_peers r)"
    and loc: "list_all (\<lambda>a. pr_witness_local a \<noteq> []) as"
    using assms(2) by (auto simp: witness_split_Some)
  then have w: "wordy (pr_name w)" "wordy (pr_address w)"
    and a: "list_all (\<lambda>a. wordy (pr_name a) \<and> wordy (pr_address a)) as"
    and l: "list_all (\<lambda>a. wordy (pr_name a) \<and> wordy (pr_witness_local a)) as"
    using ws(3) by (auto simp: list_all_iff wordy_peer_def)
  show ?thesis
    by (simp add: words_config ws assms(2) write_explicit_def words_write_ons words_of_line
        words_host_lines [OF a] words_conf_stanzas [OF w l, simplified] is_space_def)
qed

lemma connections_explicit:
  assumes "wordy_resource r" and "witness_split r = Some (w, as)"
  shows "connections_of (words_of (config r)) =
    map (\<lambda>a. (pr_name a, pr_address a)) as #
    map (\<lambda>a. [(pr_name a, pr_witness_local a), (pr_name w, pr_address w)]) as"
  by (simp only: words_explicit [OF assms] connections_of_app [OF head_plain(1)]
      connections_of_app [OF on_words_plain(1)] connections_of_stanza connections_of_stanzas)

lemma join_hosts:
  "ns \<noteq> [] \<Longrightarrow> join_with '' '' [''hosts'', stop (join_with '' '' ns)] = join_with '' '' (''hosts'' # butlast ns @ [stop (last ns)])"
proof -
  have "stop (join_with '' '' ns) = join_with '' '' (butlast ns @ [stop (last ns)])" if "ns \<noteq> []"
    using that
  proof (induction "'' ''" ns rule: join_with.induct)
    case (3 x y zs)
    then show ?case by (cases "butlast (y # zs) @ [stop (last (y # zs))]") (auto simp: stop_def split: if_splits)
  qed (simp_all add: stop_def)
  moreover assume "ns \<noteq> []"
  ultimately show ?thesis by (cases "butlast ns @ [stop (last ns)]") auto
qed

lemma words_mesh:
  assumes "wordy_resource r" and "witness_split r = None" and "rs_peers r \<noteq> []"
  shows "words_of (config r) = head_words r @ concat (map (\<lambda>p. on_words r p True) (rs_peers r)) @
      [''connection-mesh'', ''{''] #
      (''hosts'' # butlast (map pr_name (rs_peers r)) @ [stop (last (map pr_name (rs_peers r)))]) #
      [[''}''], [''}''], []]"
    and "map unstop (butlast (map pr_name (rs_peers r)) @ [stop (last (map pr_name (rs_peers r)))]) = map pr_name (rs_peers r)"
proof -
  let ?ns = "map pr_name (rs_peers r)"
  have ws: "wordy (rs_name r)" "wordy (rs_device r)" "list_all wordy_peer (rs_peers r)"
    using assms(1) by (simp_all add: wordy_resource_def)
  have n: "list_all wordy ?ns" using ws(3) by (auto simp: list_all_iff wordy_peer_def)
  have ne: "?ns \<noteq> []" using assms(3) by simp
  have "wordy (last ?ns)" using n last_in_set [OF ne] by (simp only: list_all_iff)
  moreover have "list_all wordy (butlast ?ns)" using n by (simp only: list_all_iff) (blast dest: in_set_butlastD)
  ultimately have wl: "word_list (''hosts'' # butlast ?ns @ [stop (last ?ns)])"
    using wordy_stop [of "last ?ns"] by (auto simp: word_list_def list_all_iff wordy_def is_space_def)
  have line: "conf_line 2 [''hosts'', stop (join_with '' '' ?ns)] = conf_line 2 (''hosts'' # butlast ?ns @ [stop (last ?ns)])"
    unfolding conf_line_def join_hosts [OF ne] by simp
  have "words_of (conf_line 1 [''}''] @ conf_line 0 [''}'']) = [[''}''], [''}''], []]"
    using words_of_line [OF head_plain_words(8), of 1 "conf_line 0 [''}'']"]
      words_of_line [OF head_plain_words(8), of 0 "[]"] by simp
  then show "words_of (config r) = head_words r @ concat (map (\<lambda>p. on_words r p True) (rs_peers r)) @
      [''connection-mesh'', ''{''] # (''hosts'' # butlast ?ns @ [stop (last ?ns)]) # [[''}''], [''}''], []]"
    by (simp only: words_config ws assms(2) write_mesh_def line option.case append_assoc
        words_write_ons words_of_line [OF head_plain_words(10)] words_of_line [OF wl])
  have "map unstop ns = ns" if "list_all wordy ns" for ns
    using that by (induction ns) (auto simp: unstop_def wordy_def)
  then show "map unstop (butlast ?ns @ [stop (last ?ns)]) = ?ns"
    using \<open>list_all wordy (butlast ?ns)\<close> ne by simp
qed

lemma mesh_config:
  assumes "wordy_resource r" and "witness_split r = None" and "rs_peers r \<noteq> []"
  shows "mesh_of (words_of (config r)) = Some (map pr_name (rs_peers r))"
  unfolding words_mesh(1) [OF assms]
  by (simp add: mesh_of_app [OF head_plain(2)] mesh_of_app [OF on_words_plain(2)] words_mesh(2) [OF assms, simplified])

text \<open>What the \<open>on\<close> blocks say of each node; no other line of either form gives a value.\<close>

definition silent :: "string \<Rightarrow> string list \<Rightarrow> bool" where
  "silent kw l = (case l of [k, v] \<Rightarrow> k \<noteq> kw | [k, n, b] \<Rightarrow> k \<noteq> ''on'' | _ \<Rightarrow> True)"

lemma values_of_silent: "list_all (silent kw) ls \<Longrightarrow> values_of kw cur (ls @ rest) = values_of kw cur rest"
  by (induction ls) (auto simp: silent_def split: list.splits)

lemma values_of_ends: "list_all (silent kw) ls \<Longrightarrow> values_of kw cur ls = []"
  using values_of_silent [of kw ls cur "[]"] by simp

lemma on_values:
  "values_of ''node-id'' cur (on_words r p b @ rest) =
     (pr_name p, dec_of_int (pr_node_id p)) # values_of ''node-id'' (pr_name p) rest"
  "values_of ''address'' cur (on_words r p b @ rest) =
     (if b then [(pr_name p, pr_address p)] else []) @ values_of ''address'' (pr_name p) rest"
  "values_of ''disk'' cur (on_words r p b @ rest) =
     (pr_name p, if pr_disk p = [] then ''none'' else pr_disk p) # values_of ''disk'' (pr_name p) rest"
  by (simp_all add: on_words_def unstop_def stop_def)

definition node_keywords :: "string list" where
  "node_keywords = [''node-id'', ''address'', ''disk'']"

definition node_value :: "string \<Rightarrow> bool \<Rightarrow> peer \<Rightarrow> (string \<times> string) list" where
  "node_value kw b p =
     (if kw = ''node-id'' then [(pr_name p, dec_of_int (pr_node_id p))]
      else if kw = ''address'' then (if b then [(pr_name p, pr_address p)] else [])
      else [(pr_name p, if pr_disk p = [] then ''none'' else pr_disk p)])"

lemma on_values_all:
  assumes "kw \<in> set node_keywords" and "list_all (silent kw) rest"
  shows "values_of kw cur (concat (map (\<lambda>p. on_words r p b) ps) @ rest) = concat (map (node_value kw b) ps)"
proof (induction ps arbitrary: cur)
  case Nil
  then show ?case using values_of_ends [OF assms(2)] by simp
next
  case (Cons p ps)
  have "values_of kw cur (on_words r p b @ rest') = node_value kw b p @ values_of kw (pr_name p) rest'" for rest'
    using assms(1) by (auto simp: node_keywords_def node_value_def on_values)
  then show ?case using Cons.IH by simp
qed

lemma node_values_config:
  assumes "wordy_resource r" and "rs_peers r \<noteq> []" and kw: "kw \<in> set node_keywords"
  shows "node_values kw (config r) = concat (map (node_value kw (witness_split r = None)) (rs_peers r))"
proof -
  have head: "list_all (silent kw) (head_words r)"
    using kw by (auto simp: head_words_def node_keywords_def silent_def)
  show ?thesis
  proof (cases "witness_split r")
    case None
    let ?ns = "map pr_name (rs_peers r)"
    have "silent kw (''hosts'' # butlast ?ns @ [stop (last ?ns)])"
      using kw by (auto simp: node_keywords_def silent_def split: list.splits)
    then have "list_all (silent kw) ([''connection-mesh'', ''{''] # (''hosts'' # butlast ?ns @ [stop (last ?ns)]) #
        [[''}''], [''}''], []])"
      using kw by (auto simp: node_keywords_def silent_def)
    from on_values_all [OF kw this] show ?thesis
      unfolding node_values_def words_mesh(1) [OF assms(1) None assms(2)] values_of_silent [OF head]
      by (simp only: None simp_thms)
  next
    case (Some wa)
    obtain w as where wa: "wa = (w, as)" by (cases wa)
    have "list_all (silent kw) (concat (map (stanza_words w) as))"
      using kw by (induction as) (auto simp: stanza_words_def node_keywords_def silent_def)
    moreover have "list_all (silent kw) (map (\<lambda>a. [''host'', pr_name a, ''address'', stop (pr_address a)]) as)"
      by (simp add: list_all_iff silent_def)
    ultimately have "list_all (silent kw) ([''connection'', ''{''] #
        map (\<lambda>a. [''host'', pr_name a, ''address'', stop (pr_address a)]) as @ [''}''] #
        concat (map (stanza_words w) as) @ [[''}''], []])"
      using kw by (auto simp: node_keywords_def silent_def)
    from on_values_all [OF kw this] show ?thesis
      unfolding node_values_def words_explicit [OF assms(1) Some [unfolded wa]] values_of_silent [OF head]
      by (simp only: Some option.distinct simp_thms)
  qed
qed

text \<open>A home of two anchors and a forwarded witness: its three nodes are distinct.\<close>

lemma two_anchor_home:
  assumes "witness_split r = Some (w, [a, b])" and "distinct (map pr_name (rs_peers r))"
  shows "set (rs_peers r) = {w, a, b}"
    and "pr_name a \<noteq> pr_name b" and "pr_name w \<noteq> pr_name a" and "pr_name w \<noteq> pr_name b"
proof -
  let ?ps = "rs_peers r"
  have fw: "filter (\<lambda>p. pr_disk p = []) ?ps = [w]" and fa: "filter (\<lambda>p. pr_disk p \<noteq> []) ?ps = [a, b]"
    using assms(1) by (simp_all add: witness_split_Some)
  have "set (filter (\<lambda>p. pr_disk p = []) ?ps) \<union> set (filter (\<lambda>p. pr_disk p \<noteq> []) ?ps) = set ?ps" by auto
  then show mem: "set ?ps = {w, a, b}" unfolding fw fa by auto
  have inj: "inj_on pr_name {w, a, b}" using assms(2) unfolding mem [symmetric] distinct_map by blast
  have "w \<in> set (filter (\<lambda>p. pr_disk p = []) ?ps)" unfolding fw by simp
  then have "pr_disk w = []" by simp
  have "a \<in> set (filter (\<lambda>p. pr_disk p \<noteq> []) ?ps)" "b \<in> set (filter (\<lambda>p. pr_disk p \<noteq> []) ?ps)"
    unfolding fa by simp_all
  then have "pr_disk a \<noteq> []" "pr_disk b \<noteq> []" by simp_all
  with \<open>pr_disk w = []\<close> have wab: "w \<noteq> a" "w \<noteq> b" by auto
  have "distinct ?ps" using assms(2) by (simp add: distinct_map)
  then have "distinct (filter (\<lambda>p. pr_disk p \<noteq> []) ?ps)" by simp
  then have "a \<noteq> b" unfolding fa by simp
  then show "pr_name a \<noteq> pr_name b" using inj by (auto dest: inj_onD)
  show "pr_name w \<noteq> pr_name a" "pr_name w \<noteq> pr_name b" using inj wab by (auto dest: inj_onD)
qed


section \<open>Properties\<close>

text \<open>
  The deadman's reading of the fabric and the cluster view never disagree about one sample. For
  the first resource of a status, the peers, connected peers and quorum that \<open>PeerCounts\<close> returns
  are the number of peers of \<open>ParseCluster\<close>'s view, the number of them shown connected (which is
  also its own connected count) and its quorum.
\<close>
lemma peer_counts_agree:
  "\<exists>c. parse_cluster (Some (r # rs)) (sr_name r) = Inr c \<and>
     peer_counts (Some (r # rs)) =
       Inr (length (cl_peers c), length (filter ps_connected (cl_peers c)), qs_quorate (cl_state c)) \<and>
     qs_connected (cl_state c) = length (filter ps_connected (cl_peers c))"
proof -
  have "filter ps_connected (map peer_of cs) = map peer_of (filter (\<lambda>c. cn_state c = ''Connected'') cs)" for cs
    by (induction cs) (auto simp: peer_of_def Let_def split: prod.splits)
  then show ?thesis
    by (simp add: parse_cluster_def peer_counts_def cluster_of_def Let_def fold_quorate_def status_folds)
qed

text \<open>
  No node is shown serving, and no peer is shown able to take the workload over, by vacuous
  truth. A parsed status says this node serves exactly when the named resource is Primary, has a
  device and every device has quorum; it says some peer can take over exactly when a connection is
  Connected, reports a device, and every device it reports is UpToDate and no client.
\<close>
lemma takeover_needs_a_copy:
  assumes "parse_cluster (Some rs) name = Inr c"
  shows "\<exists>r. find (\<lambda>r. sr_name r = name) rs = Some r \<and>
    (serving (cl_state c) \<longleftrightarrow>
       sr_role r = ''Primary'' \<and> sr_devices r \<noteq> [] \<and> list_all dev_quorum (sr_devices r)) \<and>
    (peer_can_take_over c \<longleftrightarrow>
       list_ex (\<lambda>cn. cn_state cn = ''Connected'' \<and> cn_devices cn \<noteq> [] \<and>
         list_all (\<lambda>d. \<not> pd_client d \<and> pd_disk d = ''UpToDate'') (cn_devices cn)) (sr_connections r))"
proof -
  obtain r where r: "find (\<lambda>r. sr_name r = name) rs = Some r" "c = cluster_of r"
    using assms by (auto simp: parse_cluster_def find_resource_Inr)
  have "cl_peers c = map peer_of (sr_connections r)"
    using r(2) by (simp add: cluster_of_def Let_def split: prod.splits)
  then have "peer_can_take_over c \<longleftrightarrow> list_ex (\<lambda>cn. can_take_over (peer_of cn)) (sr_connections r)"
    by (simp add: peer_can_take_over_def peers_take_over_iff list_ex_iff)
  then show ?thesis using r serving_cluster_of [of r] by (auto simp: can_take_over_peer_of)
qed

definition example_status :: "status_resource list" where
  "example_status = [\<lparr>sr_name = ''r0'', sr_role = ''Primary'', sr_devices = [\<lparr>dev_quorum = True, dev_disk = ''UpToDate''\<rparr>],
     sr_connections = [
       \<lparr>cn_node_id = 1, cn_name = ''b'', cn_state = ''Connected'', cn_role = ''Secondary'',
         cn_devices = [\<lparr>pd_disk = ''UpToDate'', pd_client = False\<rparr>]\<rparr>,
       \<lparr>cn_node_id = 2, cn_name = ''w'', cn_state = ''Connecting'', cn_role = ''Unknown'', cn_devices = []\<rparr>]\<rparr>]"

text \<open>The address a node is reached at by another: an anchor is reached by the witness on its own link.\<close>

definition link_address :: "peer \<Rightarrow> peer \<Rightarrow> string" where
  "link_address p q = (if pr_disk p \<noteq> [] \<and> pr_disk q = [] then pr_witness_local p else pr_address p)"

text \<open>
  C27: The resource file wires every pair of nodes, at the right addresses. Read back word by word, every
  file gives each node its own id and disk. A file without a forwarded witness gives each node its
  own address and names exactly its peers in one mesh. A file for two anchors and a forwarded witness
  gives no node an address of its own and holds, for any two distinct nodes, exactly one connection
  stanza that joins them; in it each of the two is at the address the other reaches it at: the anchors
  at their own addresses, the witness at its own, and an anchor, towards the witness, at its own link
  to the witness.
\<close>
theorem config_wires_every_pair:
  assumes "wordy_resource r" and "distinct (map pr_name (rs_peers r))"
    and "p \<in> set (rs_peers r)" and "q \<in> set (rs_peers r)" and "p \<noteq> q"
  shows "node_values ''node-id'' (config r) = map (\<lambda>p. (pr_name p, dec_of_int (pr_node_id p))) (rs_peers r) \<and>
    node_values ''disk'' (config r) = map (\<lambda>p. (pr_name p, if pr_disk p = [] then ''none'' else pr_disk p)) (rs_peers r) \<and>
    (case witness_split r of
      None \<Rightarrow> mesh_of (words_of (config r)) = Some (map pr_name (rs_peers r)) \<and>
        node_values ''address'' (config r) = map (\<lambda>p. (pr_name p, pr_address p)) (rs_peers r)
    | Some (w, as) \<Rightarrow> length as = 2 \<longrightarrow> node_values ''address'' (config r) = [] \<and>
        (\<exists>c. filter (\<lambda>c. set (map fst c) = {pr_name p, pr_name q}) (connections_of (words_of (config r))) = [c] \<and>
          length c = 2 \<and> set c = {(pr_name p, link_address p q), (pr_name q, link_address q p)}))"
proof -
  have ne: "rs_peers r \<noteq> []" using assms(3) by auto
  have kw: "''node-id'' \<in> set node_keywords" "''address'' \<in> set node_keywords" "''disk'' \<in> set node_keywords"
    by (simp_all add: node_keywords_def)
  note v = kw [THEN node_values_config [OF assms(1) ne]]
  have single: "concat (map (\<lambda>p. [f p]) ps) = map f ps" for f :: "peer \<Rightarrow> string \<times> string" and ps by (induction ps) simp_all
  have nv: "node_value ''node-id'' b = (\<lambda>p. [(pr_name p, dec_of_int (pr_node_id p))])"
    "node_value ''disk'' b = (\<lambda>p. [(pr_name p, if pr_disk p = [] then ''none'' else pr_disk p)])"
    "node_value ''address'' True = (\<lambda>p. [(pr_name p, pr_address p)])"
    "node_value ''address'' False = (\<lambda>p. [])" for b
    by (simp_all add: fun_eq_iff node_value_def)
  have ids: "node_values ''node-id'' (config r) = map (\<lambda>p. (pr_name p, dec_of_int (pr_node_id p))) (rs_peers r)"
    unfolding v nv single ..
  have disks: "node_values ''disk'' (config r) =
      map (\<lambda>p. (pr_name p, if pr_disk p = [] then ''none'' else pr_disk p)) (rs_peers r)"
    unfolding v nv single ..
  show ?thesis
  proof (cases "witness_split r")
    case None
    have "node_values ''address'' (config r) = map (\<lambda>p. (pr_name p, pr_address p)) (rs_peers r)"
      unfolding v None by (simp only: nv single simp_thms)
    then show ?thesis using ids disks mesh_config [OF assms(1) None ne] None by simp
  next
    case (Some wa)
    obtain w as where wa: "wa = (w, as)" by (cases wa)
    have split: "witness_split r = Some (w, as)" using Some wa by simp
    have addr: "node_values ''address'' (config r) = []"
      unfolding v Some by (simp add: nv)
    have "\<exists>c. filter (\<lambda>c. set (map fst c) = {pr_name p, pr_name q}) (connections_of (words_of (config r))) = [c] \<and>
          length c = 2 \<and> set c = {(pr_name p, link_address p q), (pr_name q, link_address q p)}"
      if two: "length as = 2"
    proof -
      obtain a b where ab: "as = [a, b]" using two by (auto simp: length_Suc_conv numeral_2_eq_2)
      note home = two_anchor_home [OF split [unfolded ab] assms(2)]
      have "w \<in> set (filter (\<lambda>p. pr_disk p = []) (rs_peers r))" "set as \<subseteq> set (filter (\<lambda>p. pr_disk p \<noteq> []) (rs_peers r))"
        using split by (simp_all add: witness_split_Some)
      then have d: "pr_disk w = []" "pr_disk a \<noteq> []" "pr_disk b \<noteq> []" by (simp_all add: ab)
      have "p \<in> {w, a, b}" "q \<in> {w, a, b}" using assms(3,4) home(1) by auto
      then show ?thesis
        unfolding connections_explicit [OF assms(1) split] ab
        using assms(5) home(2-4) d by (auto simp: doubleton_eq_iff link_address_def)
    qed
    with ids disks addr show ?thesis by (simp add: split)
  qed
qed

definition example_resource :: resource where
  "example_resource = \<lparr>rs_name = ''r0'', rs_device = ''/dev/drbd0'', rs_peers = [
     \<lparr>pr_name = ''a'', pr_node_id = 0, pr_address = ''10.0.0.1:7789'', pr_disk = data_device, pr_witness_local = ''10.11.1.2:7789''\<rparr>,
     \<lparr>pr_name = ''b'', pr_node_id = 1, pr_address = ''10.0.0.2:7789'', pr_disk = data_device, pr_witness_local = ''10.11.2.2:7789''\<rparr>,
     \<lparr>pr_name = ''w'', pr_node_id = 2, pr_address = ''10.11.0.1:7789'', pr_disk = [], pr_witness_local = []\<rparr>]\<rparr>"

theorem config_wires_every_pair_witness:
  "let r = example_resource
   in \<exists>w as c. witness_split r = Some (w, as) \<and> length as = 2 \<and>
      filter (\<lambda>c. set (map fst c) = {''a'', ''w''}) (connections_of (words_of (config r))) = [c] \<and>
      set c = {(''a'', ''10.11.1.2:7789''), (''w'', ''10.11.0.1:7789'')}"
proof -
  let ?r = example_resource
  let ?a = "rs_peers ?r ! 0" and ?w = "rs_peers ?r ! 2"
  have w: "wordy_resource ?r" "distinct (map pr_name (rs_peers ?r))" by code_simp+
  have s: "witness_split ?r = Some (?w, [?a, rs_peers ?r ! 1])" by code_simp
  have "?a \<in> set (rs_peers ?r)" "?w \<in> set (rs_peers ?r)" "?a \<noteq> ?w"
    by (simp_all add: example_resource_def)
  from config_wires_every_pair [OF w this]
  obtain c where "filter (\<lambda>c. set (map fst c) = {pr_name ?a, pr_name ?w}) (connections_of (words_of (config ?r))) = [c]"
    "set c = {(pr_name ?a, link_address ?a ?w), (pr_name ?w, link_address ?w ?a)}"
    unfolding s by auto
  moreover have "pr_name ?a = ''a''" "pr_name ?w = ''w''" "link_address ?a ?w = ''10.11.1.2:7789''"
    "link_address ?w ?a = ''10.11.0.1:7789''" by code_simp+
  ultimately show ?thesis unfolding Let_def s by simp
qed

end
