(* ===== verification/Subnet.thy ===== *)
theory Subnet
  imports Prelude
begin

unbundle bit_operations_syntax

text \<open>
  The draw of the node's three private ranges (\<open>agent/subnet/draw.go\<close>, \<open>agent/subnet/observe.go\<close>).

  An IPv4 prefix is a 32-bit word and a length. The entropy reader is the list of bytes it will
  yield; a short read is an error. Addresses outside IPv4 never get past the code's
  \<open>worthHonouring\<close>, so the readers of routes keep IPv4 only. The three pools share one draw loop:
  the locale \<open>candidate_pool\<close> states what a proposer promises, and each of the three interprets it.
\<close>


section \<open>Prefixes\<close>

record ip_prefix =
  pf_addr :: "32 word"
  pf_bits :: nat

definition addr4 :: "nat \<Rightarrow> nat \<Rightarrow> nat \<Rightarrow> nat \<Rightarrow> 32 word" where
  "addr4 a b c d =
     ((word_of_nat a * 256 + word_of_nat b) * 256 + word_of_nat c) * 256 + word_of_nat d"

definition octet :: "nat \<Rightarrow> 32 word \<Rightarrow> nat" where
  "octet i w = nat (uint w div 256 ^ (3 - i) mod 256)"

text \<open>The network part of an address under a length, as a number: \<open>Overlaps\<close> compares these.\<close>

definition net_part :: "nat \<Rightarrow> 32 word \<Rightarrow> int" where
  "net_part n w = uint w div 2 ^ (32 - n)"

definition overlaps :: "ip_prefix \<Rightarrow> ip_prefix \<Rightarrow> bool" where
  "overlaps p q = (let n = min (pf_bits p) (pf_bits q) in net_part n (pf_addr p) = net_part n (pf_addr q))"

definition mask_addr :: "nat \<Rightarrow> 32 word \<Rightarrow> 32 word" where
  "mask_addr n w = word_of_int (net_part n w * 2 ^ (32 - n))"

definition masked :: "ip_prefix \<Rightarrow> ip_prefix" where
  "masked p = p\<lparr>pf_addr := mask_addr (pf_bits p) (pf_addr p)\<rparr>"

definition show_addr :: "32 word \<Rightarrow> string" where
  "show_addr w = join_with ''.'' (map (\<lambda>i. dec_of_nat (octet i w)) [0, 1, 2, 3])"

definition show_prefix :: "ip_prefix \<Rightarrow> string" where
  "show_prefix p = show_addr (pf_addr p) @ ''/'' @ dec_of_nat (pf_bits p)"

definition slash24 :: "nat \<Rightarrow> nat \<Rightarrow> nat \<Rightarrow> ip_prefix" where
  "slash24 a b c = \<lparr>pf_addr = addr4 a b c 0, pf_bits = 24\<rparr>"

definition node_ip :: "ip_prefix \<Rightarrow> 32 word" where
  "node_ip p = pf_addr p + 1"

definition three :: "ip_prefix \<Rightarrow> string" where
  "three p = join_with ''.'' (map (\<lambda>i. dec_of_nat (octet i (pf_addr p))) [0, 1, 2])"

definition mk_prefix :: "nat \<Rightarrow> nat \<Rightarrow> nat \<Rightarrow> nat \<Rightarrow> nat \<Rightarrow> ip_prefix" where
  "mk_prefix a b c d n = \<lparr>pf_addr = addr4 a b c d, pf_bits = n\<rparr>"


section \<open>What is taken\<close>

definition occupied_table :: "(ip_prefix \<times> string) list" where
  "occupied_table =
     [(mk_prefix 10 0 0 0 24, ''Comcast/Xfinity gateways (10.0.0.1) -- and our own worn-out example''),
      (mk_prefix 10 0 1 0 24, ''Apple AirPort/Time Capsule (10.0.1.1, DHCP from .2)''),
      (mk_prefix 10 0 2 0 24, ''qemu's SLIRP -- WE SHIP IT: the guest's eth0 is 10.0.2.15''),
      (mk_prefix 10 8 0 0 24, ''OpenVPN's sample server.conf, copied everywhere''),
      (mk_prefix 10 96 0 0 12, ''Kubernetes' default service CIDR (kubeadm)''),
      (mk_prefix 10 244 0 0 16, ''Flannel's default pod network''),
      (mk_prefix 10 147 0 0 16, ''ZeroTier's default managed ranges''),
      (mk_prefix 10 1 0 0 16, ''a round number operators pick by hand''),
      (mk_prefix 10 10 0 0 16, ''a round number operators pick by hand''),
      (mk_prefix 10 100 0 0 16, ''a round number operators pick by hand''),
      (mk_prefix 10 200 0 0 16, ''a round number operators pick by hand''),
      (mk_prefix 10 11 0 0 16, ''briard's own private-link pool -- L2 substrate, permanent, referenced by no code''),
      (mk_prefix 10 12 0 0 16, ''briard's own pod pool -- guest-internal, never configured on the host'')]"

fun first_overlap :: "(ip_prefix \<times> string) list \<Rightarrow> ip_prefix \<Rightarrow> string" where
  "first_overlap [] p = []"
| "first_overlap ((q, who) # os) p = (if overlaps q p then who else first_overlap os p)"

definition conventional :: "ip_prefix \<Rightarrow> string" where
  "conventional p = first_overlap occupied_table p"

record observed =
  ob_prefixes :: "ip_prefix list"
  ob_where :: "ip_prefix \<Rightarrow> string option"

definition nothing_observed :: observed where
  "nothing_observed = \<lparr>ob_prefixes = [], ob_where = \<lambda>_. None\<rparr>"

definition occupied :: "observed \<Rightarrow> ip_prefix \<Rightarrow> string" where
  "occupied obs p =
     (case find (\<lambda>q. overlaps q p) (ob_prefixes obs) of
        None \<Rightarrow> []
      | Some q \<Rightarrow>
          (case ob_where obs q of
             None \<Rightarrow> show_prefix q @ '' is already on this machine''
           | Some w \<Rightarrow> (if w \<noteq> [] then show_prefix q @ '' is '' @ w
                       else show_prefix q @ '' is already on this machine'')))"


section \<open>The draw\<close>

datatype propose_error = ShortRead | KeptReserved
datatype draw_error = NoEntropy propose_error | AllCollided string
datatype pick_error = NoSystem draw_error | NoPriv draw_error | NoPod draw_error

type_synonym entropy = "nat list"
type_synonym proposer = "entropy \<Rightarrow> propose_error + ip_prefix \<times> entropy"

definition attempts :: nat where "attempts = 16"

definition read_full :: "nat \<Rightarrow> entropy \<Rightarrow> (nat list \<times> entropy) option" where
  "read_full n rnd = (if length rnd < n then None else Some (map (\<lambda>b. b mod 256) (take n rnd), drop n rnd))"

fun draw_loop :: "nat \<Rightarrow> entropy \<Rightarrow> proposer \<Rightarrow> (ip_prefix \<Rightarrow> string) \<Rightarrow> string \<Rightarrow> draw_error + ip_prefix \<times> entropy" where
  "draw_loop 0 rnd propose reject prev = Inl (AllCollided prev)"
| "draw_loop (Suc n) rnd propose reject prev =
     (case propose rnd of
        Inl e \<Rightarrow> Inl (NoEntropy e)
      | Inr (p, rnd') \<Rightarrow>
          (let why = reject p
           in if why \<noteq> [] then draw_loop n rnd' propose reject (show_prefix p @ '' ('' @ why @ '')'')
              else Inr (p, rnd')))"

definition draw :: "entropy \<Rightarrow> proposer \<Rightarrow> (ip_prefix \<Rightarrow> string) \<Rightarrow> draw_error + ip_prefix \<times> entropy" where
  "draw rnd propose reject = draw_loop attempts rnd propose reject []"

fun system_loop :: "nat \<Rightarrow> proposer" where
  "system_loop 0 rnd = Inl KeptReserved"
| "system_loop (Suc n) rnd =
     (case read_full 2 rnd of
        None \<Rightarrow> Inl ShortRead
      | Some (o', rnd') \<Rightarrow>
          (let p = slash24 10 (o' ! 0) (o' ! 1)
           in if conventional p = [] then Inr (p, rnd') else system_loop n rnd'))"

definition system_candidate :: proposer where
  "system_candidate = system_loop (4 * attempts)"

definition priv_candidate :: proposer where
  "priv_candidate rnd =
     (case read_full 1 rnd of None \<Rightarrow> Inl ShortRead | Some (o', rnd') \<Rightarrow> Inr (slash24 10 11 (o' ! 0), rnd'))"

definition pod_candidate :: proposer where
  "pod_candidate rnd =
     (case read_full 1 rnd of None \<Rightarrow> Inl ShortRead | Some (o', rnd') \<Rightarrow> Inr (slash24 10 12 (o' ! 0), rnd'))"

record draw_set =
  dr_system :: string
  dr_priv :: string
  dr_pod :: string

definition complete :: "draw_set \<Rightarrow> bool" where
  "complete d = (dr_system d \<noteq> [] \<and> dr_priv d \<noteq> [] \<and> dr_pod d \<noteq> [])"

text \<open>\<open>answers\<close> asks the LAN; \<open>None\<close> where nobody can be asked.\<close>

definition reject_system :: "observed \<Rightarrow> (32 word \<Rightarrow> bool) option \<Rightarrow> ip_prefix \<Rightarrow> string" where
  "reject_system obs answers p =
     (let held = occupied obs p
      in if held \<noteq> [] then held
         else case answers of
                Some ask \<Rightarrow> (if ask (node_ip p) then ''a machine already answers at '' @ show_addr (node_ip p) else [])
              | None \<Rightarrow> [])"

definition pick :: "observed \<Rightarrow> entropy \<Rightarrow> (32 word \<Rightarrow> bool) option \<Rightarrow> pick_error + draw_set" where
  "pick obs rnd answers =
     (case draw rnd system_candidate (reject_system obs answers) of
        Inl e \<Rightarrow> Inl (NoSystem e)
      | Inr (sys, rnd1) \<Rightarrow>
          (case draw rnd1 priv_candidate (occupied obs) of
             Inl e \<Rightarrow> Inl (NoPriv e)
           | Inr (priv, rnd2) \<Rightarrow>
               (case draw rnd2 pod_candidate (occupied obs) of
                  Inl e \<Rightarrow> Inl (NoPod e)
                | Inr (pod, _) \<Rightarrow> Inr \<lparr>dr_system = three sys, dr_priv = three priv, dr_pod = three pod\<rparr>)))"


section \<open>The record on disk\<close>

definition report :: "draw_set \<Rightarrow> string" where
  "report d =
     ''SYSTEM_SUBNET='' @ dr_system d @ [CHR 0x0A] @
     ''PRIV_SUBNET='' @ dr_priv d @ [CHR 0x0A] @
     ''POD_SUBNET='' @ dr_pod d @ [CHR 0x0A]"

text \<open>The pattern \<open>recorded\<close>, matched on one line: a key, and a value \<open>10.\d{1,3}.\d{1,3}\<close>.\<close>

definition short_digits :: "string \<Rightarrow> bool" where
  "short_digits w = (1 \<le> length w \<and> length w \<le> 3 \<and> list_all is_digit w)"

definition recorded_value :: "string \<Rightarrow> bool" where
  "recorded_value v =
     (case split_on (CHR ''.'') v of
        [a, b, c] \<Rightarrow> a = ''10'' \<and> short_digits b \<and> short_digits c
      | _ \<Rightarrow> False)"

definition empty_draw :: draw_set where
  "empty_draw = \<lparr>dr_system = [], dr_priv = [], dr_pod = []\<rparr>"

definition parse_record_line :: "draw_set \<Rightarrow> string \<Rightarrow> draw_set" where
  "parse_record_line d line =
     (case cut (CHR ''='') line of
        None \<Rightarrow> d
      | Some (k, v) \<Rightarrow>
          (if \<not> recorded_value v then d
           else if k = ''SYSTEM_SUBNET'' then d\<lparr>dr_system := v\<rparr>
           else if k = ''PRIV_SUBNET'' then d\<lparr>dr_priv := v\<rparr>
           else if k = ''POD_SUBNET'' then d\<lparr>dr_pod := v\<rparr>
           else d))"

definition parse_record :: "string \<Rightarrow> draw_set" where
  "parse_record b = foldl parse_record_line empty_draw (split_on (CHR 0x0A) b)"


section \<open>Lemmas on prefixes\<close>

lemma base256:
  assumes "0 \<le> c" and "c < 256"
  shows "(x * 256 + c) div 256 = (x :: int)" and "(x * 256 + c) mod 256 = c"
  using assms by simp_all

lemma base256_eq:
  "0 \<le> c \<Longrightarrow> c < 256 \<Longrightarrow> 0 \<le> c' \<Longrightarrow> c' < 256 \<Longrightarrow> x * 256 + c = y * 256 + (c' :: int) \<longleftrightarrow> x = y \<and> c = c'"
  by (metis base256)

lemma uint_addr4:
  assumes "a < 256" "b < 256" "c < 256" "d < 256"
  shows "uint (addr4 a b c d) = ((int a * 256 + int b) * 256 + int c) * 256 + int d"
proof -
  have "addr4 a b c d = word_of_int (((int a * 256 + int b) * 256 + int c) * 256 + int d)"
    by (simp add: addr4_def)
  moreover have "((int a * 256 + int b) * 256 + int c) * 256 + int d < 2 ^ LENGTH(32)"
    and "0 \<le> ((int a * 256 + int b) * 256 + int c) * 256 + int d" using assms by simp_all
  ultimately show ?thesis by (simp only: uint_word_of_int mod_pos_pos_trivial)
qed

lemma addr4_div:
  assumes "a < 256" "b < 256" "c < 256" "d < 256"
  shows "uint (addr4 a b c d) div 256 = (int a * 256 + int b) * 256 + int c"
    and "uint (addr4 a b c d) div 65536 = int a * 256 + int b"
    and "uint (addr4 a b c d) div 16777216 = int a"
proof -
  show 2: "uint (addr4 a b c d) div 256 = (int a * 256 + int b) * 256 + int c"
    unfolding uint_addr4 [OF assms] by (rule base256) (use assms in simp_all)
  have "uint (addr4 a b c d) div 65536 = uint (addr4 a b c d) div 256 div 256"
    by (simp add: zdiv_zmult2_eq [symmetric])
  also have "\<dots> = int a * 256 + int b" unfolding 2 by (rule base256) (use assms in simp_all)
  finally show 1: "uint (addr4 a b c d) div 65536 = int a * 256 + int b" .
  have "uint (addr4 a b c d) div 16777216 = uint (addr4 a b c d) div 65536 div 256"
    by (simp add: zdiv_zmult2_eq [symmetric])
  also have "\<dots> = int a" unfolding 1 by (rule base256) (use assms in simp_all)
  finally show "uint (addr4 a b c d) div 16777216 = int a" .
qed

lemma net_part_addr4:
  assumes "a < 256" "b < 256" "c < 256" "d < 256"
  shows "net_part 24 (addr4 a b c d) = (int a * 256 + int b) * 256 + int c"
    and "net_part 16 (addr4 a b c d) = int a * 256 + int b"
  using addr4_div [OF assms] by (simp_all add: net_part_def)

lemma octet_addr4:
  assumes "a < 256" "b < 256" "c < 256" "d < 256"
  shows "octet 0 (addr4 a b c d) = a" "octet (Suc 0) (addr4 a b c d) = b"
    "octet 2 (addr4 a b c d) = c" "octet 3 (addr4 a b c d) = d"
proof -
  let ?w = "addr4 a b c d"
  note q = addr4_div [OF assms]
  have o': "octet 0 ?w = nat (uint ?w div 16777216 mod 256)" "octet (Suc 0) ?w = nat (uint ?w div 65536 mod 256)"
    "octet 2 ?w = nat (uint ?w div 256 mod 256)" "octet 3 ?w = nat (uint ?w mod 256)"
    by (simp_all add: octet_def)
  show "octet 0 ?w = a" unfolding o' q using assms(1) by simp
  have "(int a * 256 + int b) mod 256 = int b" by (rule base256) (use assms in simp_all)
  then show "octet (Suc 0) ?w = b" unfolding o' q by simp
  have "((int a * 256 + int b) * 256 + int c) mod 256 = int c" by (rule base256) (use assms in simp_all)
  then show "octet 2 ?w = c" unfolding o' q by simp
  have "(((int a * 256 + int b) * 256 + int c) * 256 + int d) mod 256 = int d" by (rule base256) (use assms in simp_all)
  then show "octet 3 ?w = d" unfolding o' uint_addr4 [OF assms] by simp
qed

lemma octet_lt: "octet i w < 256"
  by (simp add: octet_def nat_less_iff)

lemma addr4_octets: "addr4 (octet 0 w) (octet (Suc 0) w) (octet 2 w) (octet 3 w) = w"
proof -
  let ?x = "uint w"
  have q: "?x div 16777216 mod 256 = ?x div 16777216"
  proof -
    have "?x < 2 ^ LENGTH(32)" by (rule uint_lt2p)
    then have "?x < 16777216 * 256" by simp
    then have "?x div 16777216 < 256" by (simp add: div_less_iff_less_mult)
    moreover have "0 \<le> ?x div 16777216" by (rule pos_imp_zdiv_nonneg_iff [THEN iffD2]) simp_all
    ultimately show ?thesis by (metis mod_pos_pos_trivial)
  qed
  have d: "?x div 65536 = ?x div 256 div 256" "?x div 16777216 = ?x div 65536 div 256"
    by (simp_all add: zdiv_zmult2_eq [symmetric])
  have o': "int (octet 0 w) = ?x div 16777216" "int (octet (Suc 0) w) = ?x div 65536 mod 256"
    "int (octet 2 w) = ?x div 256 mod 256" "int (octet 3 w) = ?x mod 256"
    using q by (simp_all add: octet_def)
  have "uint (addr4 (octet 0 w) (octet (Suc 0) w) (octet 2 w) (octet 3 w)) = ?x"
    unfolding uint_addr4 [OF octet_lt octet_lt octet_lt octet_lt] o' d
    by (metis (no_types, lifting) div_mult_mod_eq)
  then show ?thesis by (simp add: word_uint_eq_iff)
qed

definition dotted :: "nat list \<Rightarrow> string" where
  "dotted ns = join_with ''.'' (map dec_of_nat ns)"

lemma three_slash24: "b < 256 \<Longrightarrow> c < 256 \<Longrightarrow> three (slash24 10 b c) = dotted [10, b, c]"
  by (simp add: three_def slash24_def dotted_def octet_addr4)

lemma node_ip_slash24: "b < 256 \<Longrightarrow> c < 256 \<Longrightarrow> node_ip (slash24 10 b c) = addr4 10 b c 1"
  by (simp add: node_ip_def slash24_def addr4_def)

lemma overlaps_slash24:
  "b < 256 \<Longrightarrow> c < 256 \<Longrightarrow> b' < 256 \<Longrightarrow> c' < 256 \<Longrightarrow>
   overlaps (slash24 10 b c) (slash24 10 b' c') \<longleftrightarrow> b = b' \<and> c = c'"
  by (simp add: overlaps_def slash24_def net_part_addr4 base256_eq del: distrib_right_numeral)

lemma overlaps_slash16:
  "b < 256 \<Longrightarrow> b' < 256 \<Longrightarrow> c < 256 \<Longrightarrow> overlaps (mk_prefix 10 b' 0 0 16) (slash24 10 b c) \<longleftrightarrow> b = b'"
  by (auto simp: overlaps_def slash24_def mk_prefix_def net_part_addr4)

lemma first_overlap_free:
  "list_all (\<lambda>(q, who). who \<noteq> []) os \<Longrightarrow> first_overlap os p = [] \<longleftrightarrow> (\<forall>(q, who)\<in>set os. \<not> overlaps q p)"
  by (induction os) (auto split: if_splits)

lemma conventional_free: "conventional p = [] \<longleftrightarrow> (\<forall>(q, who)\<in>set occupied_table. \<not> overlaps q p)"
  unfolding conventional_def by (rule first_overlap_free) (simp add: occupied_table_def)

lemma own_pools_conventional:
  assumes "b < 256" "c < 256" "conventional (slash24 10 b c) = []"
  shows "b \<noteq> 11 \<and> b \<noteq> 12"
proof -
  have "\<not> overlaps (mk_prefix 10 11 0 0 16) (slash24 10 b c)" "\<not> overlaps (mk_prefix 10 12 0 0 16) (slash24 10 b c)"
    using assms(3) by (auto simp: conventional_free occupied_table_def)
  then show ?thesis using assms(1,2) by (simp add: overlaps_slash16)
qed

lemma find_None: "find P xs = None \<longleftrightarrow> (\<forall>x\<in>set xs. \<not> P x)"
  by (induction xs) auto

lemma find_Some: "find P xs = Some x \<Longrightarrow> x \<in> set xs \<and> P x"
  by (induction xs) (auto split: if_splits)

lemma show_prefix_not_Nil: "show_prefix p \<noteq> []"
  by (simp add: show_prefix_def)

lemma occupied_free: "occupied obs p = [] \<longleftrightarrow> (\<forall>q\<in>set (ob_prefixes obs). \<not> overlaps q p)"
  by (auto simp: occupied_def find_None dest: find_Some split: option.splits)

lemma reject_system_free:
  "reject_system obs answers p = [] \<longleftrightarrow>
     (\<forall>q\<in>set (ob_prefixes obs). \<not> overlaps q p) \<and> (\<forall>ask. answers = Some ask \<longrightarrow> \<not> ask (node_ip p))"
  by (auto simp: reject_system_def Let_def occupied_free [symmetric] split: option.splits)


section \<open>The pools\<close>

text \<open>
  What a proposer promises: every candidate is in its pool. The draw loop then returns a candidate
  of the pool that was not rejected, and refuses only after as many rejected candidates as there
  are attempts.
\<close>

locale candidate_pool =
  fixes propose :: proposer
    and pool :: "ip_prefix \<Rightarrow> bool"
  assumes proposes: "propose rnd = Inr (p, rnd') \<Longrightarrow> pool p"
begin

lemma loop_accepts: "draw_loop n rnd propose reject prev = Inr (p, rnd') \<Longrightarrow> pool p \<and> reject p = []"
  by (induction n arbitrary: rnd prev) (auto simp: Let_def proposes split: sum.splits if_splits)

lemma draw_accepts: "draw rnd propose reject = Inr (p, rnd') \<Longrightarrow> pool p \<and> reject p = []"
  by (simp add: draw_def loop_accepts)

lemma loop_refuses:
  "draw_loop n rnd propose reject prev = Inl (AllCollided why) \<Longrightarrow> 0 < n \<Longrightarrow>
   \<exists>ps. length ps = n \<and> (\<forall>p\<in>set ps. pool p \<and> reject p \<noteq> []) \<and>
     why = show_prefix (last ps) @ '' ('' @ reject (last ps) @ '')''"
proof (induction n arbitrary: rnd prev)
  case 0 then show ?case by simp
next
  case (Suc n)
  then obtain p rnd' where p: "propose rnd = Inr (p, rnd')" by (auto split: sum.splits)
  have r: "reject p \<noteq> []" using Suc.prems p by (auto simp: Let_def)
  show ?case
  proof (cases n)
    case 0
    then show ?thesis using Suc.prems p r proposes [OF p] by (intro exI [of _ "[p]"]) (auto simp: Let_def)
  next
    case (Suc m)
    have "draw_loop n rnd' propose reject (show_prefix p @ '' ('' @ reject p @ '')'') = Inl (AllCollided why)"
      using Suc.prems p r by (simp add: Let_def)
    from Suc.IH [OF this] obtain ps where "length ps = n"
      "\<forall>p\<in>set ps. pool p \<and> reject p \<noteq> []" "why = show_prefix (last ps) @ '' ('' @ reject (last ps) @ '')''"
      using Suc by auto
    then show ?thesis using r proposes [OF p] Suc by (intro exI [of _ "p # ps"]) auto
  qed
qed

lemma draw_refuses:
  "draw rnd propose reject = Inl (AllCollided why) \<Longrightarrow>
   \<exists>ps. length ps = attempts \<and> (\<forall>p\<in>set ps. pool p \<and> reject p \<noteq> []) \<and>
     why = show_prefix (last ps) @ '' ('' @ reject (last ps) @ '')''"
  unfolding draw_def by (rule loop_refuses) (simp_all add: attempts_def)

end

definition system_pool :: "ip_prefix \<Rightarrow> bool" where
  "system_pool p \<longleftrightarrow> (\<exists>b c. b < 256 \<and> c < 256 \<and> p = slash24 10 b c \<and> conventional p = [])"

definition link_pool :: "nat \<Rightarrow> ip_prefix \<Rightarrow> bool" where
  "link_pool b p \<longleftrightarrow> (\<exists>c. c < 256 \<and> p = slash24 10 b c)"

lemma link_pool_mod [simp]: "link_pool b (slash24 10 b (n mod 256))"
  by (auto simp: link_pool_def intro!: exI [of _ "n mod 256"])

lemma read_full_Some:
  "read_full n rnd = Some (o', rnd') \<longleftrightarrow> n \<le> length rnd \<and> o' = map (\<lambda>b. b mod 256) (take n rnd) \<and> rnd' = drop n rnd"
  by (auto simp: read_full_def)

lemma system_loop_pool: "system_loop n rnd = Inr (p, rnd') \<Longrightarrow> system_pool p"
proof (induction n arbitrary: rnd)
  case 0 then show ?case by simp
next
  case (Suc n)
  then obtain o' r where o': "read_full 2 rnd = Some (o', r)" by (auto split: option.splits)
  then have "o' ! 0 < 256" "o' ! 1 < 256" by (auto simp: read_full_Some)
  then show ?case using Suc o' by (auto simp: Let_def system_pool_def split: if_splits)
qed

interpretation system_draw: candidate_pool system_candidate system_pool
  by unfold_locales (simp add: system_candidate_def system_loop_pool)

interpretation priv_draw: candidate_pool priv_candidate "link_pool 11"
  by unfold_locales (auto simp: priv_candidate_def read_full_Some split: option.splits)

interpretation pod_draw: candidate_pool pod_candidate "link_pool 12"
  by unfold_locales (auto simp: pod_candidate_def read_full_Some split: option.splits)


section \<open>Properties of the draw\<close>

lemma draw_loop_first:
  "0 < n \<Longrightarrow> propose rnd = Inr (p, rnd') \<Longrightarrow> reject p = [] \<Longrightarrow> draw_loop n rnd propose reject prev = Inr (p, rnd')"
  by (cases n) simp_all

lemma draw_first: "propose rnd = Inr (p, rnd') \<Longrightarrow> reject p = [] \<Longrightarrow> draw rnd propose reject = Inr (p, rnd')"
  unfolding draw_def by (rule draw_loop_first) (simp_all add: attempts_def)

lemma system_loop_first:
  "0 < n \<Longrightarrow> b < 256 \<Longrightarrow> c < 256 \<Longrightarrow> conventional (slash24 10 b c) = [] \<Longrightarrow>
   system_loop n (b # c # rnd) = Inr (slash24 10 b c, rnd)"
  by (cases n) (simp_all add: read_full_def Let_def)

lemma pick_Inr:
  "pick obs rnd answers = Inr d \<Longrightarrow>
   \<exists>sys priv pod rnd1 rnd2 rnd3.
     draw rnd system_candidate (reject_system obs answers) = Inr (sys, rnd1) \<and>
     draw rnd1 priv_candidate (occupied obs) = Inr (priv, rnd2) \<and>
     draw rnd2 pod_candidate (occupied obs) = Inr (pod, rnd3) \<and>
     d = \<lparr>dr_system = three sys, dr_priv = three priv, dr_pod = three pod\<rparr>"
  by (auto simp: pick_def split: sum.splits)

lemma draw_values:
  assumes "pick obs rnd answers = Inr d"
  shows "\<exists>b c x y. b < 256 \<and> c < 256 \<and> x < 256 \<and> y < 256 \<and>
    d = \<lparr>dr_system = dotted [10, b, c], dr_priv = dotted [10, 11, x], dr_pod = dotted [10, 12, y]\<rparr> \<and>
    \<not> overlaps (slash24 10 b c) (slash24 10 11 x) \<and> \<not> overlaps (slash24 10 b c) (slash24 10 12 y) \<and>
    \<not> overlaps (slash24 10 11 x) (slash24 10 12 y) \<and>
    conventional (slash24 10 b c) = [] \<and>
    (\<forall>p\<in>{slash24 10 b c, slash24 10 11 x, slash24 10 12 y}. \<forall>q\<in>set (ob_prefixes obs). \<not> overlaps q p) \<and>
    (\<forall>ask. answers = Some ask \<longrightarrow> \<not> ask (addr4 10 b c 1))"
proof -
  obtain sys priv pod rnd1 rnd2 rnd3 where draws:
      "draw rnd system_candidate (reject_system obs answers) = Inr (sys, rnd1)"
      "draw rnd1 priv_candidate (occupied obs) = Inr (priv, rnd2)"
      "draw rnd2 pod_candidate (occupied obs) = Inr (pod, rnd3)"
    and d: "d = \<lparr>dr_system = three sys, dr_priv = three priv, dr_pod = three pod\<rparr>"
    using pick_Inr [OF assms] by blast
  note acc = system_draw.draw_accepts [OF draws(1)] priv_draw.draw_accepts [OF draws(2)]
    pod_draw.draw_accepts [OF draws(3)]
  obtain b c where s: "b < 256" "c < 256" "sys = slash24 10 b c" "conventional sys = []"
    using acc(1) by (auto simp: system_pool_def)
  obtain x where x: "x < 256" "priv = slash24 10 11 x" using acc(2) by (auto simp: link_pool_def)
  obtain y where y: "y < 256" "pod = slash24 10 12 y" using acc(3) by (auto simp: link_pool_def)
  have "b \<noteq> 11 \<and> b \<noteq> 12" using own_pools_conventional s by simp
  then show ?thesis
    using acc d s x y
    by - (rule exI [of _ b], rule exI [of _ c], rule exI [of _ x], rule exI [of _ y],
      simp add: three_slash24 node_ip_slash24 overlaps_slash24 reject_system_free occupied_free, blast)
qed

text \<open>
  A refusal is never invented. The private link is refused for collisions only after sixteen
  candidates of its pool in a row, each overlapping a range the host really sees, and the message
  names the last of them with what holds it.
\<close>
lemma refusal_names_a_collision:
  assumes "pick obs rnd answers = Inl (NoPriv (AllCollided why))"
  shows "\<exists>ps. length ps = 16 \<and> list_all (\<lambda>p. link_pool 11 p \<and> list_ex (\<lambda>q. overlaps q p) (ob_prefixes obs)) ps \<and>
    why = show_prefix (last ps) @ '' ('' @ occupied obs (last ps) @ '')''"
proof -
  obtain rnd1 where "draw rnd1 priv_candidate (occupied obs) = Inl (AllCollided why)"
    using assms by (auto simp: pick_def split: sum.splits)
  from priv_draw.draw_refuses [OF this] show ?thesis
    by (simp add: attempts_def occupied_free list_all_iff list_ex_iff)
qed

text \<open>With nothing observed and nobody to ask, the draw takes the first candidate of each pool.\<close>

lemma nothing_observed_draws_freely:
  assumes "b < 256" and "c < 256" and "x < 256" and "y < 256" and "conventional (slash24 10 b c) = []"
  shows "pick nothing_observed (b # c # x # y # rnd) None =
    Inr \<lparr>dr_system = dotted [10, b, c], dr_priv = dotted [10, 11, x], dr_pod = dotted [10, 12, y]\<rparr>"
proof -
  have "system_candidate (b # c # x # y # rnd) = Inr (slash24 10 b c, x # y # rnd)"
    using assms by (simp add: system_candidate_def attempts_def system_loop_first)
  moreover have "priv_candidate (x # y # rnd) = Inr (slash24 10 11 x, y # rnd)"
    and "pod_candidate (y # rnd) = Inr (slash24 10 12 y, rnd)"
    using assms by (simp_all add: priv_candidate_def pod_candidate_def read_full_def)
  moreover have "reject_system nothing_observed None p = []" "occupied nothing_observed p = []" for p
    by (simp_all add: reject_system_free occupied_free nothing_observed_def)
  ultimately show ?thesis
    using assms by (simp add: pick_def draw_first three_slash24)
qed


section \<open>What the host sees\<close>

type_synonym seen_prefix = "ip_prefix \<times> string"

definition worth_honouring :: "ip_prefix \<Rightarrow> bool" where
  "worth_honouring p = (12 \<le> pf_bits p \<and> octet 0 (pf_addr p) = 10)"

text \<open>
  \<open>netip.ParseAddr\<close> and \<open>netip.ParsePrefix\<close> on IPv4 text: four decimal fields of at most 255
  without leading zeros; a length of at most 32 without a leading zero. Other text is an error or
  an IPv6 prefix, and either way the reader of routes drops it.
\<close>

definition plain_decimal :: "nat \<Rightarrow> string \<Rightarrow> nat option" where
  "plain_decimal limit w =
     (if w \<noteq> [] \<and> length w \<le> 3 \<and> list_all is_digit w \<and> (length w = 1 \<or> hd w \<noteq> CHR ''0'') \<and> dec_value w \<le> limit
      then Some (dec_value w) else None)"

definition parse_addr4 :: "string \<Rightarrow> 32 word option" where
  "parse_addr4 s =
     (case map (plain_decimal 255) (split_on (CHR ''.'') s) of
        [Some a, Some b, Some c, Some d] \<Rightarrow> Some (addr4 a b c d)
      | _ \<Rightarrow> None)"

definition parse_dest :: "string \<Rightarrow> ip_prefix option" where
  "parse_dest s =
     (case cut (CHR ''/'') s of
        Some (a, n) \<Rightarrow>
          (case (parse_addr4 a, plain_decimal 32 n) of
             (Some w, Some bits) \<Rightarrow> Some (masked \<lparr>pf_addr = w, pf_bits = bits\<rparr>)
           | _ \<Rightarrow> None)
      | None \<Rightarrow> map_option (\<lambda>w. \<lparr>pf_addr = w, pf_bits = 32\<rparr>) (parse_addr4 s))"

definition route_types :: "string list" where
  "route_types = [''unicast'', ''local'', ''broadcast'', ''multicast'', ''throw'', ''unreachable'',
     ''prohibit'', ''blackhole'', ''nat'', ''anycast'']"

fun dev_of :: "string list \<Rightarrow> string" where
  "dev_of (w # x # f) = (if w = ''dev'' then x else dev_of (x # f))"
| "dev_of _ = ''this machine''"

definition parse_route_line :: "string \<Rightarrow> seen_prefix list" where
  "parse_route_line line =
     (let f = str_fields line;
          f = (if f \<noteq> [] \<and> hd f \<in> set route_types then tl f else f)
      in if f = [] \<or> hd f = ''default'' then []
         else case parse_dest (hd f) of
                None \<Rightarrow> []
              | Some p \<Rightarrow> (if worth_honouring p then [(p, ''routed via '' @ dev_of f)] else []))"

definition parse_ip_routes :: "string \<Rightarrow> seen_prefix list" where
  "parse_ip_routes out = concat (map parse_route_line (split_on (CHR 0x0A) out))"

text \<open>The host's own addresses, as (interface, its IPv4 address and length) pairs.\<close>

definition host_addrs :: "(string \<times> (32 word \<times> nat)) list \<Rightarrow> seen_prefix list" where
  "host_addrs ifaces =
     concat (map (\<lambda>(name, w, n). let p = masked \<lparr>pf_addr = w, pf_bits = n\<rparr>
       in if worth_honouring p then [(p, ''the address on '' @ name)] else []) ifaces)"

definition add_seen :: "observed \<Rightarrow> seen_prefix list \<Rightarrow> observed" where
  "add_seen obs seen = foldl (\<lambda>obs (p, where').
     if ob_where obs p \<noteq> None then obs
     else obs\<lparr>ob_prefixes := ob_prefixes obs @ [p], ob_where := (ob_where obs)(p \<mapsto> where')\<rparr>) obs seen"

definition observe :: "(string \<times> (32 word \<times> nat)) list \<Rightarrow> string \<Rightarrow> observed" where
  "observe ifaces routes = add_seen (add_seen nothing_observed (host_addrs ifaces)) (parse_ip_routes routes)"

lemma add_seen_prefixes:
  assumes "\<forall>q. ob_where obs q \<noteq> None \<longrightarrow> q \<in> set (ob_prefixes obs)"
  shows "set (ob_prefixes (add_seen obs seen)) = set (ob_prefixes obs) \<union> fst ` set seen"
    and "\<forall>q. ob_where (add_seen obs seen) q \<noteq> None \<longrightarrow> q \<in> set (ob_prefixes (add_seen obs seen))"
proof -
  have "set (ob_prefixes (add_seen obs seen)) = set (ob_prefixes obs) \<union> fst ` set seen \<and>
    (\<forall>q. ob_where (add_seen obs seen) q \<noteq> None \<longrightarrow> q \<in> set (ob_prefixes (add_seen obs seen)))"
    using assms
  proof (induction seen arbitrary: obs)
    case Nil then show ?case by (simp add: add_seen_def)
  next
    case (Cons s seen)
    obtain p w where s: "s = (p, w)" by (cases s)
    show ?case
    proof (cases "ob_where obs p")
      case None
      let ?obs = "obs\<lparr>ob_prefixes := ob_prefixes obs @ [p], ob_where := (ob_where obs)(p \<mapsto> w)\<rparr>"
      have "add_seen obs (s # seen) = add_seen ?obs seen" using None s by (simp add: add_seen_def)
      moreover have "\<forall>q. ob_where ?obs q \<noteq> None \<longrightarrow> q \<in> set (ob_prefixes ?obs)" using Cons.prems by auto
      ultimately show ?thesis using Cons.IH [of ?obs] s by auto
    next
      case (Some x)
      then have "add_seen obs (s # seen) = add_seen obs seen" using s by (simp add: add_seen_def)
      moreover have "p \<in> set (ob_prefixes obs)" using Some Cons.prems by auto
      ultimately show ?thesis using Cons.IH [of obs] Cons.prems s by auto
    qed
  qed
  then show "set (ob_prefixes (add_seen obs seen)) = set (ob_prefixes obs) \<union> fst ` set seen"
    "\<forall>q. ob_where (add_seen obs seen) q \<noteq> None \<longrightarrow> q \<in> set (ob_prefixes (add_seen obs seen))" by blast+
qed

lemma observe_prefixes:
  "set (ob_prefixes (observe ifaces routes)) = fst ` set (host_addrs ifaces) \<union> fst ` set (parse_ip_routes routes)"
proof -
  have "\<forall>q. ob_where nothing_observed q \<noteq> None \<longrightarrow> q \<in> set (ob_prefixes nothing_observed)"
    by (simp add: nothing_observed_def)
  note a = add_seen_prefixes [OF this]
  show ?thesis unfolding observe_def add_seen_prefixes(1) [OF a(2)] a(1) by (simp add: nothing_observed_def)
qed

lemma split_on_join:
  "ws \<noteq> [] \<Longrightarrow> list_all (\<lambda>w. sep \<notin> set w) ws \<Longrightarrow> split_on sep (join_with [sep] ws) = ws"
proof (induction "[sep]" ws rule: join_with.induct)
  case (3 x y zs)
  then show ?case using split_on_line [of sep x "join_with [sep] (y # zs)"] by simp
qed (simp_all add: split_on_last)

lemma plain_decimal_octet: "n < 256 \<Longrightarrow> plain_decimal 255 (dec_of_nat n) = Some n"
proof -
  assume n: "n < 256"
  then have "length (dec_of_nat n) \<le> 3" by (intro length_dec_of_nat) simp_all
  moreover have "length (dec_of_nat n) = 1 \<or> hd (dec_of_nat n) \<noteq> CHR ''0''"
    using dec_of_nat_no_leading_zero [of n] by (cases "n = 0") (simp_all add: dec_of_nat.simps)
  ultimately show ?thesis using n by (simp add: plain_decimal_def dec_of_nat_digits)
qed

lemma plain_decimal_bits: "n \<le> 32 \<Longrightarrow> plain_decimal 32 (dec_of_nat n) = Some n"
  using plain_decimal_octet [of n] by (auto simp: plain_decimal_def split: if_splits)

lemma dec_of_nat_no_char: "\<not> is_digit c \<Longrightarrow> c \<notin> set (dec_of_nat n)"
  using dec_of_nat_digits [of n] by (auto simp: list_all_iff)

lemma parse_addr4_dotted:
  assumes "a < 256" "b < 256" "c < 256" "d < 256"
  shows "parse_addr4 (dotted [a, b, c, d]) = Some (addr4 a b c d)"
proof -
  have "split_on (CHR ''.'') (dotted [a, b, c, d]) = map dec_of_nat [a, b, c, d]"
    unfolding dotted_def by (rule split_on_join) (simp_all add: dec_of_nat_no_char is_digit_def)
  then show ?thesis using assms by (simp add: parse_addr4_def plain_decimal_octet)
qed

lemma show_addr4: "a < 256 \<Longrightarrow> b < 256 \<Longrightarrow> c < 256 \<Longrightarrow> d < 256 \<Longrightarrow> show_addr (addr4 a b c d) = dotted [a, b, c, d]"
  by (simp add: show_addr_def dotted_def octet_addr4)

lemma dotted_chars: "c \<in> set (dotted ns) \<Longrightarrow> is_digit c \<or> c = CHR ''.''"
  unfolding dotted_def
proof (induction ns rule: induct_list012)
  case (3 x y zs)
  then show ?case using dec_of_nat_digits [of x] by (auto simp: list_all_iff)
qed (use dec_of_nat_digits in \<open>auto simp: list_all_iff\<close>)

text \<open>Masking keeps what the prefix covers.\<close>

lemma net_part_masked:
  assumes "n \<le> m" and "m \<le> 32"
  shows "net_part n (mask_addr m w) = net_part n w"
proof -
  let ?k = "2 ^ (32 - m) :: int"
  have pos: "0 < ?k" by simp
  have "uint w div ?k * ?k \<le> uint w" by (simp add: minus_mod_eq_div_mult [symmetric])
  moreover have "0 \<le> uint w div ?k * ?k" by (simp add: pos_imp_zdiv_nonneg_iff)
  moreover have "uint w < 2 ^ LENGTH(32)" by (rule unsigned_less)
  ultimately have "uint (mask_addr m w) = uint w div ?k * ?k"
    unfolding mask_addr_def net_part_def uint_word_of_int by (intro mod_pos_pos_trivial) simp_all
  moreover have "(2 :: int) ^ (32 - n) = ?k * 2 ^ (m - n)"
    using assms by (simp flip: power_add)
  ultimately show ?thesis
    by (simp add: net_part_def zdiv_zmult2_eq)
qed

lemma overlaps_masked: "pf_bits q \<le> 32 \<Longrightarrow> overlaps (masked q) p = overlaps q p"
  by (simp add: overlaps_def masked_def Let_def net_part_masked)

lemma net_part_coarser:
  assumes "m \<le> n" and "n \<le> 32"
  shows "net_part m w = net_part n w div 2 ^ (n - m)"
proof -
  have "(2 :: int) ^ (32 - m) = 2 ^ (32 - n) * 2 ^ (n - m)" using assms by (simp flip: power_add)
  then show ?thesis by (simp add: net_part_def zdiv_zmult2_eq)
qed

lemma octet_net_part: "octet 0 w = nat (net_part 8 w mod 256)"
  by (simp add: octet_def net_part_def)

lemma overlaps_octet:
  assumes "overlaps q p" and "8 \<le> pf_bits q" "pf_bits q \<le> 32" "8 \<le> pf_bits p" "pf_bits p \<le> 32"
  shows "octet 0 (pf_addr q) = octet 0 (pf_addr p)"
proof -
  let ?n = "min (pf_bits q) (pf_bits p)"
  have "net_part ?n (pf_addr q) = net_part ?n (pf_addr p)" using assms(1) by (simp add: overlaps_def Let_def)
  moreover have "8 \<le> ?n" "?n \<le> 32" using assms(2-) by auto
  ultimately show ?thesis unfolding octet_net_part by (simp add: net_part_coarser [of 8 ?n])
qed

lemma worth_honouring_masked:
  "12 \<le> pf_bits q \<Longrightarrow> pf_bits q \<le> 32 \<Longrightarrow> octet 0 (pf_addr q) = 10 \<Longrightarrow> worth_honouring (masked q)"
  by (simp add: worth_honouring_def masked_def octet_net_part net_part_masked)


section \<open>Properties of the draw and of its record\<close>

text \<open>
  A line of the routing table as \<open>ip route\<close> prints it: the kind of the route where it is not the
  ordinary one, the destination (a bare address for a single machine), anything after.
\<close>

definition show_dest :: "ip_prefix \<Rightarrow> string" where
  "show_dest q = (if pf_bits q = 32 then show_addr (pf_addr q) else show_prefix q)"

definition route_text :: "string \<Rightarrow> ip_prefix \<Rightarrow> string \<Rightarrow> string" where
  "route_text kind q rest = (if kind = [] then [] else kind @ '' '') @ show_dest q @ '' '' @ rest"

lemma show_addr_dotted: "show_addr w = dotted [octet 0 w, octet (Suc 0) w, octet 2 w, octet 3 w]"
  by (simp add: show_addr_def dotted_def)

lemma parse_addr4_show: "parse_addr4 (show_addr w) = Some w"
  by (simp only: show_addr_dotted parse_addr4_dotted octet_lt addr4_octets)

lemma show_addr_no_slash: "CHR ''/'' \<notin> set (show_addr w)"
  unfolding show_addr_dotted using dotted_chars by (fastforce simp: is_digit_def)

lemma masked_full: "pf_bits q = 32 \<Longrightarrow> masked q = q"
  by (simp add: masked_def mask_addr_def net_part_def)

lemma parse_dest_show:
  assumes "pf_bits q \<le> 32"
  shows "parse_dest (show_dest q) = Some (masked q)"
proof (cases "pf_bits q = 32")
  case True
  then have "q = \<lparr>pf_addr = pf_addr q, pf_bits = 32\<rparr>" by (cases q) simp
  moreover have "cut (CHR ''/'') (show_addr (pf_addr q)) = None"
    by (rule cut_None) (rule show_addr_no_slash)
  ultimately show ?thesis using True by (simp add: show_dest_def parse_dest_def parse_addr4_show masked_full)
next
  case False
  then show ?thesis
    using assms cut_app [OF show_addr_no_slash, of "pf_addr q" "dec_of_nat (pf_bits q)"]
    by (cases q) (simp add: show_dest_def parse_dest_def show_prefix_def parse_addr4_show plain_decimal_bits)
qed

lemma show_dest_word: "list_all (\<lambda>ch. \<not> is_space ch) (show_dest q)"
proof -
  have "is_digit ch \<or> ch = CHR ''.'' \<or> ch = CHR ''/''" if "ch \<in> set (show_dest q)" for ch
    using that dotted_chars dec_of_nat_digits [of "pf_bits q"]
    by (auto simp: show_dest_def show_prefix_def show_addr_dotted list_all_iff split: if_splits)
  then show ?thesis by (fastforce simp: list_all_iff is_space_def is_digit_def)
qed

lemma show_addr_start: "\<exists>c rest. show_addr w = c # rest \<and> is_digit c"
proof -
  obtain c cs where c: "dec_of_nat (octet 0 w) = c # cs" by (cases "dec_of_nat (octet 0 w)") auto
  then have "is_digit c" using dec_of_nat_digits [of "octet 0 w"] by simp
  with c show ?thesis by (simp add: show_addr_def)
qed

lemma show_dest_start: "\<exists>c rest. show_dest q = c # rest \<and> is_digit c"
  using show_addr_start [of "pf_addr q"] by (auto simp: show_dest_def show_prefix_def)

lemma route_types_word: "kind \<in> set route_types \<Longrightarrow> list_all (\<lambda>ch. \<not> is_space ch) kind \<and> kind \<noteq> []"
  by (auto simp: route_types_def is_space_def)

lemma show_dest_is_no_keyword: "show_dest q \<notin> set route_types" "show_dest q \<noteq> ''default''"
  using show_dest_start [of q] by (auto simp: route_types_def is_digit_def)

lemma parse_route_text:
  assumes "kind = [] \<or> kind \<in> set route_types" and "pf_bits q \<le> 32" and "worth_honouring (masked q)"
  shows "masked q \<in> fst ` set (parse_route_line (route_text kind q rest))"
proof -
  have ne: "show_dest q \<noteq> []" using show_dest_start [of q] by auto
  have sp: "is_space (CHR '' '')" by (simp add: is_space_def)
  have body: "str_fields (show_dest q @ '' '' @ rest) = show_dest q # str_fields rest"
    using str_fields_Cons [OF ne show_dest_word sp] by simp
  have "(let f = str_fields (route_text kind q rest) in
      if f \<noteq> [] \<and> hd f \<in> set route_types then tl f else f) = show_dest q # str_fields rest"
  proof (cases "kind = []")
    case True
    then show ?thesis by (simp only: route_text_def body Let_def if_True append_Nil list.sel show_dest_is_no_keyword simp_thms if_False)
  next
    case False
    then have k: "kind \<in> set route_types" using assms(1) by simp
    have "str_fields (kind @ CHR '' '' # (show_dest q @ '' '' @ rest)) = kind # show_dest q # str_fields rest"
      using str_fields_Cons [OF _ _ sp] route_types_word [OF k] body by metis
    then have "str_fields (route_text kind q rest) = kind # show_dest q # str_fields rest"
      using False by (simp add: route_text_def)
    then show ?thesis using k by simp
  qed
  then show ?thesis
    using assms(2,3) parse_dest_show [of q] show_dest_is_no_keyword(2) [of q]
    by (simp add: parse_route_line_def Let_def)
qed

lemma observed_avoided:
  assumes "\<forall>o'\<in>set (ob_prefixes (observe ifaces routes)). \<not> overlaps o' p"
    and "octet 0 (pf_addr p) = 10" and "pf_bits p = 24"
    and q: "12 \<le> pf_bits q" "pf_bits q \<le> 32"
    and "octet 0 (pf_addr q) = 10 \<Longrightarrow> masked q \<in> set (ob_prefixes (observe ifaces routes))"
  shows "\<not> overlaps q p"
proof
  assume o': "overlaps q p"
  have "octet 0 (pf_addr q) = 10" using overlaps_octet [OF o'] assms(2,3) q by simp
  then have "\<not> overlaps (masked q) p" using assms(1,6) by blast
  then show False using o' overlaps_masked [OF q(2)] by simp
qed

lemma host_addr_observed:
  assumes "(name, w, n) \<in> set ifaces" and "worth_honouring (masked \<lparr>pf_addr = w, pf_bits = n\<rparr>)"
  shows "masked \<lparr>pf_addr = w, pf_bits = n\<rparr> \<in> set (ob_prefixes (observe ifaces routes))"
  unfolding observe_prefixes host_addrs_def using assms by (force simp: Let_def)

lemma route_observed:
  assumes "route_text kind q rest \<in> set (split_on (CHR 0x0A) routes)"
    and "kind = [] \<or> kind \<in> set route_types" "pf_bits q \<le> 32" "worth_honouring (masked q)"
  shows "masked q \<in> set (ob_prefixes (observe ifaces routes))"
  unfolding observe_prefixes parse_ip_routes_def using parse_route_text [OF assms(2-4), of rest] assms(1) by fastforce

text \<open>
  C22: A draw collides with nothing the host can see. What an install commits to, when it reads the
  host's own addresses and its routing table and then draws, are three ranges, each in its own pool
  (the flock's outside both of the node's), so no two of them overlap. None of them overlaps the
  network of an address on one of the host's interfaces, nor the destination of a line of the
  routing table, whatever kind of route the line is and however its destination is printed; a
  prefix shorter than twelve bits (a catch-all as 10.0.0.0/8) is ignored on purpose, and that is the
  only exception. The flock's range is nobody's by convention, and no machine answered at the
  address its first node takes.
\<close>
theorem draw_collides_with_nothing:
  assumes "pick (observe ifaces routes) rnd answers = Inr d"
  shows "\<exists>b c x y. b < 256 \<and> c < 256 \<and> x < 256 \<and> y < 256 \<and>
    d = \<lparr>dr_system = dotted [10, b, c], dr_priv = dotted [10, 11, x], dr_pod = dotted [10, 12, y]\<rparr> \<and>
    \<not> overlaps (slash24 10 b c) (slash24 10 11 x) \<and> \<not> overlaps (slash24 10 b c) (slash24 10 12 y) \<and>
    \<not> overlaps (slash24 10 11 x) (slash24 10 12 y) \<and>
    conventional (slash24 10 b c) = [] \<and>
    (\<forall>p\<in>{slash24 10 b c, slash24 10 11 x, slash24 10 12 y}.
      (\<forall>(name, w, n)\<in>set ifaces. 12 \<le> n \<and> n \<le> 32 \<longrightarrow> \<not> overlaps \<lparr>pf_addr = w, pf_bits = n\<rparr> p) \<and>
      (\<forall>kind q rest. route_text kind q rest \<in> set (split_on (CHR 0x0A) routes) \<longrightarrow>
        kind = [] \<or> kind \<in> set route_types \<longrightarrow> 12 \<le> pf_bits q \<and> pf_bits q \<le> 32 \<longrightarrow> \<not> overlaps q p)) \<and>
    (\<forall>ask. answers = Some ask \<longrightarrow> \<not> ask (addr4 10 b c 1))"
proof -
  let ?obs = "observe ifaces routes"
  have ten: "octet 0 (pf_addr (slash24 10 b c)) = 10" "pf_bits (slash24 10 b c) = 24" if "b < 256" "c < 256" for b c
    using that by (simp_all add: slash24_def octet_addr4)
  have free: "(\<forall>(name, w, n)\<in>set ifaces. 12 \<le> n \<and> n \<le> 32 \<longrightarrow> \<not> overlaps \<lparr>pf_addr = w, pf_bits = n\<rparr> p) \<and>
      (\<forall>kind q rest. route_text kind q rest \<in> set (split_on (CHR 0x0A) routes) \<longrightarrow>
        kind = [] \<or> kind \<in> set route_types \<longrightarrow> 12 \<le> pf_bits q \<and> pf_bits q \<le> 32 \<longrightarrow> \<not> overlaps q p)"
    if p: "\<forall>q\<in>set (ob_prefixes ?obs). \<not> overlaps q p" "octet 0 (pf_addr p) = 10" "pf_bits p = 24" for p
  proof (intro conjI ballI allI impI)
    fix i assume i: "i \<in> set ifaces"
    obtain name w n where e: "i = (name, w, n)" by (cases i)
    have "\<not> overlaps \<lparr>pf_addr = w, pf_bits = n\<rparr> p" if "12 \<le> n" "n \<le> 32"
      by (rule observed_avoided [OF p]) (use that i e in \<open>simp_all add: host_addr_observed worth_honouring_masked\<close>)
    then show "case i of (name, w, n) \<Rightarrow> 12 \<le> n \<and> n \<le> 32 \<longrightarrow> \<not> overlaps \<lparr>pf_addr = w, pf_bits = n\<rparr> p"
      by (simp add: e)
  next
    fix kind q rest
    assume line: "route_text kind q rest \<in> set (split_on (CHR 0x0A) routes)" "kind = [] \<or> kind \<in> set route_types"
      and q: "12 \<le> pf_bits q \<and> pf_bits q \<le> 32"
    show "\<not> overlaps q p"
      by (rule observed_avoided [OF p]) (use q route_observed [OF line] in \<open>simp_all add: worth_honouring_masked\<close>)
  qed
  obtain b c x y where v: "b < 256" "c < 256" "x < 256" "y < 256"
    and rest: "d = \<lparr>dr_system = dotted [10, b, c], dr_priv = dotted [10, 11, x], dr_pod = dotted [10, 12, y]\<rparr>"
      "\<not> overlaps (slash24 10 b c) (slash24 10 11 x)" "\<not> overlaps (slash24 10 b c) (slash24 10 12 y)"
      "\<not> overlaps (slash24 10 11 x) (slash24 10 12 y)" "conventional (slash24 10 b c) = []"
      "\<forall>ask. answers = Some ask \<longrightarrow> \<not> ask (addr4 10 b c 1)"
    and o': "\<forall>p\<in>{slash24 10 b c, slash24 10 11 x, slash24 10 12 y}. \<forall>q\<in>set (ob_prefixes ?obs). \<not> overlaps q p"
    using draw_values [OF assms] by blast
  have t: "\<forall>p\<in>{slash24 10 b c, slash24 10 11 x, slash24 10 12 y}. octet 0 (pf_addr p) = 10 \<and> pf_bits p = 24"
    using v by (simp add: ten)
  have "\<forall>p\<in>{slash24 10 b c, slash24 10 11 x, slash24 10 12 y}.
      (\<forall>(name, w, n)\<in>set ifaces. 12 \<le> n \<and> n \<le> 32 \<longrightarrow> \<not> overlaps \<lparr>pf_addr = w, pf_bits = n\<rparr> p) \<and>
      (\<forall>kind q rest. route_text kind q rest \<in> set (split_on (CHR 0x0A) routes) \<longrightarrow>
        kind = [] \<or> kind \<in> set route_types \<longrightarrow> 12 \<le> pf_bits q \<and> pf_bits q \<le> 32 \<longrightarrow> \<not> overlaps q p)"
    by (intro ballI free) (use o' t in blast)+
  then show ?thesis
    by - (rule exI [of _ b], rule exI [of _ c], rule exI [of _ x], rule exI [of _ y],
      intro conjI v rest, assumption)
qed

text \<open>
  The first pair of bytes lands on Kubernetes' range, the second on the host's own network, the
  first byte for the link on a range that is routed.
\<close>

definition example_entropy :: entropy where
  "example_entropy = [100, 7, 173, 94, 44, 5, 7, 9, 200]"

definition example_ifaces :: "(string \<times> (32 word \<times> nat)) list" where
  "example_ifaces = [(''lo'', addr4 127 0 0 1, 8), (''eth0'', addr4 10 173 0 5, 16)]"

definition example_routes :: string where
  "example_routes = ''default via 10.173.0.1 dev eth0'' @ [CHR 0x0A] @ ''local 10.11.7.1 dev br0'' @ [CHR 0x0A]"

theorem draw_collides_with_nothing_witness:
  "pick (observe example_ifaces example_routes) example_entropy (Some (\<lambda>_. False)) =
     Inr \<lparr>dr_system = ''10.44.5'', dr_priv = ''10.11.9'', dr_pod = ''10.12.200''\<rparr> \<and>
   (\<exists>b c. dotted [10, b, c] = ''10.44.5'' \<and> conventional (slash24 10 b c) = [])"
proof -
  have p: "pick (observe example_ifaces example_routes) example_entropy (Some (\<lambda>_. False)) =
     Inr \<lparr>dr_system = ''10.44.5'', dr_priv = ''10.11.9'', dr_pod = ''10.12.200''\<rparr>"
    by code_simp
  obtain b c x y where e: "\<lparr>dr_system = ''10.44.5'', dr_priv = ''10.11.9'', dr_pod = ''10.12.200''\<rparr> =
      \<lparr>dr_system = dotted [10, b, c], dr_priv = dotted [10, 11, x], dr_pod = dotted [10, 12, y]\<rparr>"
    and k: "conventional (slash24 10 b c) = []"
    using draw_collides_with_nothing [OF p] by (elim exE conjE) (rule that)
  from arg_cong [OF e, of dr_system] have "dotted [10, b, c] = ''10.44.5''" by (simp only: draw_set.select_convs)
  with p k show ?thesis by (intro conjI exI)
qed

lemma recorded_dotted: "b < 256 \<Longrightarrow> c < 256 \<Longrightarrow> recorded_value (dotted [10, b, c])"
proof -
  assume bc: "b < 256" "c < 256"
  have "split_on (CHR ''.'') (dotted [10, b, c]) = map dec_of_nat [10, b, c]"
    unfolding dotted_def by (rule split_on_join) (simp_all add: dec_of_nat_no_char is_digit_def)
  moreover have "dec_of_nat 10 = ''10''" by code_simp
  moreover have "length (dec_of_nat b) \<le> 3" "length (dec_of_nat c) \<le> 3"
    using bc by (auto intro: length_dec_of_nat)
  moreover have "1 \<le> length (dec_of_nat n)" for n by (cases "dec_of_nat n") (use dec_of_nat_not_Nil in simp_all)
  ultimately show ?thesis by (simp add: recorded_value_def short_digits_def dec_of_nat_digits)
qed

lemma parse_record_keys:
  "parse_record_line d (''SYSTEM_SUBNET='' @ v) = (if recorded_value v then d\<lparr>dr_system := v\<rparr> else d)"
  "parse_record_line d (''PRIV_SUBNET='' @ v) = (if recorded_value v then d\<lparr>dr_priv := v\<rparr> else d)"
  "parse_record_line d (''POD_SUBNET='' @ v) = (if recorded_value v then d\<lparr>dr_pod := v\<rparr> else d)"
  "parse_record_line d [] = d"
  by (simp_all add: parse_record_line_def cut_def)

lemma parse_record_report:
  assumes "\<forall>v\<in>{dr_system d, dr_priv d, dr_pod d}. CHR 0x0A \<notin> set v"
    and "\<forall>v\<in>{dr_system d, dr_priv d, dr_pod d}. recorded_value v \<or> v = []"
  shows "parse_record (report d) = d"
proof -
  have nl: "CHR 0x0A \<notin> set (''SYSTEM_SUBNET='' @ dr_system d)" "CHR 0x0A \<notin> set (''PRIV_SUBNET='' @ dr_priv d)"
    "CHR 0x0A \<notin> set (''POD_SUBNET='' @ dr_pod d)"
    using assms(1) by simp_all
  have split: "split_on (CHR 0x0A) (report d) =
    [''SYSTEM_SUBNET='' @ dr_system d, ''PRIV_SUBNET='' @ dr_priv d, ''POD_SUBNET='' @ dr_pod d, []]"
    using split_on_line [OF nl(1), of "''PRIV_SUBNET='' @ dr_priv d @ [CHR 0x0A] @ ''POD_SUBNET='' @ dr_pod d @ [CHR 0x0A]"]
      split_on_line [OF nl(2), of "''POD_SUBNET='' @ dr_pod d @ [CHR 0x0A]"] split_on_line [OF nl(3), of "[]"]
    by (simp add: report_def)
  have keep: "(if recorded_value v then d\<lparr>dr_system := v\<rparr> else d) = d\<lparr>dr_system := v\<rparr>"
    if "recorded_value v \<or> v = []" "dr_system d = []" for v d using that by (cases d) auto
  have keep2: "(if recorded_value v then d\<lparr>dr_priv := v\<rparr> else d) = d\<lparr>dr_priv := v\<rparr>"
    if "recorded_value v \<or> v = []" "dr_priv d = []" for v d using that by (cases d) auto
  have keep3: "(if recorded_value v then d\<lparr>dr_pod := v\<rparr> else d) = d\<lparr>dr_pod := v\<rparr>"
    if "recorded_value v \<or> v = []" "dr_pod d = []" for v d using that by (cases d) auto
  show ?thesis
    using assms(2) unfolding parse_record_def split empty_draw_def foldl.simps parse_record_keys
    by (simp add: keep keep2 keep3)
qed

text \<open>
  The record of a draw reads back. What an install drew and wrote to the node's record is what
  every later start reads from it, and it is complete, so no range is ever drawn a second time.
\<close>
lemma draw_record_round_trip:
  assumes "pick obs rnd answers = Inr d"
  shows "parse_record (report d) = d \<and> complete d"
proof -
  obtain b c x y where "b < 256" "c < 256" "x < 256" "y < 256"
    and d: "d = \<lparr>dr_system = dotted [10, b, c], dr_priv = dotted [10, 11, x], dr_pod = dotted [10, 12, y]\<rparr>"
    using draw_values [OF assms] by blast
  then have rec: "\<forall>v\<in>{dr_system d, dr_priv d, dr_pod d}. recorded_value v" by (simp add: recorded_dotted)
  have "CHR 0x0A \<notin> set (dotted ns)" for ns using dotted_chars by (fastforce simp: is_digit_def)
  with rec d have "parse_record (report d) = d" by (intro parse_record_report) auto
  moreover have "complete d" using rec by (auto simp: complete_def recorded_value_def)
  ultimately show ?thesis ..
qed

end
