(* ===== verification/SelfUpdate.thy ===== *)
theory SelfUpdate
  imports Prelude
begin

text \<open>
  The on-disk half of the self-update (\<open>agent/selfupdate/layout.go\<close>, with the Linux names of
  \<open>os_other.go\<close>).

  The state directory is an association list from names to nodes. \<open>Swap\<close>, \<open>Revert\<close> and \<open>Commit\<close>
  are sequences of primitive steps, each atomic (a rename, a removal, a flush), in the order the
  code makes them; a run that is killed, loses power or meets an I/O error has made a prefix of its
  sequence. What is proved is what a prefix can leave behind and what the next run makes of it.
\<close>


section \<open>The directory\<close>

datatype node = File string | Link string | Tree

type_synonym base_dir = "(string \<times> node) list"

definition look :: "base_dir \<Rightarrow> string \<Rightarrow> node option" where
  "look d n = map_of d n"

definition forget :: "string \<Rightarrow> base_dir \<Rightarrow> base_dir" where
  "forget n d = filter (\<lambda>(m, _). m \<noteq> n) d"

definition place :: "string \<Rightarrow> node \<Rightarrow> base_dir \<Rightarrow> base_dir" where
  "place n x d = (n, x) # forget n d"

definition present :: "base_dir \<Rightarrow> string \<Rightarrow> bool" where
  "present d n = (look d n \<noteq> None)"

lemma look_forget [simp]: "look (forget n d) m = (if m = n then None else look d m)"
  by (induction d) (auto simp: look_def forget_def)

lemma look_place [simp]: "look (place n x d) m = (if m = n then Some x else look d m)"
  using look_forget [of n d m] by (simp add: place_def look_def)

text \<open>The primitive steps. A rename of a name that is not there is no step of the code's.\<close>

datatype move = Rename string string | Remove string | Sync

fun apply_move :: "base_dir \<Rightarrow> move \<Rightarrow> base_dir" where
  "apply_move d (Rename a b) = (case look d a of None \<Rightarrow> d | Some x \<Rightarrow> forget a (place b x d))"
| "apply_move d (Remove a) = forget a d"
| "apply_move d Sync = d"

definition apply_moves :: "base_dir \<Rightarrow> move list \<Rightarrow> base_dir" where
  "apply_moves d ms = foldl apply_move d ms"

lemma apply_moves_simps [simp]:
  "apply_moves d [] = d" "apply_moves d (m # ms) = apply_moves (apply_move d m) ms"
  "apply_moves d (ms @ ns) = apply_moves (apply_moves d ms) ns"
  by (simp_all add: apply_moves_def)

lemma look_Rename:
  "present d a \<Longrightarrow> a \<noteq> b \<Longrightarrow>
   look (apply_move d (Rename a b)) n = (if n = a then None else if n = b then look d a else look d n)"
  by (auto simp: present_def)

declare apply_move.simps(1) [simp del]


section \<open>The layout\<close>

definition agent_name :: string where "agent_name = ''briard-agent''"
definition manifest_name :: string where "manifest_name = ''manifest.json''"
definition net_wrap_name :: string where "net_wrap_name = ''briard-net-wrap''"
definition tray_name :: string where "tray_name = ''briard-tray.exe''"
definition qemu_link :: string where "qemu_link = ''qemu''"
definition guest_link :: string where "guest_link = ''guest''"
definition qemu_tree :: string where "qemu_tree = ''qemu-''"
definition guest_tree :: string where "guest_tree = ''guest-''"
definition next_suffix :: string where "next_suffix = ''.next''"
definition prev_suffix :: string where "prev_suffix = ''.prev''"
definition old_suffix :: string where "old_suffix = ''.old''"
definition good_guest :: string where "good_guest = ''guest.good''"
definition guest_reverted_name :: string where "guest_reverted_name = ''guest.reverted''"

definition entries :: "string list" where
  "entries = [agent_name, manifest_name, net_wrap_name, tray_name, qemu_link, guest_link]"

definition next_of :: "string \<Rightarrow> string" where "next_of e = e @ next_suffix"
definition prev_of :: "string \<Rightarrow> string" where "prev_of e = e @ prev_suffix"

definition next_staged :: "base_dir \<Rightarrow> bool" where
  "next_staged d = (case look d (next_of agent_name) of Some (File _) \<Rightarrow> True | _ \<Rightarrow> False)"

text \<open>One entry of \<open>Swap\<close>, on the directory as it is when the loop reaches it.\<close>

definition swap_entry :: "base_dir \<Rightarrow> string \<Rightarrow> move list" where
  "swap_entry d e =
     (if \<not> present d (next_of e) then []
      else (if present d e then [Rename e (prev_of e)] else []) @ [Rename (next_of e) e] @
        (if e = agent_name then [Sync] else []))"

fun swap_loop :: "string list \<Rightarrow> base_dir \<Rightarrow> move list" where
  "swap_loop [] d = [Sync]"
| "swap_loop (e # es) d = swap_entry d e @ swap_loop es (apply_moves d (swap_entry d e))"

definition swap :: "base_dir \<Rightarrow> move list option" where
  "swap d = (if \<not> next_staged d then None else Some (swap_loop entries d))"

definition interrupted :: "base_dir \<Rightarrow> bool" where
  "interrupted d = present d (prev_of agent_name)"

definition revert_entry :: "base_dir \<Rightarrow> string \<Rightarrow> move list" where
  "revert_entry d e =
     (if \<not> present d (prev_of e) then []
      else (if e = agent_name then [Sync] else []) @
        (case look d e of Some (Link _) \<Rightarrow> [Remove e] | _ \<Rightarrow> []) @ [Rename (prev_of e) e])"

fun revert_loop :: "string list \<Rightarrow> base_dir \<Rightarrow> move list" where
  "revert_loop [] d = [Sync]"
| "revert_loop (e # es) d = revert_entry d e @ revert_loop es (apply_moves d (revert_entry d e))"

definition revert :: "base_dir \<Rightarrow> move list" where
  "revert d = revert_loop (rev entries) d"

text \<open>
  \<open>Commit\<close>. \<open>held\<close> are the names the system refuses to delete (a program still running on Windows);
  \<open>stamp\<close> is the commit's own time in the name it parks a displaced program under.
\<close>

definition try_remove :: "(string \<Rightarrow> bool) \<Rightarrow> string \<Rightarrow> move list" where
  "try_remove held n = (if held n then [] else [Remove n])"

definition old_of :: "string \<Rightarrow> string \<Rightarrow> string" where
  "old_of program stamp = program @ ''.'' @ stamp @ old_suffix"

definition parked :: "string \<Rightarrow> string \<Rightarrow> bool" where
  "parked program n = (prefix program n \<and> suffix old_suffix (drop (length program) n))"

definition sweep_old :: "(string \<Rightarrow> bool) \<Rightarrow> base_dir \<Rightarrow> move list" where
  "sweep_old held d =
     concat (map (\<lambda>program. concat (map (try_remove held) (filter (parked program) (map fst d))))
       [agent_name, tray_name])"

definition set_aside :: "base_dir \<Rightarrow> string \<Rightarrow> string \<Rightarrow> move list" where
  "set_aside d program stamp =
     (if present d (prev_of program) then [Rename (prev_of program) (old_of program stamp)] else [])"

definition commit_entry :: "(string \<Rightarrow> bool) \<Rightarrow> string \<Rightarrow> base_dir \<Rightarrow> string \<Rightarrow> move list" where
  "commit_entry held stamp d e =
     (if e = tray_name then set_aside d e stamp @ try_remove held (old_of e stamp)
      else if present d (prev_of e) then [Remove (prev_of e)] else [])"

fun commit_loop :: "(string \<Rightarrow> bool) \<Rightarrow> string \<Rightarrow> string list \<Rightarrow> base_dir \<Rightarrow> move list" where
  "commit_loop held stamp [] d = [Sync]"
| "commit_loop held stamp (e # es) d =
     commit_entry held stamp d e @ commit_loop held stamp es (apply_moves d (commit_entry held stamp d e))"

definition commit :: "(string \<Rightarrow> bool) \<Rightarrow> string \<Rightarrow> base_dir \<Rightarrow> move list" where
  "commit held stamp d =
     (let d1 = apply_moves d (sweep_old held d);
          head = set_aside d1 agent_name stamp @ [Sync] @ try_remove held (old_of agent_name stamp)
      in sweep_old held d @ head @ commit_loop held stamp (tl entries) (apply_moves d1 head))"

text \<open>What the next run does first (\<open>Update.reconcile\<close>): an interrupted run is reverted, else committed.\<close>

definition reconcile :: "(string \<Rightarrow> bool) \<Rightarrow> string \<Rightarrow> base_dir \<Rightarrow> move list" where
  "reconcile held stamp d = (if \<not> interrupted d then commit held stamp d else revert d)"

text \<open>\<open>DiscardNextBundle\<close>, the staging of an entry, and the pruning of trees.\<close>

definition discard_next :: "base_dir \<Rightarrow> base_dir" where
  "discard_next d = foldl (\<lambda>d e. forget (next_of e) d) d entries"

definition stage :: "string \<Rightarrow> node \<Rightarrow> base_dir \<Rightarrow> base_dir" where
  "stage e x d = place (next_of e) x d"

definition link_target :: "base_dir \<Rightarrow> string \<Rightarrow> string option" where
  "link_target d n = (case look d n of Some (Link t) \<Rightarrow> Some t | _ \<Rightarrow> None)"

definition release_text :: "base_dir \<Rightarrow> string \<Rightarrow> string" where
  "release_text d n = (case look d n of Some (File b) \<Rightarrow> trim_space b | _ \<Rightarrow> [])"

definition good_guest_release :: "base_dir \<Rightarrow> string" where
  "good_guest_release d = release_text d good_guest"

definition mark_guest_good :: "string \<Rightarrow> base_dir \<Rightarrow> base_dir option" where
  "mark_guest_good release d =
     (if look d (guest_tree @ release) \<noteq> Some Tree then None
      else Some (place good_guest (File (release @ [CHR 0x0A])) d))"

definition mark_guest_reverted :: "string \<Rightarrow> base_dir \<Rightarrow> base_dir" where
  "mark_guest_reverted release d = place guest_reverted_name (File (release @ [CHR 0x0A])) d"

definition guest_reverted :: "base_dir \<Rightarrow> string option" where
  "guest_reverted d = (let r = release_text d guest_reverted_name in if r = [] then None else Some r)"

definition prune_trees :: "string \<Rightarrow> string option list \<Rightarrow> base_dir \<Rightarrow> base_dir \<times> string list" where
  "prune_trees pre links d =
     (let stale = (\<lambda>(n, x). x = Tree \<and> prefix pre n \<and> Some n \<notin> set links)
      in (filter (\<lambda>e. \<not> stale e) d, map fst (filter stale d)))"

definition prune_qemu_trees :: "base_dir \<Rightarrow> base_dir \<times> string list" where
  "prune_qemu_trees d = prune_trees qemu_tree [link_target d qemu_link, link_target d (next_of qemu_link)] d"

definition prune_guest_trees :: "base_dir \<Rightarrow> base_dir \<times> string list" where
  "prune_guest_trees d =
     prune_trees guest_tree
       [link_target d guest_link, link_target d (next_of guest_link),
        (let r = good_guest_release d in if r = [] then None else Some (guest_tree @ r))] d"



section \<open>The names never clash\<close>

lemma suffix_last:
  "last (next_of e) = CHR ''t''" "last (prev_of e) = CHR ''v''" "last (old_of p s) = CHR ''d''"
  by (simp_all add: next_of_def prev_of_def old_of_def next_suffix_def prev_suffix_def old_suffix_def)

lemma suffix_length: "length (next_of e) = length e + 5" "length (prev_of e) = length e + 5"
  by (simp_all add: next_of_def prev_of_def next_suffix_def prev_suffix_def)

text \<open>Most names end differently from every suffixed name; the two links that end in \<open>t\<close> are shorter
  than any name with a suffix they could be.\<close>

definition entry_plain :: "string \<Rightarrow> bool" where
  "entry_plain e = (\<not> suffix next_suffix e \<and> \<not> suffix prev_suffix e \<and> \<not> suffix old_suffix e)"

lemma entries_plain: "list_all entry_plain entries" "distinct entries"
  by code_simp+

lemma next_prev_inj [simp]:
  "next_of e = next_of e' \<longleftrightarrow> e = e'" "prev_of e = prev_of e' \<longleftrightarrow> e = e'"
  "next_of e \<noteq> prev_of e'" "prev_of e \<noteq> next_of e'"
  "next_of e \<noteq> e" "prev_of e \<noteq> e" "e \<noteq> next_of e" "e \<noteq> prev_of e"
  "old_of q s \<noteq> next_of e" "old_of q s \<noteq> prev_of e" "next_of e \<noteq> old_of q s" "prev_of e \<noteq> old_of q s"
  using suffix_last suffix_length by (auto simp: next_of_def prev_of_def dest: arg_cong [of _ _ last] arg_cong [of _ _ length])

lemma entry_not_suffixed:
  assumes "e \<in> set entries"
  shows "e \<noteq> next_of e'" and "e \<noteq> prev_of e'" and "e \<noteq> old_of q s"
    and "next_of e' \<noteq> e" and "prev_of e' \<noteq> e" and "old_of q s \<noteq> e"
  using entries_plain(1) assms
  by (auto simp: list_all_iff entry_plain_def next_of_def prev_of_def old_of_def suffix_def)

lemma suffixed_not_entry [simp]:
  "next_of e \<notin> set entries" "prev_of e \<notin> set entries" "old_of q s \<notin> set entries"
  using entry_not_suffixed by blast+

lemma parked_old: "parked q n \<Longrightarrow> e \<in> set entries \<Longrightarrow> n \<noteq> e \<and> n \<noteq> prev_of e' \<and> n \<noteq> next_of e'"
proof -
  assume p: "parked q n" and e: "e \<in> set entries"
  then obtain a where n: "n = a @ old_suffix"
    unfolding parked_def by (metis append_assoc append_take_drop_id suffix_def)
  have "last n = CHR ''d''" unfolding n by (simp add: old_suffix_def)
  then have "n \<noteq> prev_of e'" "n \<noteq> next_of e'" using suffix_last by auto
  moreover have "n \<noteq> e" using entries_plain(1) e n by (auto simp: list_all_iff entry_plain_def suffix_def)
  ultimately show ?thesis by blast
qed


section \<open>What a prefix of the steps leaves\<close>

text \<open>\<open>along P d ms\<close>: \<open>P\<close> holds before, between and after the steps.\<close>

fun along :: "(base_dir \<Rightarrow> bool) \<Rightarrow> base_dir \<Rightarrow> move list \<Rightarrow> bool" where
  "along P d [] = P d"
| "along P d (m # ms) = (P d \<and> along P (apply_move d m) ms)"

lemma along_append: "along P d (ms @ ns) \<longleftrightarrow> along P d ms \<and> along P (apply_moves d ms) ns"
  by (induction ms arbitrary: d) (auto elim: along.elims)

lemma along_start: "along P d ms \<Longrightarrow> P d"
  by (cases ms) simp_all

lemma along_end: "along P d ms \<Longrightarrow> P (apply_moves d ms)"
  by (induction ms arbitrary: d) simp_all

lemma along_cut: "along P d ms \<Longrightarrow> P (apply_moves d (take k ms))"
proof (induction ms arbitrary: d k)
  case (Cons m ms)
  then show ?case by (cases k) simp_all
qed simp

lemma along_mono: "along P d ms \<Longrightarrow> (\<And>d. P d \<Longrightarrow> Q d) \<Longrightarrow> along Q d ms"
  by (induction ms arbitrary: d) auto

lemma along_Cons_append: "along P d ms \<Longrightarrow> along P (apply_moves d ms) ns \<Longrightarrow> along P d (ms @ ns)"
  by (simp add: along_append)

text \<open>
  The three kinds of state a run moves through, relative to the directory \<open>old\<close> it started on:
  \<open>reverting\<close> has the trial marker and nothing the committed release had is lost; \<open>as_before\<close> has
  every committed entry in place and no \<open>.prev\<close>; \<open>committed\<close> has every entry of the new release.
\<close>

definition released :: "base_dir \<Rightarrow> string \<Rightarrow> node option" where
  "released old e = (if present old (next_of e) then look old (next_of e) else look old e)"

definition kept :: "base_dir \<Rightarrow> base_dir \<Rightarrow> string \<Rightarrow> bool" where
  "kept old d e =
     (if present old e
      then look d (prev_of e) = look old e \<or> (look d (prev_of e) = None \<and> look d e = look old e)
      else look d (prev_of e) = None)"

definition reverting :: "base_dir \<Rightarrow> base_dir \<Rightarrow> bool" where
  "reverting old d = (interrupted d \<and> list_all (kept old d) entries)"

definition as_before :: "base_dir \<Rightarrow> base_dir \<Rightarrow> bool" where
  "as_before old d = list_all (\<lambda>e. look d (prev_of e) = None \<and> (present old e \<longrightarrow> look d e = look old e)) entries"

definition committed :: "base_dir \<Rightarrow> base_dir \<Rightarrow> bool" where
  "committed old d = (\<not> interrupted d \<and> list_all (\<lambda>e. look d e = released old e) entries)"

definition swapped :: "base_dir \<Rightarrow> base_dir \<Rightarrow> bool" where
  "swapped old d = (reverting old d \<and> list_all (\<lambda>e. look d e = released old e) entries)"

text \<open>A directory an update may start on: settled, with a committed agent and a staged one.\<close>

definition ready :: "base_dir \<Rightarrow> bool" where
  "ready d = (next_staged d \<and> present d agent_name \<and> list_all (\<lambda>e. \<not> present d (prev_of e)) entries)"



subsection \<open>Swap\<close>

lemmas entry_names = entry_not_suffixed next_prev_inj

definition untouched :: "base_dir \<Rightarrow> base_dir \<Rightarrow> string \<Rightarrow> bool" where
  "untouched old d e =
     (look d e = look old e \<and> look d (next_of e) = look old (next_of e) \<and> look d (prev_of e) = None)"

lemma reverting_frame:
  assumes "reverting old d" and "kept old d' e" and "e \<noteq> agent_name \<or> interrupted d'" and "e \<in> set entries"
    and "\<And>n. n \<notin> {e, next_of e, prev_of e} \<Longrightarrow> look d' n = look d n"
  shows "reverting old d'"
proof -
  have "kept old d' f" if "f \<in> set entries" for f
  proof (cases "f = e")
    case False
    then have "look d' f = look d f" "look d' (prev_of f) = look d (prev_of f)"
      using assms(4) that by (auto intro!: assms(5) simp: entry_names)
    then show ?thesis using assms(1) that by (auto simp: reverting_def kept_def list_all_iff)
  qed (use assms(2) in simp)
  moreover have "interrupted d'"
  proof (cases "e = agent_name")
    case False
    then have "look d' (prev_of agent_name) = look d (prev_of agent_name)"
      using assms(4) by (auto intro!: assms(5) simp: entry_names)
    then show ?thesis using assms(1) by (simp add: reverting_def interrupted_def present_def)
  qed (use assms(3) in simp)
  ultimately show ?thesis by (simp add: reverting_def list_all_iff)
qed

lemma swap_entry_cases:
  assumes "e \<in> set entries"
  shows "look (apply_moves d (swap_entry d e)) n =
    (if \<not> present d (next_of e) then look d n
     else if n = e then look d (next_of e)
     else if n = next_of e then None
     else if n = prev_of e \<and> present d e then look d e
     else look d n)"
  using assms by (auto simp: swap_entry_def present_def entry_names apply_move.simps(1) split: option.splits)

lemma swap_entry_step:
  assumes "e \<in> set entries" "e \<noteq> agent_name" "reverting old d" "untouched old d e"
  shows "along (reverting old) d (swap_entry d e)"
proof (cases "present d (next_of e)")
  case False
  then show ?thesis using assms(3) by (simp add: swap_entry_def)
next
  case nx: True
  show ?thesis
  proof (cases "present d e")
    case False
    have "reverting old (apply_move d (Rename (next_of e) e))"
      by (rule reverting_frame [OF assms(3) _ _ assms(1)])
        (use assms nx False in \<open>auto simp: look_Rename entry_names kept_def untouched_def present_def\<close>)
    then show ?thesis using nx False assms(2,3) by (simp add: swap_entry_def)
  next
    case True
    let ?d1 = "apply_move d (Rename e (prev_of e))"
    have d1: "look ?d1 n = (if n = e then None else if n = prev_of e then look d e else look d n)" for n
      by (rule look_Rename) (use True in simp_all)
    have r1: "reverting old ?d1"
      by (rule reverting_frame [OF assms(3) _ _ assms(1)])
        (use assms True in \<open>auto simp: d1 entry_names kept_def untouched_def present_def\<close>)
    have "present ?d1 (next_of e)" using nx assms(1) by (simp add: present_def d1 entry_names)
    then have d2: "look (apply_move ?d1 (Rename (next_of e) e)) n =
        (if n = next_of e then None else if n = e then look ?d1 (next_of e) else look ?d1 n)" for n
      by (rule look_Rename) simp
    have "reverting old (apply_move ?d1 (Rename (next_of e) e))"
      by (rule reverting_frame [OF r1 _ _ assms(1)])
        (use assms True in \<open>auto simp: d1 d2 entry_names kept_def untouched_def present_def\<close>)
    with r1 show ?thesis using nx True assms(2,3) by (simp add: swap_entry_def)
  qed
qed

lemma swap_entry_frame:
  "e \<in> set entries \<Longrightarrow> n \<notin> {e, next_of e, prev_of e} \<Longrightarrow> look (apply_moves d (swap_entry d e)) n = look d n"
  by (auto simp: swap_entry_cases)

lemma swap_entry_released:
  "e \<in> set entries \<Longrightarrow> untouched old d e \<Longrightarrow> look (apply_moves d (swap_entry d e)) e = released old e"
  by (simp add: swap_entry_cases untouched_def released_def present_def)

lemma swap_loop_rest:
  assumes "set es \<subseteq> set entries - {agent_name}" "distinct es" "reverting old d" "\<forall>e\<in>set es. untouched old d e"
  shows "along (reverting old) d (swap_loop es d)"
    and "\<forall>e\<in>set es. look (apply_moves d (swap_loop es d)) e = released old e"
    and "\<forall>e\<in>set entries - set es. look (apply_moves d (swap_loop es d)) e = look d e"
proof -
  have "along (reverting old) d (swap_loop es d) \<and>
    (\<forall>e\<in>set es. look (apply_moves d (swap_loop es d)) e = released old e) \<and>
    (\<forall>e\<in>set entries - set es. look (apply_moves d (swap_loop es d)) e = look d e)"
    using assms
  proof (induction es arbitrary: d)
    case Nil
    then show ?case by simp
  next
    case (Cons e es)
    let ?d = "apply_moves d (swap_entry d e)"
    have e: "e \<in> set entries" "e \<noteq> agent_name" "untouched old d e" using Cons.prems by auto
    note al = swap_entry_step [OF e(1,2) Cons.prems(3) e(3)]
    have "untouched old ?d f" if "f \<in> set es" for f
    proof -
      have "f \<noteq> e" "f \<in> set entries" using that Cons.prems by auto
      then have "look ?d f = look d f" "look ?d (next_of f) = look d (next_of f)" "look ?d (prev_of f) = look d (prev_of f)"
        using e(1) by (auto intro!: swap_entry_frame simp: entry_names)
      then show ?thesis using Cons.prems(4) that by (simp add: untouched_def)
    qed
    then have ih: "along (reverting old) ?d (swap_loop es ?d)"
      "\<forall>f\<in>set es. look (apply_moves ?d (swap_loop es ?d)) f = released old f"
      "\<forall>f\<in>set entries - set es. look (apply_moves ?d (swap_loop es ?d)) f = look ?d f"
      using Cons.IH [of ?d] Cons.prems along_end [OF al] by auto
    have "look ?d f = look d f" if "f \<in> set entries - set (e # es)" for f
      using that e(1) by (auto intro!: swap_entry_frame simp: entry_names)
    moreover have "look ?d e = released old e" using swap_entry_released e by blast
    moreover have "e \<in> set entries - set es" using e Cons.prems(2) by simp
    ultimately show ?case using al ih by (auto simp: along_append)
  qed
  then show "along (reverting old) d (swap_loop es d)"
    "\<forall>e\<in>set es. look (apply_moves d (swap_loop es d)) e = released old e"
    "\<forall>e\<in>set entries - set es. look (apply_moves d (swap_loop es d)) e = look d e"
    by blast+
qed

lemma entries_agent: "entries = agent_name # tl entries" "agent_name \<in> set entries" "agent_name \<notin> set (tl entries)"
  "set (tl entries) \<subseteq> set entries" "distinct (tl entries)"
  using entries_plain(2) by (simp_all add: entries_def)

lemma agent_not_suffixed [simp]: "prev_of e \<noteq> agent_name" "next_of e \<noteq> agent_name"
  "agent_name \<noteq> prev_of e" "agent_name \<noteq> next_of e"
  using entry_not_suffixed(1,2,4,5) [OF entries_agent(2)] by auto


lemma swap_all:
  assumes "ready old"
  shows "along (\<lambda>d. as_before old d \<or> reverting old d) old (swap_loop entries old)"
    and "swapped old (apply_moves old (swap_loop entries old))"
proof -
  let ?ms = "swap_entry old agent_name"
  let ?d = "apply_moves old ?ms"
  have r: "present old (next_of agent_name)" "present old agent_name" "list_all (\<lambda>e. \<not> present old (prev_of e)) entries"
    using assms by (auto simp: ready_def next_staged_def present_def split: option.splits)
  have as: "as_before old old" using r(3) by (auto simp: as_before_def present_def list_all_iff)
  have ms: "?ms = [Rename agent_name (prev_of agent_name), Rename (next_of agent_name) agent_name, Sync]"
    using r by (simp add: swap_entry_def)
  let ?d1 = "apply_move old (Rename agent_name (prev_of agent_name))"
  have d1: "look ?d1 n = (if n = agent_name then None else if n = prev_of agent_name then look old agent_name else look old n)" for n
    by (rule look_Rename) (use r in simp_all)
  have int1: "interrupted ?d1" using r(2) by (simp add: interrupted_def present_def d1)
  have "kept old ?d1 e" if "e \<in> set entries" for e
    using that r entries_agent(2)
    by (auto simp: kept_def d1 entry_names present_def list_all_iff)
  with int1 have r1: "reverting old ?d1" by (simp add: reverting_def list_all_iff)
  have d: "look ?d n = (if n = agent_name then look old (next_of agent_name) else if n = next_of agent_name then None
      else if n = prev_of agent_name then look old agent_name else look old n)" for n
    using swap_entry_cases [OF entries_agent(2), of old n] r by simp
  have rd: "reverting old ?d"
    by (rule reverting_frame [OF r1 _ _ entries_agent(2)])
      (use r int1 in \<open>auto simp: d d1 kept_def interrupted_def present_def\<close>)
  have al: "along (\<lambda>d. as_before old d \<or> reverting old d) old ?ms"
    using as r1 rd unfolding ms by (simp add: apply_moves_def)
  have un: "\<forall>e\<in>set (tl entries). untouched old ?d e"
    using entries_agent r(3) by (auto simp: untouched_def d entry_names list_all_iff present_def)
  have "set (tl entries) \<subseteq> set entries - {agent_name}" using entries_agent by auto
  note rest = swap_loop_rest [OF this entries_agent(5) rd un]
  have loop: "swap_loop entries old = ?ms @ swap_loop (tl entries) ?d"
    by (subst entries_agent(1)) simp
  show "along (\<lambda>d. as_before old d \<or> reverting old d) old (swap_loop entries old)"
    unfolding loop along_append using al rest(1) by (auto intro: along_mono)
  have "look (apply_moves ?d (swap_loop (tl entries) ?d)) e = released old e" if "e \<in> set entries" for e
  proof (cases "e = agent_name")
    case True
    then have "look (apply_moves ?d (swap_loop (tl entries) ?d)) e = look ?d e"
      using rest(3) entries_agent by auto
    then show ?thesis using True r by (simp add: d released_def)
  next
    case False
    then have "e \<in> set (tl entries)" using that entries_agent(1) by (metis set_ConsD)
    then show ?thesis using rest(2) by blast
  qed
  then show "swapped old (apply_moves old (swap_loop entries old))"
    unfolding loop using along_end [OF rest(1)] by (simp add: swapped_def list_all_iff)
qed


subsection \<open>Revert\<close>

lemma revert_entry_cases:
  assumes "e \<in> set entries" and "present d (prev_of e)"
  shows "look (apply_moves d (revert_entry d e)) n =
    (if n = e then look d (prev_of e) else if n = prev_of e then None else look d n)"
  using assms by (auto simp: revert_entry_def present_def entry_names apply_move.simps(1) split: option.splits node.splits)

definition restored :: "base_dir \<Rightarrow> base_dir \<Rightarrow> string \<Rightarrow> bool" where
  "restored old d e = (look d (prev_of e) = None \<and> (present old e \<longrightarrow> look d e = look old e))"

lemma kept_not_present: "kept old d e \<Longrightarrow> \<not> present d (prev_of e) \<Longrightarrow> restored old d e"
  by (auto simp: kept_def restored_def present_def split: if_splits)

lemma revert_entry_step:
  assumes "e \<in> set entries" "e \<noteq> agent_name" "reverting old d"
  shows "along (reverting old) d (revert_entry d e)"
    and "restored old (apply_moves d (revert_entry d e)) e"
proof -
  have k: "kept old d e" using assms by (simp add: reverting_def list_all_iff)
  show "restored old (apply_moves d (revert_entry d e)) e"
  proof (cases "present d (prev_of e)")
    case False
    then show ?thesis using kept_not_present [OF k] by (simp add: revert_entry_def)
  next
    case True
    then show ?thesis using revert_entry_cases [OF assms(1) True] k
      by (auto simp: restored_def kept_def present_def split: if_splits)
  qed
  show "along (reverting old) d (revert_entry d e)"
  proof (cases "present d (prev_of e)")
    case False
    then show ?thesis using assms(3) by (simp add: revert_entry_def)
  next
    case True
    have gone: "reverting old (forget e d)"
      by (rule reverting_frame [OF assms(3) _ _ assms(1)])
        (use assms True k in \<open>auto simp: kept_def present_def split: if_splits\<close>)
    have put: "reverting old (apply_move d' (Rename (prev_of e) e))"
      if "reverting old d'" "present d' (prev_of e)" "kept old d' e" "look d' (prev_of e) = look d (prev_of e)" for d'
    proof (rule reverting_frame [OF that(1) _ _ assms(1)])
      show "kept old (apply_move d' (Rename (prev_of e) e)) e"
        using that k True by (auto simp: look_Rename kept_def present_def split: if_splits)
    qed (use assms that(2) in \<open>auto simp: look_Rename\<close>)
    have "kept old (forget e d) e" using gone assms(1) by (simp add: reverting_def list_all_iff)
    then have "reverting old (apply_move (forget e d) (Rename (prev_of e) e))"
      using put [OF gone] True by (simp add: present_def)
    moreover have "reverting old (apply_move d (Rename (prev_of e) e))"
      using put [OF assms(3) True k refl] .
    ultimately show ?thesis
      using True assms(2,3) gone by (auto simp: revert_entry_def split: option.splits node.splits)
  qed
qed


lemma revert_entry_frame:
  assumes "e \<in> set entries" and "n \<noteq> e" and "n \<noteq> prev_of e"
  shows "look (apply_moves d (revert_entry d e)) n = look d n"
proof (cases "present d (prev_of e)")
  case True
  then show ?thesis using revert_entry_cases [OF assms(1) True] assms by simp
qed (simp add: revert_entry_def)

lemma restored_frame:
  assumes "restored old d f" and "look d' f = look d f" and "look d' (prev_of f) = look d (prev_of f)"
  shows "restored old d' f"
  using assms by (simp add: restored_def)

text \<open>The agent goes back last: its \<open>.prev\<close> leaves only when every other entry is restored.\<close>

lemma revert_agent:
  assumes "reverting old d" and "\<forall>e\<in>set (tl entries). restored old d e" and "present old agent_name"
  shows "along (\<lambda>d. reverting old d \<or> as_before old d) d (revert_loop [agent_name] d)"
    and "as_before old (apply_moves d (revert_loop [agent_name] d))"
proof -
  let ?a = agent_name
  have p: "present d (prev_of ?a)" using assms(1) by (simp add: reverting_def interrupted_def)
  have k: "kept old d ?a" using assms(1) entries_agent(2) by (simp add: reverting_def list_all_iff)
  let ?d = "apply_moves d (revert_entry d ?a)"
  have d: "look ?d n = (if n = ?a then look d (prev_of ?a) else if n = prev_of ?a then None else look d n)" for n
    by (rule revert_entry_cases [OF entries_agent(2) p])
  have "restored old ?d e" if "e \<in> set entries" for e
  proof (cases "e = ?a")
    case True
    then show ?thesis using k p assms(3) by (auto simp: restored_def d kept_def present_def split: if_splits)
  next
    case False
    then have "e \<in> set (tl entries)" using that entries_agent(1) by (metis set_ConsD)
    then show ?thesis using assms(2) False that
      by - (rule restored_frame [of old d], auto simp: d entry_names)
  qed
  then have before: "as_before old ?d" by (simp add: as_before_def restored_def list_all_iff)
  have gone: "reverting old (forget ?a d)"
    by (rule reverting_frame [OF assms(1) _ _ entries_agent(2)])
      (use p k assms(3) in \<open>auto simp: kept_def interrupted_def present_def split: if_splits\<close>)
  show "as_before old (apply_moves d (revert_loop [?a] d))"
    using before by (simp only: revert_loop.simps apply_moves_simps apply_move.simps)
  show "along (\<lambda>d. reverting old d \<or> as_before old d) d (revert_loop [?a] d)"
  proof (cases "\<exists>t. look d ?a = Some (Link t)")
    case True
    then have "revert_entry d ?a = [Sync, Remove ?a, Rename (prev_of ?a) ?a]"
      using p by (auto simp: revert_entry_def)
    with assms(1) before gone show ?thesis
      by (simp only: revert_loop.simps along.simps along_append append.simps apply_moves_simps
          apply_move.simps(2,3) simp_thms)
  next
    case False
    then have "revert_entry d ?a = [Sync, Rename (prev_of ?a) ?a]"
      using p by (auto simp: revert_entry_def split: option.splits node.splits)
    with assms(1) before show ?thesis
      by (simp only: revert_loop.simps along.simps along_append append.simps apply_moves_simps
          apply_move.simps(2,3) simp_thms)
  qed
qed

lemma revert_loop_all:
  assumes "set es \<subseteq> set entries - {agent_name}" "reverting old d" "present old agent_name"
    and "\<forall>e\<in>set (tl entries) - set es. restored old d e"
  shows "along (\<lambda>d. reverting old d \<or> as_before old d) d (revert_loop (es @ [agent_name]) d) \<and>
    as_before old (apply_moves d (revert_loop (es @ [agent_name]) d))"
  using assms
proof (induction es arbitrary: d)
  case Nil
  then show ?case using revert_agent [of old d] by simp
next
  case (Cons e es)
  let ?d = "apply_moves d (revert_entry d e)"
  have e: "e \<in> set entries" "e \<noteq> agent_name" using Cons.prems by auto
  note step = revert_entry_step [OF e Cons.prems(2)]
  have "restored old ?d f" if "f \<in> set (tl entries) - set es" for f
  proof (cases "f = e")
    case True then show ?thesis using step(2) by simp
  next
    case False
    have fe: "f \<in> set entries" using that entries_agent(4) by blast
    have "restored old d f" using Cons.prems(4) that False by simp
    then show ?thesis
      by (rule restored_frame) (use e(1) fe False in \<open>auto intro!: revert_entry_frame simp: entry_names\<close>)
  qed
  then have ih: "along (\<lambda>d. reverting old d \<or> as_before old d) ?d (revert_loop (es @ [agent_name]) ?d) \<and>
    as_before old (apply_moves ?d (revert_loop (es @ [agent_name]) ?d))"
    using Cons.IH [of ?d] Cons.prems along_end [OF step(1)] by auto
  have "along (\<lambda>d. reverting old d \<or> as_before old d) d (revert_entry d e)"
    using step(1) by (rule along_mono) simp
  with ih show ?case by (simp add: along_append)
qed

lemma revert_all:
  assumes "reverting old d" "present old agent_name"
  shows "along (\<lambda>d. reverting old d \<or> as_before old d) d (revert d)"
    and "as_before old (apply_moves d (revert d))"
proof -
  have r: "rev entries = rev (tl entries) @ [agent_name]" by (simp add: entries_def)
  have "set (rev (tl entries)) \<subseteq> set entries - {agent_name}" using entries_agent by auto
  from revert_loop_all [OF this assms] show "along (\<lambda>d. reverting old d \<or> as_before old d) d (revert d)"
    "as_before old (apply_moves d (revert d))"
    unfolding revert_def r by simp_all
qed


subsection \<open>Commit\<close>

text \<open>A move of a commit: it deletes or parks a \<open>.prev\<close>, or deletes what a commit parked.\<close>

fun tail_move :: "move \<Rightarrow> bool" where
  "tail_move (Rename a b) = (a \<in> prev_of ` set entries \<and> b \<notin> set entries \<and> b \<notin> prev_of ` set entries)"
| "tail_move (Remove a) = (a \<notin> set entries)"
| "tail_move Sync = True"

lemma tail_move_look:
  assumes "tail_move m" and "e \<in> set entries"
  shows "look (apply_move d m) e = look d e"
    and "look (apply_move d m) (prev_of e) = look d (prev_of e) \<or> look (apply_move d m) (prev_of e) = None"
  using assms by (cases m; auto simp: apply_move.simps(1) split: option.splits)+

definition settled :: "base_dir \<Rightarrow> base_dir \<Rightarrow> bool" where
  "settled old d = (as_before old d \<or> committed old d)"

lemma tail_move_settled: "tail_move m \<Longrightarrow> settled old d \<Longrightarrow> settled old (apply_move d m)"
proof -
  assume m: "tail_move m" and s: "settled old d"
  have p: "look (apply_move d m) (prev_of e) = None" if "look d (prev_of e) = None" "e \<in> set entries" for e
    using tail_move_look(2) [OF m that(2), of d] that(1) by auto
  show ?thesis
  proof (cases "as_before old d")
    case True
    then have "as_before old (apply_move d m)"
      using tail_move_look(1) [OF m] p by (auto simp: as_before_def list_all_iff)
    then show ?thesis by (simp add: settled_def)
  next
    case False
    then have c: "committed old d" using s by (simp add: settled_def)
    then have "\<not> interrupted (apply_move d m)"
      using p [of agent_name] entries_agent(2) by (simp add: committed_def interrupted_def present_def)
    then have "committed old (apply_move d m)"
      using c tail_move_look(1) [OF m] by (auto simp: committed_def list_all_iff)
    then show ?thesis by (simp add: settled_def)
  qed
qed

lemma tail_moves_settled: "list_all tail_move ms \<Longrightarrow> settled old d \<Longrightarrow> along (settled old) d ms"
  by (induction ms arbitrary: d) (simp_all add: tail_move_settled)

lemma tail_moves_look: "list_all tail_move ms \<Longrightarrow> e \<in> set entries \<Longrightarrow> look (apply_moves d ms) e = look d e"
  by (induction ms arbitrary: d) (simp_all add: tail_move_look)

lemma tail_moves_gone:
  "list_all tail_move ms \<Longrightarrow> e \<in> set entries \<Longrightarrow> look d (prev_of e) = None \<Longrightarrow> look (apply_moves d ms) (prev_of e) = None"
proof (induction ms arbitrary: d)
  case (Cons m ms)
  then show ?case using tail_move_look(2) [of m e d] by auto
qed simp

lemma old_not_prev [simp]: "old_of q s \<notin> prev_of ` set entries"
  by (auto simp: entry_names)

lemma tail_parts:
  "list_all tail_move (try_remove held (old_of q s))"
  "q \<in> set entries \<Longrightarrow> list_all tail_move (set_aside d q s)"
  "e \<in> set entries \<Longrightarrow> list_all tail_move (commit_entry held s d e)"
  by (auto simp: try_remove_def set_aside_def commit_entry_def)

lemma tail_commit_loop:
  "set es \<subseteq> set entries \<Longrightarrow> list_all tail_move (commit_loop held s es d)"
  by (induction es arbitrary: d) (simp_all add: tail_parts)

lemma set_aside_gone: "look (apply_moves d (set_aside d q s)) (prev_of q) = None"
  by (auto simp: set_aside_def present_def apply_move.simps(1) entry_names split: option.splits)

lemma commit_entry_gone: "e \<in> set entries \<Longrightarrow> look (apply_moves d (commit_entry held s d e)) (prev_of e) = None"
  using set_aside_gone [of d e s]
  by (auto simp: commit_entry_def try_remove_def present_def)

lemma commit_loop_gone:
  "set es \<subseteq> set entries \<Longrightarrow> e \<in> set es \<Longrightarrow> look (apply_moves d (commit_loop held s es d)) (prev_of e) = None"
proof (induction es arbitrary: d)
  case (Cons f es)
  let ?d = "apply_moves d (commit_entry held s d f)"
  show ?case
  proof (cases "e = f")
    case True
    then have "look ?d (prev_of e) = None" using Cons.prems commit_entry_gone by simp
    moreover have "set es \<subseteq> set entries" "e \<in> set entries" using Cons.prems by auto
    ultimately show ?thesis
      using tail_moves_gone [OF tail_commit_loop [of es held s ?d], of e ?d] by simp
  next
    case False
    then show ?thesis using Cons by simp
  qed
qed simp

text \<open>The sweep of what earlier commits parked changes no entry and no \<open>.prev\<close>.\<close>

lemma sweep_frame:
  assumes "\<And>n. n \<in> set ns \<Longrightarrow> n \<noteq> m"
  shows "look (apply_moves d (concat (map (try_remove held) ns))) m = look d m"
  using assms
proof (induction ns arbitrary: d)
  case (Cons n ns)
  then show ?case by (auto simp: try_remove_def)
qed simp


lemma sweep_look:
  assumes "e \<in> set entries"
  shows "look (apply_moves d (take k (sweep_old held d'))) e = look d e"
    and "look (apply_moves d (take k (sweep_old held d'))) (prev_of e) = look d (prev_of e)"
proof -
  have quiet: "look (apply_moves d (take k ms)) n = look d n"
    if "\<forall>m\<in>set ms. \<exists>a q. m = Remove a \<and> parked q a" "\<And>q a. parked q a \<Longrightarrow> a \<noteq> n" for ms n
    using that(1)
  proof (induction ms arbitrary: d k)
    case (Cons m ms)
    then have "look (apply_move d m) n = look d n" using that(2) by fastforce
    then show ?case using Cons by (cases k) simp_all
  qed simp
  have "\<forall>m\<in>set (sweep_old held d'). \<exists>a q. m = Remove a \<and> parked q a"
    by (auto simp: sweep_old_def try_remove_def split: if_splits)
  note q = quiet [OF this]
  show "look (apply_moves d (take k (sweep_old held d'))) e = look d e"
    using parked_old assms by (intro q) blast
  show "look (apply_moves d (take k (sweep_old held d'))) (prev_of e) = look d (prev_of e)"
    using parked_old assms by (intro q) blast
qed

lemma swapped_same:
  assumes "swapped old d" and "\<And>e. e \<in> set entries \<Longrightarrow> look d' e = look d e"
    and "\<And>e. e \<in> set entries \<Longrightarrow> look d' (prev_of e) = look d (prev_of e)"
  shows "swapped old d'"
  using assms entries_agent(2)
  by (auto simp: swapped_def reverting_def kept_def interrupted_def present_def list_all_iff)

lemma settled_same:
  assumes "settled old d" and "\<And>e. e \<in> set entries \<Longrightarrow> look d' e = look d e"
    and "\<And>e. e \<in> set entries \<Longrightarrow> look d' (prev_of e) = look d (prev_of e)"
  shows "settled old d'"
  using assms entries_agent(2)
  by (auto simp: settled_def as_before_def committed_def interrupted_def present_def list_all_iff)

lemma along_takes: "(\<And>k. P (apply_moves d (take k ms))) \<Longrightarrow> along P d ms"
proof (induction ms arbitrary: d)
  case Nil
  show ?case using Nil [of 0] by simp
next
  case (Cons m ms)
  have "P (apply_moves (apply_move d m) (take k ms))" for k using Cons.prems [of "Suc k"] by simp
  then show ?case using Cons.IH Cons.prems [of 0] by simp
qed

definition commit_head :: "(string \<Rightarrow> bool) \<Rightarrow> string \<Rightarrow> base_dir \<Rightarrow> move list" where
  "commit_head held stamp d = set_aside d agent_name stamp @ [Sync] @ try_remove held (old_of agent_name stamp)"

lemma commit_parts:
  "commit held stamp d = (let d1 = apply_moves d (sweep_old held d)
     in sweep_old held d @ commit_head held stamp d1 @
        commit_loop held stamp (tl entries) (apply_moves d1 (commit_head held stamp d1)))"
  by (simp add: commit_def commit_head_def Let_def)

lemma commit_look:
  assumes "e \<in> set entries"
  shows "look (apply_moves d (commit held stamp d)) e = look d e"
proof -
  let ?d1 = "apply_moves d (sweep_old held d)"
  have "list_all tail_move (commit_head held stamp ?d1)"
    using entries_agent(2) by (simp add: commit_head_def tail_parts)
  note h = tail_moves_look [OF this assms]
  note t = tail_moves_look [OF tail_commit_loop [OF entries_agent(4)] assms]
  have "look ?d1 e = look d e"
    using sweep_look(1) [OF assms, of d "length (sweep_old held d)" held d] by simp
  then show ?thesis unfolding commit_parts Let_def apply_moves_simps t h .
qed

lemma commit_agent_gone: "look (apply_moves d (commit held stamp d)) (prev_of agent_name) = None"
proof -
  let ?d1 = "apply_moves d (sweep_old held d)"
  let ?d2 = "apply_moves ?d1 (commit_head held stamp ?d1)"
  have "look (apply_moves ?d1 (set_aside ?d1 agent_name stamp)) (prev_of agent_name) = None"
    by (rule set_aside_gone)
  then have "look ?d2 (prev_of agent_name) = None"
    by (simp add: commit_head_def try_remove_def entry_names)
  from tail_moves_gone [OF tail_commit_loop [OF entries_agent(4)] entries_agent(2) this]
  show ?thesis unfolding commit_parts Let_def by simp
qed

text \<open>A commit from a settled directory leaves it settled at every point, and ends with no \<open>.prev\<close>.\<close>

lemma commit_settled:
  assumes "settled old d"
  shows "along (settled old) d (commit held stamp d)"
    and "e \<in> set entries \<Longrightarrow> look (apply_moves d (commit held stamp d)) (prev_of e) = None"
proof -
  let ?d1 = "apply_moves d (sweep_old held d)"
  let ?d2 = "apply_moves ?d1 (commit_head held stamp ?d1)"
  have sw: "along (settled old) d (sweep_old held d)"
    by (rule along_takes) (use assms sweep_look in \<open>blast intro: settled_same\<close>)
  have tl: "list_all tail_move (commit_head held stamp ?d1)"
    using entries_agent(2) by (simp add: commit_head_def tail_parts)
  have tm: "list_all tail_move (commit_loop held stamp (tl entries) ?d2)"
    by (rule tail_commit_loop) (rule entries_agent(4))
  have al: "along (settled old) ?d1 (commit_head held stamp ?d1)"
    by (rule tail_moves_settled [OF tl along_end [OF sw]])
  show "along (settled old) d (commit held stamp d)"
    unfolding commit_parts Let_def along_append
    using sw al tail_moves_settled [OF tm along_end [OF al]] by simp
  show "look (apply_moves d (commit held stamp d)) (prev_of e) = None" if e: "e \<in> set entries"
  proof (cases "e = agent_name")
    case True
    then show ?thesis using commit_agent_gone by simp
  next
    case False
    then have "e \<in> set (tl entries)" using e entries_agent(1) by (metis set_ConsD)
    then show ?thesis
      unfolding commit_parts Let_def using commit_loop_gone [OF entries_agent(4)] by simp
  qed
qed

text \<open>The commit that follows a swap: reverting until the agent's \<open>.prev\<close> is parked, then settled.\<close>

lemma commit_swapped:
  assumes "swapped old d"
  shows "along (\<lambda>d. reverting old d \<or> settled old d) d (commit held stamp d)"
proof -
  let ?P = "\<lambda>d. reverting old d \<or> settled old d"
  let ?d1 = "apply_moves d (sweep_old held d)"
  let ?d2 = "apply_moves ?d1 (commit_head held stamp ?d1)"
  have "along (swapped old) d (sweep_old held d)"
    by (rule along_takes) (use assms sweep_look in \<open>blast intro: swapped_same\<close>)
  note sw = along_mono [OF this, of ?P] along_end [OF this]
  have p: "present ?d1 (prev_of agent_name)"
    using sw(2) by (simp add: swapped_def reverting_def interrupted_def)
  let ?m = "Rename (prev_of agent_name) (old_of agent_name stamp)"
  have look: "look (apply_move ?d1 ?m) n =
      (if n = prev_of agent_name then None else if n = old_of agent_name stamp then look ?d1 (prev_of agent_name)
       else look ?d1 n)" for n
    by (rule look_Rename [OF p]) (simp add: entry_names)
  have "committed old (apply_move ?d1 ?m)"
    using sw(2) by (auto simp: committed_def swapped_def interrupted_def present_def list_all_iff look entry_names)
  then have set: "settled old (apply_move ?d1 ?m)" by (simp add: settled_def)
  have hd: "commit_head held stamp ?d1 = ?m # [Sync] @ try_remove held (old_of agent_name stamp)"
    using p by (simp add: commit_head_def set_aside_def)
  have "list_all tail_move ([Sync] @ try_remove held (old_of agent_name stamp))"
    by (simp add: tail_parts)
  note rest = tail_moves_settled [OF this set]
  have al: "along ?P ?d1 (commit_head held stamp ?d1)" and end2: "settled old ?d2"
    unfolding hd using rest sw(2) along_end [OF rest]
    by (auto simp: swapped_def intro: along_mono)
  have tm: "list_all tail_move (commit_loop held stamp (tl entries) ?d2)"
    by (rule tail_commit_loop) (rule entries_agent(4))
  have "along ?P ?d2 (commit_loop held stamp (tl entries) ?d2)"
    using tail_moves_settled [OF tm end2] by (rule along_mono) simp
  then show ?thesis
    unfolding commit_parts Let_def along_append using sw(1) al by (auto simp: swapped_def)
qed



section \<open>Every run, cut anywhere\<close>

text \<open>
  What can be on disk after an update that started on \<open>old\<close>: the swap cut after any number of its
  steps; a whole swap and the commit of a candidate that reached READY, cut anywhere; and any number
  of later runs' reconciliations, each cut anywhere. A candidate that does not start is reverted by
  the same steps, so it is one of those.
\<close>

inductive reached :: "base_dir \<Rightarrow> base_dir \<Rightarrow> bool" for old where
  swap_cut: "swap old = Some ms \<Longrightarrow> reached old (apply_moves old (take k ms))"
| commit_cut: "swap old = Some ms \<Longrightarrow> d = apply_moves old ms \<Longrightarrow>
    reached old (apply_moves d (take k (commit held stamp d)))"
| reconcile_cut: "reached old d \<Longrightarrow> reached old (apply_moves d (take k (reconcile held stamp d)))"

inductive_cases reached_cases: "reached old d"

lemma reconcile_along:
  assumes "reverting old d \<or> settled old d" and "present old agent_name"
  shows "along (\<lambda>d. reverting old d \<or> settled old d) d (reconcile held stamp d)"
proof (cases "interrupted d")
  case True
  then have "reverting old d"
    using assms(1) entries_agent(2)
    by (auto simp: settled_def as_before_def committed_def interrupted_def present_def list_all_iff)
  from along_mono [OF revert_all(1) [OF this assms(2)], of "\<lambda>d. reverting old d \<or> settled old d"]
  show ?thesis using True by (simp add: reconcile_def) (metis settled_def)
next
  case False
  then have "settled old d" using assms(1) by (auto simp: reverting_def)
  from along_mono [OF commit_settled(1) [OF this, of held stamp], of "\<lambda>d. reverting old d \<or> settled old d"]
  show ?thesis using False by (simp add: reconcile_def)
qed

lemma reached_state:
  assumes "reached old d" and "ready old"
  shows "reverting old d \<or> settled old d"
  using assms
proof (induction rule: reached.induct)
  case (swap_cut ms k)
  then have ms: "ms = swap_loop entries old" by (simp add: swap_def split: if_splits)
  show ?case using along_cut [OF swap_all(1) [OF swap_cut.prems], of k] by (auto simp: ms settled_def)
next
  case (commit_cut ms d k held stamp)
  then have "d = apply_moves old (swap_loop entries old)" by (simp add: swap_def split: if_splits)
  then have "swapped old d" using swap_all(2) [OF commit_cut.prems] by simp
  from along_cut [OF commit_swapped [OF this]] show ?case .
next
  case (reconcile_cut d k held stamp)
  have "present old agent_name" using reconcile_cut.prems by (simp add: ready_def)
  from along_cut [OF reconcile_along [OF reconcile_cut.IH [OF reconcile_cut.prems] this]] show ?case .
qed

text \<open>
  C3: An update is all or nothing. Whatever point an update run is cut at (a kill, a power cut, an
  I/O error: in the swap, in the commit, in a revert, in any number of later runs' clean-ups that are
  cut in turn), the next run's reconciliation leaves the node on one release: either every entry the
  committed release had is back in place, or every entry is the new release's (the staged one where
  one was staged, the untouched one elsewhere). Nothing displaced is left behind, and a second
  reconciliation has no interrupted run to find.
\<close>
theorem update_all_or_nothing:
  assumes "reached old d" and "ready old"
  shows "let d' = apply_moves d (reconcile held stamp d)
    in ((\<forall>e\<in>set entries. present old e \<longrightarrow> look d' e = look old e) \<or>
        (\<forall>e\<in>set entries. look d' e = released old e)) \<and>
       (\<forall>e\<in>set entries. \<not> present d' (prev_of e)) \<and> \<not> interrupted d'"
proof -
  have st: "reverting old d \<or> settled old d" using reached_state [OF assms] .
  have a: "present old agent_name" using assms(2) by (simp add: ready_def)
  let ?d' = "apply_moves d (reconcile held stamp d)"
  have "settled old ?d' \<and> (\<forall>e\<in>set entries. \<not> present ?d' (prev_of e))"
  proof (cases "interrupted d")
    case True
    then have "reverting old d"
      using st entries_agent(2)
      by (auto simp: settled_def as_before_def committed_def interrupted_def present_def list_all_iff)
    from revert_all(2) [OF this a] show ?thesis
      using True by (simp add: reconcile_def settled_def as_before_def list_all_iff present_def)
  next
    case False
    then have "settled old d" using st by (auto simp: reverting_def)
    from along_end [OF commit_settled(1) [OF this]] commit_settled(2) [OF this] show ?thesis
      using False by (simp add: reconcile_def present_def)
  qed
  then show ?thesis
    using entries_agent(2) by (auto simp: Let_def settled_def as_before_def committed_def list_all_iff interrupted_def)
qed

definition example_base :: base_dir where
  "example_base =
     [(agent_name, File ''agent 1''), (manifest_name, File ''manifest 1''), (qemu_link, Link ''qemu-1''),
      (guest_link, Link ''guest-1''), (next_of agent_name, File ''agent 2''),
      (next_of manifest_name, File ''manifest 2''), (next_of qemu_link, Link ''qemu-2''),
      (''qemu-1'', Tree), (''qemu-2'', Tree), (''guest-1'', Tree)]"

text \<open>The fifth step of this swap has displaced qemu's link and not yet moved the new one.\<close>

theorem update_all_or_nothing_witness:
  "let d = apply_moves example_base (take 6 (swap_loop entries example_base));
       d' = apply_moves d (reconcile (\<lambda>_. False) ''s'' d)
   in interrupted d \<and> look d qemu_link = None \<and> look d agent_name = Some (File ''agent 2'') \<and>
      look d' agent_name = Some (File ''agent 1'') \<and> \<not> interrupted d'"
proof -
  let ?d = "apply_moves example_base (take 6 (swap_loop entries example_base))"
  let ?d' = "apply_moves ?d (reconcile (\<lambda>_. False) ''s'' ?d)"
  have r: "ready example_base" by code_simp
  have "swap example_base = Some (swap_loop entries example_base)"
    using r by (simp add: swap_def ready_def)
  from reached.swap_cut [OF this, of 6] have "reached example_base ?d" .
  from update_all_or_nothing [OF this r, of "\<lambda>_. False" "''s''"] have "\<not> interrupted ?d'"
    by (simp only: Let_def) blast
  moreover have "interrupted ?d \<and> look ?d qemu_link = None \<and> look ?d agent_name = Some (File ''agent 2'') \<and>
      look ?d' agent_name = Some (File ''agent 1'')"
    by code_simp
  ultimately show ?thesis by (simp only: Let_def) blast
qed

text \<open>
  Nothing to commit, nothing to fear: a finished update is the new release, whole. A swap that
  ran to its end and the commit after it leave every entry as released, and the next run, finding no
  interrupted one, leaves them so.
\<close>
lemma committed_update_stays:
  assumes "ready old" and "swap old = Some ms" and "d = apply_moves old ms"
    and "d' = apply_moves d (commit held stamp d)"
  shows "(\<forall>e\<in>set entries. look d' e = released old e) \<and>
    (\<forall>e\<in>set entries. look (apply_moves d' (reconcile held2 stamp2 d')) e = released old e)"
proof -
  have "ms = swap_loop entries old" using assms(2) by (simp add: swap_def split: if_splits)
  then have sw: "swapped old d" using swap_all(2) [OF assms(1)] assms(3) by simp
  have lk: "look d' e = look d e" if "e \<in> set entries" for e
    using commit_look [OF that] assms(4) by simp
  have new: "\<forall>e\<in>set entries. look d' e = released old e"
    using sw lk by (simp add: swapped_def list_all_iff)
  have "\<not> interrupted d'"
    using commit_agent_gone [of d held stamp] assms(4) by (simp add: interrupted_def present_def)
  then have "look (apply_moves d' (reconcile held2 stamp2 d')) e = look d' e" if "e \<in> set entries" for e
    using commit_look [OF that] by (simp add: reconcile_def)
  with new show ?thesis by simp
qed


section \<open>Trees\<close>

lemma prune_trees_keeps: "Some n \<in> set links \<Longrightarrow> look (fst (prune_trees pre links d)) n = look d n"
  by (induction d) (auto simp: prune_trees_def look_def Let_def)

lemma prune_trees_removed:
  "n \<in> set (snd (prune_trees pre links d)) \<Longrightarrow> prefix pre n \<and> Some n \<notin> set links"
  by (auto simp: prune_trees_def Let_def)

lemma trim_space_line:
  assumes "w \<noteq> []" and "list_all (\<lambda>c. \<not> is_space c) w"
  shows "trim_space (w @ [CHR 0x0A]) = w"
proof -
  have "\<not> is_space (hd w)" "\<not> is_space (last w)" using assms by (auto simp: list_all_iff)
  moreover have "dropWhile is_space (w @ [CHR 0x0A]) = w @ [CHR 0x0A]"
    using assms(1) calculation(1) by (cases w) auto
  moreover have "dropWhile is_space (rev w) = rev w"
    using assms(1) calculation(2) by (cases w rule: rev_cases) auto
  ultimately show ?thesis by (simp add: trim_space_def)
qed

text \<open>
  The pruner keeps what anything still names. After the guest ran a tree well and it was marked
  good, pruning the guest's trees at any later launch leaves that tree, the committed one and the
  staged one in place, and removes only directories named as guest trees.
\<close>
lemma good_tree_survives_pruning:
  assumes "mark_guest_good release d = Some d'" and "release \<noteq> []" and "list_all (\<lambda>c. \<not> is_space c) release"
  shows "good_guest_release d' = release \<and>
    look (fst (prune_guest_trees d')) (guest_tree @ release) = Some Tree \<and>
    (\<forall>l\<in>{guest_link, next_of guest_link}. \<forall>t. link_target d' l = Some t \<longrightarrow>
       look (fst (prune_guest_trees d')) t = look d' t) \<and>
    list_all (\<lambda>n. prefix guest_tree n \<and> n \<noteq> guest_tree @ release) (snd (prune_guest_trees d'))"
proof -
  have tree: "look d (guest_tree @ release) = Some Tree"
    and d': "d' = place good_guest (File (release @ [CHR 0x0A])) d"
    using assms(1) by (auto simp: mark_guest_good_def split: if_splits)
  have ne: "guest_tree @ release \<noteq> good_guest" by (simp add: guest_tree_def good_guest_def)
  have good: "good_guest_release d' = release"
    using assms(2,3) trim_space_line by (simp add: good_guest_release_def release_text_def d')
  have tree': "look d' (guest_tree @ release) = Some Tree" using tree ne by (simp add: d')
  note keep = prune_trees_keeps [of _ _ guest_tree d']
  show ?thesis
    using good tree' keep assms(2)
    by (auto simp: prune_guest_trees_def Let_def list_all_iff dest: prune_trees_removed)
qed


end
