(* ===== verification/Channel.thy ===== *)
theory Channel
  imports Prelude
begin

text \<open>
  The release channel (\<open>agent/install/fetch.go\<close>): a signed manifest pins every artifact by hash and
  size, and a set is taken whole or not at all.

  The network is a function from a path under the channel root to a reply; nothing is assumed of it.
  The signature check of the keyring, the JSON decoder, SHA-256 and the zstd expansion are
  parameters, without hypotheses. A staging directory is the list of the files in it; local I/O
  errors, which abort a fetch like any refusal, are not modelled apart from a name already taken.
\<close>


section \<open>Manifests and names\<close>

record artifact =
  ar_name :: string
  ar_sha256 :: string
  ar_size :: int
  ar_mode :: nat

record manifest =
  mf_chain :: string
  mf_platform :: string
  mf_version :: string
  mf_artifacts :: "artifact list"
  mf_system :: string
  mf_min_briard :: string
  mf_vm :: string
  mf_inputs :: string
  mf_min_upgrade_from :: string

definition chain_briard :: string where "chain_briard = ''briard''"
definition chain_vm :: string where "chain_vm = ''vm''"
definition target_stable :: string where "target_stable = ''stable''"
definition target_latest :: string where "target_latest = ''latest''"
definition target_dev :: string where "target_dev = ''dev''"
definition manifest_file :: string where "manifest_file = ''manifest.json''"
definition sig_suffix :: string where "sig_suffix = ''.sig''"
definition compressed_suffix :: string where "compressed_suffix = ''.zst''"
definition max_manifest_size :: int where "max_manifest_size = 2 ^ 20"
definition max_artifact_size :: int where "max_artifact_size = 8 * 2 ^ 30"
definition signature_size :: int where "signature_size = 64"

definition is_pointer :: "string \<Rightarrow> bool" where
  "is_pointer t = (t = target_stable \<or> t = target_latest \<or> t = target_dev)"

definition char_between :: "char \<Rightarrow> char \<Rightarrow> char \<Rightarrow> bool" where
  "char_between a b c = ((of_char a :: nat) \<le> of_char c \<and> (of_char c :: nat) \<le> of_char b)"

definition segment_char :: "char \<Rightarrow> bool" where
  "segment_char c =
     (char_between (CHR ''a'') (CHR ''z'') c \<or> char_between (CHR ''A'') (CHR ''Z'') c \<or>
      char_between (CHR ''0'') (CHR ''9'') c \<or> c = CHR ''.'' \<or> c = CHR ''-'' \<or> c = CHR ''_'')"

definition valid_segment :: "string \<Rightarrow> bool" where
  "valid_segment s =
     (if s = [] \<or> hd s = CHR ''.'' \<or> 128 < length s then False else list_all segment_char s)"

text \<open>\<open>path.Join\<close> of segments that are already clean.\<close>

definition path_join :: "string list \<Rightarrow> string" where
  "path_join = join_with ''/''"

text \<open>
  The guard on an artifact's name. For a name without a slash \<open>filepath.Clean\<close> is the identity
  unless it is empty, and a clean name with a slash has a directory part.
\<close>

definition safe_name :: "string \<Rightarrow> bool" where
  "safe_name n = (n \<noteq> [] \<and> CHR ''/'' \<notin> set n \<and> n \<noteq> ''..'' \<and> n \<noteq> manifest_file)"


section \<open>Fetching\<close>

datatype fetch_error =
  NoKeyring | BadChain | BadPlatform | BadTarget | DestExists | FetchFailed | Unsigned
  | Malformed | WrongChain | Mismatch string | NameTaken string | NoPair

type_synonym network = "string \<Rightarrow> (nat \<times> string) option"
type_synonym staging = "(string \<times> string) list"

record fetcher =
  ft_chain :: string
  ft_platform :: string
  ft_keys :: "string list"
  ft_ed25519 :: "string \<Rightarrow> string \<Rightarrow> string \<Rightarrow> bool"
  ft_decode :: "string \<Rightarrow> manifest option"
  ft_sha256 :: "string \<Rightarrow> string"
  ft_expand :: "string \<Rightarrow> string option"

text \<open>\<open>Keyring.Verify\<close>: some trusted key accepts a signature of the right length; no key, no acceptance.\<close>

definition keyring_verify :: "fetcher \<Rightarrow> string \<Rightarrow> string \<Rightarrow> bool" where
  "keyring_verify f bytes sig =
     (if ft_keys f = [] then False
      else if sig = [] then False
      else if int (length sig) \<noteq> signature_size then False
      else list_ex (\<lambda>key. ft_ed25519 f key bytes sig) (ft_keys f))"

definition get_body :: "network \<Rightarrow> string \<Rightarrow> int \<Rightarrow> fetch_error + string" where
  "get_body net rel limit =
     (case net rel of
        None \<Rightarrow> Inl FetchFailed
      | Some (status, body) \<Rightarrow>
          (if status \<noteq> 200 then Inl FetchFailed
           else if limit < int (length body) then Inl FetchFailed
           else Inr body))"

definition fetch_manifest :: "fetcher \<Rightarrow> network \<Rightarrow> string \<Rightarrow> fetch_error + manifest \<times> string" where
  "fetch_manifest f net target =
     (if ft_keys f = [] then Inl NoKeyring
      else if \<not> valid_segment (ft_chain f) then Inl BadChain
      else if \<not> valid_segment (ft_platform f) then Inl BadPlatform
      else if \<not> valid_segment target then Inl BadTarget
      else
        (let at = path_join [ft_chain f, target, ft_platform f]
         in case get_body net (path_join [at, manifest_file]) max_manifest_size of
              Inl e \<Rightarrow> Inl e
            | Inr bytes \<Rightarrow>
                (case get_body net (path_join [at, manifest_file @ sig_suffix]) (signature_size + 1) of
                   Inl e \<Rightarrow> Inl e
                 | Inr sig \<Rightarrow>
                     (if \<not> keyring_verify f bytes sig then Inl Unsigned
                      else case ft_decode f bytes of
                             None \<Rightarrow> Inl Malformed
                           | Some man \<Rightarrow>
                               (if mf_artifacts man = [] then Inl Malformed
                                else if \<not> valid_segment (mf_version man) then Inl Malformed
                                else if mf_chain man \<noteq> ft_chain f \<or> mf_platform man \<noteq> ft_platform f
                                  then Inl WrongChain
                                else Inr (man, bytes))))))"

definition create_file :: "string \<Rightarrow> string \<Rightarrow> staging \<Rightarrow> fetch_error + staging" where
  "create_file n body dir =
     (if n = [] \<or> n = ''.'' \<or> n \<in> fst ` set dir then Inl (NameTaken n) else Inr (dir @ [(n, body)]))"

definition expand_file :: "fetcher \<Rightarrow> string \<Rightarrow> string \<Rightarrow> staging \<Rightarrow> fetch_error + staging" where
  "expand_file f src body dir =
     (case ft_expand f body of
        None \<Rightarrow> Inl FetchFailed
      | Some plain \<Rightarrow>
          (if max_artifact_size < int (length plain) then Inl (Mismatch src)
           else case create_file (take (length src - length compressed_suffix) src) plain dir of
                  Inl e \<Rightarrow> Inl e
                | Inr dir' \<Rightarrow> Inr (filter (\<lambda>(n, _). n \<noteq> src) dir')))"

text \<open>\<open>io.LimitReader\<close>: at most so many bytes of the reply are ever read.\<close>

definition limit_read :: "int \<Rightarrow> string \<Rightarrow> string" where
  "limit_read n reply = take (nat n) reply"

definition fetch_artifact :: "fetcher \<Rightarrow> network \<Rightarrow> string \<Rightarrow> staging \<Rightarrow> artifact \<Rightarrow> fetch_error + staging" where
  "fetch_artifact f net from dir a =
     (if ar_size a < 0 \<or> max_artifact_size < ar_size a then Inl (Mismatch (ar_name a))
      else if \<not> safe_name (ar_name a) then Inl (Mismatch (ar_name a))
      else
        (case net (path_join [from, ar_name a]) of
           None \<Rightarrow> Inl FetchFailed
         | Some (status, reply) \<Rightarrow>
             (if status \<noteq> 200 then Inl FetchFailed
              else
                (let body = limit_read (ar_size a + 1) reply
                 in case create_file (ar_name a) body dir of
                      Inl e \<Rightarrow> Inl e
                    | Inr dir' \<Rightarrow>
                        (if int (length body) \<noteq> ar_size a then Inl (Mismatch (ar_name a))
                         else if ft_sha256 f body \<noteq> ar_sha256 a then Inl (Mismatch (ar_name a))
                         else if suffix compressed_suffix (ar_name a) then expand_file f (ar_name a) body dir'
                         else Inr dir')))))"

fun fetch_artifacts :: "fetcher \<Rightarrow> network \<Rightarrow> string \<Rightarrow> staging \<Rightarrow> artifact list \<Rightarrow> fetch_error + staging" where
  "fetch_artifacts f net from dir [] = Inr dir"
| "fetch_artifacts f net from dir (a # as) =
     (case fetch_artifact f net from dir a of
        Inl e \<Rightarrow> Inl e
      | Inr dir' \<Rightarrow> fetch_artifacts f net from dir' as)"

text \<open>
  \<open>FetchVerified\<close>: the whole set, or nothing; the result is what is renamed into place at once.
  The manifest is written last: its name cannot be an artifact's.
\<close>

definition fetch_verified :: "fetcher \<Rightarrow> network \<Rightarrow> bool \<Rightarrow> string \<Rightarrow> fetch_error + staging" where
  "fetch_verified f net dest_exists target =
     (if ft_keys f = [] then Inl NoKeyring
      else if \<not> valid_segment (ft_chain f) then Inl BadChain
      else if \<not> valid_segment (ft_platform f) then Inl BadPlatform
      else if \<not> valid_segment target then Inl BadTarget
      else if dest_exists then Inl DestExists
      else
        (case fetch_manifest f net target of
           Inl e \<Rightarrow> Inl e
         | Inr (man, bytes) \<Rightarrow>
             (case fetch_artifacts f net (path_join [ft_chain f, mf_version man, ft_platform f]) []
                     (mf_artifacts man) of
                Inl e \<Rightarrow> Inl e
              | Inr dir \<Rightarrow> Inr ((manifest_file, bytes) # filter (\<lambda>(n, _). n \<noteq> manifest_file) dir))))"

text \<open>
  \<open>FetchRelease\<close>: the briard set, then the vm release its manifest names unless that is the one
  installed here. The result is the two directories renamed into place at once.
\<close>

definition fetch_release ::
  "fetcher \<Rightarrow> fetcher \<Rightarrow> network \<Rightarrow> bool \<Rightarrow> string \<Rightarrow> string \<Rightarrow> fetch_error + staging \<times> staging option" where
  "fetch_release bf vf net dest_exists release have_vm =
     (if dest_exists then Inl DestExists
      else
        (case fetch_verified bf net False release of
           Inl e \<Rightarrow> Inl e
         | Inr briard \<Rightarrow>
             (case map_of briard manifest_file of
                None \<Rightarrow> Inl Malformed
              | Some bytes \<Rightarrow>
                  (case ft_decode bf bytes of
                     None \<Rightarrow> Inl Malformed
                   | Some bm \<Rightarrow>
                       (if mf_vm bm = [] then Inl NoPair
                        else if mf_vm bm = have_vm then Inr (briard, None)
                        else case fetch_verified vf net False (mf_vm bm) of
                               Inl e \<Rightarrow> Inl e
                             | Inr vm \<Rightarrow> Inr (briard, Some vm))))))"



section \<open>What a segment can do\<close>

lemma segment_char_safe: "segment_char c \<Longrightarrow> c \<noteq> CHR ''/'' \<and> \<not> is_space c"
  by (auto simp: segment_char_def char_between_def is_space_def)

lemma valid_segment_safe:
  assumes "valid_segment s"
  shows "s \<noteq> []" and "CHR ''/'' \<notin> set s" and "s \<noteq> ''.''" and "s \<noteq> ''..''"
    and "list_all (\<lambda>c. \<not> is_space c) s"
proof -
  have v: "s \<noteq> []" "hd s \<noteq> CHR ''.''" "list_all segment_char s"
    using assms by (auto simp: valid_segment_def split: if_splits)
  show "s \<noteq> []" by (rule v)
  show "CHR ''/'' \<notin> set s" using v(3) segment_char_safe by (auto simp: list_all_iff)
  show "s \<noteq> ''.''" "s \<noteq> ''..''" using v(2) by auto
  show "list_all (\<lambda>c. \<not> is_space c) s" using v(3) segment_char_safe by (auto simp: list_all_iff)
qed


section \<open>What a fetch accepts\<close>

lemma fetch_manifest_Inr:
  "fetch_manifest f net target = Inr (man, bytes) \<Longrightarrow>
   (\<exists>sig. keyring_verify f bytes sig) \<and> ft_decode f bytes = Some man \<and> mf_artifacts man \<noteq> [] \<and>
   valid_segment (mf_version man) \<and> mf_chain man = ft_chain f \<and> mf_platform man = ft_platform f"
  by (auto simp: fetch_manifest_def Let_def split: if_splits sum.splits option.splits)

text \<open>A file of the set is an artifact as signed, or its expansion under the name less the suffix.\<close>

definition pinned :: "fetcher \<Rightarrow> artifact \<Rightarrow> string \<Rightarrow> bool" where
  "pinned f a raw = (int (length raw) = ar_size a \<and> ft_sha256 f raw = ar_sha256 a)"

definition file_of :: "fetcher \<Rightarrow> artifact \<Rightarrow> string \<times> string \<Rightarrow> bool" where
  "file_of f a = (\<lambda>(n, body). \<exists>raw. pinned f a raw \<and>
     (if suffix compressed_suffix (ar_name a) then n @ compressed_suffix = ar_name a \<and> ft_expand f raw = Some body
      else n = ar_name a \<and> body = raw))"

lemma create_file_Inr:
  "create_file n body dir = Inr dir' \<longleftrightarrow> n \<noteq> [] \<and> n \<noteq> ''.'' \<and> n \<notin> fst ` set dir \<and> dir' = dir @ [(n, body)]"
  by (auto simp: create_file_def)

lemma take_stem: "suffix s n \<Longrightarrow> take (length n - length s) n @ s = n"
  by (auto simp: suffix_def)

lemma filter_new: "n \<notin> fst ` set dir \<Longrightarrow> filter (\<lambda>(m, _). m \<noteq> n) dir = dir"
  by (induction dir) auto

lemma fetch_artifact_Inr:
  assumes "fetch_artifact f net from dir a = Inr dir'"
  shows "\<exists>x. dir' = dir @ [x] \<and> file_of f a x \<and> fst x \<notin> fst ` set dir \<and> safe_name (ar_name a)"
proof -
  from assms obtain raw dir1 where safe: "safe_name (ar_name a)"
    and c: "create_file (ar_name a) raw dir = Inr dir1" and pin: "pinned f a raw"
    and d: "(if suffix compressed_suffix (ar_name a) then expand_file f (ar_name a) raw dir1 else Inr dir1) = Inr dir'"
    by (auto simp: fetch_artifact_def Let_def pinned_def split: if_splits option.splits sum.splits)
  let ?raw = raw and ?n = "ar_name a"
  have dir1: "dir1 = dir @ [(?n, ?raw)]" "?n \<notin> fst ` set dir" using c by (auto simp: create_file_Inr)
  show ?thesis
  proof (cases "suffix compressed_suffix ?n")
    case False
    then show ?thesis using d dir1 pin safe by (auto simp: file_of_def)
  next
    case True
    let ?stem = "take (length ?n - length compressed_suffix) ?n"
    from d True obtain plain dir2 where e: "ft_expand f ?raw = Some plain"
      and c2: "create_file ?stem plain dir1 = Inr dir2" and d2: "dir' = filter (\<lambda>(n, _). n \<noteq> ?n) dir2"
      by (auto simp: expand_file_def split: option.splits if_splits sum.splits)
    have st: "?stem @ compressed_suffix = ?n" using True by (rule take_stem)
    have "?stem \<noteq> ?n" using st by (metis append_self_conv compressed_suffix_def list.distinct(1))
    then have "dir' = dir @ [(?stem, plain)]" "?stem \<notin> fst ` set dir"
      using c2 d2 dir1 filter_new [OF dir1(2)] by (auto simp: create_file_Inr)
    then show ?thesis using True st e pin safe by (auto simp: file_of_def)
  qed
qed

lemma fetch_artifacts_Inr:
  "fetch_artifacts f net from dir as = Inr dir' \<Longrightarrow>
   \<exists>xs. dir' = dir @ xs \<and> list_all2 (file_of f) as xs \<and> distinct (map fst xs) \<and>
     fst ` set xs \<inter> fst ` set dir = {} \<and> list_all (\<lambda>a. safe_name (ar_name a)) as"
proof (induction as arbitrary: dir)
  case Nil then show ?case by simp
next
  case (Cons a as)
  then obtain dir1 where a: "fetch_artifact f net from dir a = Inr dir1"
    and rest: "fetch_artifacts f net from dir1 as = Inr dir'" by (auto split: sum.splits)
  obtain x where x: "dir1 = dir @ [x]" "file_of f a x" "fst x \<notin> fst ` set dir" "safe_name (ar_name a)"
    using fetch_artifact_Inr [OF a] by blast
  obtain xs where "dir' = dir1 @ xs" "list_all2 (file_of f) as xs" "distinct (map fst xs)"
    "fst ` set xs \<inter> fst ` set dir1 = {}" "list_all (\<lambda>a. safe_name (ar_name a)) as"
    using Cons.IH [OF rest] by blast
  with x show ?case by (intro exI [of _ "x # xs"]) auto
qed


section \<open>Properties\<close>

text \<open>
  C13: Nothing unsigned is ever put in place, whatever the network serves. If a fetch succeeds, the
  manifest beside the set verified under a trusted key, names the chain and platform asked for and a
  version that is one plain path element; and every other file of the set is an artifact of that
  manifest with exactly the signed size and hash, or the expansion of one.
\<close>
theorem fetched_set_is_signed:
  assumes "fetch_verified f net dest_exists target = Inr files"
  shows "\<exists>bytes sig man. map_of files manifest_file = Some bytes \<and> keyring_verify f bytes sig \<and>
    ft_decode f bytes = Some man \<and> mf_chain man = ft_chain f \<and> mf_platform man = ft_platform f \<and>
    CHR ''/'' \<notin> set (mf_version man) \<and> mf_version man \<noteq> ''..'' \<and>
    (\<forall>x\<in>set files. fst x \<noteq> manifest_file \<longrightarrow> (\<exists>a\<in>set (mf_artifacts man). file_of f a x))"
proof -
  obtain man bytes dir where m: "fetch_manifest f net target = Inr (man, bytes)"
    and a: "fetch_artifacts f net (path_join [ft_chain f, mf_version man, ft_platform f]) [] (mf_artifacts man) = Inr dir"
    and files: "files = (manifest_file, bytes) # filter (\<lambda>(n, _). n \<noteq> manifest_file) dir"
    using assms by (auto simp: fetch_verified_def split: if_splits sum.splits)
  obtain sig where sig: "keyring_verify f bytes sig" and man: "ft_decode f bytes = Some man"
    "mf_chain man = ft_chain f" "mf_platform man = ft_platform f" "valid_segment (mf_version man)"
    using fetch_manifest_Inr [OF m] by blast
  have "list_all2 (file_of f) (mf_artifacts man) dir" using fetch_artifacts_Inr [OF a] by auto
  then have "\<exists>a\<in>set (mf_artifacts man). file_of f a x" if "x \<in> set dir" for x
    using that by (metis in_set_conv_nth list_all2_conv_all_nth nth_mem)
  moreover have "x \<in> set dir" if "x \<in> set files" "fst x \<noteq> manifest_file" for x using that files by auto
  moreover have "map_of files manifest_file = Some bytes" by (simp add: files)
  ultimately show ?thesis using sig man valid_segment_safe [OF man(4)] by blast
qed

definition toy_manifest :: manifest where
  "toy_manifest = \<lparr>mf_chain = chain_briard, mf_platform = ''linux-amd64'', mf_version = ''v3.26110216.07bf1e6'',
     mf_artifacts = [\<lparr>ar_name = ''briard-agent'', ar_sha256 = ''elf'', ar_size = 3, ar_mode = 493\<rparr>,
       \<lparr>ar_name = ''qemu-bundle.tar.zst'', ar_sha256 = ''zz'', ar_size = 2, ar_mode = 0\<rparr>],
     mf_system = [], mf_min_briard = [], mf_vm = ''v3.26110216.07bf1e6'', mf_inputs = [], mf_min_upgrade_from = []\<rparr>"

text \<open>A channel with toy cryptography: a key signs by repetition, a hash is the text itself.\<close>

definition toy_signature :: string where
  "toy_signature = replicate 64 (CHR ''k'')"

definition toy_fetcher :: fetcher where
  "toy_fetcher = \<lparr>ft_chain = chain_briard, ft_platform = ''linux-amd64'', ft_keys = [''k''],
     ft_ed25519 = (\<lambda>key bytes sig. bytes = ''m'' \<and> sig = concat (replicate 64 key)),
     ft_decode = (\<lambda>bytes. if bytes = ''m'' then Some toy_manifest else None),
     ft_sha256 = id, ft_expand = (\<lambda>z. Some (z @ z))\<rparr>"

definition toy_network :: network where
  "toy_network p =
     (if p = ''briard/stable/linux-amd64/manifest.json'' then Some (200, ''m'')
      else if p = ''briard/stable/linux-amd64/manifest.json.sig'' then Some (200, toy_signature)
      else if p = ''briard/v3.26110216.07bf1e6/linux-amd64/briard-agent'' then Some (200, ''elf'')
      else if p = ''briard/v3.26110216.07bf1e6/linux-amd64/qemu-bundle.tar.zst'' then Some (200, ''zz'')
      else None)"

theorem fetched_set_is_signed_witness:
  "fetch_verified toy_fetcher toy_network False ''stable'' =
     Inr [(manifest_file, ''m''), (''briard-agent'', ''elf''), (''qemu-bundle.tar'', ''zzzz'')] \<and>
   (\<exists>a\<in>set (mf_artifacts toy_manifest). file_of toy_fetcher a (''briard-agent'', ''elf''))"
proof -
  let ?files = "[(manifest_file, ''m''), (''briard-agent'', ''elf''), (''qemu-bundle.tar'', ''zzzz'')]"
  have r: "fetch_verified toy_fetcher toy_network False ''stable'' = Inr ?files" by code_simp
  obtain bytes man where b: "map_of ?files manifest_file = Some bytes" "ft_decode toy_fetcher bytes = Some man"
    and all: "\<forall>x\<in>set ?files. fst x \<noteq> manifest_file \<longrightarrow> (\<exists>a\<in>set (mf_artifacts man). file_of toy_fetcher a x)"
    using fetched_set_is_signed [OF r] by blast
  have "bytes = ''m''" using b(1) by simp
  then have "man = toy_manifest" using b(2) by (simp add: toy_fetcher_def)
  then have "\<exists>a\<in>set (mf_artifacts toy_manifest). file_of toy_fetcher a (''briard-agent'', ''elf'')"
    using all by (auto simp: manifest_file_def)
  with r show ?thesis by blast
qed

text \<open>
  A set is whole. If a fetch succeeds, every artifact the signed manifest lists is in it, under
  its own name or, where it shipped compressed, expanded under the name without the suffix; only a
  compressed \<open>manifest.json\<close> would give way to the manifest itself.
\<close>
lemma fetched_set_is_whole:
  assumes "fetch_verified f net dest_exists target = Inr files"
    and "map_of files manifest_file = Some bytes" and "ft_decode f bytes = Some man"
    and "a \<in> set (mf_artifacts man)" and "ar_name a \<noteq> manifest_file @ compressed_suffix"
  shows "\<exists>x\<in>set files. file_of f a x"
proof -
  obtain man' bytes' dir where m: "fetch_manifest f net target = Inr (man', bytes')"
    and l: "fetch_artifacts f net (path_join [ft_chain f, mf_version man', ft_platform f]) [] (mf_artifacts man') = Inr dir"
    and files: "files = (manifest_file, bytes') # filter (\<lambda>(n, _). n \<noteq> manifest_file) dir"
    using assms(1) by (auto simp: fetch_verified_def split: if_splits sum.splits)
  have man: "man' = man" using assms(2,3) files fetch_manifest_Inr [OF m] by simp
  have l2: "list_all2 (file_of f) (mf_artifacts man) dir" "list_all (\<lambda>a. safe_name (ar_name a)) (mf_artifacts man)"
    using fetch_artifacts_Inr [OF l] man by auto
  then obtain x where x: "x \<in> set dir" "file_of f a x"
    using assms(4) by (metis in_set_conv_nth list_all2_conv_all_nth nth_mem)
  have "safe_name (ar_name a)" using l2(2) assms(4) by (simp add: list_all_iff)
  then have "fst x \<noteq> manifest_file"
    using x(2) assms(5) by (auto simp: file_of_def safe_name_def split: if_splits)
  then have "x \<in> set files" using x(1) files by auto
  with x(2) show ?thesis by blast
qed

end
