(* ===== verification/Update.thy ===== *)
theory Update
  imports Channel SelfUpdate
begin

text \<open>
  The update verb (\<open>agent/install/update.go\<close>): what is installed over what (\<open>Decide\<close>), and one run
  of the procedure over the directory of \<open>SelfUpdate\<close>.

  What a run meets from outside is the record \<open>run_world\<close>: the manifests the channel serves, which
  fetches, stagings, stops and starts work, and where a swap, a commit or a revert is cut by an
  error. A file in the directory stands for its bytes by their hash; the staged manifest by its bytes.
\<close>


section \<open>The decision\<close>

datatype decision = Install | AlreadyAt | PastStable

datatype decide_error = OtherChain | FloorUnreadable | TooOldToUpgrade | NoDate | NotThatRelease | BelowFloor

definition date_of :: "string \<Rightarrow> int option" where
  "date_of release =
     (case split_on (CHR ''.'') release of
        _ # d # _ \<Rightarrow> (case atoi d of Some n \<Rightarrow> (if length d \<noteq> 8 then None else Some n) | None \<Rightarrow> None)
      | _ \<Rightarrow> None)"

definition wrong_chain :: "manifest \<Rightarrow> manifest option \<Rightarrow> bool" where
  "wrong_chain want have' =
     (case have' of None \<Rightarrow> False | Some h \<Rightarrow> mf_chain h \<noteq> mf_chain want \<or> mf_platform h \<noteq> mf_platform want)"

definition upgrade_floor :: "manifest \<Rightarrow> manifest option \<Rightarrow> decide_error option" where
  "upgrade_floor want have' =
     (case have' of
        None \<Rightarrow> None
      | Some h \<Rightarrow>
          (if mf_min_upgrade_from want = [] then None
           else case date_of (mf_min_upgrade_from want) of
                  None \<Rightarrow> Some FloorUnreadable
                | Some floor_date \<Rightarrow>
                    (case date_of (mf_version h) of
                       None \<Rightarrow> Some TooOldToUpgrade
                     | Some have_date \<Rightarrow> (if have_date < floor_date then Some TooOldToUpgrade else None))))"

definition same_or_install :: "manifest \<Rightarrow> manifest option \<Rightarrow> decision" where
  "same_or_install want have' =
     (case have' of
        None \<Rightarrow> Install
      | Some h \<Rightarrow> (if mf_version h = mf_version want then AlreadyAt else Install))"

definition decide_stable :: "manifest \<Rightarrow> int \<Rightarrow> manifest option \<Rightarrow> decide_error + decision" where
  "decide_stable want want_date have' =
     (case have' of
        None \<Rightarrow> Inr Install
      | Some h \<Rightarrow>
          (case date_of (mf_version h) of
             None \<Rightarrow> Inl NoDate
           | Some have_date \<Rightarrow>
               (if have_date < want_date then Inr Install
                else if mf_version h \<noteq> mf_version want then Inr PastStable
                else Inr (same_or_install want have'))))"

definition decide_pin :: "string \<Rightarrow> manifest \<Rightarrow> int \<Rightarrow> manifest option \<Rightarrow> manifest option \<Rightarrow> decide_error + decision" where
  "decide_pin target want want_date have' stb =
     (if mf_version want \<noteq> target then Inl NotThatRelease
      else case stb of
             None \<Rightarrow> Inl BelowFloor
           | Some s \<Rightarrow>
               (case date_of (mf_version s) of
                  None \<Rightarrow> Inl NoDate
                | Some stable_date \<Rightarrow>
                    (if want_date < stable_date then Inl BelowFloor else Inr (same_or_install want have'))))"

definition decide_update :: "string \<Rightarrow> manifest \<Rightarrow> manifest option \<Rightarrow> manifest option \<Rightarrow> decide_error + decision" where
  "decide_update target want have' stb =
     (if wrong_chain want have' then Inl OtherChain
      else case upgrade_floor want have' of
             Some e \<Rightarrow> Inl e
           | None \<Rightarrow>
               (case date_of (mf_version want) of
                  None \<Rightarrow> Inl NoDate
                | Some want_date \<Rightarrow>
                    (if target = target_stable then decide_stable want want_date have'
                     else if target = target_latest \<or> target = target_dev then Inr (same_or_install want have')
                     else decide_pin target want want_date have' stb)))"

datatype vm_error = VmNoDate | BriardTooOld

definition briard_satisfies :: "string \<Rightarrow> string \<Rightarrow> vm_error option" where
  "briard_satisfies min_briard briard =
     (if min_briard = [] then None
      else case date_of min_briard of
             None \<Rightarrow> Some VmNoDate
           | Some need \<Rightarrow>
               (case date_of briard of
                  None \<Rightarrow> Some BriardTooOld
                | Some have_date \<Rightarrow> (if have_date < need then Some BriardTooOld else None)))"

fun unchanged_in :: "artifact list \<Rightarrow> artifact \<Rightarrow> bool" where
  "unchanged_in [] a = False"
| "unchanged_in (h # hs) a = (if ar_name h = ar_name a then ar_sha256 h = ar_sha256 a else unchanged_in hs a)"

definition unchanged :: "manifest option \<Rightarrow> artifact \<Rightarrow> bool" where
  "unchanged have' a = (case have' of None \<Rightarrow> False | Some h \<Rightarrow> unchanged_in (mf_artifacts h) a)"


section \<open>One run\<close>

definition artifact_agent :: string where "artifact_agent = ''briard-agent''"
definition artifact_qemu :: string where "artifact_qemu = ''qemu-bundle.tar.zst''"
definition artifact_net_wrap :: string where "artifact_net_wrap = ''briard-net-wrap''"
definition artifact_tray :: string where "artifact_tray = ''briard-tray.exe''"
definition artifact_guest :: string where "artifact_guest = ''guest-bundle.tar.zst''"
definition revert_tries :: nat where "revert_tries = 4"

record run_world =
  rw_rec_commit_cut :: "nat option"
  rw_rec_stop :: bool
  rw_rec_revert_cuts :: "nat option list"
  rw_rec_start :: bool
  rw_stopped :: bool
  rw_want :: "manifest option"
  rw_bytes :: string
  rw_stable :: "manifest option"
  rw_have :: "manifest option"
  rw_fetch :: "string \<Rightarrow> bool"
  rw_stage :: "string \<Rightarrow> bool"
  rw_smoke :: bool
  rw_stop :: bool
  rw_swap_cut :: "nat option"
  rw_start :: bool
  rw_commit_cut :: "nat option"
  rw_revert_cuts :: "nat option list"
  rw_restart :: bool
  rw_held :: "string \<Rightarrow> bool"
  rw_stamp :: string

datatype run_end =
  BadRunTarget | ReconcileFailed | Deferred | FetchRefused | DecideRefused decide_error
  | Stays decision | NoAgent | StageFailed | SmokeRefused | StopFailed
  | Reverted | RevertedNotStarted | RevertFailed | UpdatedTo string

text \<open>What the artifact loop collects, with the trees it extracts on the way.\<close>

record plan =
  pl_agent :: "artifact option"
  pl_net_wrap :: "artifact option"
  pl_tray :: "artifact option"
  pl_qemu :: string
  pl_guest :: string

definition empty_plan :: plan where
  "empty_plan = \<lparr>pl_agent = None, pl_net_wrap = None, pl_tray = None, pl_qemu = [], pl_guest = []\<rparr>"

text \<open>
  A tree that is already there is reused: it appears only by a rename, so it is whole. An artifact
  that cannot be fetched refuses the run; a tree extracted before that stays, named by no link.
\<close>

definition plan_tree :: "run_world \<Rightarrow> artifact \<Rightarrow> string \<Rightarrow> string \<Rightarrow> base_dir \<Rightarrow> (base_dir \<times> bool) option" where
  "plan_tree w a link tree d =
     (if unchanged (rw_have w) a then Some (d, False)
      else if link_target d link = Some tree then Some (d, False)
      else if present d tree then Some (d, True)
      else if \<not> rw_fetch w (ar_name a) then None
      else Some (place tree Tree d, True))"

definition plan_artifact :: "run_world \<Rightarrow> string \<Rightarrow> base_dir \<Rightarrow> plan \<Rightarrow> artifact \<Rightarrow> base_dir \<times> plan option" where
  "plan_artifact w version d pl a =
     (if ar_name a = artifact_agent then
       (if \<not> rw_fetch w (ar_name a) then (d, None) else (d, Some (pl\<lparr>pl_agent := Some a\<rparr>)))
     else if ar_name a = artifact_net_wrap then
       (if unchanged (rw_have w) a then (d, Some pl)
        else if \<not> rw_fetch w (ar_name a) then (d, None) else (d, Some (pl\<lparr>pl_net_wrap := Some a\<rparr>)))
     else if ar_name a = artifact_tray then
       (if unchanged (rw_have w) a then (d, Some pl)
        else if \<not> rw_fetch w (ar_name a) then (d, None) else (d, Some (pl\<lparr>pl_tray := Some a\<rparr>)))
     else if ar_name a = artifact_qemu then
       (case plan_tree w a qemu_link (qemu_tree @ version) d of
          None \<Rightarrow> (d, None)
        | Some (d', use) \<Rightarrow> (d', Some (if use then pl\<lparr>pl_qemu := qemu_tree @ version\<rparr> else pl)))
     else if ar_name a = artifact_guest then
       (case plan_tree w a guest_link (guest_tree @ version) d of
          None \<Rightarrow> (d, None)
        | Some (d', use) \<Rightarrow> (d', Some (if use then pl\<lparr>pl_guest := guest_tree @ version\<rparr> else pl)))
     else (d, Some pl))"

fun plan_artifacts :: "run_world \<Rightarrow> string \<Rightarrow> base_dir \<Rightarrow> plan \<Rightarrow> artifact list \<Rightarrow> base_dir \<times> plan option" where
  "plan_artifacts w version d pl [] = (d, Some pl)"
| "plan_artifacts w version d pl (a # as) =
     (case plan_artifact w version d pl a of
        (d', None) \<Rightarrow> (d', None)
      | (d', Some pl') \<Rightarrow> plan_artifacts w version d' pl' as)"

text \<open>The stagings of a plan, in the code's order; the first that fails stops the run.\<close>

definition staged_files :: "run_world \<Rightarrow> artifact \<Rightarrow> plan \<Rightarrow> (string \<times> node) list" where
  "staged_files w agent pl =
     [(agent_name, File (ar_sha256 agent))] @
     (case pl_net_wrap pl of Some a \<Rightarrow> [(net_wrap_name, File (ar_sha256 a))] | None \<Rightarrow> []) @
     (case pl_tray pl of Some a \<Rightarrow> [(tray_name, File (ar_sha256 a))] | None \<Rightarrow> []) @
     (if pl_qemu pl \<noteq> [] then [(qemu_link, Link (pl_qemu pl))] else []) @
     (if pl_guest pl \<noteq> [] then [(guest_link, Link (pl_guest pl))] else []) @
     [(manifest_name, File (rw_bytes w))]"

fun stage_all :: "run_world \<Rightarrow> (string \<times> node) list \<Rightarrow> base_dir \<Rightarrow> base_dir \<times> bool" where
  "stage_all w [] d = (d, True)"
| "stage_all w ((e, x) # es) d = (if \<not> rw_stage w e then (d, False) else stage_all w es (stage e x d))"

definition cut :: "nat option \<Rightarrow> move list \<Rightarrow> move list" where
  "cut at ms = (case at of None \<Rightarrow> ms | Some k \<Rightarrow> take k ms)"

fun revert_layout :: "nat \<Rightarrow> nat option list \<Rightarrow> base_dir \<Rightarrow> base_dir \<times> bool" where
  "revert_layout try [] d = (apply_moves d (revert d), True)"
| "revert_layout try (None # cuts) d = (apply_moves d (revert d), True)"
| "revert_layout try (Some k # cuts) d =
     (let d' = apply_moves d (take k (revert d))
      in if try = revert_tries then (d', False) else revert_layout (try + 1) cuts d')"

definition reconcile_run :: "run_world \<Rightarrow> base_dir \<Rightarrow> base_dir \<times> bool" where
  "reconcile_run w d =
     (if \<not> interrupted d then (apply_moves d (cut (rw_rec_commit_cut w) (commit (rw_held w) (rw_stamp w) d)), rw_rec_commit_cut w = None)
      else if \<not> rw_rec_stop w then (d, False)
      else
        (let (d', ok) = revert_layout 1 (rw_rec_revert_cuts w) d
         in if \<not> ok then (d', False) else (discard_next d', rw_rec_start w)))"

text \<open>\<open>revert\<close>: a candidate that did not start, or a swap that failed part-way.\<close>

definition revert_run :: "run_world \<Rightarrow> base_dir \<Rightarrow> base_dir \<times> run_end" where
  "revert_run w d =
     (let (d', ok) = revert_layout 1 (rw_revert_cuts w) d
      in if \<not> ok then (d', RevertFailed)
         else (discard_next d', if rw_restart w then Reverted else RevertedNotStarted))"

definition swap_run :: "run_world \<Rightarrow> string \<Rightarrow> base_dir \<Rightarrow> base_dir \<times> run_end" where
  "swap_run w version d =
     (case swap d of
        None \<Rightarrow> revert_run w d
      | Some ms \<Rightarrow>
          (let d1 = apply_moves d (cut (rw_swap_cut w) ms)
           in if rw_swap_cut w \<noteq> None \<or> \<not> rw_start w then revert_run w d1
              else (apply_moves d1 (cut (rw_commit_cut w) (commit (rw_held w) (rw_stamp w) d1)), UpdatedTo version)))"

definition install_run :: "run_world \<Rightarrow> manifest \<Rightarrow> base_dir \<Rightarrow> base_dir \<times> run_end" where
  "install_run w want d =
     (case plan_artifacts w (mf_version want) d empty_plan (mf_artifacts want) of
        (d1, None) \<Rightarrow> (d1, FetchRefused)
      | (d1, Some pl) \<Rightarrow>
          (case pl_agent pl of
             None \<Rightarrow> (d1, NoAgent)
           | Some agent \<Rightarrow>
               (let (d2, ok) = stage_all w (staged_files w agent pl) (discard_next d1)
                in if \<not> ok then (d2, StageFailed)
                   else if pl_qemu pl \<noteq> [] \<and> \<not> rw_smoke w then (discard_next d2, SmokeRefused)
                   else if \<not> rw_stop w then (discard_next d2, StopFailed)
                   else swap_run w (mf_version want) d2)))"

definition run_update :: "run_world \<Rightarrow> string \<Rightarrow> base_dir \<Rightarrow> base_dir \<times> run_end" where
  "run_update w target d =
     (if \<not> valid_segment target then (d, BadRunTarget)
      else
        (let (d, ok) = reconcile_run w d
         in if \<not> ok then (d, ReconcileFailed)
            else if rw_stopped w then (d, Deferred)
            else case rw_want w of
                   None \<Rightarrow> (d, FetchRefused)
                 | Some want \<Rightarrow>
                     (if \<not> is_pointer target \<and> rw_stable w = None then (d, DecideRefused BelowFloor)
                      else case decide_update target want (rw_have w)
                                  (if is_pointer target then None else rw_stable w) of
                             Inl e \<Rightarrow> (d, DecideRefused e)
                           | Inr Install \<Rightarrow> install_run w want d
                           | Inr stay \<Rightarrow> (d, Stays stay))))"



section \<open>Lemmas of the decision\<close>

lemma decide_floor:
  assumes "decide_update target want (Some h) stb = Inr dec" and "mf_min_upgrade_from want \<noteq> []"
  shows "\<exists>hd fd. date_of (mf_version h) = Some hd \<and> date_of (mf_min_upgrade_from want) = Some fd \<and> fd \<le> hd"
  using assms by (auto simp: decide_update_def upgrade_floor_def split: if_splits option.splits)

lemma decide_chain:
  "decide_update target want (Some h) stb = Inr dec \<Longrightarrow> mf_chain h = mf_chain want \<and> mf_platform h = mf_platform want"
  by (auto simp: decide_update_def wrong_chain_def split: if_splits)

lemma decide_dates:
  "decide_update target want have' stb = Inr Install \<Longrightarrow> \<exists>wd. date_of (mf_version want) = Some wd \<and>
     (target = target_stable \<longrightarrow> (\<forall>h. have' = Some h \<longrightarrow> (\<exists>hd. date_of (mf_version h) = Some hd \<and> hd < wd))) \<and>
     (\<not> is_pointer target \<longrightarrow> mf_version want = target \<and>
        (\<exists>s sd. stb = Some s \<and> date_of (mf_version s) = Some sd \<and> sd \<le> wd))"
  by (auto simp: decide_update_def decide_stable_def decide_pin_def same_or_install_def is_pointer_def
      split: if_splits option.splits)

text \<open>
  What an update may install. A decision to install stays on the installed chain and platform;
  it never crosses the floor the release declares; for \<open>stable\<close> the release is newer, by date, than the
  installed one; and an exact pin is the release named, never older than the current stable release.
\<close>
lemma install_stays_above_floors:
  assumes "decide_update target want (Some h) stb = Inr Install"
  shows "mf_chain h = mf_chain want \<and> mf_platform h = mf_platform want \<and>
    (mf_min_upgrade_from want = [] \<or>
      (\<exists>hd fd. date_of (mf_version h) = Some hd \<and> date_of (mf_min_upgrade_from want) = Some fd \<and> fd \<le> hd)) \<and>
    (\<exists>wd. date_of (mf_version want) = Some wd \<and>
      (target \<noteq> target_stable \<or> (\<exists>hd. date_of (mf_version h) = Some hd \<and> hd < wd)) \<and>
      (is_pointer target \<or> mf_version want = target \<and>
         (\<exists>s sd. stb = Some s \<and> date_of (mf_version s) = Some sd \<and> sd \<le> wd)))"
  using decide_chain [OF assms] decide_floor [OF assms] decide_dates [OF assms] by blast

definition release :: "string \<Rightarrow> manifest" where
  "release v = toy_manifest\<lparr>mf_version := v, mf_min_upgrade_from := ''v3.26110216.07bf1e6''\<rparr>"

text \<open>
  An update settles. Once a release is installed, no target that serves it is ever a reason to
  install it again, so a nightly run does not bounce an agent that is up to date.
\<close>
lemma installed_release_is_not_reinstalled:
  "decide_update target want (Some want) stb \<noteq> Inr Install"
  by (auto simp: decide_update_def decide_stable_def decide_pin_def same_or_install_def
      split: if_splits option.splits)



section \<open>Lemmas of a run\<close>

definition clean :: "base_dir \<Rightarrow> bool" where
  "clean d = (present d agent_name \<and> list_all (\<lambda>e. \<not> present d (prev_of e)) entries)"

definition same_entries :: "base_dir \<Rightarrow> base_dir \<Rightarrow> bool" where
  "same_entries old d = list_all (\<lambda>e. look d e = look old e \<and> look d (prev_of e) = None) entries"

lemma same_entries_refl: "clean d \<Longrightarrow> same_entries d d"
  by (simp add: clean_def same_entries_def present_def list_all_iff)

lemma same_entries_frame:
  assumes "same_entries old d" and "\<And>e. e \<in> set entries \<Longrightarrow> look d' e = look d e"
    and "\<And>e. e \<in> set entries \<Longrightarrow> look d' (prev_of e) = look d (prev_of e)"
  shows "same_entries old d'"
  using assms by (simp add: same_entries_def list_all_iff)

lemma same_entries_before: "same_entries old d \<Longrightarrow> as_before old d"
  by (simp add: same_entries_def as_before_def list_all_iff)

lemma same_entries_clean: "same_entries old d \<Longrightarrow> clean old \<Longrightarrow> clean d"
  using entries_agent(2) by (simp add: same_entries_def clean_def present_def list_all_iff)

lemma as_before_trans: "same_entries old d \<Longrightarrow> as_before d d' \<Longrightarrow> as_before old d'"
  by (simp add: same_entries_def as_before_def present_def list_all_iff)

lemma reverting_trans: "same_entries old d \<Longrightarrow> reverting d d' \<Longrightarrow> reverting old d'"
  by (auto simp: same_entries_def reverting_def kept_def present_def list_all_iff)

text \<open>A commit on a clean directory touches no entry, wherever it is cut.\<close>

lemma tail_move_same: "tail_move m \<Longrightarrow> same_entries old d \<Longrightarrow> same_entries old (apply_move d m)"
  using tail_move_look [of m _ d] by (fastforce simp: same_entries_def list_all_iff)

lemma tail_moves_same: "list_all tail_move ms \<Longrightarrow> same_entries old d \<Longrightarrow> along (same_entries old) d ms"
  by (induction ms arbitrary: d) (simp_all add: tail_move_same)

lemma commit_same: "same_entries old d \<Longrightarrow> along (same_entries old) d (commit held stamp d)"
proof -
  assume s: "same_entries old d"
  let ?d1 = "apply_moves d (sweep_old held d)"
  let ?d2 = "apply_moves ?d1 (commit_head held stamp ?d1)"
  have sw: "along (same_entries old) d (sweep_old held d)"
    by (rule along_takes) (use s sweep_look in \<open>blast intro: same_entries_frame\<close>)
  have "list_all tail_move (commit_head held stamp ?d1)"
    using entries_agent(2) by (simp add: commit_head_def tail_parts)
  note al = tail_moves_same [OF this along_end [OF sw]]
  show ?thesis
    unfolding commit_parts Let_def along_append
    using sw al tail_moves_same [OF tail_commit_loop [OF entries_agent(4)] along_end [OF al]] by simp
qed

text \<open>A revert with nothing displaced does nothing.\<close>

lemma revert_loop_nothing:
  "set es \<subseteq> set entries \<Longrightarrow> as_before old d \<Longrightarrow> revert_loop es d = [Sync]"
  by (induction es) (auto simp: revert_entry_def as_before_def list_all_iff present_def)

lemma revert_nothing: "as_before old d \<Longrightarrow> revert d = [Sync]"
  unfolding revert_def by (rule revert_loop_nothing) simp_all

lemma revert_layout_state:
  assumes "revert_layout try cuts d = (d', ok)" and "reverting old d \<or> as_before old d" and "present old agent_name"
  shows "(ok \<longrightarrow> as_before old d') \<and> (reverting old d' \<or> as_before old d')"
proof -
  have full: "as_before old (apply_moves d (revert d))" if "reverting old d \<or> as_before old d" for d
    using that revert_all(2) [OF _ assms(3), of d] revert_nothing [of old d] by (auto simp: apply_moves_def)
  have part: "reverting old (apply_moves d (take k (revert d))) \<or> as_before old (apply_moves d (take k (revert d)))"
    if "reverting old d \<or> as_before old d" for d k
    using that
  proof
    assume "reverting old d"
    from along_cut [OF revert_all(1) [OF this assms(3)]] show ?thesis .
  next
    assume "as_before old d"
    then show ?thesis using revert_nothing [of old d] by (cases k) (auto simp: apply_moves_def)
  qed
  show ?thesis
    using assms(1,2)
  proof (induction "try" cuts d rule: revert_layout.induct)
    case (3 try' k cuts d)
    then show ?case using part by (auto simp: Let_def split: if_splits)
  qed (use full in auto)
qed

lemma look_discard_next: "look (discard_next d) n = (if n \<in> next_of ` set entries then None else look d n)"
proof -
  have "look (foldl (\<lambda>d e. forget (next_of e) d) d es) n = (if n \<in> next_of ` set es then None else look d n)" for es
    by (induction es arbitrary: d) auto
  then show ?thesis by (simp add: discard_next_def)
qed

lemma discard_next_same: "same_entries old d \<Longrightarrow> same_entries old (discard_next d)"
  by (erule same_entries_frame) (auto simp: look_discard_next dest: entry_not_suffixed(1))

lemma discard_next_before: "as_before old d \<Longrightarrow> as_before old (discard_next d)"
  using entry_not_suffixed(1) by (fastforce simp: as_before_def look_discard_next list_all_iff)

text \<open>Trees have names no entry has.\<close>

lemma tree_names:
  assumes "e \<in> set entries"
  shows "qemu_tree @ v \<noteq> e" "qemu_tree @ v \<noteq> prev_of e" "guest_tree @ v \<noteq> e" "guest_tree @ v \<noteq> prev_of e"
  using assms
  by (auto simp: entries_def agent_name_def manifest_name_def net_wrap_name_def tray_name_def qemu_link_def
      guest_link_def qemu_tree_def guest_tree_def prev_of_def prev_suffix_def)

lemma plan_tree_same:
  assumes "plan_tree w a link tree d = Some (d', use)" and "same_entries old d"
    and "\<And>e. e \<in> set entries \<Longrightarrow> tree \<noteq> e \<and> tree \<noteq> prev_of e"
  shows "same_entries old d'"
proof -
  have "d' = d \<or> d' = place tree Tree d" using assms(1) by (auto simp: plan_tree_def split: if_splits)
  then show ?thesis
  proof
    assume "d' = place tree Tree d"
    then show ?thesis using assms(2,3) by (intro same_entries_frame [OF assms(2)]) auto
  qed (use assms(2) in simp)
qed

lemma plan_artifact_same:
  "same_entries old d \<Longrightarrow> same_entries old (fst (plan_artifact w v d pl a))"
  using plan_tree_same [of w a qemu_link "qemu_tree @ v" d] plan_tree_same [of w a guest_link "guest_tree @ v" d]
  by (auto simp: plan_artifact_def tree_names split: option.split)

lemma plan_artifacts_same:
  "same_entries old d \<Longrightarrow> plan_artifacts w v d pl as = (d', r) \<Longrightarrow> same_entries old d'"
proof (induction as arbitrary: d pl)
  case (Cons a as)
  then show ?case using plan_artifact_same [of old d w v pl a]
    by (auto split: prod.splits option.splits)
qed simp

lemma plan_agent:
  "plan_artifacts w v d pl as = (d', Some pl') \<Longrightarrow> pl_agent pl' = Some a \<Longrightarrow>
   pl_agent pl = Some a \<or> (a \<in> set as \<and> ar_name a = artifact_agent)"
proof (induction as arbitrary: d pl)
  case (Cons b as)
  obtain d1 pl1 where b: "plan_artifact w v d pl b = (d1, Some pl1)" "plan_artifacts w v d1 pl1 as = (d', Some pl')"
    using Cons.prems(1) by (auto split: prod.splits option.splits)
  have "pl_agent pl1 = pl_agent pl \<or> (pl_agent pl1 = Some b \<and> ar_name b = artifact_agent)"
    using b(1) by (auto simp: plan_artifact_def split: if_splits option.splits)
  then show ?case using Cons.IH [OF b(2) Cons.prems(2)] by auto
qed simp


lemma stage_all_same: "same_entries old d \<Longrightarrow> set (map fst es) \<subseteq> set entries \<Longrightarrow> same_entries old (fst (stage_all w es d))"
proof (induction es arbitrary: d)
  case (Cons x es)
  obtain e y where x: "x = (e, y)" by (cases x)
  have "same_entries old (stage e y d)"
    using Cons.prems by (intro same_entries_frame [OF Cons.prems(1)]) (auto simp: stage_def entry_names)
  then show ?case using Cons x by simp
qed simp

lemma stage_all_look:
  "stage_all w es d = (d', True) \<Longrightarrow> distinct (map fst es) \<Longrightarrow>
   look d' (next_of e) = (case map_of es e of Some x \<Rightarrow> Some x | None \<Rightarrow> look d (next_of e))"
proof (induction es arbitrary: d)
  case (Cons x es)
  obtain f y where x: "x = (f, y)" by (cases x)
  have "stage_all w es (stage f y d) = (d', True)" using Cons.prems x by (simp split: if_splits)
  note ih = Cons.IH [OF this]
  have m: "map_of es f = None" using Cons.prems(2) x by (simp add: map_of_eq_None_iff)
  show ?case
  proof (cases "e = f")
    case True then show ?thesis using ih Cons.prems(2) x m by (simp add: stage_def)
  next
    case False
    then have "look (stage f y d) (next_of e) = look d (next_of e)" by (simp add: stage_def)
    with False show ?thesis using ih Cons.prems(2) x by (simp split: option.split)
  qed
qed simp

lemma staged_files_names:
  "distinct (map fst (staged_files w agent pl))" "set (map fst (staged_files w agent pl)) \<subseteq> set entries"
  "map_of (staged_files w agent pl) agent_name = Some (File (ar_sha256 agent))"
  "map_of (staged_files w agent pl) manifest_name = Some (File (rw_bytes w))"
  by (auto simp: staged_files_def entries_def agent_name_def manifest_name_def net_wrap_name_def
      tray_name_def qemu_link_def guest_link_def split: option.splits)

text \<open>What one end of a run promises of the directory it leaves.\<close>

definition end_ok :: "base_dir \<Rightarrow> base_dir \<Rightarrow> run_end \<Rightarrow> bool" where
  "end_ok old d r =
     (case r of
        UpdatedTo v \<Rightarrow> True
      | RevertFailed \<Rightarrow> reverting old d \<or> as_before old d
      | ReconcileFailed \<Rightarrow> as_before old d
      | _ \<Rightarrow> as_before old d)"

lemma revert_run_ok:
  assumes "reverting old d \<or> as_before old d" and "present old agent_name" and "revert_run w d = (d', r)"
  shows "end_ok old d' r \<and> (\<forall>v. r \<noteq> UpdatedTo v)"
proof -
  obtain d1 ok where l: "revert_layout 1 (rw_revert_cuts w) d = (d1, ok)" by (cases "revert_layout 1 (rw_revert_cuts w) d")
  from revert_layout_state [OF l assms(1,2)] assms(3) l discard_next_before show ?thesis
    by (auto simp: revert_run_def end_ok_def split: if_splits)
qed

lemma commit_cut_look:
  assumes "e \<in> set entries"
  shows "look (apply_moves d (take k (commit held stamp d))) e = look d e"
proof -
  let ?d1 = "apply_moves d (sweep_old held d)"
  let ?P = "\<lambda>x. look x e = look d e"
  have sw: "along ?P d (sweep_old held d)"
    by (rule along_takes) (use sweep_look(1) [OF assms] in blast)
  have tail: "along ?P x ms" if "list_all tail_move ms" "?P x" for x ms
    using that by (induction ms arbitrary: x) (simp_all add: tail_move_look(1) [OF _ assms])
  have "list_all tail_move (commit_head held stamp ?d1)"
    using entries_agent(2) by (simp add: commit_head_def tail_parts)
  from tail [OF this along_end [OF sw]]
  have hd: "along ?P ?d1 (commit_head held stamp ?d1)" .
  have "along ?P d (commit held stamp d)"
    unfolding commit_parts Let_def along_append
    using sw hd tail [OF tail_commit_loop [OF entries_agent(4)] along_end [OF hd]] by simp
  from along_cut [OF this] show ?thesis .
qed

lemma swap_run_ok:
  assumes "ready d" and "swap_run w v d = (d', r)"
  shows "end_ok d d' r" and "r = UpdatedTo v' \<Longrightarrow> v' = v \<and> (\<forall>e\<in>set entries. look d' e = released d e)"
proof -
  have a: "present d agent_name" using assms(1) by (simp add: ready_def)
  have sw: "swap d = Some (swap_loop entries d)" using assms(1) by (simp add: swap_def ready_def)
  let ?d1 = "apply_moves d (cut (rw_swap_cut w) (swap_loop entries d))"
  have st: "reverting d ?d1 \<or> as_before d ?d1"
    using along_cut [OF swap_all(1) [OF assms(1)]] along_end [OF swap_all(1) [OF assms(1)]]
    by (auto simp: cut_def split: option.split)
  show "end_ok d d' r"
    using assms(2) revert_run_ok [OF st a] by (auto simp: swap_run_def sw Let_def end_ok_def split: if_splits)
  assume r: "r = UpdatedTo v'"
  then have nr: "rw_swap_cut w = None" "v' = v"
    and d': "d' = apply_moves ?d1 (cut (rw_commit_cut w) (commit (rw_held w) (rw_stamp w) ?d1))"
    using assms(2) revert_run_ok [OF st a] by (auto simp: swap_run_def sw Let_def split: if_splits)
  have "swapped d ?d1" using swap_all(2) [OF assms(1)] nr by (simp add: cut_def)
  then show "v' = v \<and> (\<forall>e\<in>set entries. look d' e = released d e)"
    using nr(2) commit_look commit_cut_look unfolding d'
    by (auto simp: cut_def swapped_def list_all_iff split: option.splits)
qed

lemma swap_run_released:
  "ready d \<Longrightarrow> swap_run w v d = (d', r) \<Longrightarrow> r = UpdatedTo v' \<Longrightarrow> e \<in> set entries \<Longrightarrow> look d' e = released d e"
  using swap_run_ok(2) by blast


lemma install_run_ok:
  assumes "clean d" and "install_run w want d = (d', r)"
  shows "end_ok d d' r"
    and "r = UpdatedTo v \<Longrightarrow> v = mf_version want \<and>
      (\<exists>a\<in>set (mf_artifacts want). ar_name a = artifact_agent \<and> look d' agent_name = Some (File (ar_sha256 a))) \<and>
      look d' manifest_name = Some (File (rw_bytes w))"
proof -
  obtain d1 pl where p: "plan_artifacts w (mf_version want) d empty_plan (mf_artifacts want) = (d1, pl)"
    by (cases "plan_artifacts w (mf_version want) d empty_plan (mf_artifacts want)")
  have s1: "same_entries d d1" using plan_artifacts_same [OF same_entries_refl [OF assms(1)] p] .
  have "end_ok d d' r \<and> (r = UpdatedTo v \<longrightarrow> v = mf_version want \<and>
      (\<exists>a\<in>set (mf_artifacts want). ar_name a = artifact_agent \<and> look d' agent_name = Some (File (ar_sha256 a))) \<and>
      look d' manifest_name = Some (File (rw_bytes w)))"
  proof (cases "\<exists>pl' a. pl = Some pl' \<and> pl_agent pl' = Some a")
    case False
    then show ?thesis using assms(2) p same_entries_before [OF s1]
      by (auto simp: install_run_def end_ok_def split: option.splits)
  next
    case True
    then obtain pl' a where pl: "pl = Some pl'" "pl_agent pl' = Some a" by blast
    have a: "a \<in> set (mf_artifacts want)" "ar_name a = artifact_agent"
      using plan_agent [OF p [unfolded pl(1)] pl(2)] by (simp_all add: empty_plan_def)
    obtain d2 ok where g: "stage_all w (staged_files w a pl') (discard_next d1) = (d2, ok)"
      by (cases "stage_all w (staged_files w a pl') (discard_next d1)")
    have s2: "same_entries d d2"
      using stage_all_same [OF discard_next_same [OF s1] staged_files_names(2), of w w a pl'] g by simp
    have bad: "end_ok d d' r \<and> (\<forall>v. r \<noteq> UpdatedTo v)"
      if "r \<in> {StageFailed, SmokeRefused, StopFailed}" "d' = d2 \<or> d' = discard_next d2"
      using that same_entries_before [OF s2] same_entries_before [OF discard_next_same [OF s2]]
      by (auto simp: end_ok_def)
    show ?thesis
    proof (cases "ok \<and> \<not> (pl_qemu pl' \<noteq> [] \<and> \<not> rw_smoke w) \<and> rw_stop w")
      case False
      then have "r \<in> {StageFailed, SmokeRefused, StopFailed} \<and> (d' = d2 \<or> d' = discard_next d2)"
        using assms(2) p pl g by (auto simp: install_run_def split: if_splits)
      with bad show ?thesis by blast
    next
      case True
      then have run: "swap_run w (mf_version want) d2 = (d', r)"
        using assms(2) p pl g by (auto simp: install_run_def split: if_splits)
      have nx: "look d2 (next_of agent_name) = Some (File (ar_sha256 a))"
        "look d2 (next_of manifest_name) = Some (File (rw_bytes w))"
        by (simp_all only: stage_all_look [OF g [unfolded True [THEN conjunct1, THEN eqTrueI]] staged_files_names(1)]
            staged_files_names(3,4) option.case)
      have rd: "ready d2"
        using same_entries_clean [OF s2 assms(1)] nx by (simp add: ready_def clean_def next_staged_def)
      have "end_ok d d' r"
        using swap_run_ok(1) [OF rd run] as_before_trans [OF s2] reverting_trans [OF s2]
        by (auto simp: end_ok_def split: run_end.splits)
      moreover have "look d' e = released d2 e" if "r = UpdatedTo v" "e \<in> set entries" for e
        using swap_run_released [OF rd run that] .
      then have "r = UpdatedTo v \<longrightarrow> look d' agent_name = Some (File (ar_sha256 a)) \<and>
          look d' manifest_name = Some (File (rw_bytes w))"
        using nx entries_agent(2) by (auto simp: released_def present_def entries_def)
      moreover have "r = UpdatedTo v \<longrightarrow> v = mf_version want" using swap_run_ok(2) [OF rd run] by blast
      ultimately show ?thesis using a by blast
    qed
  qed
  then show "end_ok d d' r" "r = UpdatedTo v \<Longrightarrow> v = mf_version want \<and>
      (\<exists>a\<in>set (mf_artifacts want). ar_name a = artifact_agent \<and> look d' agent_name = Some (File (ar_sha256 a))) \<and>
      look d' manifest_name = Some (File (rw_bytes w))"
    by blast+
qed


lemma reconcile_run_same:
  assumes "clean d" and "reconcile_run w d = (d', ok)"
  shows "same_entries d d'"
proof -
  have "\<not> interrupted d" using assms(1) entries_agent(2) by (simp add: clean_def interrupted_def list_all_iff)
  then show ?thesis
    using assms(2) along_cut [OF commit_same [OF same_entries_refl [OF assms(1)]]]
      along_end [OF commit_same [OF same_entries_refl [OF assms(1)]]]
    by (auto simp: reconcile_run_def cut_def split: option.splits)
qed

lemma end_ok_trans: "same_entries old d \<Longrightarrow> end_ok d d' r \<Longrightarrow> end_ok old d' r"
  using as_before_trans [of old d d'] reverting_trans [of old d d'] by (auto simp: end_ok_def split: run_end.splits)

text \<open>A run either ends before it would install, with every entry as it was, or is an install.\<close>

lemma run_update_cases:
  assumes "run_update w target d = (d', r)" and "clean d"
  shows "(as_before d d' \<and> (\<forall>v. r \<noteq> UpdatedTo v) \<and> r \<noteq> RevertFailed) \<or>
    (\<exists>d1 want. same_entries d d1 \<and> rw_want w = Some want \<and> install_run w want d1 = (d', r) \<and>
      decide_update target want (rw_have w) (if is_pointer target then None else rw_stable w) = Inr Install)"
proof (cases "valid_segment target")
  case False
  then show ?thesis
    using assms same_entries_before [OF same_entries_refl [OF assms(2)]] by (auto simp: run_update_def)
next
  case True
  obtain d1 ok where rec: "reconcile_run w d = (d1, ok)" by (cases "reconcile_run w d")
  note s = reconcile_run_same [OF assms(2) rec]
  note b = same_entries_before [OF s]
  show ?thesis
  proof (cases "ok \<and> \<not> rw_stopped w \<and> (\<exists>want. rw_want w = Some want \<and>
      decide_update target want (rw_have w) (if is_pointer target then None else rw_stable w) = Inr Install \<and>
      (is_pointer target \<or> rw_stable w \<noteq> None))")
    case False
    then show ?thesis using assms(1) True b
      by (auto simp: run_update_def rec split: if_splits option.splits sum.splits decision.splits)
  next
    case True
    then obtain want where w: "rw_want w = Some want" "is_pointer target \<or> rw_stable w \<noteq> None"
      "decide_update target want (rw_have w) (if is_pointer target then None else rw_stable w) = Inr Install"
      by blast
    then have "install_run w want d1 = (d', r)"
      using assms(1) True \<open>valid_segment target\<close> by (auto simp: run_update_def rec)
    with s w show ?thesis by blast
  qed
qed


section \<open>Properties of a run\<close>

text \<open>
  C5: The line a run ends on is true of the disk. A run on a settled node either says it updated,
  and then the agent on disk is the one the target's manifest pins, with that manifest beside it and
  the decision rules behind it; or it ends on any other line (a refusal anywhere, a smoke test that
  fails, an agent that will not stop, a candidate that does not start, a swap cut half-way) and every
  entry of the committed release is as it was. Only a revert that itself keeps failing leaves the
  node otherwise, and then with the trial marker, everything displaced kept for the next run.
\<close>
theorem run_ends_on_one_release:
  assumes "run_update w target d = (d', r)" and "clean d"
  shows "case r of
      UpdatedTo v \<Rightarrow>
        (\<exists>want. rw_want w = Some want \<and> v = mf_version want \<and>
           decide_update target want (rw_have w) (if is_pointer target then None else rw_stable w) = Inr Install \<and>
           list_ex (\<lambda>a. ar_name a = artifact_agent \<and> look d' agent_name = Some (File (ar_sha256 a))) (mf_artifacts want) \<and>
           look d' manifest_name = Some (File (rw_bytes w)))
    | RevertFailed \<Rightarrow> reverting d d' \<or> as_before d d'
    | _ \<Rightarrow> \<forall>e\<in>set entries. present d e \<longrightarrow> look d' e = look d e"
proof -
  have before: "\<forall>e\<in>set entries. present d e \<longrightarrow> look d' e = look d e" if "as_before d d'"
    using that by (simp add: as_before_def list_all_iff)
  from run_update_cases [OF assms] show ?thesis
  proof (elim disjE exE conjE)
    assume "as_before d d'" "\<forall>v. r \<noteq> UpdatedTo v" "r \<noteq> RevertFailed"
    then show ?thesis using before by (cases r) simp_all
  next
    fix d1 want
    assume s: "same_entries d d1" and w: "rw_want w = Some want" and run: "install_run w want d1 = (d', r)"
      and dec: "decide_update target want (rw_have w) (if is_pointer target then None else rw_stable w) = Inr Install"
    note c = same_entries_clean [OF s assms(2)]
    have ok: "end_ok d d' r" using end_ok_trans [OF s install_run_ok(1) [OF c run]] .
    show ?thesis
    proof (cases "\<exists>v. r = UpdatedTo v")
      case True
      then obtain v where v: "r = UpdatedTo v" by blast
      from install_run_ok(2) [OF c run v] v w dec show ?thesis by (auto simp: list_ex_iff)
    next
      case False
      with ok before show ?thesis by (cases r) (simp_all add: end_ok_def)
    qed
  qed
qed

definition example_world :: run_world where
  "example_world = \<lparr>rw_rec_commit_cut = None, rw_rec_stop = True, rw_rec_revert_cuts = [], rw_rec_start = True,
     rw_stopped = False, rw_want = Some (release ''v3.26120109.aaaaaaa''), rw_bytes = ''m'',
     rw_stable = None, rw_have = Some (release ''v3.26110216.07bf1e6''), rw_fetch = (\<lambda>_. True),
     rw_stage = (\<lambda>_. True), rw_smoke = True, rw_stop = True, rw_swap_cut = Some 3, rw_start = True,
     rw_commit_cut = None, rw_revert_cuts = [Some 2], rw_restart = True, rw_held = (\<lambda>_. False), rw_stamp = ''s''\<rparr>"

text \<open>A swap that fails after three moves, reverted at the second try.\<close>

theorem run_ends_on_one_release_witness:
  "snd (run_update example_world ''stable'' example_base) = Reverted \<and>
   look (fst (run_update example_world ''stable'' example_base)) agent_name = Some (File ''agent 1'')"
proof -
  obtain d' r where run: "run_update example_world ''stable'' example_base = (d', r)"
    by (cases "run_update example_world ''stable'' example_base")
  have c: "clean example_base" by code_simp
  have r: "snd (run_update example_world ''stable'' example_base) = Reverted" by code_simp
  then have "r = Reverted" by (simp add: run)
  moreover have "present example_base agent_name" "look example_base agent_name = Some (File ''agent 1'')" by code_simp+
  ultimately have "look d' agent_name = Some (File ''agent 1'')"
    using run_ends_on_one_release [OF run c] entries_agent(2) by simp
  with r run show ?thesis by simp
qed

end
