(* ===== verification/AlertStore.thy ===== *)
theory AlertStore
  imports Drbd
begin

text \<open>
  The node's alert store and three of the emitters in front of it (\<open>agent/host/alertstore.go\<close>,
  \<open>agent/host/alert.go\<close>, the types of \<open>shared/notify/notify.go\<close>).

  An emitter asserts what it sees; the store compares the assertion with the key's latest record and
  writes, and hands on to delivery, only a change. An alert is its key, kind, severity and title; the
  body is words for the owner that nothing compares, and is left out. The file is what the last
  successful write put there; a restart is a store that has not loaded it yet.
\<close>


section \<open>Alerts and records\<close>

datatype alert_kind = Open | Resolved | Event
datatype severity = NoSeverity | Info | Warning | Critical

record alert =
  al_key :: string
  al_kind :: alert_kind
  al_severity :: severity
  al_title :: string

record alert_rec =
  nr_alert :: alert
  nr_at :: time

definition rec_key :: "alert_rec \<Rightarrow> string" where
  "rec_key r = al_key (nr_alert r)"

text \<open>\<open>OpenNow\<close>: the index of each key's last record, then the open records at their key's index.\<close>

definition last_index :: "alert_rec list \<Rightarrow> string \<Rightarrow> nat option" where
  "last_index recs key =
     foldl (\<lambda>m (i, r). if rec_key r = key then Some i else m) None (enumerate 0 recs)"

definition open_now :: "alert_rec list \<Rightarrow> alert_rec list" where
  "open_now recs =
     map snd (filter (\<lambda>(i, r). last_index recs (rec_key r) = Some i \<and> al_kind (nr_alert r) = Open)
       (enumerate 0 recs))"


section \<open>The store\<close>

definition alert_store_cap :: nat where "alert_store_cap = 200"

record alert_store =
  as_recs :: "alert_rec list"
  as_loaded :: bool
  as_gen :: int
  as_file :: "alert_rec list option"

definition new_alert_store :: "alert_rec list option \<Rightarrow> alert_store" where
  "new_alert_store file = \<lparr>as_recs = [], as_loaded = False, as_gen = 0, as_file = file\<rparr>"

definition load_store :: "alert_store \<Rightarrow> alert_store" where
  "load_store s =
     (if as_loaded s then s
      else s\<lparr>as_loaded := True, as_recs := (case as_file s of None \<Rightarrow> [] | Some recs \<Rightarrow> recs)\<rparr>)"

definition latest_locked :: "alert_rec list \<Rightarrow> string \<Rightarrow> alert_rec option" where
  "latest_locked recs key = find (\<lambda>r. rec_key r = key) (rev recs)"

fun keep_older :: "(string \<Rightarrow> bool) \<Rightarrow> alert_rec list \<Rightarrow> alert_rec list" where
  "keep_older seen [] = []"
| "keep_older seen (r # later) =
     (if seen (rec_key r) then keep_older seen later
      else if list_ex (\<lambda>l. rec_key l = rec_key r) later then keep_older seen later
      else r # keep_older seen later)"

definition trim_locked :: "alert_rec list \<Rightarrow> alert_rec list" where
  "trim_locked recs =
     (if length recs \<le> alert_store_cap then recs
      else
        (let cut_at = length recs - alert_store_cap;
             recent = drop cut_at recs;
             seen = (\<lambda>key. list_ex (\<lambda>r. rec_key r = key) recent)
         in keep_older seen (take cut_at recs) @ recent))"

text \<open>Whether an assertion is news against the key's latest record.\<close>

definition is_news :: "alert_rec option \<Rightarrow> alert \<Rightarrow> bool" where
  "is_news last' a =
     (case al_kind a of
        Open \<Rightarrow> \<not> (\<exists>r\<in>set_option last'. al_kind (nr_alert r) = Open \<and> al_title (nr_alert r) = al_title a)
      | Resolved \<Rightarrow> (\<exists>r\<in>set_option last'. al_kind (nr_alert r) = Open)
      | Event \<Rightarrow> True)"

text \<open>\<open>writes\<close> says whether the file could be written; the result is the alert handed to delivery.\<close>

definition notify :: "bool \<Rightarrow> time \<Rightarrow> alert \<Rightarrow> alert_store \<Rightarrow> alert_store \<times> alert option" where
  "notify writes now a s =
     (let s = load_store s
      in if \<not> is_news (latest_locked (as_recs s) (al_key a)) a then (s, None)
         else
           (let recs = trim_locked (as_recs s @ [\<lparr>nr_alert = a, nr_at = now\<rparr>])
            in (s\<lparr>as_recs := recs, as_gen := as_gen s + 1,
                  as_file := (if writes then Some recs else as_file s)\<rparr>, Some a)))"

definition snapshot :: "alert_store \<Rightarrow> alert_store \<times> alert_rec list \<times> int" where
  "snapshot s = (let s = load_store s in (s, as_recs s, as_gen s))"

text \<open>The guest's copy: pushed when the generation moved; \<open>accepts\<close> is whether the guest took it.\<close>

definition push_alerts :: "bool \<Rightarrow> bool \<Rightarrow> int \<Rightarrow> alert_store \<Rightarrow> int \<times> alert_rec list option" where
  "push_alerts supports accepts pushed s =
     (if \<not> supports then (pushed, None)
      else
        (let (_, recs, gen) = snapshot s
         in if gen = pushed then (pushed, None)
            else if \<not> accepts then (pushed, Some recs) else (gen, Some recs)))"

fun notify_all :: "(alert \<times> time) list \<Rightarrow> alert_store \<Rightarrow> alert_store \<times> alert list" where
  "notify_all [] s = (s, [])"
| "notify_all ((a, now) # as) s =
     (let (s1, out) = notify True now a s; (s2, outs) = notify_all as s1
      in (s2, (case out of None \<Rightarrow> outs | Some x \<Rightarrow> x # outs)))"



section \<open>The latest record of a key\<close>

lemma find_append: "find P (xs @ ys) = (case find P xs of Some x \<Rightarrow> Some x | None \<Rightarrow> find P ys)"
  by (induction xs) auto

lemma latest_simps [simp]:
  "latest_locked [] k = None"
  "latest_locked (xs @ ys) k = (case latest_locked ys k of Some r \<Rightarrow> Some r | None \<Rightarrow> latest_locked xs k)"
  "latest_locked [r] k = (if rec_key r = k then Some r else None)"
  by (simp_all add: latest_locked_def find_append split: option.split)

lemma latest_Cons:
  "latest_locked (r # rs) k = (case latest_locked rs k of Some x \<Rightarrow> Some x | None \<Rightarrow> if rec_key r = k then Some r else None)"
  using latest_simps(2) [of "[r]" rs k] by (simp split: option.split)

lemma latest_None_iff: "latest_locked rs k = None \<longleftrightarrow> \<not> list_ex (\<lambda>l. rec_key l = k) rs"
  by (induction rs) (auto simp: latest_Cons split: option.splits)

lemma latest_key: "latest_locked rs k = Some r \<Longrightarrow> rec_key r = k \<and> r \<in> set rs"
  by (induction rs) (auto simp: latest_Cons split: option.splits if_splits)

lemma latest_keep_older: "latest_locked (keep_older seen rs) k = (if seen k then None else latest_locked rs k)"
proof (induction rs)
  case (Cons r rs)
  show ?case
  proof (cases "rec_key r = k")
    case True
    then show ?thesis using Cons latest_None_iff [of rs k]
      by (cases "latest_locked rs k") (auto simp: latest_Cons)
  next
    case False
    then show ?thesis using Cons by (auto simp: latest_Cons split: option.split)
  qed
qed simp

text \<open>Trimming drops history, never the state of a key.\<close>

lemma latest_trim: "latest_locked (trim_locked recs) k = latest_locked recs k"
proof (cases "length recs \<le> alert_store_cap")
  case False
  let ?n = "length recs - alert_store_cap"
  have "latest_locked recs k = latest_locked (take ?n recs @ drop ?n recs) k" by simp
  also have "\<dots> = (case latest_locked (drop ?n recs) k of Some r \<Rightarrow> Some r | None \<Rightarrow> latest_locked (take ?n recs) k)"
    by (rule latest_simps)
  finally show ?thesis
    using False latest_None_iff [of "drop ?n recs" k]
    by (auto simp: trim_locked_def Let_def latest_keep_older split: option.split)
qed (simp add: trim_locked_def)


section \<open>The transition rule, abstractly\<close>

text \<open>What a store promises: for each key, whether a condition is open and under which title.\<close>

type_synonym open_titles = "string \<Rightarrow> string option"

definition titles_of :: "alert_rec list \<Rightarrow> open_titles" where
  "titles_of recs key =
     (case latest_locked recs key of
        None \<Rightarrow> None
      | Some r \<Rightarrow> (if al_kind (nr_alert r) = Open then Some (al_title (nr_alert r)) else None))"

definition transition :: "alert \<Rightarrow> open_titles \<Rightarrow> open_titles \<times> alert option" where
  "transition a now_open =
     (case al_kind a of
        Open \<Rightarrow> (if now_open (al_key a) = Some (al_title a) then (now_open, None)
                 else (now_open(al_key a := Some (al_title a)), Some a))
      | Resolved \<Rightarrow> (if now_open (al_key a) = None then (now_open, None)
                     else (now_open(al_key a := None), Some a))
      | Event \<Rightarrow> (now_open(al_key a := None), Some a))"

definition view :: "alert_store \<Rightarrow> alert_rec list" where
  "view s = as_recs (load_store s)"

lemma is_news_titles:
  "is_news (latest_locked recs (al_key a)) a \<longleftrightarrow>
     (case al_kind a of
        Open \<Rightarrow> titles_of recs (al_key a) \<noteq> Some (al_title a)
      | Resolved \<Rightarrow> titles_of recs (al_key a) \<noteq> None
      | Event \<Rightarrow> True)"
  by (auto simp: is_news_def titles_of_def split: alert_kind.split option.split)

lemma titles_of_record:
  "titles_of (trim_locked (recs @ [\<lparr>nr_alert = a, nr_at = t\<rparr>])) =
     (titles_of recs)(al_key a := (if al_kind a = Open then Some (al_title a) else None))"
  by (rule ext) (simp add: titles_of_def latest_trim rec_key_def)

lemma view_loaded [simp]: "as_loaded s \<Longrightarrow> view s = as_recs s"
  by (simp add: view_def load_store_def)

lemma load_id [simp]: "as_loaded s \<Longrightarrow> load_store s = s"
  by (simp add: load_store_def)

lemma load_loaded [simp]: "as_loaded (load_store s)"
  by (simp add: load_store_def)

lemma notify_loaded [simp]: "as_loaded (fst (notify writes now a s))"
  by (simp add: notify_def Let_def)

lemma notify_view:
  "view (fst (notify writes now a s)) =
     (if is_news (latest_locked (view s) (al_key a)) a
      then trim_locked (view s @ [\<lparr>nr_alert = a, nr_at = now\<rparr>]) else view s)"
  by (simp add: notify_def Let_def view_def)

lemma notify_transition:
  "titles_of (view (fst (notify writes now a s))) = fst (transition a (titles_of (view s)))"
  "snd (notify writes now a s) = snd (transition a (titles_of (view s)))"
proof -
  have n: "snd (notify writes now a s) = (if is_news (latest_locked (view s) (al_key a)) a then Some a else None)"
    by (simp add: notify_def Let_def view_def)
  show "titles_of (view (fst (notify writes now a s))) = fst (transition a (titles_of (view s)))"
    unfolding notify_view
    by (cases "al_kind a") (auto simp: is_news_titles transition_def titles_of_record)
  show "snd (notify writes now a s) = snd (transition a (titles_of (view s)))"
    unfolding n by (cases "al_kind a") (auto simp: is_news_titles transition_def)
qed

text \<open>A run of the store, with restarts of the agent in it.\<close>

datatype store_event = Assert alert time | Restart

fun store_step :: "store_event \<Rightarrow> alert_store \<Rightarrow> alert_store \<times> alert option" where
  "store_step (Assert a now) s = notify True now a s"
| "store_step Restart s = (new_alert_store (as_file s), None)"

fun store_run :: "store_event list \<Rightarrow> alert_store \<Rightarrow> alert_store \<times> alert list" where
  "store_run [] s = (s, [])"
| "store_run (e # es) s =
     (let (s1, out) = store_step e s; (s2, outs) = store_run es s1
      in (s2, (case out of None \<Rightarrow> outs | Some x \<Rightarrow> x # outs)))"

fun spec_run :: "store_event list \<Rightarrow> open_titles \<Rightarrow> open_titles \<times> alert list" where
  "spec_run [] \<sigma> = (\<sigma>, [])"
| "spec_run (Assert a now # es) \<sigma> =
     (let (\<sigma>1, out) = transition a \<sigma>; (\<sigma>2, outs) = spec_run es \<sigma>1
      in (\<sigma>2, (case out of None \<Rightarrow> outs | Some x \<Rightarrow> x # outs)))"
| "spec_run (Restart # es) \<sigma> = spec_run es \<sigma>"

text \<open>What is in memory is what the file would load: kept by every step whose write succeeds.\<close>

definition on_file :: "alert_store \<Rightarrow> bool" where
  "on_file s = (view s = (case as_file s of None \<Rightarrow> [] | Some recs \<Rightarrow> recs))"

lemma on_file_new: "on_file (new_alert_store f)"
  by (simp add: on_file_def view_def load_store_def new_alert_store_def)

lemma view_restart: "on_file s \<Longrightarrow> view (new_alert_store (as_file s)) = view s"
  by (simp add: on_file_def view_def load_store_def new_alert_store_def)

lemma as_file_load [simp]: "as_file (load_store s) = as_file s"
  by (simp add: load_store_def)

lemma notify_on_file: "on_file s \<Longrightarrow> on_file (fst (notify True now a s))"
  by (auto simp: on_file_def notify_view) (auto simp: notify_def Let_def view_def)

lemma store_run_spec:
  assumes "on_file s"
  shows "titles_of (view (fst (store_run es s))) = fst (spec_run es (titles_of (view s)))"
    and "snd (store_run es s) = snd (spec_run es (titles_of (view s)))"
proof -
  have "titles_of (view (fst (store_run es s))) = fst (spec_run es (titles_of (view s))) \<and>
    snd (store_run es s) = snd (spec_run es (titles_of (view s)))"
    using assms
  proof (induction es arbitrary: s)
    case (Cons e es)
    show ?case
    proof (cases e)
      case (Assert a now)
      then show ?thesis using Cons.IH [OF notify_on_file [OF Cons.prems]] notify_transition [of True now a s]
        by (simp add: case_prod_beta Let_def split: option.split)
    next
      case Restart
      then show ?thesis using Cons.IH [OF on_file_new] view_restart [OF Cons.prems]
        by (simp add: case_prod_beta Let_def)
    qed
  qed simp
  then show "titles_of (view (fst (store_run es s))) = fst (spec_run es (titles_of (view s)))"
    "snd (store_run es s) = snd (spec_run es (titles_of (view s)))" by blast+
qed



section \<open>Emitters\<close>

datatype redundancy = RedundancyFull | RedundancyReduced | RedundancyAlone

record redundancy_alerter =
  ra_peers :: int
  ra_start :: time
  ra_armed :: bool

definition new_redundancy_alerter :: "int \<Rightarrow> redundancy_alerter" where
  "new_redundancy_alerter peers = \<lparr>ra_peers = peers, ra_start = 0, ra_armed = False\<rparr>"

definition redundancy_converge_for :: duration where "redundancy_converge_for = 5 * minute"

definition classify :: "int \<Rightarrow> cluster \<Rightarrow> redundancy" where
  "classify peers cl =
     (if peers \<le> int (qs_connected (cl_state cl)) then RedundancyFull
      else if peer_can_take_over cl then RedundancyReduced
      else if cl_peers cl \<noteq> [] then RedundancyAlone
      else RedundancyReduced)"

definition redundancy_alert :: "redundancy \<Rightarrow> alert" where
  "redundancy_alert cur =
     (case cur of
        RedundancyFull \<Rightarrow> \<lparr>al_key = ''redundancy'', al_kind = Resolved, al_severity = NoSeverity,
          al_title = ''Briard: redundancy restored''\<rparr>
      | RedundancyAlone \<Rightarrow> \<lparr>al_key = ''redundancy'', al_kind = Open, al_severity = Critical,
          al_title = ''Briard: no second copy''\<rparr>
      | RedundancyReduced \<Rightarrow> \<lparr>al_key = ''redundancy'', al_kind = Open, al_severity = Warning,
          al_title = ''Briard: reduced redundancy''\<rparr>)"

definition redundancy_observe :: "redundancy_alerter \<Rightarrow> cluster \<times> time \<Rightarrow> redundancy_alerter \<times> alert list" where
  "redundancy_observe a = (\<lambda>(cl, now).
     if ra_peers a \<le> 0 then (a, [])
     else if \<not> qs_quorate (cl_state cl) then (a, [])
     else
       (let cur = classify (ra_peers a) cl
        in if ra_armed a then (a, [redundancy_alert cur])
           else
             (let start = (if ra_start a = 0 then now else ra_start a);
                  armed = (cur = RedundancyFull \<or> redundancy_converge_for \<le> time_sub now start);
                  a' = a\<lparr>ra_start := start, ra_armed := armed\<rparr>
              in if \<not> armed then (a', []) else (a', [redundancy_alert cur]))))"

record clock_alerter =
  ca_unsynced :: time
  ca_next :: time

definition clock_unsynced_for :: duration where "clock_unsynced_for = hour"
definition clock_read_every :: duration where "clock_read_every = 5 * minute"

definition clock_observe :: "clock_alerter \<Rightarrow> string \<times> time \<Rightarrow> clock_alerter \<times> alert list" where
  "clock_observe c = (\<lambda>(reading, now).
     if now < ca_next c then (c, [])
     else
       (let c = c\<lparr>ca_next := now + clock_read_every\<rparr>
        in if reading = ''no'' then
             (let c = (if ca_unsynced c = 0 then c\<lparr>ca_unsynced := now\<rparr> else c)
              in (c, if clock_unsynced_for \<le> time_sub now (ca_unsynced c)
                     then [\<lparr>al_key = ''clock'', al_kind = Open, al_severity = Warning,
                            al_title = ''Briard: clock not synchronised''\<rparr>]
                     else []))
           else if reading = ''yes'' then
             (c\<lparr>ca_unsynced := 0\<rparr>,
              [\<lparr>al_key = ''clock'', al_kind = Resolved, al_severity = NoSeverity, al_title = ''Briard: clock synchronised''\<rparr>])
           else (c, [])))"

record app_status =
  sv_name :: string
  sv_state :: string
  sv_health :: string

record app_reading =
  rd_svcs :: "app_status list"
  rd_known :: bool
  rd_serving :: bool
  rd_now :: time

type_synonym app_alerter = "string \<Rightarrow> time option"

definition app_down_for :: duration where "app_down_for = 10 * minute"

definition app_key :: "string \<Rightarrow> string" where
  "app_key name = ''app:'' @ name"

definition app_working :: "app_status \<Rightarrow> bool" where
  "app_working s = (sv_state s = ''running'' \<and> sv_health s = ''healthy'')"

definition app_down :: "app_status \<Rightarrow> bool" where
  "app_down s = (sv_state s = ''stopped'' \<or> sv_health s = ''unhealthy'')"

definition app_observe_one :: "app_reading \<Rightarrow> app_alerter \<times> alert list \<Rightarrow> app_status \<Rightarrow> app_alerter \<times> alert list" where
  "app_observe_one rd = (\<lambda>(down, out) s.
     if rd_known rd \<and> \<not> rd_serving rd then
       (down(sv_name s := None), out @ [\<lparr>al_key = app_key (sv_name s), al_kind = Resolved,
          al_severity = NoSeverity, al_title = ''Briard: '' @ sv_name s @ '' handed over''\<rparr>])
     else if app_working s then
       (down(sv_name s := None), out @ [\<lparr>al_key = app_key (sv_name s), al_kind = Resolved,
          al_severity = NoSeverity, al_title = ''Briard: '' @ sv_name s @ '' is working again''\<rparr>])
     else if app_down s then
       (let since = (case down (sv_name s) of Some t \<Rightarrow> t | None \<Rightarrow> rd_now rd);
            down' = down(sv_name s := Some since)
        in if time_sub (rd_now rd) since < app_down_for then (down', out)
           else (down', out @ [\<lparr>al_key = app_key (sv_name s), al_kind = Open, al_severity = Critical,
                  al_title = ''Briard: '' @ sv_name s @ '' is not working''\<rparr>]))
     else (down, out))"

definition app_observe :: "app_alerter \<Rightarrow> app_reading \<Rightarrow> app_alerter \<times> alert list" where
  "app_observe down rd = foldl (app_observe_one rd) (down, []) (rd_svcs rd)"

text \<open>The assertions of an emitter over a series of readings.\<close>

fun emit :: "('s \<Rightarrow> 'o \<Rightarrow> 's \<times> alert list) \<Rightarrow> 's \<Rightarrow> 'o list \<Rightarrow> 's \<times> alert list" where
  "emit look_at s [] = (s, [])"
| "emit look_at s (r # rs) =
     (let (s1, out) = look_at s r; (s2, outs) = emit look_at s1 rs in (s2, out @ outs))"

fun transitions :: "alert list \<Rightarrow> open_titles \<Rightarrow> open_titles" where
  "transitions [] \<sigma> = \<sigma>"
| "transitions (a # as) \<sigma> = transitions as (fst (transition a \<sigma>))"

text \<open>
  What a store may count on from an emitter of conditions: every alert it asserts is under a key of
  its own, and none is an event. Then its assertions leave every other key's state alone, and the
  state of a key is its last assertion's, whatever was open before.
\<close>

locale condition_emitter =
  fixes look_at :: "'s \<Rightarrow> 'o \<Rightarrow> 's \<times> alert list"
    and mine :: "string \<Rightarrow> bool"
  assumes asserts: "a \<in> set (snd (look_at s r)) \<Longrightarrow> mine (al_key a) \<and> al_kind a \<noteq> Event"
begin

lemma emit_asserts: "a \<in> set (snd (emit look_at s rs)) \<Longrightarrow> mine (al_key a) \<and> al_kind a \<noteq> Event"
  by (induction rs arbitrary: s) (auto simp: case_prod_beta Let_def dest: asserts)

lemma transitions_others:
  "(\<And>a. a \<in> set as \<Longrightarrow> mine (al_key a)) \<Longrightarrow> \<not> mine k \<Longrightarrow> transitions as \<sigma> k = \<sigma> k"
proof (induction as arbitrary: \<sigma>)
  case (Cons a as)
  have "al_key a \<noteq> k" using Cons.prems by auto
  then have "fst (transition a \<sigma>) k = \<sigma> k" by (auto simp: transition_def split: alert_kind.split)
  then show ?case using Cons by simp
qed simp

lemma leaves_others_alone: "\<not> mine k \<Longrightarrow> transitions (snd (emit look_at s rs)) \<sigma> k = \<sigma> k"
  using transitions_others emit_asserts by blast

end

lemma transitions_last:
  "transitions as \<sigma> k =
     (case find (\<lambda>a. al_key a = k) (rev as) of
        None \<Rightarrow> \<sigma> k
      | Some a \<Rightarrow> (if al_kind a = Open then Some (al_title a) else None))"
proof (induction as arbitrary: \<sigma>)
  case (Cons a as)
  have "fst (transition a \<sigma>) k =
    (if al_key a = k then (if al_kind a = Open then Some (al_title a) else None) else \<sigma> k)"
    by (auto simp: transition_def split: alert_kind.split)
  then show ?case using Cons [of "fst (transition a \<sigma>)"] by (simp add: find_append split: option.split)
qed simp

interpretation redundancy_emitter: condition_emitter redundancy_observe "\<lambda>k. k = ''redundancy''"
  by unfold_locales
    (auto simp: redundancy_observe_def redundancy_alert_def Let_def split: if_splits redundancy.splits)

interpretation clock_emitter: condition_emitter clock_observe "\<lambda>k. k = ''clock''"
  by unfold_locales (auto simp: clock_observe_def Let_def split: if_splits)

text \<open>One app's turn: what its record of being down becomes, and the assertion it adds.\<close>

definition down_since :: "time \<Rightarrow> app_alerter \<Rightarrow> string \<Rightarrow> time" where
  "down_since now down name = (case down name of Some t \<Rightarrow> t | None \<Rightarrow> now)"

definition app_says :: "app_reading \<Rightarrow> app_alerter \<Rightarrow> app_status \<Rightarrow> alert list" where
  "app_says rd down s =
     (if rd_known rd \<and> \<not> rd_serving rd then
        [\<lparr>al_key = app_key (sv_name s), al_kind = Resolved, al_severity = NoSeverity,
          al_title = ''Briard: '' @ sv_name s @ '' handed over''\<rparr>]
      else if app_working s then
        [\<lparr>al_key = app_key (sv_name s), al_kind = Resolved, al_severity = NoSeverity,
          al_title = ''Briard: '' @ sv_name s @ '' is working again''\<rparr>]
      else if app_down s \<and> app_down_for \<le> time_sub (rd_now rd) (down_since (rd_now rd) down (sv_name s)) then
        [\<lparr>al_key = app_key (sv_name s), al_kind = Open, al_severity = Critical,
          al_title = ''Briard: '' @ sv_name s @ '' is not working''\<rparr>]
      else [])"

definition app_marks :: "app_reading \<Rightarrow> app_alerter \<Rightarrow> app_status \<Rightarrow> app_alerter" where
  "app_marks rd down s =
     (if rd_known rd \<and> \<not> rd_serving rd \<or> app_working s then down(sv_name s := None)
      else if app_down s then down(sv_name s := Some (down_since (rd_now rd) down (sv_name s)))
      else down)"

lemma app_observe_one_says: "app_observe_one rd (down, out) s = (app_marks rd down s, out @ app_says rd down s)"
  by (simp add: app_observe_one_def app_marks_def app_says_def down_since_def Let_def not_le)

lemma app_says_mine: "a \<in> set (app_says rd down s) \<Longrightarrow> al_key a = app_key (sv_name s) \<and> al_kind a \<noteq> Event"
  by (simp add: app_says_def split: if_splits)

lemma app_fold_asserts:
  "a \<in> set (snd (foldl (app_observe_one rd) (down, out) svcs)) \<Longrightarrow>
   a \<in> set out \<or> (prefix ''app:'' (al_key a) \<and> al_kind a \<noteq> Event)"
proof (induction svcs arbitrary: down out)
  case (Cons s svcs)
  then show ?case using Cons.IH [of "app_marks rd down s" "out @ app_says rd down s"] app_says_mine [of a rd down s]
    by (auto simp: app_observe_one_says app_key_def)
qed simp

interpretation app_emitter: condition_emitter app_observe "prefix ''app:''"
  by unfold_locales (auto simp: app_observe_def dest: app_fold_asserts)



section \<open>What the owner is told\<close>

text \<open>
  C15: A restart of the agent is invisible in what is delivered and in what is open: a series of
  assertions with restarts of the agent anywhere in it, whose writes succeed, delivers the alerts and
  leaves open the conditions that the same series without restarts gives under the transition rule,
  started from the conditions open in the file.\<close>
theorem restart_is_invisible:
  "let recs = (case file of None \<Rightarrow> [] | Some recs \<Rightarrow> recs);
       kept = filter (\<lambda>e. e \<noteq> Restart) es
   in snd (store_run es (new_alert_store file)) = snd (spec_run kept (titles_of recs)) \<and>
      titles_of (view (fst (store_run es (new_alert_store file)))) = fst (spec_run kept (titles_of recs))"
proof -
  have drop_restarts: "spec_run (filter (\<lambda>e. e \<noteq> Restart) es) \<sigma> = spec_run es \<sigma>" for es \<sigma>
  proof (induction es arbitrary: \<sigma>)
    case (Cons e es)
    then show ?case by (cases e) simp_all
  qed simp
  have "view (new_alert_store file) = (case file of None \<Rightarrow> [] | Some recs \<Rightarrow> recs)"
    by (simp add: view_def load_store_def new_alert_store_def)
  then show ?thesis using store_run_spec [OF on_file_new] by (simp add: drop_restarts Let_def)
qed

text \<open>What the owner may not be told twice running.\<close>

definition is_change :: "alert \<Rightarrow> alert \<Rightarrow> bool" where
  "is_change a b =
     (case al_kind b of
        Open \<Rightarrow> \<not> (al_kind a = Open \<and> al_title a = al_title b)
      | Resolved \<Rightarrow> al_kind a = Open
      | Event \<Rightarrow> True)"

definition about :: "string \<Rightarrow> alert list \<Rightarrow> alert list" where
  "about k as = filter (\<lambda>a. al_key a = k) as"

definition news_from :: "string option \<Rightarrow> alert \<Rightarrow> bool" where
  "news_from cur b =
     (case al_kind b of Open \<Rightarrow> cur \<noteq> Some (al_title b) | Resolved \<Rightarrow> cur \<noteq> None | Event \<Rightarrow> True)"

lemma spec_run_changes:
  "successively is_change (about k (snd (spec_run es \<sigma>))) \<and>
   (case about k (snd (spec_run es \<sigma>)) of [] \<Rightarrow> True | b # _ \<Rightarrow> news_from (\<sigma> k) b)"
proof (induction es \<sigma> rule: spec_run.induct)
  case (2 a now es \<sigma>)
  obtain \<sigma>1 out where tr: "transition a \<sigma> = (\<sigma>1, out)" by fastforce
  show ?case
  proof (cases "al_key a = k \<and> out \<noteq> None")
    case True
    with tr have out: "out = Some a" and new: "news_from (\<sigma> k) a"
      and cur: "\<sigma>1 k = (if al_kind a = Open then Some (al_title a) else None)"
      by (auto simp: transition_def news_from_def split: alert_kind.splits if_splits)
    have ch: "news_from (\<sigma>1 k) b \<Longrightarrow> is_change a b" for b
      using cur by (auto simp: news_from_def is_change_def split: alert_kind.splits if_splits)
    show ?thesis using 2 [OF tr [symmetric] refl] tr out new True ch
      by (simp add: about_def case_prod_beta Let_def successively_Cons hd_def split: list.splits)
  next
    case False
    then have "\<sigma>1 k = \<sigma> k" "about k (case out of None \<Rightarrow> outs | Some x \<Rightarrow> x # outs) = about k outs" for outs
      using tr by (auto simp: transition_def about_def split: alert_kind.splits if_splits)
    then show ?thesis using 2 [OF tr [symmetric] refl] tr by (simp add: case_prod_beta Let_def cong: list.case_cong)
  qed
qed (simp_all add: about_def)

text \<open>
  The owner is told changes only: among the alerts of one key that leave the store, whatever the
  emitters assert and however often the agent restarts, an opening is never followed by an opening
  with the same title, and a resolution always follows an opening.\<close>
lemma owner_is_told_changes:
  "successively is_change (about k (snd (store_run es (new_alert_store file))))"
  using store_run_spec(2) [OF on_file_new] spec_run_changes by simp


section \<open>What the record shows\<close>

lemma last_index_snoc:
  "last_index (recs @ [r]) k = (if rec_key r = k then Some (length recs) else last_index recs k)"
  by (simp add: last_index_def enumerate_append_eq)

lemma last_index_latest:
  "last_index recs k = Some i \<Longrightarrow> i < length recs \<and> latest_locked recs k = Some (recs ! i) \<and> rec_key (recs ! i) = k"
  by (induction recs rule: rev_induct)
    (auto simp: last_index_snoc last_index_def [of "[]"] nth_append split: if_splits option.split)

lemma last_index_None: "last_index recs k = None \<longleftrightarrow> latest_locked recs k = None"
  by (induction recs rule: rev_induct) (auto simp: last_index_snoc last_index_def [of "[]"] split: option.split)

lemma open_now_titles:
  "(\<lambda>r. (rec_key r, al_title (nr_alert r))) ` set (open_now recs) = {(k, t). titles_of recs k = Some t}"
  (is "?f ` _ = _")
proof (rule set_eqI)
  fix kt :: "string \<times> string"
  obtain k t where kt: "kt = (k, t)" by fastforce
  have "kt \<in> ?f ` set (open_now recs) \<longleftrightarrow>
    (\<exists>i<length recs. last_index recs (rec_key (recs ! i)) = Some i \<and> al_kind (nr_alert (recs ! i)) = Open \<and>
       k = rec_key (recs ! i) \<and> t = al_title (nr_alert (recs ! i)))"
    unfolding kt open_now_def by (force simp: in_set_enumerate_eq image_iff)
  also have "\<dots> \<longleftrightarrow> (\<exists>i. last_index recs k = Some i \<and> al_kind (nr_alert (recs ! i)) = Open \<and> t = al_title (nr_alert (recs ! i)))"
    using last_index_latest by blast
  also have "\<dots> \<longleftrightarrow> titles_of recs k = Some t"
    using last_index_latest [of recs k] last_index_None [of recs k]
    by (cases "last_index recs k") (auto simp: titles_of_def split: if_splits)
  finally show "kt \<in> ?f ` set (open_now recs) \<longleftrightarrow> kt \<in> {(k, t). titles_of recs k = Some t}"
    by (simp add: kt)
qed

lemma sorted_wrt_distinct_map: "sorted_wrt (\<lambda>p q. f p \<noteq> f q) xs \<Longrightarrow> distinct (map f xs)"
  by (induction xs) auto

lemma open_now_distinct: "distinct (map rec_key (open_now recs))"
proof -
  have "sorted_wrt (\<lambda>p q. rec_key (snd p) \<noteq> rec_key (snd q))
    (filter (\<lambda>(i, r). last_index recs (rec_key r) = Some i \<and> al_kind (nr_alert r) = Open) (enumerate 0 recs))"
    by (rule sorted_wrt_mono_rel [OF _ sorted_wrt_filter [of "\<lambda>p q. fst p < fst q"]])
      (auto simp: sorted_wrt_iff_nth_less nth_enumerate_eq)
  then show ?thesis using sorted_wrt_distinct_map [of "rec_key \<circ> snd"] by (simp add: open_now_def)
qed

text \<open>
  What the dashboard and the alerts command show is what is wrong: after any series of assertions
  and restarts, the open list has one line per key, and its lines are exactly the conditions that the
  transition rule leaves open, under the title each was last opened with.\<close>
lemma open_list_is_the_truth:
  "let recs = view (fst (store_run es (new_alert_store file)));
       \<sigma> = fst (spec_run es (titles_of (case file of None \<Rightarrow> [] | Some recs \<Rightarrow> recs)))
   in distinct (map rec_key (open_now recs)) \<and>
      (\<lambda>r. (rec_key r, al_title (nr_alert r))) ` set (open_now recs) = {(k, t). \<sigma> k = Some t}"
proof -
  have "view (new_alert_store file) = (case file of None \<Rightarrow> [] | Some recs \<Rightarrow> recs)"
    by (simp add: view_def load_store_def new_alert_store_def)
  then show ?thesis
    using store_run_spec(1) [OF on_file_new] open_now_titles open_now_distinct by (simp add: Let_def)
qed



section \<open>The history is bounded\<close>

lemma keep_older_distinct: "distinct (map rec_key (keep_older seen rs))"
proof -
  have "set (keep_older seen rs) \<subseteq> set rs" for rs by (induction rs) auto
  then show ?thesis by (induction rs) (force simp: list_ex_iff)+
qed

lemma keep_older_keys: "rec_key ` set (keep_older seen rs) \<subseteq> rec_key ` set rs"
  by (induction rs) auto

definition within_cap :: "alert_rec list \<Rightarrow> bool" where
  "within_cap recs \<longleftrightarrow> length recs \<le> alert_store_cap + card (rec_key ` set recs)"

lemma trim_within_cap: "within_cap (trim_locked recs)"
proof (cases "length recs \<le> alert_store_cap")
  case False
  define n where "n = length recs - alert_store_cap"
  define old where "old = keep_older (\<lambda>key. list_ex (\<lambda>r. rec_key r = key) (drop n recs)) (take n recs)"
  have "length old = card (rec_key ` set old)"
    using keep_older_distinct [of _ "take n recs"] distinct_card [of "map rec_key old"] by (simp add: old_def)
  also have "\<dots> \<le> card (rec_key ` set (old @ drop n recs))" by (rule card_mono) auto
  finally show ?thesis
    using False by (simp add: within_cap_def trim_locked_def Let_def n_def old_def)
qed (simp add: within_cap_def trim_locked_def)

lemma notify_within_cap: "within_cap (view s) \<Longrightarrow> within_cap (view (fst (notify writes now a s)))"
  by (simp add: notify_view trim_within_cap)

lemma notify_keeps_recent:
  assumes "length (view s) < alert_store_cap"
  shows "snd (notify writes now a s) \<noteq> None \<Longrightarrow>
    view (fst (notify writes now a s)) = view s @ [\<lparr>nr_alert = a, nr_at = now\<rparr>]"
  using assms by (auto simp: notify_view trim_locked_def notify_def Let_def view_def [symmetric] split: if_splits)

text \<open>
  The record cannot grow without bound: a store that started from an empty or bounded file holds,
  after any series of assertions and restarts, at most two hundred records beyond one for each key it
  knows.\<close>
lemma history_is_bounded:
  assumes "case stored of None \<Rightarrow> True | Some recs \<Rightarrow> within_cap recs"
  shows "within_cap (view (fst (store_run es (new_alert_store stored))))"
proof -
  have "within_cap (view s) \<Longrightarrow> on_file s \<Longrightarrow> within_cap (view (fst (store_run es s)))" for s
  proof (induction es arbitrary: s)
    case (Cons e es)
    then show ?case
      using notify_within_cap notify_on_file view_restart on_file_new
      by (cases e) (simp_all add: case_prod_beta Let_def)
  qed simp
  moreover have "within_cap (view (new_alert_store stored))"
    using assms
    by (cases stored) (simp_all add: view_def load_store_def new_alert_store_def within_cap_def)
  ultimately show ?thesis using on_file_new by blast
qed

section \<open>What the emitters say\<close>

text \<open>
  The alarm that the house is down to one disk needs evidence: the redundancy emitter asserts a
  critical opening only from a quorate reading that shows fewer peers than expected, lists at least
  one peer, and lists none that could take over with the data; and it asserts restored only when every
  expected peer is connected.\<close>
lemma second_copy_alarm_needs_evidence:
  assumes "a \<in> set (snd (redundancy_observe ra (cl, now)))"
  shows "qs_quorate (cl_state cl) \<and>
    (al_severity a = Critical \<longrightarrow>
      int (qs_connected (cl_state cl)) < ra_peers ra \<and> cl_peers cl \<noteq> [] \<and> \<not> peer_can_take_over cl) \<and>
    (al_kind a = Resolved \<longleftrightarrow> ra_peers ra \<le> int (qs_connected (cl_state cl)))"
  using assms
  by (auto simp: redundancy_observe_def redundancy_alert_def classify_def Let_def split: if_splits)

text \<open>The grace of a replica set that is still connecting.\<close>

lemma redundancy_grace_from:
  assumes "\<not> ra_armed ra" "ra_peers ra = n" "ra_start ra = 0 \<or> start \<le> ra_start ra"
    and "\<forall>(cl, now)\<in>set readings. classify n cl \<noteq> RedundancyFull \<and>
      start \<le> now \<and> now < start + redundancy_converge_for"
  shows "snd (emit redundancy_observe ra readings) = []"
  using assms
proof (induction readings arbitrary: ra)
  case (Cons r rs)
  obtain cl now where r: "r = (cl, now)" by fastforce
  define began where "began = (if ra_start ra = 0 then now else ra_start ra)"
  have now: "classify n cl \<noteq> RedundancyFull" "start \<le> now" "now < start + redundancy_converge_for"
    using Cons.prems(4) r by auto
  have "start \<le> began" using Cons.prems(3) now by (auto simp: began_def)
  then have early: "\<not> redundancy_converge_for \<le> time_sub now began"
    using now by (simp add: time_sub_ge_iff redundancy_converge_for_def duration_defs)
  let ?ra = "if n \<le> 0 \<or> \<not> qs_quorate (cl_state cl) then ra else ra\<lparr>ra_start := began, ra_armed := False\<rparr>"
  have step: "redundancy_observe ra (cl, now) = (?ra, [])"
    using Cons.prems(1,2) now(1) early by (simp add: redundancy_observe_def Let_def began_def [symmetric])
  have "snd (emit redundancy_observe ?ra rs) = []"
    using Cons.prems \<open>start \<le> began\<close> by (intro Cons.IH) auto
  then show ?case using step r by (simp add: case_prod_beta Let_def)
qed simp

text \<open>
  A household whose machines come up one after the other is not alarmed: a fresh redundancy
  emitter asserts nothing over readings that fall within five minutes, while none of them shows every
  peer connected.\<close>
lemma converging_flock_is_quiet:
  assumes "\<forall>(cl, now)\<in>set readings. classify peers cl \<noteq> RedundancyFull \<and>
      start \<le> now \<and> now < start + redundancy_converge_for"
  shows "snd (emit redundancy_observe (new_redundancy_alerter peers) readings) = []"
  using assms by (intro redundancy_grace_from) (auto simp: new_redundancy_alerter_def)

lemma time_sub_minutes: "(10 * minute \<le> time_sub t u) = (10 * minute \<le> t - u)"
  by (rule time_sub_ge_iff) (simp_all add: duration_defs)

text \<open>The turns of the apps over a series of readings, in the order the emitter takes them.\<close>

definition turns :: "app_reading list \<Rightarrow> (app_reading \<times> app_status) list" where
  "turns rds = concat (map (\<lambda>rd. map (\<lambda>s. (rd, s)) (rd_svcs rd)) rds)"

definition take_turn :: "app_alerter \<times> alert list \<Rightarrow> app_reading \<times> app_status \<Rightarrow> app_alerter \<times> alert list" where
  "take_turn st = (\<lambda>(rd, s). app_observe_one rd st s)"

lemma take_turn_says: "take_turn (down, out) (rd, s) = (app_marks rd down s, out @ app_says rd down s)"
  by (simp add: take_turn_def app_observe_one_says)

lemma fold_says: "foldl (app_observe_one rd) (down, out) svcs =
    (let (d, o') = foldl (app_observe_one rd) (down, []) svcs in (d, out @ o'))"
proof (induction svcs arbitrary: down out)
  case (Cons s svcs)
  show ?case
    using Cons [of "app_marks rd down s" "out @ app_says rd down s"] Cons [of "app_marks rd down s" "app_says rd down s"]
    by (simp add: app_observe_one_says case_prod_beta Let_def)
qed simp

lemma emit_turns:
  "foldl take_turn (down, out) (turns rds) =
     (let (d, o') = emit app_observe down rds in (d, out @ o'))"
proof (induction rds arbitrary: down out)
  case (Cons rd rds)
  have "foldl take_turn st (map (\<lambda>s. (rd, s)) svcs) = foldl (app_observe_one rd) st svcs" for st svcs
    by (induction svcs arbitrary: st) (simp_all add: take_turn_def)
  then show ?case
    using Cons fold_says [of rd down out "rd_svcs rd"]
    by (simp add: turns_def app_observe_def case_prod_beta Let_def)
qed (simp add: turns_def)

text \<open>An app's mark stands for a run of turns in which it was down once and never well.\<close>

definition unwell :: "string \<Rightarrow> app_reading \<times> app_status \<Rightarrow> bool" where
  "unwell name = (\<lambda>(rd, s). sv_name s = name \<longrightarrow> \<not> app_working s \<and> (rd_known rd \<longrightarrow> rd_serving rd))"

definition down_run :: "(app_reading \<times> app_status) list \<Rightarrow> string \<Rightarrow> time \<Rightarrow> bool" where
  "down_run ts name t \<longleftrightarrow>
     (\<exists>us rd s vs. ts = us @ (rd, s) # vs \<and> sv_name s = name \<and> app_down s \<and> rd_now rd = t \<and>
        (\<forall>u\<in>set ((rd, s) # vs). unwell name u))"

lemma down_run_snoc: "down_run ts name t \<Longrightarrow> unwell name u \<Longrightarrow> down_run (ts @ [u]) name t"
  unfolding down_run_def by (elim exE conjE) (rule exI, rule exI, rule exI, rule exI [of _ "_ @ [u]"], auto)

lemma down_run_start: "sv_name s = name \<Longrightarrow> app_down s \<Longrightarrow> unwell name (rd, s) \<Longrightarrow> down_run (ts @ [(rd, s)]) name (rd_now rd)"
  unfolding down_run_def by fastforce

lemma marks_are_down_runs:
  "fst (foldl take_turn (Map.empty, []) ts) name = Some t \<Longrightarrow> down_run ts name t"
proof (induction ts arbitrary: t rule: rev_induct)
  case (snoc u ts)
  obtain rd s where u: "u = (rd, s)" by fastforce
  obtain down out where d: "foldl take_turn (Map.empty, []) ts = (down, out)" by fastforce
  have "app_marks rd down s name = Some t"
    using snoc.prems u d by (simp add: take_turn_says)
  then show ?case
    using snoc.IH [of t] down_run_snoc [of ts name t u] down_run_start [of s name rd ts] u d
    by (auto simp: app_marks_def unwell_def down_since_def split: if_splits option.splits)
qed simp

lemma asserted_at_a_turn:
  "a \<in> set (snd (foldl take_turn (down, []) ts)) \<Longrightarrow>
   \<exists>pre rd s post. ts = pre @ (rd, s) # post \<and> a \<in> set (app_says rd (fst (foldl take_turn (down, []) pre)) s)"
proof (induction ts rule: rev_induct)
  case (snoc u ts)
  obtain rd s where u: "u = (rd, s)" by fastforce
  obtain down' out where d: "foldl take_turn (down, []) ts = (down', out)" by fastforce
  from snoc.prems u d have "a \<in> set out \<or> a \<in> set (app_says rd down' s)"
    by (simp add: take_turn_says)
  then show ?case
  proof
    assume "a \<in> set out"
    then obtain pre rd s post where "ts = pre @ (rd, s) # post"
      "a \<in> set (app_says rd (fst (foldl take_turn (down, []) pre)) s)"
      using snoc.IH d by auto
    then have "ts @ [u] = pre @ (rd, s) # (post @ [u]) \<and> a \<in> set (app_says rd (fst (foldl take_turn (down, []) pre)) s)"
      by simp
    then show ?thesis by blast
  next
    assume "a \<in> set (app_says rd down' s)"
    then have "ts @ [u] = ts @ (rd, s) # [] \<and> a \<in> set (app_says rd (fst (foldl take_turn (down, []) ts)) s)"
      using u d by simp
    then show ?thesis by blast
  qed
qed simp

text \<open>
  An app is reported as not working only after ten minutes of it: behind every opening the app
  emitter asserts there is, among the turns it took, one at which that app was down, at least ten
  minutes before the turn that opens, at which it is down too; and at no turn of that app from the
  first to the last was it working, nor had the node given the volume away.\<close>
lemma app_alarm_after_ten_minutes:
  assumes "a \<in> set (snd (emit app_observe Map.empty rds))" "al_kind a = Open"
  shows "\<exists>pre rd s post t. turns rds = pre @ (rd, s) # post \<and> al_key a = app_key (sv_name s) \<and>
      app_down s \<and> unwell (sv_name s) (rd, s) \<and>
      down_run pre (sv_name s) t \<and> 10 * minute \<le> rd_now rd - t"
proof -
  have "a \<in> set (snd (foldl take_turn (Map.empty, []) (turns rds)))"
    using assms(1) emit_turns [of Map.empty "[]" rds] by (simp add: case_prod_beta Let_def)
  then obtain pre rd s post where at: "turns rds = pre @ (rd, s) # post"
    and says: "a \<in> set (app_says rd (fst (foldl take_turn (Map.empty, []) pre)) s)"
    using asserted_at_a_turn by blast
  define down where "down = fst (foldl take_turn (Map.empty, []) pre)"
  have late: "app_down_for \<le> time_sub (rd_now rd) (down_since (rd_now rd) down (sv_name s))"
    and s: "al_key a = app_key (sv_name s)" "app_down s" "unwell (sv_name s) (rd, s)"
    using says assms(2) by (auto simp: app_says_def unwell_def down_def split: if_splits)
  obtain t where t: "down (sv_name s) = Some t"
    using late by (cases "down (sv_name s)") (simp_all add: down_since_def app_down_for_def duration_defs)
  have "10 * minute \<le> rd_now rd - t"
    using late t by (simp add: down_since_def app_down_for_def time_sub_minutes)
  moreover have "down_run pre (sv_name s) t"
    using t marks_are_down_runs by (simp add: down_def)
  ultimately show ?thesis using at s by blast
qed

text \<open>
  An emitter cannot open or close the condition of another: whatever an app emitter, the
  redundancy emitter or the clock emitter reads, the state of a key that is not its own is what it was
  before it spoke.\<close>
lemma emitters_keep_to_their_keys:
  assumes "\<not> prefix ''app:'' k"
  shows "transitions (snd (emit app_observe down rds)) \<sigma> k = \<sigma> k \<and>
    (k \<noteq> ''redundancy'' \<longrightarrow> transitions (snd (emit redundancy_observe ra readings)) \<sigma> k = \<sigma> k) \<and>
    (k \<noteq> ''clock'' \<longrightarrow> transitions (snd (emit clock_observe ck clocks)) \<sigma> k = \<sigma> k)"
  using assms app_emitter.leaves_others_alone redundancy_emitter.leaves_others_alone
    clock_emitter.leaves_others_alone by simp


end
