(* ===== verification/EntryGate.thy ===== *)
theory EntryGate
  imports Prelude "HOL-Library.Product_Lexorder" "HOL-Library.Multiset"
begin

text \<open>
  The readiness gate of an app upgrade: the verdict on two samples of Home Assistant's config
  entries (\<open>agent/guest/entrygate/entrygate.go\<close>), the assessors that take the samples
  (\<open>agent/host/readiness.go\<close>) and the gate's policy on its own failures (\<open>Gate\<close> in
  \<open>agent/guest/guest.go\<close>).

  What a guest verb answers, whether the time to settle was there, and the random token are
  arguments. \<open>sort.Slice\<close> is a stable sort on domain and id here; the order it gives to two
  findings of the same entry is not fixed by Go.
\<close>


section \<open>Two samples, one verdict\<close>

definition state_loaded :: string where "state_loaded = ''loaded''"
definition state_setup_retry :: string where "state_setup_retry = ''setup_retry''"
definition state_setup_in_progress :: string where "state_setup_in_progress = ''setup_in_progress''"
definition state_setup_error :: string where "state_setup_error = ''setup_error''"
definition state_migration_error :: string where "state_migration_error = ''migration_error''"
definition state_not_loaded :: string where "state_not_loaded = ''not_loaded''"

lemmas state_defs = state_loaded_def state_setup_retry_def state_setup_in_progress_def
  state_setup_error_def state_migration_error_def state_not_loaded_def

record entry =
  en_id :: string
  en_domain :: string
  en_state :: string

datatype verdict = Pass | Hold | Rollback

record finding =
  fd_id :: string
  fd_domain :: string
  fd_was :: string
  fd_now :: string
  fd_reason :: string

record gate_result =
  gr_verdict :: verdict
  gr_findings :: "finding list"

definition cluster_threshold :: int where "cluster_threshold = 2"

text \<open>The last word of the third reason, spelled out.\<close>

definition word_back :: string where "word_back = [CHR ''b'', CHR ''a'', CHR ''c'', CHR ''k'']"

definition reason_migration :: string where "reason_migration = ''config-entry migration failed''"
definition reason_terminal :: string where "reason_terminal = ''was loaded, now terminally failed''"
definition reason_unsettled :: string where "reason_unsettled = ''was loaded, did not settle '' @ word_back"

definition finding_of :: "entry \<Rightarrow> string \<Rightarrow> string \<Rightarrow> finding" where
  "finding_of e was reason =
     \<lparr>fd_id = en_id e, fd_domain = en_domain e, fd_was = was, fd_now = en_state e, fd_reason = reason\<rparr>"

definition sort_findings :: "finding list \<Rightarrow> finding list" where
  "sort_findings fs = sort_key (\<lambda>f. (fd_domain f, fd_id f)) fs"

text \<open>The map of the first sample: a later entry with the same id replaces an earlier one.\<close>

definition pre_state :: "entry list \<Rightarrow> string \<Rightarrow> string option" where
  "pre_state pre = foldl (\<lambda>m e. m(en_id e \<mapsto> en_state e)) Map.empty pre"

definition was_state :: "entry list \<Rightarrow> string \<Rightarrow> string" where
  "was_state pre key = (case pre_state pre key of None \<Rightarrow> [] | Some s \<Rightarrow> s)"

text \<open>One entry of the second sample goes to one of three lists, or to none.\<close>

definition take_entry ::
    "(string \<Rightarrow> string) \<Rightarrow> finding list \<times> finding list \<times> finding list \<Rightarrow> entry \<Rightarrow>
     finding list \<times> finding list \<times> finding list" where
  "take_entry was_of = (\<lambda>(migrations, regressions, non_settled) e.
     (let was = was_of (en_id e)
      in if en_state e = state_migration_error then
           (migrations @ [finding_of e was reason_migration], regressions, non_settled)
         else if was \<noteq> state_loaded then (migrations, regressions, non_settled)
         else if en_state e = state_setup_error then
           (migrations, regressions @ [finding_of e was reason_terminal], non_settled)
         else if en_state e = state_setup_retry \<or> en_state e = state_setup_in_progress \<or> en_state e = state_not_loaded then
           (migrations, regressions, non_settled @ [finding_of e was reason_unsettled])
         else (migrations, regressions, non_settled)))"

definition assess_entries :: "int \<Rightarrow> entry list \<Rightarrow> entry list \<Rightarrow> gate_result" where
  "assess_entries threshold pre post =
     (let (migrations, regressions, non_settled) = foldl (take_entry (was_state pre)) ([], [], []) post
      in if migrations \<noteq> [] \<or> threshold \<le> int (length regressions) then
           \<lparr>gr_verdict = Rollback, gr_findings = sort_findings (migrations @ regressions)\<rparr>
         else if regressions \<noteq> [] then
           \<lparr>gr_verdict = Hold, gr_findings = sort_findings (regressions @ non_settled)\<rparr>
         else if non_settled \<noteq> [] then
           \<lparr>gr_verdict = Hold, gr_findings = sort_findings non_settled\<rparr>
         else \<lparr>gr_verdict = Pass, gr_findings = []\<rparr>)"

definition verdict_text :: "verdict \<Rightarrow> string" where
  "verdict_text v = (case v of Pass \<Rightarrow> ''pass'' | Hold \<Rightarrow> ''hold'' | Rollback \<Rightarrow> ''rollback'')"

text \<open>The arrow in the reason line is the three bytes of its UTF-8 encoding.\<close>

definition reason_line :: "gate_result \<Rightarrow> string" where
  "reason_line r =
     (if gr_findings r = [] then verdict_text (gr_verdict r)
      else verdict_text (gr_verdict r) @ '':'' @
        concat (map (\<lambda>f. '' '' @ fd_domain f @ ''('' @ fd_was f @ map char_of [226 :: nat, 134, 146] @ fd_now f @
          '': '' @ fd_reason f @ '')'') (gr_findings r)))"


section \<open>The gate and its assessors\<close>

datatype guest_verdict = VerdictPass | VerdictHold | VerdictRollback

definition verdict_of :: "verdict \<Rightarrow> guest_verdict" where
  "verdict_of v = (case v of Rollback \<Rightarrow> VerdictRollback | Hold \<Rightarrow> VerdictHold | Pass \<Rightarrow> VerdictPass)"

text \<open>The baseline an assessor hands back is opaque to the gate; each assessor checks that it is its own.\<close>

datatype baseline = EntrySample "entry list" | TokenSample string

record assessor =
  as_baseline :: "string + baseline"
  as_assess :: "baseline \<Rightarrow> string + guest_verdict \<times> string"

record readiness =
  rd_base :: "baseline option"
  rd_on :: bool

definition gate_capture :: "assessor option \<Rightarrow> readiness" where
  "gate_capture a =
     (case a of
        None \<Rightarrow> \<lparr>rd_base = None, rd_on = False\<rparr>
      | Some a \<Rightarrow>
          (case as_baseline a of
             Inl _ \<Rightarrow> \<lparr>rd_base = None, rd_on = False\<rparr>
           | Inr base \<Rightarrow> \<lparr>rd_base = Some base, rd_on = True\<rparr>))"

text \<open>\<open>Some reason\<close> is the error that reverts the upgrade.\<close>

definition gate_judge :: "assessor option \<Rightarrow> readiness \<Rightarrow> string option" where
  "gate_judge a r =
     (if \<not> rd_on r then None
      else
        (case (a, rd_base r) of
           (Some a, Some base) \<Rightarrow>
             (case as_assess a base of
                Inl _ \<Rightarrow> None
              | Inr (v, reason) \<Rightarrow>
                  (case v of VerdictRollback \<Rightarrow> Some (''readiness gate: '' @ reason)
                   | VerdictHold \<Rightarrow> None | VerdictPass \<Rightarrow> None))
         | _ \<Rightarrow> None))"

text \<open>
  Home Assistant: \<open>before\<close> and \<open>after\<close> are the answers of the two samples, \<open>settled\<close> whether the
  budget lasted through the settle window.
\<close>

definition entry_assessor :: "string + entry list \<Rightarrow> bool \<Rightarrow> string + entry list \<Rightarrow> assessor" where
  "entry_assessor before settled after =
     \<lparr>as_baseline = (case before of Inl e \<Rightarrow> Inl e | Inr pre \<Rightarrow> Inr (EntrySample pre)),
      as_assess = (\<lambda>base.
        case base of
          TokenSample _ \<Rightarrow> Inl ''readiness: baseline is not a config-entry sample''
        | EntrySample pre \<Rightarrow>
            (if \<not> settled then Inl ''readiness: no time left to settle''
             else
               (case after of
                  Inl e \<Rightarrow> Inl e
                | Inr post \<Rightarrow>
                    (let res = assess_entries cluster_threshold pre post
                     in Inr (verdict_of (gr_verdict res), reason_line res)))))\<rparr>"

record sample =
  sm_serving :: bool
  sm_token :: string

definition probe_baseline :: "string \<Rightarrow> string + string \<Rightarrow> string + sample \<Rightarrow> string + baseline" where
  "probe_baseline name token stored =
     (case token of
        Inl e \<Rightarrow> Inl e
      | Inr token \<Rightarrow>
          (case stored of
             Inl e \<Rightarrow> Inl e
           | Inr s \<Rightarrow>
               (if \<not> sm_serving s then
                  Inl (''readiness: '' @ name @ '' was not serving clients before the change; nothing to compare against'')
                else if sm_token s \<noteq> token then Inl (''readiness: '' @ name @ '' did not store the probe token'')
                else Inr (TokenSample token))))"

text \<open>
  The poll after the change. One turn is a sample that took \<open>pt_took\<close> to answer (or fail), and, if
  the poll goes on, a wait of \<open>probe_retry\<close> and \<open>pt_over\<close> more, which the end of the install's budget
  can cut short (\<open>pt_done\<close>). Times count from the start of \<open>Assess\<close>, where the deadline is set
  \<open>settle\<close> ahead. The waits bring the deadline nearer, so the loop ends whatever is answered.
\<close>

definition probe_settle :: duration where "probe_settle = 30 * second"
definition probe_retry :: duration where "probe_retry = 2 * second"

record probe_turn =
  pt_answer :: "string + sample"
  pt_took :: nat
  pt_over :: nat
  pt_done :: bool

function poll_sample :: "duration \<Rightarrow> (nat \<Rightarrow> probe_turn) \<Rightarrow> nat \<Rightarrow> duration \<Rightarrow> string + sample" where
  "poll_sample settle turns i t =
     (let p = turns i; now = t + int (pt_took p)
      in case pt_answer p of
           Inl e \<Rightarrow> Inl e
         | Inr s \<Rightarrow>
             (if sm_serving s \<or> settle < now then Inr s
              else if pt_done p then Inl ''readiness: no time left to settle''
              else poll_sample settle turns (Suc i) (now + probe_retry + int (pt_over p))))"
  by pat_completeness auto
termination
  by (relation "measure (\<lambda>(settle, turns, i, t). nat (settle + 1 - t))")
    (auto simp: probe_retry_def second_def)

declare poll_sample.simps [simp del]

definition probe_assess :: "string \<Rightarrow> duration \<Rightarrow> (nat \<Rightarrow> probe_turn) \<Rightarrow> string \<Rightarrow> string + guest_verdict \<times> string" where
  "probe_assess name settle turns want =
     (if want = [] then Inl ''readiness: baseline is not a probe token''
      else
        (case poll_sample settle turns 0 0 of
           Inl e \<Rightarrow> Inl e
         | Inr s \<Rightarrow>
             (if \<not> sm_serving s then
                Inr (VerdictRollback, name @ '' answers its health endpoint but accepts no clients'')
              else if sm_token s \<noteq> want then
                Inr (VerdictRollback, name @ '' came '' @ word_back @ '' without the state it had (its retained messages are gone)'')
              else Inr (VerdictPass, []))))"

definition probe_assessor ::
    "string \<Rightarrow> duration \<Rightarrow> string + string \<Rightarrow> string + sample \<Rightarrow> (nat \<Rightarrow> probe_turn) \<Rightarrow> assessor" where
  "probe_assessor name settle token stored turns =
     \<lparr>as_baseline = probe_baseline name token stored,
      as_assess = (\<lambda>base.
        case base of
          EntrySample _ \<Rightarrow> Inl ''readiness: baseline is not a probe token''
        | TokenSample want \<Rightarrow> probe_assess name settle turns want)\<rparr>"

text \<open>
  What the guest answers over one upgrade, for either app; \<open>cfg_settle\<close> is the configured window, 0
  where none is.
\<close>

record guest_answers =
  ga_before :: "string + entry list"
  ga_settled :: bool
  ga_after :: "string + entry list"
  ga_token :: "string + string"
  ga_stored :: "string + sample"
  ga_turns :: "nat \<Rightarrow> probe_turn"
  cfg_settle :: duration

definition broker_settle :: "guest_answers \<Rightarrow> duration" where
  "broker_settle g = (if cfg_settle g = 0 then probe_settle else cfg_settle g)"

definition assessor_for :: "string \<Rightarrow> guest_answers \<Rightarrow> assessor option" where
  "assessor_for name g =
     (if name = ''home-assistant'' then Some (entry_assessor (ga_before g) (ga_settled g) (ga_after g))
      else if name = ''mosquitto'' then
        Some (probe_assessor name (broker_settle g) (ga_token g) (ga_stored g) (ga_turns g))
      else None)"

definition upgrade_gate :: "string \<Rightarrow> guest_answers \<Rightarrow> string option" where
  "upgrade_gate name g = gate_judge (assessor_for name g) (gate_capture (assessor_for name g))"


section \<open>The three lists\<close>

definition is_migration :: "entry \<Rightarrow> bool" where
  "is_migration e \<longleftrightarrow> en_state e = state_migration_error"

definition is_regression :: "(string \<Rightarrow> string) \<Rightarrow> entry \<Rightarrow> bool" where
  "is_regression was_of e \<longleftrightarrow> was_of (en_id e) = state_loaded \<and> en_state e = state_setup_error"

definition is_unsettled :: "(string \<Rightarrow> string) \<Rightarrow> entry \<Rightarrow> bool" where
  "is_unsettled was_of e \<longleftrightarrow> was_of (en_id e) = state_loaded \<and>
     (en_state e = state_setup_retry \<or> en_state e = state_setup_in_progress \<or> en_state e = state_not_loaded)"

definition find_with :: "(string \<Rightarrow> string) \<Rightarrow> string \<Rightarrow> entry \<Rightarrow> finding" where
  "find_with was_of reason e = finding_of e (was_of (en_id e)) reason"

lemma states_distinct:
  "state_setup_error \<noteq> state_migration_error" "state_setup_retry \<noteq> state_migration_error"
  "state_setup_in_progress \<noteq> state_migration_error" "state_not_loaded \<noteq> state_migration_error"
  "state_loaded \<noteq> state_migration_error" "state_setup_retry \<noteq> state_setup_error"
  "state_setup_in_progress \<noteq> state_setup_error" "state_not_loaded \<noteq> state_setup_error"
  "state_loaded \<noteq> state_setup_error" "state_loaded \<noteq> state_setup_retry"
  "state_loaded \<noteq> state_setup_in_progress" "state_loaded \<noteq> state_not_loaded"
  by (simp_all add: state_defs)

lemma take_entry_lists:
  "take_entry w (ms, rs, ns) e =
     (ms @ (if is_migration e then [find_with w reason_migration e] else []),
      rs @ (if is_regression w e then [find_with w reason_terminal e] else []),
      ns @ (if is_unsettled w e then [find_with w reason_unsettled e] else []))"
  using states_distinct
  by (auto simp: take_entry_def is_migration_def is_regression_def is_unsettled_def find_with_def Let_def)

lemma entries_split:
  "foldl (take_entry w) (ms, rs, ns) post =
     (ms @ map (find_with w reason_migration) (filter is_migration post),
      rs @ map (find_with w reason_terminal) (filter (is_regression w) post),
      ns @ map (find_with w reason_unsettled) (filter (is_unsettled w) post))"
  by (induction post arbitrary: ms rs ns) (simp_all add: take_entry_lists)

lemma assess_entries_lists:
  "assess_entries threshold pre post =
     (let w = was_state pre;
          migrations = map (find_with w reason_migration) (filter is_migration post);
          regressions = map (find_with w reason_terminal) (filter (is_regression w) post);
          non_settled = map (find_with w reason_unsettled) (filter (is_unsettled w) post)
      in if migrations \<noteq> [] \<or> threshold \<le> int (length regressions) then
           \<lparr>gr_verdict = Rollback, gr_findings = sort_findings (migrations @ regressions)\<rparr>
         else if regressions \<noteq> [] then
           \<lparr>gr_verdict = Hold, gr_findings = sort_findings (regressions @ non_settled)\<rparr>
         else if non_settled \<noteq> [] then
           \<lparr>gr_verdict = Hold, gr_findings = sort_findings non_settled\<rparr>
         else \<lparr>gr_verdict = Pass, gr_findings = []\<rparr>)"
  by (simp add: assess_entries_def entries_split Let_def)

lemma verdict_table:
  "gr_verdict (assess_entries threshold pre post) =
     (if (\<exists>e\<in>set post. is_migration e) \<or> threshold \<le> int (length (filter (is_regression (was_state pre)) post)) then Rollback
      else if \<exists>e\<in>set post. is_regression (was_state pre) e \<or> is_unsettled (was_state pre) e then Hold
      else Pass)"
  by (auto simp: assess_entries_lists Let_def filter_empty_conv)


section \<open>What the verdict may blame\<close>

text \<open>
  The upgrade is blamed only for what it broke: the verdict depends on the first sample through
  the set of entries that were loaded in it alone, and entries of the second sample that were not
  loaded before and did not fail a migration can be left out without changing the result; in
  particular an integration that was already failing, or that the upgrade added, is never held against
  it.\<close>
lemma gate_blames_only_what_was_loaded:
  assumes "\<forall>key. was_state pre key = state_loaded \<longleftrightarrow> was_state pre' key = state_loaded"
  shows "gr_verdict (assess_entries threshold pre post) = gr_verdict (assess_entries threshold pre' post) \<and>
    assess_entries threshold pre post =
      assess_entries threshold pre
        (filter (\<lambda>e. en_state e = state_migration_error \<or> was_state pre (en_id e) = state_loaded) post)"
proof
  have "is_regression (was_state pre) = is_regression (was_state pre')"
    "is_unsettled (was_state pre) = is_unsettled (was_state pre')"
    using assms by (auto simp: is_regression_def is_unsettled_def fun_eq_iff)
  then show "gr_verdict (assess_entries threshold pre post) = gr_verdict (assess_entries threshold pre' post)"
    by (simp add: verdict_table)
  have "filter P (filter (\<lambda>e. en_state e = state_migration_error \<or> was_state pre (en_id e) = state_loaded) post) = filter P post"
    if "P = is_migration \<or> P = is_regression (was_state pre) \<or> P = is_unsettled (was_state pre)" for P
    unfolding filter_filter using that
    by (intro filter_cong) (auto simp: is_migration_def is_regression_def is_unsettled_def)
  then show "assess_entries threshold pre post =
      assess_entries threshold pre
        (filter (\<lambda>e. en_state e = state_migration_error \<or> was_state pre (en_id e) = state_loaded) post)"
    by (simp add: assess_entries_lists)
qed

lemma pre_state_unique:
  "distinct (map en_id pre) \<Longrightarrow> pre_state pre key = Some s \<longleftrightarrow> (\<exists>e\<in>set pre. en_id e = key \<and> en_state e = s)"
  unfolding pre_state_def by (induction pre rule: rev_induct) (auto simp: image_iff)

lemma was_state_perm:
  assumes "mset pre = mset pre'" "distinct (map en_id pre)"
  shows "was_state pre = was_state pre'"
proof (rule ext)
  fix key
  have "distinct (map en_id pre')" using assms by (metis mset_eq_imp_distinct_iff mset_map)
  moreover have "set pre = set pre'" using assms(1) by (rule mset_eq_setD)
  ultimately have "pre_state pre key = Some s \<longleftrightarrow> pre_state pre' key = Some s" for s
    using assms(2) by (simp add: pre_state_unique)
  then have "pre_state pre key = pre_state pre' key"
    by (metis option.exhaust)
  then show "was_state pre key = was_state pre' key" by (simp add: was_state_def)
qed

lemma mset_small: "mset xs = mset ys \<Longrightarrow> length ys \<le> 1 \<Longrightarrow> xs = ys"
  by (cases ys) auto

lemma sort_findings_perm:
  assumes "mset fs = mset fs'" "distinct (map fd_id fs)"
  shows "sort_findings fs = sort_findings fs'"
  unfolding sort_findings_def
proof (rule properties_for_sort_key)
  let ?key = "\<lambda>f. (fd_domain f, fd_id f)"
  show "mset (sort_key ?key fs') = mset fs" using assms(1) by simp
  show "sorted (map ?key (sort_key ?key fs'))" by simp
  fix k
  have m: "mset (filter (\<lambda>x. ?key k = ?key x) fs') = mset (filter (\<lambda>x. ?key k = ?key x) fs)"
    using assms(1) by simp
  have "length (filter (\<lambda>x. ?key k = ?key x) fs) \<le> 1"
    using assms(2) by (induction fs) (auto simp: filter_empty_conv image_iff)
  then have "filter (\<lambda>x. ?key k = ?key x) fs' = filter (\<lambda>x. ?key k = ?key x) fs"
    by (rule mset_small [OF m])
  then show "filter (\<lambda>x. ?key k = ?key x) (sort_key ?key fs') = filter (\<lambda>x. ?key k = ?key x) fs"
    using sort_key_stable [of ?key "?key k" fs'] by (simp add: eq_commute)
qed

lemma find_with_id [simp]: "fd_id (find_with w r e) = en_id e"
  by (simp add: find_with_def finding_of_def)

lemma distinct_ids_filter: "distinct (map en_id es) \<Longrightarrow> distinct (map fd_id (map (find_with w r) (filter P es)))"
  by (induction es) (auto simp: image_iff)

lemma three_ways: "\<not> (is_migration e \<and> is_regression w e)" "\<not> (is_regression w e \<and> is_unsettled w e)"
  using states_distinct by (auto simp: is_migration_def is_regression_def is_unsettled_def)

lemma distinct_ids_append:
  assumes "distinct (map en_id es)" "\<And>e. \<not> (P e \<and> Q e)"
  shows "distinct (map fd_id (map (find_with w r) (filter P es) @ map (find_with w r') (filter Q es)))"
  using assms(1)
proof (induction es)
  case (Cons e es)
  then show ?case using assms(2) [of e] by (auto simp: image_iff)
qed simp

text \<open>
  The verdict and its reason do not depend on the order in which Home Assistant lists its entries:
  two samples without repeated ids give the same result in any order.\<close>
lemma gate_ignores_listing_order:
  assumes "mset pre = mset pre'" "distinct (map en_id pre)"
    and "mset post = mset post'" "distinct (map en_id post)"
  shows "assess_entries threshold pre post = assess_entries threshold pre' post'"
proof -
  have w: "was_state pre = was_state pre'" using assms by (intro was_state_perm)
  let ?w = "was_state pre'"
  let ?l = "\<lambda>r P es. map (find_with ?w r) (filter P es)"
  have m: "mset (?l r P post) = mset (?l r P post')" for r P using assms(3) by simp
  have n: "?l r P post = [] \<longleftrightarrow> ?l r P post' = []" "length (?l r P post) = length (?l r P post')" for r P
    using mset_eq_length [OF m [of r P]] m [of r P] by (metis mset_zero_iff, simp only:)
  have s: "sort_findings (?l r P post) = sort_findings (?l r P post')" for r P
    using sort_findings_perm [OF m distinct_ids_filter [OF assms(4)]] .
  have s2: "sort_findings (?l r P post @ ?l r' Q post) = sort_findings (?l r P post' @ ?l r' Q post')"
    if "\<And>e. \<not> (P e \<and> Q e)" for r P r' Q
    using m [of r P] m [of r' Q] sort_findings_perm [OF _ distinct_ids_append [OF assms(4) that]] by simp
  show ?thesis
    unfolding assess_entries_lists Let_def w n s
      s2 [OF three_ways(1)] s2 [OF three_ways(2)] ..
qed


text \<open>How bad an entry's state is, and how bad a verdict.\<close>

definition damage :: "string \<Rightarrow> nat" where
  "damage s =
     (if s = state_migration_error then 3 else if s = state_setup_error then 2
      else if s = state_setup_retry \<or> s = state_setup_in_progress \<or> s = state_not_loaded then 1 else 0)"

definition consequence :: "verdict \<Rightarrow> nat" where
  "consequence v = (case v of Pass \<Rightarrow> 0 | Hold \<Rightarrow> 1 | Rollback \<Rightarrow> 2)"

lemma damage_kinds:
  "is_migration e \<longleftrightarrow> damage (en_state e) = 3"
  "is_regression w e \<longleftrightarrow> w (en_id e) = state_loaded \<and> damage (en_state e) = 2"
  "is_unsettled w e \<longleftrightarrow> w (en_id e) = state_loaded \<and> damage (en_state e) = 1"
  using states_distinct by (auto simp: damage_def is_migration_def is_regression_def is_unsettled_def)

lemma damage_le: "damage s \<le> 3"
  by (simp add: damage_def)

definition no_better :: "entry \<Rightarrow> entry \<Rightarrow> bool" where
  "no_better e e' \<longleftrightarrow> en_id e = en_id e' \<and> damage (en_state e) \<le> damage (en_state e')"

lemma worse_regressions:
  "list_all2 no_better post post' \<Longrightarrow> \<not> (\<exists>e\<in>set post'. is_migration e) \<Longrightarrow>
   length (filter (is_regression w) post) \<le> length (filter (is_regression w) post')"
proof (induction rule: list_all2_induct)
  case (Cons e es e' es')
  have "is_regression w e \<Longrightarrow> is_regression w e'"
    using Cons.hyps(1) Cons.prems damage_le [of "en_state e'"] by (auto simp: no_better_def damage_kinds)
  then show ?case using Cons by auto
qed simp

lemma worse_migration: "no_better e e' \<Longrightarrow> is_migration e \<Longrightarrow> is_migration e'"
  using damage_le [of "en_state e'"] by (simp add: no_better_def damage_kinds)

lemma worse_partner: "list_all2 no_better post post' \<Longrightarrow> e \<in> set post \<Longrightarrow> \<exists>e'\<in>set post'. no_better e e'"
  by (induction rule: list_all2_induct) auto

lemma worse_entry:
  assumes "no_better e e'" "is_migration e \<or> is_regression w e \<or> is_unsettled w e"
  shows "is_migration e' \<or> is_regression w e' \<or> is_unsettled w e'"
proof -
  have "damage (en_state e') = 1 \<or> damage (en_state e') = 2 \<or> damage (en_state e') = 3"
    using assms damage_le [of "en_state e'"] by (auto simp: no_better_def damage_kinds)
  then show ?thesis using assms damage_le [of "en_state e'"] by (auto simp: no_better_def damage_kinds)
qed

text \<open>
  A worse second sample never gives a milder verdict: where every entry is in a state at least as bad
  (healthy, still trying, given up, migration failed) as in another sample, the verdict has at least its
  consequence, whatever the threshold.\<close>
lemma gate_is_monotone:
  assumes "list_all2 no_better post post'"
  shows "consequence (gr_verdict (assess_entries threshold pre post))
    \<le> consequence (gr_verdict (assess_entries threshold pre post'))"
proof (cases "gr_verdict (assess_entries threshold pre post')")
  case Rollback
  then show ?thesis by (cases "gr_verdict (assess_entries threshold pre post)") (simp_all add: consequence_def)
next
  case v: Hold
  then have no_mig: "\<not> (\<exists>e\<in>set post'. is_migration e)"
    and few: "int (length (filter (is_regression (was_state pre)) post')) < threshold"
    by (auto simp: verdict_table split: if_splits)
  have "\<not> (\<exists>e\<in>set post. is_migration e)"
    using worse_partner [OF assms] no_mig worse_migration by blast
  moreover have "int (length (filter (is_regression (was_state pre)) post)) < threshold"
    using worse_regressions [OF assms no_mig, of "was_state pre"] few by linarith
  ultimately have "gr_verdict (assess_entries threshold pre post) \<noteq> Rollback"
    by (auto simp: verdict_table)
  then show ?thesis using v by (cases "gr_verdict (assess_entries threshold pre post)") (simp_all add: consequence_def)
next
  case v: Pass
  let ?w = "was_state pre"
  have none: "\<not> (\<exists>e\<in>set post'. is_migration e \<or> is_regression ?w e \<or> is_unsettled ?w e)"
    and thr: "int (length (filter (is_regression ?w) post')) < threshold"
    using v by (auto simp: verdict_table split: if_splits)
  have "\<not> (\<exists>e\<in>set post. is_migration e \<or> is_regression ?w e \<or> is_unsettled ?w e)"
    using worse_partner [OF assms] none worse_entry [of _ _ ?w] by blast
  moreover have "int (length (filter (is_regression ?w) post)) < threshold"
    using worse_regressions [OF assms, of ?w] none thr by fastforce
  ultimately have "gr_verdict (assess_entries threshold pre post) = Pass"
    by (auto simp: verdict_table)
  then show ?thesis by (simp add: consequence_def)
qed

text \<open>When a turn of the poll has its answer, counted from the start of \<open>Assess\<close>.\<close>

primrec asked_at :: "(nat \<Rightarrow> probe_turn) \<Rightarrow> nat \<Rightarrow> duration" where
  "asked_at turns 0 = 0"
| "asked_at turns (Suc i) = asked_at turns i + int (pt_took (turns i)) + probe_retry + int (pt_over (turns i))"

definition answered_at :: "(nat \<Rightarrow> probe_turn) \<Rightarrow> nat \<Rightarrow> duration" where
  "answered_at turns i = asked_at turns i + int (pt_took (turns i))"

definition refuses_clients :: "probe_turn \<Rightarrow> bool" where
  "refuses_clients p = (case pt_answer p of Inl _ \<Rightarrow> False | Inr s \<Rightarrow> \<not> sm_serving s)"

lemma poll_sample_from:
  assumes "poll_sample settle turns i t = Inr s" and "t = asked_at turns i"
  shows "\<exists>j\<ge>i. pt_answer (turns j) = Inr s \<and> (\<forall>k. i \<le> k \<longrightarrow> k < j \<longrightarrow> refuses_clients (turns k) \<and> \<not> pt_done (turns k)) \<and>
    (sm_serving s \<or> settle < answered_at turns j)"
  using assms
proof (induction settle turns i t rule: poll_sample.induct)
  case (1 settle turns i t)
  obtain a where a: "pt_answer (turns i) = Inr a"
    using "1.prems"(1) by (cases "pt_answer (turns i)") (simp_all add: Let_def poll_sample.simps [of settle])
  show ?case
  proof (cases "sm_serving a \<or> settle < t + int (pt_took (turns i))")
    case True
    then have "s = a" using "1.prems"(1) a by (subst (asm) poll_sample.simps) (auto simp: Let_def)
    then show ?thesis using a True "1.prems"(2) by (intro exI [of _ i]) (auto simp: answered_at_def)
  next
    case False
    then have d: "\<not> pt_done (turns i)"
      and r: "poll_sample settle turns (Suc i) (t + int (pt_took (turns i)) + probe_retry + int (pt_over (turns i))) = Inr s"
      using "1.prems"(1) a by (subst (asm) poll_sample.simps; auto simp: Let_def split: if_splits)+
    have "t + int (pt_took (turns i)) + probe_retry + int (pt_over (turns i)) = asked_at turns (Suc i)"
      using "1.prems"(2) by simp
    from "1.IH" [OF refl refl a False d r this] obtain j where j: "Suc i \<le> j" "pt_answer (turns j) = Inr s"
      "\<forall>k. Suc i \<le> k \<longrightarrow> k < j \<longrightarrow> refuses_clients (turns k) \<and> \<not> pt_done (turns k)"
      "sm_serving s \<or> settle < answered_at turns j" by blast
    have "refuses_clients (turns i)" using a False by (simp add: refuses_clients_def)
    with d j have "\<forall>k. i \<le> k \<longrightarrow> k < j \<longrightarrow> refuses_clients (turns k) \<and> \<not> pt_done (turns k)"
      by (metis Suc_leI le_neq_implies_less)
    with j show ?thesis by (intro exI [of _ j]) auto
  qed
qed

lemma poll_sample_evidence:
  "poll_sample settle turns 0 0 = Inr s \<Longrightarrow>
   \<exists>j. pt_answer (turns j) = Inr s \<and> (\<forall>k<j. refuses_clients (turns k) \<and> \<not> pt_done (turns k)) \<and>
     (sm_serving s \<or> settle < answered_at turns j)"
  using poll_sample_from [of settle turns 0 0 s] by auto

text \<open>
  C23: An upgrade is reverted on evidence only. When the gate answers with an error, the app is one of the
  two it can judge, its sample was taken before the change and its sample after was answered: for Home
  Assistant after the settle window, with a failed migration or at least two entries that were loaded
  before and have given up; for the broker with the token stored and read back before the change, and
  with a poll after it in which every sample was answered and the budget never ended, and no client was
  accepted until the settle window was over, or the first sample that found clients accepted found the
  token gone. So a sample that fails, a baseline that cannot be taken, a broker that is slow to come up
  or a budget that ends never reverts the household's app.\<close>
theorem revert_needs_evidence:
  assumes "upgrade_gate name g = Some reason"
  shows "(name = ''home-assistant'' \<and> ga_settled g \<and>
          (\<exists>pre post. ga_before g = Inr pre \<and> ga_after g = Inr post \<and>
            ((\<exists>e\<in>set post. en_state e = state_migration_error) \<or>
             2 \<le> length (filter (\<lambda>e. was_state pre (en_id e) = state_loaded \<and> en_state e = state_setup_error) post)))) \<or>
        (name = ''mosquitto'' \<and>
          (\<exists>token before. ga_token g = Inr token \<and> ga_stored g = Inr before \<and>
            sm_serving before \<and> sm_token before = token \<and> token \<noteq> [] \<and>
            (\<exists>j after. pt_answer (ga_turns g j) = Inr after \<and>
              (\<forall>k<j. refuses_clients (ga_turns g k) \<and> \<not> pt_done (ga_turns g k)) \<and>
              (\<not> sm_serving after \<and> broker_settle g < answered_at (ga_turns g) j \<or>
               sm_serving after \<and> sm_token after \<noteq> token))))"
proof -
  have regressions: "is_regression w = (\<lambda>e. w (en_id e) = state_loaded \<and> en_state e = state_setup_error)" for w
    by (simp add: is_regression_def fun_eq_iff)
  consider "name = ''home-assistant''" | "name = ''mosquitto''"
    using assms by (auto simp: upgrade_gate_def assessor_for_def gate_judge_def gate_capture_def split: if_splits)
  then show ?thesis
  proof cases
    case 1
    then obtain pre post where s: "ga_before g = Inr pre" "ga_after g = Inr post" "ga_settled g"
      and v: "gr_verdict (assess_entries cluster_threshold pre post) = Rollback"
      using assms
      by (auto simp: upgrade_gate_def assessor_for_def gate_judge_def gate_capture_def entry_assessor_def
          verdict_of_def Let_def split: sum.splits if_splits verdict.splits guest_verdict.splits)
    then show ?thesis using 1
      by (auto simp: verdict_table cluster_threshold_def is_migration_def regressions split: if_splits)
  next
    case 2
    let ?poll = "poll_sample (broker_settle g) (ga_turns g) 0 0"
    obtain token before where b: "ga_token g = Inr token" "ga_stored g = Inr before" "sm_serving before"
        "sm_token before = token"
      and j: "gate_judge (assessor_for name g) \<lparr>rd_base = Some (TokenSample token), rd_on = True\<rparr> = Some reason"
      using assms 2
      by (auto simp: upgrade_gate_def assessor_for_def gate_capture_def gate_judge_def [of _ "\<lparr>rd_base = None, rd_on = False\<rparr>"]
          probe_assessor_def probe_baseline_def split: sum.splits if_splits)
    from j 2 have t: "token \<noteq> []" and "\<exists>after. ?poll = Inr after \<and> (\<not> sm_serving after \<or> sm_token after \<noteq> token)"
      by (auto simp: assessor_for_def gate_judge_def probe_assessor_def probe_assess_def
          split: sum.splits if_splits guest_verdict.splits)
    then obtain after where p: "?poll = Inr after" and e: "\<not> sm_serving after \<or> sm_token after \<noteq> token" by blast
    from poll_sample_evidence [OF p] 2 b t e show ?thesis by blast
  qed
qed


section \<open>The theorems at work\<close>

text \<open>A home with three entries: one was failing before, one breaks, one fails its migration.\<close>

definition home_before :: "entry list" where
  "home_before =
     [\<lparr>en_id = ''a'', en_domain = ''hue'', en_state = ''loaded''\<rparr>,
      \<lparr>en_id = ''b'', en_domain = ''cast'', en_state = ''setup_retry''\<rparr>]"

definition home_after :: "entry list" where
  "home_after =
     [\<lparr>en_id = ''a'', en_domain = ''hue'', en_state = ''setup_error''\<rparr>,
      \<lparr>en_id = ''b'', en_domain = ''cast'', en_state = ''migration_error''\<rparr>]"

lemmas home_defs = home_before_def home_after_def

text \<open>A broker that does not accept a client for a while, or ever: its samples at most 16 s apart.\<close>

definition quiet_turn :: "nat \<Rightarrow> probe_turn" where
  "quiet_turn took = \<lparr>pt_answer = Inr \<lparr>sm_serving = False, sm_token = []\<rparr>, pt_took = took, pt_over = 0, pt_done = False\<rparr>"

definition home_answers :: guest_answers where
  "home_answers = \<lparr>ga_before = Inr home_before, ga_settled = True, ga_after = Inr home_after,
     ga_token = Inl [], ga_stored = Inl [], ga_turns = \<lambda>_. quiet_turn 0, cfg_settle = 0\<rparr>"

lemma home_rolls_back: "gr_verdict (assess_entries cluster_threshold home_before home_after) = Rollback"
  by (simp add: verdict_table home_after_def is_migration_def state_migration_error_def)

definition broker_answers :: guest_answers where
  "broker_answers = home_answers\<lparr>ga_token := Inr ''briard-7'', ga_stored := Inr \<lparr>sm_serving = True, sm_token = ''briard-7''\<rparr>,
     ga_turns := \<lambda>_. quiet_turn 14000000000\<rparr>"

lemma broker_poll:
  "poll_sample (30 * second) (\<lambda>_. quiet_turn 14000000000) 0 0 = Inr \<lparr>sm_serving = False, sm_token = []\<rparr>"
  by (simp add: poll_sample.simps [of _ _ 0] poll_sample.simps [of _ _ "Suc 0"] poll_sample.simps [of _ _ "Suc (Suc 0)"]
      quiet_turn_def probe_retry_def second_def)

lemma broker_rolls_back:
  "upgrade_gate ''mosquitto'' broker_answers =
     Some (''readiness gate: '' @ ''mosquitto'' @ '' answers its health endpoint but accepts no clients'')"
  using broker_poll
  by (simp add: upgrade_gate_def assessor_for_def gate_judge_def gate_capture_def probe_assessor_def probe_assess_def
      probe_baseline_def broker_answers_def home_answers_def broker_settle_def probe_settle_def)

theorem revert_needs_evidence_witness:
  "upgrade_gate ''home-assistant'' home_answers \<noteq> None \<and> ga_settled home_answers \<and>
   upgrade_gate ''mosquitto'' broker_answers \<noteq> None \<and>
   (\<exists>j. 30 * second < answered_at (ga_turns broker_answers) j)"
proof -
  have "upgrade_gate ''home-assistant'' home_answers =
    Some (''readiness gate: '' @ reason_line (assess_entries cluster_threshold home_before home_after))"
    using home_rolls_back
    by (simp add: upgrade_gate_def assessor_for_def gate_judge_def gate_capture_def entry_assessor_def
        home_answers_def verdict_of_def Let_def)
  from revert_needs_evidence [OF this] this have "upgrade_gate ''home-assistant'' home_answers \<noteq> None \<and> ga_settled home_answers"
    by auto
  moreover have "\<exists>j. 30 * second < answered_at (ga_turns broker_answers) j"
  proof -
    have w: "broker_settle broker_answers = 30 * second"
      by (simp add: broker_settle_def broker_answers_def home_answers_def probe_settle_def)
    have q: "pt_answer (ga_turns broker_answers j) = Inr a \<longleftrightarrow> a = \<lparr>sm_serving = False, sm_token = []\<rparr>" for j a
      by (auto simp: broker_answers_def quiet_turn_def)
    from revert_needs_evidence [OF broker_rolls_back] show ?thesis unfolding w q by auto
  qed
  ultimately show ?thesis by (simp add: broker_rolls_back)
qed

end
