(* ===== verification/HealthGate.thy ===== *)
theory HealthGate
  imports Drbd
begin

text \<open>
  What the host asks a guest about its health (\<open>Manager\<close> in \<open>agent/guest/guest.go\<close>, \<open>SystemState\<close> in
  \<open>agent/guestagent/guestagent.go\<close>, \<open>systemRunning\<close> in \<open>agent/host/osupgrade.go\<close>): the address to probe,
  the app's health, the two gates an OS upgrade waits on and the check that every unit started.

  The control channel is a record of what its verbs answer at one moment; a poll is the list of the
  moments it looked at, each with whether the budget had ended by the wait that follows.
\<close>


section \<open>The manager's questions\<close>

record app_spec =
  sp_name :: string
  sp_unit :: string

record control =
  ct_start :: "string \<Rightarrow> string option"
  ct_stop :: "string \<Rightarrow> string option"
  ct_active :: "string \<Rightarrow> string + bool"
  ct_health :: "string \<Rightarrow> string + bool"
  ct_vip :: "string \<Rightarrow> string + string"
  ct_pause :: "string \<Rightarrow> string option"
  ct_resume :: "string \<Rightarrow> string option"
  ct_cluster :: "string \<Rightarrow> string + cluster"
  ct_host_get :: "string \<Rightarrow> nat option"

record guest_config =
  gc_health_url :: string
  gc_vip_dev :: string
  gc_diskless :: bool
  gc_resource :: string
  gc_snippet :: string

definition unit_of :: "app_spec \<Rightarrow> string" where "unit_of spec = sp_unit spec"

definition has_app :: "app_spec \<Rightarrow> bool" where
  "has_app spec = (sp_name spec \<noteq> [] \<or> sp_unit spec \<noteq> [])"

definition start_app :: "control \<Rightarrow> app_spec \<Rightarrow> string option" where
  "start_app c spec = (if \<not> has_app spec then None else ct_start c (unit_of spec))"

definition stop_app :: "control \<Rightarrow> app_spec \<Rightarrow> string option" where
  "stop_app c spec = (if \<not> has_app spec then None else ct_stop c (unit_of spec))"

definition health_url_at :: "string \<Rightarrow> string" where
  "health_url_at cidr =
     ''http://'' @ (case cut (CHR ''/'') cidr of Some (addr, _) \<Rightarrow> addr | None \<Rightarrow> cidr) @ ''/healthz''"

definition resolve_health_url :: "control \<Rightarrow> guest_config \<Rightarrow> string" where
  "resolve_health_url c g =
     (if gc_diskless g then []
      else if gc_health_url g \<noteq> [] \<or> gc_vip_dev g = [] then gc_health_url g
      else
        (case ct_vip c (gc_vip_dev g) of
           Inl _ \<Rightarrow> gc_health_url g
         | Inr cidr \<Rightarrow> (if cidr = [] then gc_health_url g else health_url_at cidr)))"

definition host_probe_ready :: "control \<Rightarrow> string \<Rightarrow> bool" where
  "host_probe_ready c address = (ct_host_get c address = Some 200)"

definition probe_ready :: "control \<Rightarrow> guest_config \<Rightarrow> bool" where
  "probe_ready c g =
     (let address = resolve_health_url c g
      in if address = [] then False
         else
           (case ct_health c address of
              Inr ready \<Rightarrow> ready
            | Inl _ \<Rightarrow> host_probe_ready c address))"

record health =
  hl_running :: bool
  hl_ready :: bool

definition health_of :: "control \<Rightarrow> guest_config \<Rightarrow> app_spec \<Rightarrow> string + health" where
  "health_of c g spec =
     (if \<not> has_app spec then Inr \<lparr>hl_running = True, hl_ready = probe_ready c g\<rparr>
      else
        (case ct_active c (unit_of spec) of
           Inl e \<Rightarrow> Inl e
         | Inr running \<Rightarrow> Inr \<lparr>hl_running = running, hl_ready = running \<and> probe_ready c g\<rparr>))"

definition enter_maintenance :: "control \<Rightarrow> guest_config \<Rightarrow> string option" where
  "enter_maintenance c g = (if gc_snippet g = [] then None else ct_pause c (gc_snippet g))"

definition exit_maintenance :: "control \<Rightarrow> guest_config \<Rightarrow> string option" where
  "exit_maintenance c g = (if gc_snippet g = [] then None else ct_resume c (gc_snippet g))"

definition stale_copy :: "cluster \<Rightarrow> bool" where
  "stale_copy cl = (qs_diskful (cl_state cl) \<and> qs_quorate (cl_state cl) \<and> \<not> qs_uptodate (cl_state cl))"

definition os_ready :: "control \<Rightarrow> guest_config \<Rightarrow> string + bool" where
  "os_ready c g =
     (if gc_resource g = [] then Inr (probe_ready c g)
      else
        (case ct_cluster c (gc_resource g) of
           Inl e \<Rightarrow> Inl e
         | Inr cl \<Rightarrow>
             (if stale_copy cl then Inr False
              else if serving (cl_state cl) \<and> \<not> probe_ready c g then Inr False
              else Inr True)))"

definition os_ready_serving :: "control \<Rightarrow> guest_config \<Rightarrow> string + bool" where
  "os_ready_serving c g =
     (if gc_resource g = [] then Inr (probe_ready c g)
      else
        (case ct_cluster c (gc_resource g) of
           Inl e \<Rightarrow> Inl e
         | Inr cl \<Rightarrow>
             (if \<not> serving (cl_state cl) \<or> stale_copy cl then Inr False
              else Inr (probe_ready c g))))"

text \<open>
  The poll loop of the gates. It asks before it looks at the budget, so a look is made even when the
  budget is over, and it ends at the first yes or the first wait in which the budget ends; a poll whose
  moments are used up without either has no result.
\<close>

fun await_ready :: "('c \<Rightarrow> bool) \<Rightarrow> ('c \<times> bool) list \<Rightarrow> bool option" where
  "await_ready ask [] = None"
| "await_ready ask ((c, over) # polls) =
     (if ask c then Some True else if over then Some False else await_ready ask polls)"

definition said_yes :: "string + bool \<Rightarrow> bool" where
  "said_yes r = (case r of Inr ok \<Rightarrow> ok | Inl _ \<Rightarrow> False)"

definition await_app_ready :: "guest_config \<Rightarrow> app_spec \<Rightarrow> (control \<times> bool) list \<Rightarrow> bool option" where
  "await_app_ready g spec =
     await_ready (\<lambda>c. case health_of c g spec of Inr h \<Rightarrow> hl_ready h | Inl _ \<Rightarrow> False)"

definition await_os_ready :: "guest_config \<Rightarrow> (control \<times> bool) list \<Rightarrow> bool option" where
  "await_os_ready g = await_ready (\<lambda>c. said_yes (os_ready c g))"

definition await_os_ready_serving :: "guest_config \<Rightarrow> (control \<times> bool) list \<Rightarrow> bool option" where
  "await_os_ready_serving g = await_ready (\<lambda>c. said_yes (os_ready_serving c g))"


section \<open>Did every unit start\<close>

record system_state =
  ss_state :: string
  ss_failed :: "string list"

text \<open>The guest's side, from the outputs of the two \<open>systemctl\<close> calls.\<close>

definition newline :: char where "newline = char_of (10 :: nat)"

definition first_words :: "string list \<Rightarrow> string list" where
  "first_words ls = concat (map (\<lambda>l. case str_fields l of [] \<Rightarrow> [] | w # _ \<Rightarrow> [w]) ls)"

definition system_state_of :: "string \<Rightarrow> string \<Rightarrow> system_state" where
  "system_state_of is_running failed_units =
     (let state = trim_space is_running
      in if state \<noteq> ''degraded'' then \<lparr>ss_state = state, ss_failed = []\<rparr>
         else \<lparr>ss_state = state, ss_failed = first_words (split_on newline failed_units)\<rparr>)"

definition promote_prefix :: string where "promote_prefix = ''drbd-promote@''"

definition failed_of_image :: "system_state \<Rightarrow> string list" where
  "failed_of_image st = filter (\<lambda>u. \<not> prefix promote_prefix u) (ss_failed st)"

text \<open>\<open>None\<close> is a system that runs, \<open>Some e\<close> the reason it does not.\<close>

datatype system_fault = FailedUnits string "string list" | NotRunning string | NeverSettled

definition system_verdict :: "system_state \<Rightarrow> system_fault option" where
  "system_verdict st =
     (if ss_state st = ''running'' \<or>
         (ss_state st = ''degraded'' \<and> ss_failed st \<noteq> [] \<and> failed_of_image st = []) then None
      else if failed_of_image st \<noteq> [] then
        Some (FailedUnits (ss_state st) (failed_of_image st))
      else Some (NotRunning (ss_state st)))"

definition still_booting :: "system_state \<Rightarrow> bool" where
  "still_booting st = (ss_state st = ''starting'' \<or> ss_state st = ''initializing'')"

fun system_running :: "((string + system_state) \<times> bool) list \<Rightarrow> system_fault option option" where
  "system_running [] = None"
| "system_running ((reading, over) # polls) =
     (case reading of
        Inr st \<Rightarrow>
          (if \<not> still_booting st then Some (system_verdict st)
           else if over then Some (Some NeverSettled) else system_running polls)
      | Inl _ \<Rightarrow> (if over then Some (Some NeverSettled) else system_running polls))"

text \<open>The node status of a node that runs no DRBD: whether its chain target is active.\<close>

definition lone_cluster :: "string option \<Rightarrow> cluster" where
  "lone_cluster is_active =
     \<lparr>cl_state = \<lparr>qs_primary = (case is_active of Some out \<Rightarrow> trim_space out = ''active'' | None \<Rightarrow> False),
        qs_quorate = True, qs_connected = 0, qs_diskful = True, qs_uptodate = True\<rparr>,
      cl_peers = []\<rparr>"


section \<open>What a passed gate certifies\<close>

lemma await_ready_yes:
  "await_ready ask polls = Some True \<Longrightarrow> \<exists>before c over after. polls = before @ (c, over) # after \<and> ask c \<and>
     (\<forall>p\<in>set before. \<not> ask (fst p) \<and> \<not> snd p)"
proof (induction ask polls rule: await_ready.induct)
  case (2 ask c over polls)
  show ?case
  proof (cases "ask c")
    case False
    with 2 obtain before c' o' after where "polls = before @ (c', o') # after" "ask c'"
      "\<forall>p\<in>set before. \<not> ask (fst p) \<and> \<not> snd p" by (auto split: if_splits)
    with False 2 show ?thesis by (intro exI [of _ "(c, over) # before"]) (auto split: if_splits)
  qed (intro exI [of _ "[]"], auto)
qed simp

text \<open>A poll whose budget ends returns: one end of the budget among its moments is enough.\<close>

lemma await_ready_returns: "\<exists>p\<in>set polls. snd p \<Longrightarrow> await_ready ask polls \<noteq> None"
  by (induction ask polls rule: await_ready.induct) auto

lemma system_running_returns: "\<exists>p\<in>set polls. snd p \<Longrightarrow> system_running polls \<noteq> None"
  by (induction polls rule: system_running.induct) (auto split: sum.splits)

lemma system_running_ok:
  "system_running polls = Some None \<Longrightarrow>
   \<exists>st. Inr st \<in> fst ` set polls \<and> \<not> still_booting st \<and> system_verdict st = None"
  by (induction polls rule: system_running.induct) (auto split: sum.splits if_splits)

lemma os_ready_yes:
  "said_yes (os_ready c g) \<longleftrightarrow>
     (if gc_resource g = [] then probe_ready c g
      else \<exists>cl. ct_cluster c (gc_resource g) = Inr cl \<and> \<not> stale_copy cl \<and> (serving (cl_state cl) \<longrightarrow> probe_ready c g))"
  by (auto simp: os_ready_def said_yes_def split: sum.splits)

lemma os_ready_serving_yes:
  "said_yes (os_ready_serving c g) \<longleftrightarrow>
     (if gc_resource g = [] then probe_ready c g
      else \<exists>cl. ct_cluster c (gc_resource g) = Inr cl \<and> \<not> stale_copy cl \<and> serving (cl_state cl) \<and> probe_ready c g)"
  by (auto simp: os_ready_serving_def said_yes_def split: sum.splits)

lemma serving_gate_is_stronger: "said_yes (os_ready_serving c g) \<Longrightarrow> said_yes (os_ready c g)"
  by (auto simp: os_ready_yes os_ready_serving_yes split: if_splits)

text \<open>A lone node that holds its volume is never told to hand over, and never counts as stale.\<close>

lemma lone_cluster_facts:
  "\<not> peer_can_take_over (lone_cluster a)" "\<not> stale_copy (lone_cluster a)"
  "serving (cl_state (lone_cluster (Some ''active''))) "
  by (simp_all add: lone_cluster_def peer_can_take_over_def stale_copy_def serving_def trim_space_def is_space_def)

end
