(* ===== verification/OsUpgrade.thy ===== *)
theory OsUpgrade
  imports HealthGate Update
begin

text \<open>
  The OS upgrade of a node (\<open>agent/host/osupgrade.go\<close>) and the directive that drives it
  (\<open>agent/host/guestupdate.go\<close>).

  The node is its three image names and the image its running guest was booted from; an image is named
  by its content. Each system call and each verb answers as the environment says; a failed rename or
  removal leaves the names as they were. A launch re-adopts a guest that still runs, and boots the image
  in use otherwise.
\<close>


section \<open>The names of the image\<close>

record images =
  im_backing :: "string option"
  im_next :: "string option"
  im_prev :: "string option"

datatype img_move = RemovePrev | BackingToPrev | NextToBacking | FlushDir | RemoveBacking | PrevToBacking | RemoveNext

text \<open>What a move does, and whether there is something for it to do: a rename needs its source.\<close>

fun move_image :: "img_move \<Rightarrow> images \<Rightarrow> images" where
  "move_image RemovePrev im = im\<lparr>im_prev := None\<rparr>"
| "move_image BackingToPrev im = im\<lparr>im_backing := None, im_prev := im_backing im\<rparr>"
| "move_image NextToBacking im = im\<lparr>im_next := None, im_backing := im_next im\<rparr>"
| "move_image FlushDir im = im"
| "move_image RemoveBacking im = im\<lparr>im_backing := None\<rparr>"
| "move_image PrevToBacking im = im\<lparr>im_prev := None, im_backing := im_prev im\<rparr>"
| "move_image RemoveNext im = im\<lparr>im_next := None\<rparr>"

fun has_source :: "img_move \<Rightarrow> images \<Rightarrow> bool" where
  "has_source BackingToPrev im = (im_backing im \<noteq> None)"
| "has_source NextToBacking im = (im_next im \<noteq> None)"
| "has_source PrevToBacking im = (im_prev im \<noteq> None)"
| "has_source _ im = True"

text \<open>Moves one after the other, up to the first that fails.\<close>

fun attempt :: "(img_move \<Rightarrow> bool) \<Rightarrow> img_move list \<Rightarrow> images \<Rightarrow> images \<times> img_move option" where
  "attempt works [] im = (im, None)"
| "attempt works (m # ms) im =
     (if works m \<and> has_source m im then attempt works ms (move_image m im) else (im, Some m))"

definition swap_moves :: "img_move list" where
  "swap_moves = [RemovePrev, BackingToPrev, NextToBacking, FlushDir]"

definition restore_moves :: "img_move list" where
  "restore_moves = [RemoveBacking, PrevToBacking]"


section \<open>Stopping the guest\<close>

text \<open>
  \<open>sp_poweroff\<close> is whether the verb was answered, \<open>sp_waited\<close>, \<open>sp_button\<close> and \<open>sp_reaped\<close> whether the
  machine was seen gone after it, after the power button, and at the last look. The guest is down
  exactly when it was seen gone.
\<close>

record stop_answers =
  sa_channel :: bool
  sa_poweroff :: bool
  sa_waited :: bool
  sa_button :: bool
  sa_reaped :: bool

definition stop_cleanly :: "stop_answers \<Rightarrow> bool" where
  "stop_cleanly a =
     (if sa_channel a \<and> sa_poweroff a \<and> sa_waited a then True
      else if sa_button a then True
      else sa_reaped a)"


section \<open>The upgrade\<close>

record os_node =
  on_images :: images
  on_guest :: "string option"
  on_held :: bool

record up_env =
  ue_config :: guest_config
  ue_resource :: string
  ue_image_named :: bool
  ue_before :: control
  ue_system_before :: "string + string"
  ue_stop :: stop_answers
  ue_swap :: "img_move \<Rightarrow> bool"
  ue_boot :: bool
  ue_boot_left :: bool
  ue_booted :: "string \<Rightarrow> string + string"
  ue_polls :: "(control \<times> bool) list"
  ue_system_polls :: "((string + system_state) \<times> bool) list"
  ue_drop_prev :: bool
  ue_rb_stop :: stop_answers
  ue_rb_force :: bool
  ue_rb_moves :: "img_move \<Rightarrow> bool"
  ue_rb_boot :: bool
  ue_rb_boot_left :: bool

datatype up_error =
  NoSystem | ClusterUnread | HandoverRequired | NoImageName | NoStagedImage | SystemUnread
  | HoldFailed | StopRefused | StopRefusedAndHeld
  | MoveFailed img_move | BootFailed | BootedUnread | BootedOther string | NotReady | SystemNotRunning
  | RollbackMoveFailed img_move up_error | RollbackBootFailed up_error | RolledBack up_error

type_synonym up_result = "bool \<times> up_error option"

text \<open>\<open>bringUp\<close>: re-adopt or launch; a launch that fails may leave its machine running.\<close>

definition bring_up :: "bool \<Rightarrow> bool \<Rightarrow> os_node \<Rightarrow> os_node \<times> bool" where
  "bring_up works left_running n =
     (if on_guest n \<noteq> None then (n, works)
      else
        (case im_backing (on_images n) of
           None \<Rightarrow> (n, False)
         | Some im \<Rightarrow>
             (if works then (n\<lparr>on_guest := Some im, on_held := False\<rparr>, True)
              else if left_running then (n\<lparr>on_guest := Some im, on_held := False\<rparr>, False)
              else (n, False))))"

text \<open>The stop of the restore: clean, or by force, whose own failure leaves the machine as it is.\<close>

definition restore_stop :: "up_env \<Rightarrow> os_node \<Rightarrow> os_node" where
  "restore_stop e n =
     (if on_guest n = None then n
      else if stop_cleanly (ue_rb_stop e) \<or> ue_rb_force e then n\<lparr>on_guest := None\<rparr> else n)"

definition restore_image :: "up_env \<Rightarrow> up_error \<Rightarrow> os_node \<Rightarrow> os_node \<times> up_result" where
  "restore_image e cause n =
     (let n = restore_stop e n;
          (im, failed) = (if im_prev (on_images n) \<noteq> None
                          then attempt (ue_rb_moves e) restore_moves (on_images n)
                          else (on_images n, None))
      in case failed of
           Some m \<Rightarrow> (n\<lparr>on_images := im\<rparr>, (False, Some (RollbackMoveFailed m cause)))
         | None \<Rightarrow>
             (let im = (if ue_rb_moves e RemoveNext then move_image RemoveNext im else im)
              in if \<not> ue_rb_moves e FlushDir then
                   (n\<lparr>on_images := im\<rparr>, (False, Some (RollbackMoveFailed FlushDir cause)))
                 else
                   (let (n', up) = bring_up (ue_rb_boot e) (ue_rb_boot_left e) (n\<lparr>on_images := im\<rparr>)
                    in if \<not> up then (n', (False, Some (RollbackBootFailed cause)))
                       else (n', (True, Some (RolledBack cause))))))"

text \<open>From a stopped guest on: the swap, the boot, the proof, the gates, the commit.\<close>

definition prove_boot :: "up_env \<Rightarrow> manifest \<Rightarrow> bool \<Rightarrow> string option \<Rightarrow> up_error option" where
  "prove_boot e rel must_serve guest =
     (case guest of
        None \<Rightarrow> Some BootFailed
      | Some im \<Rightarrow>
          (case ue_booted e im of
             Inl _ \<Rightarrow> Some BootedUnread
           | Inr booted \<Rightarrow>
               (if booted \<noteq> mf_system rel then Some (BootedOther booted)
                else if (if must_serve then await_os_ready_serving (ue_config e) (ue_polls e)
                         else await_os_ready (ue_config e) (ue_polls e)) \<noteq> Some True then Some NotReady
                else if system_running (ue_system_polls e) \<noteq> Some None then Some SystemNotRunning
                else None)))"

definition swap_and_boot :: "up_env \<Rightarrow> manifest \<Rightarrow> bool \<Rightarrow> os_node \<Rightarrow> os_node \<times> up_result" where
  "swap_and_boot e rel must_serve n =
     (let (im, failed) = attempt (ue_swap e) swap_moves (on_images n); n = n\<lparr>on_images := im\<rparr>
      in case failed of
           Some m \<Rightarrow> restore_image e (MoveFailed m) n
         | None \<Rightarrow>
             (let (n, up) = bring_up (ue_boot e) (ue_boot_left e) n
              in if \<not> up then restore_image e BootFailed n
                 else
                   (case prove_boot e rel must_serve (on_guest n) of
                      Some err \<Rightarrow> restore_image e err n
                    | None \<Rightarrow>
                        (if ue_drop_prev e then (n\<lparr>on_images := move_image RemovePrev (on_images n)\<rparr>, (False, None))
                         else (n, (False, None))))))"

definition image_upgrade :: "up_env \<Rightarrow> manifest \<Rightarrow> os_node \<Rightarrow> os_node \<times> up_result" where
  "image_upgrade e rel n =
     (if mf_system rel = [] then (n, (True, Some NoSystem))
      else
        (case ct_cluster (ue_before e) (ue_resource e) of
           Inl _ \<Rightarrow> (n, (True, Some ClusterUnread))
         | Inr cl \<Rightarrow>
             (if serving (cl_state cl) \<and> peer_can_take_over cl then (n, (True, Some HandoverRequired))
              else if \<not> ue_image_named e then (n, (True, Some NoImageName))
              else if im_next (on_images n) = None then (n, (True, Some NoStagedImage))
              else
                (case ue_system_before e of
                   Inl _ \<Rightarrow> (n, (True, Some SystemUnread))
                 | Inr _ \<Rightarrow>
                     (case enter_maintenance (ue_before e) (ue_config e) of
                        Some _ \<Rightarrow> (n, (True, Some HoldFailed))
                      | None \<Rightarrow>
                          (let n = n\<lparr>on_held := (gc_snippet (ue_config e) \<noteq> [])\<rparr>
                           in if \<not> stop_cleanly (ue_stop e) then
                                (case exit_maintenance (ue_before e) (ue_config e) of
                                   Some _ \<Rightarrow> (n, (False, Some StopRefusedAndHeld))
                                 | None \<Rightarrow> (n\<lparr>on_held := False\<rparr>, (True, Some StopRefused)))
                              else swap_and_boot e rel (serving (cl_state cl)) (n\<lparr>on_guest := None\<rparr>)))))))"


section \<open>The directive\<close>

text \<open>The last artifact of that name, as the loop leaves it.\<close>

definition guest_image_artifact :: string where "guest_image_artifact = ''nixos.qcow2.zst''"

definition image_artifact :: "manifest \<Rightarrow> artifact option" where
  "image_artifact rel =
     foldl (\<lambda>found a. if ar_name a = guest_image_artifact then Some a else found) None (mf_artifacts rel)"

text \<open>
  Staging: the verified, expanded image under the next name, or an error with the names as they were;
  \<open>fetched\<close> is what the fetcher left in the stage directory, and the flushes and the rename succeed or
  not as \<open>placed\<close> says, the last one after the rename.
\<close>

datatype stage_error = NoImageConfigured | ShipsNoImage | NoStageDir | ArtifactRefused fetch_error | FlushFailed | PlaceFailed | DirFlushFailed

record stage_env =
  se_named :: bool
  se_temp_dir :: bool
  se_tree_flush :: bool
  se_place :: bool
  se_dir_flush :: bool

definition fetch_one :: "fetcher \<Rightarrow> network \<Rightarrow> string \<Rightarrow> staging \<Rightarrow> artifact \<Rightarrow> fetch_error + staging" where
  "fetch_one f net version dir a =
     (if \<not> valid_segment version then Inl BadTarget
      else fetch_artifact f net (path_join [ft_chain f, version, ft_platform f]) dir a)"

definition stage_guest_image ::
    "fetcher \<Rightarrow> network \<Rightarrow> stage_env \<Rightarrow> manifest \<Rightarrow> images \<Rightarrow> images \<times> stage_error option" where
  "stage_guest_image f net s rel im =
     (if \<not> se_named s then (im, Some NoImageConfigured)
      else
        (case image_artifact rel of
           None \<Rightarrow> (im, Some ShipsNoImage)
         | Some a \<Rightarrow>
             (if \<not> se_temp_dir s then (im, Some NoStageDir) else
              case fetch_one f net (mf_version rel) [] a of
                Inl e \<Rightarrow> (im, Some (ArtifactRefused e))
              | Inr dir \<Rightarrow>
                  (if \<not> se_tree_flush s then (im, Some FlushFailed)
                   else
                     (case map_of dir (take (length guest_image_artifact - length compressed_suffix) guest_image_artifact) of
                        None \<Rightarrow> (im, Some PlaceFailed)
                      | Some content \<Rightarrow>
                          (if \<not> se_place s then (im, Some PlaceFailed)
                           else if \<not> se_dir_flush s then (im\<lparr>im_next := Some content\<rparr>, Some DirFlushFailed)
                           else (im\<lparr>im_next := Some content\<rparr>, None)))))))"

datatype guest_refusal = NamesNoClosure | BriardRefused vm_error | DecisionRefused decide_error

datatype guest_decision = AlreadyRunning | Decided decision

definition decide_guest ::
    "string \<Rightarrow> manifest \<Rightarrow> manifest option \<Rightarrow> manifest option \<Rightarrow> string \<Rightarrow> string \<Rightarrow> guest_refusal + guest_decision" where
  "decide_guest target want have' stb running briard =
     (if mf_system want = [] then Inl NamesNoClosure
      else
        (case briard_satisfies (mf_min_briard want) briard of
           Some e \<Rightarrow> Inl (BriardRefused e)
         | None \<Rightarrow>
             (if running \<noteq> [] \<and> running = mf_system want then Inr AlreadyRunning
              else
                (let have' = (case have' of
                                None \<Rightarrow> None
                              | Some h \<Rightarrow> (if mf_version h = mf_version want then None else Some h))
                 in case decide_update target want have' stb of
                      Inl e \<Rightarrow> Inl (DecisionRefused e)
                    | Inr d \<Rightarrow> Inr (Decided d)))))"


text \<open>The record of the release last applied: the signed bytes, read back when they decode and name a version.\<close>

record directive_env =
  de_vm :: bool
  de_running :: "string + string"
  de_briard :: string
  de_stage :: stage_env
  de_up :: up_env
  de_cache_named :: bool
  de_write :: bool

record guest_node =
  gn_node :: os_node
  gn_cache :: "string option"

datatype outcome = Done string | RolledBackTo up_error | Failed

definition cached_release :: "fetcher \<Rightarrow> bool \<Rightarrow> string option \<Rightarrow> manifest option" where
  "cached_release f named cache =
     (if \<not> named then None
      else
        (case cache of
           None \<Rightarrow> None
         | Some bytes \<Rightarrow>
             (case ft_decode f bytes of
                None \<Rightarrow> None
              | Some m \<Rightarrow> (if mf_version m = [] then None else Some m))))"

definition remember_release :: "directive_env \<Rightarrow> string \<Rightarrow> guest_node \<Rightarrow> guest_node" where
  "remember_release d raw g = (if de_cache_named d \<and> de_write d then g\<lparr>gn_cache := Some raw\<rparr> else g)"

definition finish_upgrade :: "directive_env \<Rightarrow> string \<Rightarrow> manifest \<Rightarrow> guest_node \<Rightarrow> os_node \<times> up_result \<Rightarrow> guest_node \<times> outcome" where
  "finish_upgrade d raw want g = (\<lambda>(n, rolled_back, err).
     (let g = g\<lparr>gn_node := n\<rparr>
      in case err of
           None \<Rightarrow> (remember_release d raw g, Done (mf_version want))
         | Some e \<Rightarrow> (if e = HandoverRequired \<or> rolled_back then (g, RolledBackTo e) else (g, Failed))))"

definition stage_and_upgrade ::
    "fetcher \<Rightarrow> network \<Rightarrow> directive_env \<Rightarrow> string \<Rightarrow> manifest \<Rightarrow> guest_node \<Rightarrow> guest_node \<times> outcome" where
  "stage_and_upgrade f net d raw want g =
     (let n = gn_node g;
          (im, refused) = stage_guest_image f net (de_stage d) want (on_images n);
          n = n\<lparr>on_images := im\<rparr>
      in case refused of
           Some _ \<Rightarrow> (g\<lparr>gn_node := n\<rparr>, Failed)
         | None \<Rightarrow> finish_upgrade d raw want g (image_upgrade (de_up d) want n))"

definition resolve_release ::
    "fetcher \<Rightarrow> network \<Rightarrow> directive_env \<Rightarrow> string \<Rightarrow> guest_node \<Rightarrow>
     (manifest \<times> string \<times> manifest option \<times> string \<times> (guest_refusal + guest_decision)) option" where
  "resolve_release f net d target g =
     (case fetch_manifest f net target of
        Inl _ \<Rightarrow> None
      | Inr (want, raw) \<Rightarrow>
          (case (if is_pointer target then Inr None else map_sum id (\<lambda>(s, _). Some s) (fetch_manifest f net target_stable)) of
             Inl _ \<Rightarrow> None
           | Inr stb \<Rightarrow>
               (case de_running d of
                  Inl _ \<Rightarrow> None
                | Inr running \<Rightarrow>
                    (let have' = cached_release f (de_cache_named d) (gn_cache g)
                     in Some (want, raw, have', running, decide_guest target want have' stb running (de_briard d))))))"

definition apply_guest_update :: "fetcher \<Rightarrow> network \<Rightarrow> directive_env \<Rightarrow> string \<Rightarrow> guest_node \<Rightarrow> guest_node \<times> outcome" where
  "apply_guest_update f net d payload g =
     (let target = (if payload = [] then target_stable else payload);
          f = f\<lparr>ft_chain := chain_vm\<rparr>
      in if \<not> de_vm d then (g, Failed)
         else if ft_keys f = [] then (g, Failed)
         else
           (case resolve_release f net d target g of
              None \<Rightarrow> (g, Failed)
            | Some (want, raw, have', running, decided) \<Rightarrow>
                (case decided of
                   Inl _ \<Rightarrow> (g, Failed)
                 | Inr (Decided Install) \<Rightarrow> stage_and_upgrade f net d raw want g
                 | Inr stays \<Rightarrow>
                     (if running = mf_system want \<and>
                         (case have' of None \<Rightarrow> True | Some h \<Rightarrow> mf_version h \<noteq> mf_version want)
                      then (remember_release d raw g, Done (mf_version want)) else (g, Done (mf_version want))))))"


section \<open>Lemmas of the swap\<close>

lemma swap_result:
  "attempt works swap_moves im = (im', failed) \<Longrightarrow>
     (failed = Some RemovePrev \<and> im' = im \<and> \<not> works RemovePrev) \<or>
     (failed = Some BackingToPrev \<and> im' = im\<lparr>im_prev := None\<rparr>) \<or>
     (failed = Some NextToBacking \<and> im_backing im \<noteq> None \<and> im' = im\<lparr>im_backing := None, im_prev := im_backing im\<rparr>) \<or>
     ((failed = Some FlushDir \<or> failed = None) \<and> im_backing im \<noteq> None \<and> im_next im \<noteq> None \<and>
       im' = im\<lparr>im_next := None, im_backing := im_next im, im_prev := im_backing im\<rparr>)"
  by (auto simp: swap_moves_def split: if_splits)

lemma restore_result:
  "im_prev im = Some old \<Longrightarrow> attempt works restore_moves im = (im', failed) \<Longrightarrow>
     (failed = None \<and> im_backing im' = Some old \<and> im_prev im' = None) \<or> (failed \<noteq> None \<and> im_prev im' = Some old)"
  by (auto simp: restore_moves_def split: if_splits)

text \<open>What holds when the restore is entered: the old image is the one set aside, or none is and it is in use.\<close>

definition restorable :: "string \<Rightarrow> images \<Rightarrow> bool" where
  "restorable old im \<longleftrightarrow> im_prev im = Some old \<or> (im_prev im = None \<and> im_backing im = Some old)"

definition on_disk :: "string \<Rightarrow> images \<Rightarrow> bool" where
  "on_disk old im \<longleftrightarrow> im_backing im = Some old \<or> im_prev im = Some old"

lemma swap_restorable:
  assumes "attempt works swap_moves im = (im', failed)" "im_backing im = Some old" "im_prev im = None \<or> works RemovePrev"
  shows "restorable old im'"
  using swap_result [OF assms(1)] assms(2,3) by (auto simp: restorable_def)

lemma remove_next_frame:
  "im_backing (if b then move_image RemoveNext im else im) = im_backing im"
  "im_prev (if b then move_image RemoveNext im else im) = im_prev im"
  by simp_all

lemma restore_image_ok:
  assumes "restorable old (on_images n)" "restore_image e cause n = (n', rolled, err)"
    and down: "stop_cleanly (ue_rb_stop e) \<or> ue_rb_force e"
  shows "err \<noteq> None \<and> on_disk old (on_images n') \<and>
    (rolled \<longrightarrow> im_backing (on_images n') = Some old \<and> im_prev (on_images n') = None \<and>
      on_guest n' = Some old \<and> \<not> on_held n')"
proof -
  define m where "m = restore_stop e n"
  have m: "on_images m = on_images n" "on_guest m = None"
    using down by (auto simp: m_def restore_stop_def)
  obtain im failed where at: "(if im_prev (on_images m) \<noteq> None then attempt (ue_rb_moves e) restore_moves (on_images m)
      else (on_images m, None)) = (im, failed)" by fastforce
  have im: "failed = None \<longrightarrow> im_backing im = Some old \<and> im_prev im = None" "on_disk old im"
    using at m assms(1) restore_result [of "on_images m" old "ue_rb_moves e" im failed]
    by (auto simp: restorable_def on_disk_def split: if_splits)
  show ?thesis
  proof (cases failed)
    case (Some mv)
    then show ?thesis using assms(2) at im by (auto simp: restore_image_def m_def [symmetric] Let_def)
  next
    case None
    define im2 where "im2 = (if ue_rb_moves e RemoveNext then move_image RemoveNext im else im)"
    have im2: "im_backing im2 = Some old" "im_prev im2 = None"
      using im None by (simp_all add: im2_def)
    show ?thesis
      using assms(2) at None im2 m
      by (auto simp: restore_image_def m_def [symmetric] im2_def [symmetric] Let_def bring_up_def on_disk_def
          split: if_splits)
  qed
qed



section \<open>Where an upgrade ends\<close>

text \<open>What the boot and the gates showed, when the upgrade is kept.\<close>

definition proven :: "up_env \<Rightarrow> manifest \<Rightarrow> bool \<Rightarrow> string \<Rightarrow> bool" where
  "proven e rel must_serve im \<longleftrightarrow>
     ue_booted e im = Inr (mf_system rel) \<and>
     (\<exists>c\<in>fst ` set (ue_polls e).
        if must_serve then said_yes (os_ready_serving c (ue_config e)) else said_yes (os_ready c (ue_config e))) \<and>
     (\<exists>st. Inr st \<in> fst ` set (ue_system_polls e) \<and> \<not> still_booting st \<and> system_verdict st = None)"

lemma await_ready_some: "await_ready ask polls = Some True \<Longrightarrow> \<exists>c\<in>fst ` set polls. ask c"
  by (drule await_ready_yes) force

lemma prove_boot_none:
  assumes "prove_boot e rel must_serve guest = None"
  shows "\<exists>im. guest = Some im \<and> proven e rel must_serve im"
proof -
  obtain im where g: "guest = Some im" "ue_booted e im = Inr (mf_system rel)"
    and gate: "(if must_serve then await_os_ready_serving (ue_config e) (ue_polls e)
      else await_os_ready (ue_config e) (ue_polls e)) = Some True"
    and sys: "system_running (ue_system_polls e) = Some None"
    using assms by (auto simp: prove_boot_def split: option.splits sum.splits if_splits)
  then show ?thesis
    using system_running_ok [OF sys] await_ready_some
    by (auto simp: proven_def await_os_ready_def await_os_ready_serving_def split: if_splits)
qed

definition upgraded :: "up_env \<Rightarrow> manifest \<Rightarrow> bool \<Rightarrow> string \<Rightarrow> string \<Rightarrow> os_node \<Rightarrow> bool" where
  "upgraded e rel must_serve old new n \<longleftrightarrow>
     on_guest n = Some new \<and> im_backing (on_images n) = Some new \<and> im_next (on_images n) = None \<and>
     im_prev (on_images n) = (if ue_drop_prev e then None else Some old) \<and> proven e rel must_serve new"

definition rolled_to :: "string \<Rightarrow> os_node \<Rightarrow> bool" where
  "rolled_to old n \<longleftrightarrow> on_guest n = Some old \<and> im_backing (on_images n) = Some old \<and> \<not> on_held n"

lemma swap_and_boot_ends:
  assumes run: "swap_and_boot e rel must_serve n = (n', rolled, err)"
    and old: "im_backing (on_images n) = Some old" "im_next (on_images n) = Some new" "on_guest n = None"
    and prev: "im_prev (on_images n) = None \<or> ue_swap e RemovePrev"
    and down: "stop_cleanly (ue_rb_stop e) \<or> ue_rb_force e"
  shows "if err = None then \<not> rolled \<and> upgraded e rel must_serve old new n'
    else on_disk old (on_images n') \<and> (rolled \<longrightarrow> rolled_to old n')"
proof -
  obtain im failed where at: "attempt (ue_swap e) swap_moves (on_images n) = (im, failed)" by fastforce
  let ?n = "n\<lparr>on_images := im\<rparr>"
  have res: "restorable old (on_images ?n)" using swap_restorable [OF at old(1) prev] by simp
  have rolled: "err \<noteq> None \<and> on_disk old (on_images n') \<and> (rolled \<longrightarrow> rolled_to old n')"
    if "restore_image e cause m = (n', rolled, err)" "restorable old (on_images m)" for cause m
    using restore_image_ok [OF that(2,1) down] by (auto simp: rolled_to_def)
  show ?thesis
  proof (cases failed)
    case (Some mv)
    then have "restore_image e (MoveFailed mv) ?n = (n', rolled, err)" using run at by (simp add: swap_and_boot_def)
    from rolled [OF this res] show ?thesis by auto
  next
    case None
    have im: "im_backing im = Some new" "im_prev im = Some old" "im_next im = None"
      using swap_result [OF at] None old by auto
    obtain m up where b: "bring_up (ue_boot e) (ue_boot_left e) ?n = (m, up)" by fastforce
    have mi: "on_images m = im" "up \<Longrightarrow> on_guest m = Some new"
      using b old(3) im by (auto simp: bring_up_def split: if_splits)
    then have resm: "restorable old (on_images m)" using res by simp
    show ?thesis
    proof (cases "up \<and> prove_boot e rel must_serve (on_guest m) = None")
      case False
      then obtain cause where "restore_image e cause m = (n', rolled, err)"
        using run at None b by (auto simp: swap_and_boot_def split: option.splits if_splits)
      from rolled [OF this resm] show ?thesis by auto
    next
      case True
      then have "proven e rel must_serve new" using prove_boot_none [of e rel must_serve "on_guest m"] mi by auto
      then show ?thesis using run at None b True mi im
        by (auto simp: swap_and_boot_def upgraded_def split: if_splits)
    qed
  qed
qed

text \<open>The guards before anything moves.\<close>

definition may_upgrade :: "up_env \<Rightarrow> manifest \<Rightarrow> cluster \<Rightarrow> bool" where
  "may_upgrade e rel cl \<longleftrightarrow> mf_system rel \<noteq> [] \<and> ct_cluster (ue_before e) (ue_resource e) = Inr cl \<and>
     \<not> (serving (cl_state cl) \<and> peer_can_take_over cl)"

lemma image_upgrade_cases:
  assumes "image_upgrade e rel n = (n', rolled, err)"
  obtains (refused) "n' = n" "rolled" "err \<noteq> None"
    | (stop_refused) cl where "may_upgrade e rel cl" "on_guest n' = on_guest n" "on_images n' = on_images n"
        "rolled \<longrightarrow> \<not> on_held n'" "err \<noteq> None"
    | (moved) cl new where "may_upgrade e rel cl" "im_next (on_images n) = Some new" "stop_cleanly (ue_stop e)"
        "swap_and_boot e rel (serving (cl_state cl))
           (n\<lparr>on_held := (gc_snippet (ue_config e) \<noteq> []), on_guest := None\<rparr>) = (n', rolled, err)"
proof -
  consider "n' = n \<and> rolled \<and> err \<noteq> None"
    | cl new where "may_upgrade e rel cl" "im_next (on_images n) = Some new"
        "(let n = n\<lparr>on_held := (gc_snippet (ue_config e) \<noteq> [])\<rparr>
          in if \<not> stop_cleanly (ue_stop e) then
               (case exit_maintenance (ue_before e) (ue_config e) of
                  Some _ \<Rightarrow> (n, (False, Some StopRefusedAndHeld))
                | None \<Rightarrow> (n\<lparr>on_held := False\<rparr>, (True, Some StopRefused)))
             else swap_and_boot e rel (serving (cl_state cl)) (n\<lparr>on_guest := None\<rparr>)) = (n', rolled, err)"
    using assms unfolding image_upgrade_def may_upgrade_def
    by (auto split: if_splits sum.splits option.splits)
  then show thesis
  proof cases
    case 1
    then show thesis using refused by blast
  next
    case (2 cl new)
    then show thesis
      using moved [of cl new] stop_refused [of cl] by (auto simp: Let_def split: if_splits option.splits)
  qed
qed


lemma restore_image_err: "restore_image e cause n = (n', rolled, err) \<Longrightarrow> err \<noteq> None"
  by (auto simp: restore_image_def Let_def split: prod.splits option.splits if_splits)

lemma swap_and_boot_kept:
  assumes "swap_and_boot e rel must_serve n = (n', rolled, None)" "on_guest n = None"
  shows "\<exists>new. im_next (on_images n) = Some new \<and> on_guest n' = Some new \<and> proven e rel must_serve new"
proof -
  have no_restore: "restore_image e cause m \<noteq> (n', rolled, None)" for cause m
    using restore_image_err by blast
  obtain im where at: "attempt (ue_swap e) swap_moves (on_images n) = (im, None)"
    using assms(1) no_restore by (auto simp: swap_and_boot_def Let_def split: prod.splits option.splits)
  then obtain m where m: "bring_up (ue_boot e) (ue_boot_left e) (n\<lparr>on_images := im\<rparr>) = (m, True)"
    and p: "prove_boot e rel must_serve (on_guest m) = None"
    using assms(1) no_restore by (auto simp: swap_and_boot_def split: prod.splits option.splits if_splits)
  obtain new where new: "im_next (on_images n) = Some new" "im_backing im = Some new"
    using swap_result [OF at] by auto
  then have "on_guest m = Some new" using m assms(2) by (auto simp: bring_up_def split: if_splits)
  then show ?thesis
    using assms(1) at m p new prove_boot_none [OF p] by (auto simp: swap_and_boot_def split: if_splits)
qed

lemma image_upgrade_kept:
  assumes "image_upgrade e rel n = (n', rolled, None)"
  shows "\<exists>cl new. may_upgrade e rel cl \<and> im_next (on_images n) = Some new \<and> on_guest n' = Some new \<and>
    proven e rel (serving (cl_state cl)) new"
  using assms
proof (cases rule: image_upgrade_cases)
  case (moved cl new)
  then show ?thesis using swap_and_boot_kept [OF moved(4)] by auto
qed simp_all


section \<open>Properties\<close>


text \<open>
  C14: An upgrade never leaves the house dark by its own choice. A node that serves while a peer could
  take over is left exactly as it was; and where a serving node is upgraded, the upgrade is kept only
  after a reading of the new guest that shows it serving again, with a current copy and its front door
  answering.\<close>
theorem serving_node_must_serve_again:
  assumes "image_upgrade e rel n = (n', rolled, err)"
    and "ct_cluster (ue_before e) (ue_resource e) = Inr cl" "serving (cl_state cl)"
  shows "(peer_can_take_over cl \<longrightarrow> n' = n \<and> err \<noteq> None) \<and>
    (err = None \<longrightarrow> (\<exists>c\<in>fst ` set (ue_polls e). probe_ready c (ue_config e) \<and>
      (gc_resource (ue_config e) \<noteq> [] \<longrightarrow>
        (\<exists>cl'. ct_cluster c (gc_resource (ue_config e)) = Inr cl' \<and> serving (cl_state cl') \<and> \<not> stale_copy cl'))))"
proof (intro conjI impI)
  show "n' = n" "err \<noteq> None" if "peer_can_take_over cl"
    using that assms by (auto simp: image_upgrade_def split: if_splits)
  show "\<exists>c\<in>fst ` set (ue_polls e). probe_ready c (ue_config e) \<and>
      (gc_resource (ue_config e) \<noteq> [] \<longrightarrow>
        (\<exists>cl'. ct_cluster c (gc_resource (ue_config e)) = Inr cl' \<and> serving (cl_state cl') \<and> \<not> stale_copy cl'))"
    if kept: "err = None"
  proof -
    obtain cl' new where "may_upgrade e rel cl'" "proven e rel (serving (cl_state cl')) new"
      using image_upgrade_kept [of e rel n n' rolled] assms(1) kept by blast
    then have "\<exists>c\<in>fst ` set (ue_polls e). said_yes (os_ready_serving c (ue_config e))"
      using assms by (auto simp: may_upgrade_def proven_def)
    then show ?thesis by (auto simp: os_ready_serving_yes split: if_splits)
  qed
qed

text \<open>The names after a power cut: some of the moves of the swap, then some of those of the restore.\<close>

definition cut_swap :: "nat \<Rightarrow> images \<Rightarrow> images" where
  "cut_swap k im = fold move_image (take k swap_moves) im"

definition cut_restore :: "nat \<Rightarrow> images \<Rightarrow> images" where
  "cut_restore j im = (if im_prev im \<noteq> None then fold move_image (take j restore_moves) im else im)"

lemma cut_swap_cases:
  "cut_swap k im = im \<and> k = 0 \<or> cut_swap k im = im\<lparr>im_prev := None\<rparr> \<or>
   cut_swap k im = im\<lparr>im_backing := None, im_prev := im_backing im\<rparr> \<or>
   cut_swap k im = im\<lparr>im_next := None, im_backing := im_next im, im_prev := im_backing im\<rparr>"
  by (cases im) (simp add: cut_swap_def swap_moves_def take_Cons')

lemma cut_restore_keeps: "im_prev im = Some old \<Longrightarrow> on_disk old (cut_restore j im)"
  by (cases im) (simp add: cut_restore_def restore_moves_def on_disk_def take_Cons')

text \<open>
  No power cut loses the image that ran. Whichever moves of the swap, and then of the restore, were
  done when the power went, the image in use before is still on disk under one of its two names, when
  the restore is entered after the old set-aside image is gone.\<close>
lemma old_image_outlives_power_cuts:
  assumes "im_backing im = Some old"
  shows "on_disk old (cut_swap k im) \<and>
    (1 \<le> k \<or> im_prev im = None \<longrightarrow> on_disk old (cut_restore j (cut_swap k im)))"
proof (intro conjI impI)
  show "on_disk old (cut_swap k im)"
    using cut_swap_cases [of k im] assms by (auto simp: on_disk_def)
  show "on_disk old (cut_restore j (cut_swap k im))" if "1 \<le> k \<or> im_prev im = None"
  proof (cases "im_prev (cut_swap k im)")
    case None
    then show ?thesis using cut_swap_cases [of k im] assms by (auto simp: cut_restore_def on_disk_def)
  next
    case (Some x)
    then have "im_prev (cut_swap k im) = Some old" using cut_swap_cases [of k im] assms that by auto
    then show ?thesis by (rule cut_restore_keeps)
  qed
qed

text \<open>The names a power cut between the two renames leaves: nothing is in use, so no launch can boot.\<close>

lemma cut_between_renames_cannot_boot:
  assumes "im_backing (on_images n) = Some old" "on_guest n = None"
  shows "\<not> snd (bring_up works left (n\<lparr>on_images := cut_swap 2 (on_images n)\<rparr>))"
  using assms by (simp add: bring_up_def cut_swap_def swap_moves_def numeral_eq_Suc)

text \<open>
  An image that an earlier upgrade could not remove, and that cannot be removed now, is what the restore
  takes for the one set aside: it replaces the image in use.
\<close>

lemma stale_image_replaces_the_running_one:
  assumes "im_backing (on_images n) = Some old" "im_prev (on_images n) = Some older" "on_guest n = None"
    and "\<not> ue_swap e RemovePrev"
    and "ue_rb_moves e = (\<lambda>_. True)" "ue_rb_boot e"
  shows "swap_and_boot e rel must_serve n =
    (n\<lparr>on_images := \<lparr>im_backing = Some older, im_next = None, im_prev = None\<rparr>, on_guest := Some older, on_held := False\<rparr>,
     True, Some (RolledBack (MoveFailed RemovePrev)))"
  using assms
  by (cases "on_images n")
    (simp add: swap_and_boot_def swap_moves_def restore_image_def restore_moves_def restore_stop_def bring_up_def Let_def)

lemma chain_apart:
  "keyring_verify (f\<lparr>ft_chain := c\<rparr>) = keyring_verify f" "pinned (f\<lparr>ft_chain := c\<rparr>) = pinned f"
  "ft_decode (f\<lparr>ft_chain := c\<rparr>) = ft_decode f" "ft_expand (f\<lparr>ft_chain := c\<rparr>) = ft_expand f"
  by (simp_all add: fun_eq_iff keyring_verify_def pinned_def)

text \<open>
  C4: A node only moves its guest to a release its keyring signed. When the directive changes the image
  the guest runs and reports success, there is a manifest of the guest chain that verified under a
  trusted key, fit for the node's briard; the image the guest runs is the expansion of bytes with the
  size and hash that manifest pins; and the guest reported the very system it names.\<close>
theorem guest_update_runs_what_was_signed:
  assumes "apply_guest_update f net d payload g = (g', Done v)"
    and "on_guest (gn_node g') \<noteq> on_guest (gn_node g)"
  shows "\<exists>want raw sig a body content.
    keyring_verify f raw sig \<and> ft_decode f raw = Some want \<and>
    mf_chain want = chain_vm \<and> mf_version want = v \<and>
    briard_satisfies (mf_min_briard want) (de_briard d) = None \<and>
    a \<in> set (mf_artifacts want) \<and> ar_name a = guest_image_artifact \<and>
    pinned f a body \<and> ft_expand f body = Some content \<and>
    on_guest (gn_node g') = Some content \<and> ue_booted (de_up d) content = Inr (mf_system want)"
proof -
  let ?f = "f\<lparr>ft_chain := chain_vm\<rparr>"
  define target where "target = (if payload = [] then target_stable else payload)"
  obtain want raw have' running where res: "resolve_release ?f net d target g = Some (want, raw, have', running, Inr (Decided Install))"
    and run: "stage_and_upgrade ?f net d raw want g = (g', Done v)"
    using assms unfolding apply_guest_update_def target_def [symmetric] Let_def remember_release_def
    by (auto split: if_splits option.splits sum.splits guest_decision.splits decision.splits)
  have fetched: "fetch_manifest ?f net target = Inr (want, raw)"
    and dec: "\<exists>stb. decide_guest target want have' stb running (de_briard d) = Inr (Decided Install)"
    using res by (auto simp: resolve_release_def Let_def split: sum.splits if_splits)
  obtain im where st: "stage_guest_image ?f net (de_stage d) want (on_images (gn_node g)) = (im, None)"
    and up: "\<exists>rolled. image_upgrade (de_up d) want ((gn_node g)\<lparr>on_images := im\<rparr>) = (gn_node g', rolled, None)"
    and v: "v = mf_version want"
    using run unfolding stage_and_upgrade_def finish_upgrade_def remember_release_def Let_def
    by (auto split: prod.splits option.splits if_splits)
  obtain a dir content where a: "image_artifact want = Some a"
    and dir: "fetch_one ?f net (mf_version want) [] a = Inr dir" and im: "im_next im = Some content"
    and content: "map_of dir (take (length guest_image_artifact - length compressed_suffix) guest_image_artifact) = Some content"
    using st unfolding stage_guest_image_def by (auto split: if_splits option.splits sum.splits)
  have an: "a \<in> set (mf_artifacts want) \<and> ar_name a = guest_image_artifact"
  proof -
    have "foldl (\<lambda>found a. if ar_name a = guest_image_artifact then Some a else found) found as = Some a \<Longrightarrow>
      found = Some a \<or> (a \<in> set as \<and> ar_name a = guest_image_artifact)" for as found
      by (induction as arbitrary: found) (auto split: if_splits)
    from this [of None] show ?thesis using a by (simp add: image_artifact_def)
  qed
  obtain x where x: "dir = [x]" "file_of ?f a x"
    using fetch_artifact_Inr [of ?f net "path_join [chain_vm, mf_version want, ft_platform f]" "[]" a dir] dir
    by (auto simp: fetch_one_def split: if_splits)
  have "suffix compressed_suffix guest_image_artifact"
    by (simp add: compressed_suffix_def guest_image_artifact_def suffix_def)
  then obtain body where "pinned ?f a body" "ft_expand ?f body = Some content"
    using x an content by (auto simp: file_of_def split: if_splits)
  moreover have "on_guest (gn_node g') = Some content \<and> ue_booted (de_up d) content = Inr (mf_system want)"
    using up image_upgrade_kept im by (fastforce simp: proven_def)
  moreover obtain sig where sig: "keyring_verify ?f raw sig" "ft_decode ?f raw = Some want" "mf_chain want = chain_vm"
    using fetch_manifest_Inr [OF fetched] by auto
  moreover have "briard_satisfies (mf_min_briard want) (de_briard d) = None"
    using dec by (auto simp: decide_guest_def split: if_splits option.splits)
  ultimately show ?thesis using an v unfolding chain_apart by auto
qed



section \<open>The theorems at work\<close>

text \<open>A lone node that holds the house, and a release whose image boots, serves and settles.\<close>

definition toy_control :: control where
  "toy_control = \<lparr>ct_start = (\<lambda>_. None), ct_stop = (\<lambda>_. None), ct_active = (\<lambda>_. Inr True),
     ct_health = (\<lambda>_. Inr True), ct_vip = (\<lambda>_. Inr ''10.0.0.9/24''), ct_pause = (\<lambda>_. None), ct_resume = (\<lambda>_. None),
     ct_cluster = (\<lambda>_. Inr (lone_cluster (Some ''active''))), ct_host_get = (\<lambda>_. None)\<rparr>"

definition toy_config :: guest_config where
  "toy_config = \<lparr>gc_health_url = [], gc_vip_dev = ''vip0'', gc_diskless = False, gc_resource = ''r0'', gc_snippet = ''r0''\<rparr>"

definition toy_stop :: stop_answers where
  "toy_stop = \<lparr>sa_channel = True, sa_poweroff = True, sa_waited = True, sa_button = True, sa_reaped = True\<rparr>"

definition toy_env :: up_env where
  "toy_env = \<lparr>ue_config = toy_config, ue_resource = ''r0'', ue_image_named = True, ue_before = toy_control,
     ue_system_before = Inr ''sys1'', ue_stop = toy_stop, ue_swap = (\<lambda>_. True), ue_boot = True, ue_boot_left = False,
     ue_booted = (\<lambda>im. if im = ''zzzz'' then Inr ''sys2'' else Inr ''sys1''), ue_polls = [(toy_control, False)],
     ue_system_polls = [(Inr \<lparr>ss_state = ''running'', ss_failed = []\<rparr>, False)], ue_drop_prev = True,
     ue_rb_stop = toy_stop, ue_rb_force = True, ue_rb_moves = (\<lambda>_. True), ue_rb_boot = True, ue_rb_boot_left = False\<rparr>"

definition toy_release :: manifest where
  "toy_release = \<lparr>mf_chain = chain_vm, mf_platform = ''linux-amd64'', mf_version = ''vm.26110216.07bf1e6'',
     mf_artifacts = [\<lparr>ar_name = guest_image_artifact, ar_sha256 = ''zz'', ar_size = 2, ar_mode = 0\<rparr>],
     mf_system = ''sys2'', mf_min_briard = [], mf_vm = [], mf_inputs = [], mf_min_upgrade_from = []\<rparr>"

definition toy_node :: "string option \<Rightarrow> os_node" where
  "toy_node staged = \<lparr>on_images = \<lparr>im_backing = Some ''one'', im_next = staged, im_prev = None\<rparr>,
     on_guest = Some ''one'', on_held = False\<rparr>"

lemmas toy_defs = toy_control_def toy_config_def toy_stop_def toy_env_def toy_release_def toy_node_def

definition toy_upgraded :: os_node where
  "toy_upgraded = \<lparr>on_images = \<lparr>im_backing = Some ''zzzz'', im_next = None, im_prev = None\<rparr>,
     on_guest = Some ''zzzz'', on_held = False\<rparr>"

lemma toy_run: "image_upgrade toy_env toy_release (toy_node (Some ''zzzz'')) = (toy_upgraded, False, None)"
  by code_simp


theorem serving_node_must_serve_again_witness:
  "image_upgrade toy_env toy_release (toy_node (Some ''zzzz'')) = (toy_upgraded, False, None) \<and>
   (\<exists>c\<in>fst ` set (ue_polls toy_env). probe_ready c (ue_config toy_env))"
proof -
  have "ct_cluster (ue_before toy_env) (ue_resource toy_env) = Inr (lone_cluster (Some ''active''))"
    by (simp add: toy_env_def toy_control_def)
  from serving_node_must_serve_again [OF toy_run this lone_cluster_facts(3)] toy_run show ?thesis by blast
qed

definition toy_vm_fetcher :: fetcher where
  "toy_vm_fetcher = toy_fetcher\<lparr>ft_decode := (\<lambda>bytes. if bytes = ''m'' then Some toy_release else None)\<rparr>"

definition toy_vm_network :: network where
  "toy_vm_network p =
     (if p = ''vm/stable/linux-amd64/manifest.json'' then Some (200, ''m'')
      else if p = ''vm/stable/linux-amd64/manifest.json.sig'' then Some (200, toy_signature)
      else if p = ''vm/vm.26110216.07bf1e6/linux-amd64/nixos.qcow2.zst'' then Some (200, ''zz'')
      else None)"

definition toy_directive :: directive_env where
  "toy_directive = \<lparr>de_vm = True, de_running = Inr ''sys1'', de_briard = ''v3.26110216.07bf1e6'',
     de_stage = \<lparr>se_named = True, se_temp_dir = True, se_tree_flush = True, se_place = True, se_dir_flush = True\<rparr>,
     de_up = toy_env, de_cache_named = True, de_write = True\<rparr>"

lemma toy_update:
  "apply_guest_update toy_vm_fetcher toy_vm_network toy_directive [] \<lparr>gn_node = toy_node None, gn_cache = None\<rparr> =
     (\<lparr>gn_node = toy_upgraded, gn_cache = Some ''m''\<rparr>, Done ''vm.26110216.07bf1e6'')"
  by code_simp

theorem guest_update_runs_what_was_signed_witness:
  "apply_guest_update toy_vm_fetcher toy_vm_network toy_directive [] \<lparr>gn_node = toy_node None, gn_cache = None\<rparr> =
     (\<lparr>gn_node = toy_upgraded, gn_cache = Some ''m''\<rparr>, Done ''vm.26110216.07bf1e6'') \<and>
   (\<exists>raw sig want. keyring_verify toy_vm_fetcher raw sig \<and> ft_decode toy_vm_fetcher raw = Some want)"
proof -
  have "on_guest (gn_node \<lparr>gn_node = toy_upgraded, gn_cache = Some ''m''\<rparr>) \<noteq>
    on_guest (gn_node \<lparr>gn_node = toy_node None, gn_cache = None\<rparr>)"
    by (simp add: toy_upgraded_def toy_node_def)
  from guest_update_runs_what_was_signed [OF toy_update this] toy_update show ?thesis by blast
qed

end
