(* ===== verification/Dhcp.thy ===== *)
theory Dhcp
  imports Subnet
begin

text \<open>
  The DHCP client the host asks for the flock's address with (\<open>agent/nic/dhcp.go\<close>): the bytes of its
  messages, the reader of the replies and the exchange of one message for one reply.

  A payload is a list of 8-bit words, an address a 32-bit word, \<open>netip.Addr\<close>'s zero value \<open>None\<close>. The
  loop over the options keeps the index of the code and has no value where it would not end. What is
  heard in each try, whether the send worked and whether the context ended are arguments.
\<close>

unbundle bit_operations_syntax


section \<open>Bytes\<close>

type_synonym byte = "8 word"
type_synonym options_map = "byte \<Rightarrow> byte list option"

definition be32 :: "32 word \<Rightarrow> byte list" where
  "be32 w = [ucast (drop_bit 24 w), ucast (drop_bit 16 w), ucast (drop_bit 8 w), ucast w]"

definition of_be32 :: "byte list \<Rightarrow> 32 word" where
  "of_be32 bs = foldl (\<lambda>acc b. push_bit 8 acc OR ucast b) 0 bs"

definition slice :: "byte list \<Rightarrow> nat \<Rightarrow> nat \<Rightarrow> byte list" where
  "slice b i j = take (j - i) (drop i b)"

lemma be32_length [simp]: "length (be32 w) = 4"
  by (simp add: be32_def)

lemma of_be32_be32 [simp]: "of_be32 (be32 w) = w"
proof (rule bit_word_eqI)
  fix n assume "n < LENGTH(32)"
  then consider "n < 8" | "8 \<le> n" "n < 16" | "16 \<le> n" "n < 24" | "24 \<le> n" "n < 32" by fastforce
  then show "bit (of_be32 (be32 w)) n = bit w n"
    by cases (simp_all add: of_be32_def be32_def bit_simps less_diff_conv2)
qed


section \<open>The messages\<close>

definition dhcp_discover :: byte where "dhcp_discover = 1"
definition dhcp_offer :: byte where "dhcp_offer = 2"
definition dhcp_request :: byte where "dhcp_request = 3"
definition dhcp_ack :: byte where "dhcp_ack = 5"
definition dhcp_nak :: byte where "dhcp_nak = 6"

definition dhcp_tries :: nat where "dhcp_tries = 5"

definition dhcp_cookie :: "byte list" where "dhcp_cookie = [99, 130, 83, 99]"

record dhcp_client =
  dc_chaddr :: "byte list"
  dc_hostname :: "byte list"

text \<open>\<open>opt\<close>: the length is one byte, whatever the data.\<close>

definition dhcp_opt :: "byte \<Rightarrow> byte list \<Rightarrow> byte list" where
  "dhcp_opt code data = code # word_of_nat (length data) # data"

definition dhcp_header :: "dhcp_client \<Rightarrow> 32 word \<Rightarrow> byte list" where
  "dhcp_header c xid =
     [1, 1, 6, 0] @ be32 xid @ [0, 0, 128, 0] @ replicate 16 0 @
     take 6 (dc_chaddr c) @ replicate (6 - length (dc_chaddr c)) 0 @ replicate 202 0 @ dhcp_cookie"

definition addr_opt :: "byte \<Rightarrow> 32 word option \<Rightarrow> byte list" where
  "addr_opt code a = (case a of None \<Rightarrow> [] | Some w \<Rightarrow> dhcp_opt code (be32 w))"

definition dhcp_message :: "dhcp_client \<Rightarrow> 32 word \<Rightarrow> byte \<Rightarrow> 32 word option \<Rightarrow> 32 word option \<Rightarrow> byte list" where
  "dhcp_message c xid kind req server =
     (let p = dhcp_header c xid @ dhcp_opt 53 [kind] @ dhcp_opt 61 (1 # dc_chaddr c) @
            addr_opt 50 req @ addr_opt 54 server @
            (if dc_hostname c \<noteq> [] then dhcp_opt 12 (dc_hostname c) else []) @
            dhcp_opt 55 [1, 3, 51, 54, 58] @ [255]
      in p @ replicate (300 - length p) 0)"


section \<open>Reading a reply\<close>

record dhcp_lease =
  dl_addr :: ip_prefix
  dl_server :: "32 word option"
  dl_time :: duration
  dl_t1 :: duration

text \<open>The loop over the options, as the code walks it; an option seen again replaces the earlier one.\<close>

partial_function (option) scan_options :: "byte list \<Rightarrow> nat \<Rightarrow> options_map \<Rightarrow> options_map option" where
  "scan_options b i opts =
     (if \<not> i < length b then Some opts
      else if b ! i = 255 then Some opts
      else if b ! i = 0 then scan_options b (i + 1) opts
      else if length b \<le> i + 1 \<or> length b < i + 2 + unat (b ! (i + 1)) then Some opts
      else scan_options b (i + 2 + unat (b ! (i + 1)))
             (opts(b ! i \<mapsto> slice b (i + 2) (i + 2 + unat (b ! (i + 1))))))"

text \<open>\<open>net.IPMask.Size\<close>: the length of a mask, and 0 for one that is not a run of ones and then zeros.\<close>

definition mask_of_bits :: "nat \<Rightarrow> 32 word" where
  "mask_of_bits n = NOT (mask (32 - n))"

definition mask_size :: "32 word \<Rightarrow> nat" where
  "mask_size m = (case find (\<lambda>n. mask_of_bits n = m) [0..<33] of Some n \<Rightarrow> n | None \<Rightarrow> 0)"

definition opt4 :: "options_map \<Rightarrow> byte \<Rightarrow> 32 word option" where
  "opt4 opts code =
     (case opts code of None \<Rightarrow> None | Some d \<Rightarrow> (if length d = 4 then Some (of_be32 d) else None))"

definition opt_seconds :: "options_map \<Rightarrow> byte \<Rightarrow> duration option" where
  "opt_seconds opts code = map_option (\<lambda>w. uint w * second) (opt4 opts code)"

definition lease_from :: "byte list \<Rightarrow> options_map \<Rightarrow> dhcp_lease" where
  "lease_from b opts =
     (let lease_time = (case opt_seconds opts 51 of None \<Rightarrow> 0 | Some t \<Rightarrow> t)
      in \<lparr>dl_addr = \<lparr>pf_addr = of_be32 (slice b 16 20),
             pf_bits = (case opt4 opts 1 of None \<Rightarrow> 24 | Some m \<Rightarrow> mask_size m)\<rparr>,
          dl_server = opt4 opts 54,
          dl_time = lease_time,
          dl_t1 = (case opt_seconds opts 58 of None \<Rightarrow> lease_time div 2 | Some t \<Rightarrow> t)\<rparr>)"

definition reply_to :: "byte list \<Rightarrow> 32 word \<Rightarrow> byte list \<Rightarrow> bool" where
  "reply_to b xid chaddr =
     (240 \<le> length b \<and> b ! 0 = 2 \<and> of_be32 (slice b 4 8) = xid \<and> slice b 236 240 = dhcp_cookie \<and>
      slice b 28 (28 + length chaddr) = chaddr)"

text \<open>\<open>None\<close> is a scan that does not end; \<open>Some None\<close> is a payload that is no reply to this message.\<close>

definition parse_dhcp :: "byte list \<Rightarrow> 32 word \<Rightarrow> byte list \<Rightarrow> (byte \<times> dhcp_lease) option option" where
  "parse_dhcp b xid chaddr =
     (if \<not> reply_to b xid chaddr then Some None
      else
        (case scan_options b 240 Map.empty of
           None \<Rightarrow> None
         | Some opts \<Rightarrow>
             (case opts 53 of
                Some [kind] \<Rightarrow> Some (Some (kind, lease_from b opts))
              | _ \<Rightarrow> Some None)))"


section \<open>The exchange\<close>

datatype dhcp_error = NoAnswer | Nak | NoSocket | SendFailed | ContextOver

record dhcp_try =
  dt_sent :: bool
  dt_heard :: "byte list list"
  dt_over :: bool

fun hear :: "32 word \<Rightarrow> byte list \<Rightarrow> byte \<Rightarrow> byte list list \<Rightarrow> (dhcp_error + dhcp_lease) option" where
  "hear xid chaddr want [] = None"
| "hear xid chaddr want (b # bs) =
     (case parse_dhcp b xid chaddr of
        Some (Some (kind, l)) \<Rightarrow>
          (if kind = dhcp_nak then Some (Inl Nak)
           else if kind = want then Some (Inr l)
           else hear xid chaddr want bs)
      | _ \<Rightarrow> hear xid chaddr want bs)"

fun exchange_tries :: "32 word \<Rightarrow> byte list \<Rightarrow> byte \<Rightarrow> dhcp_try list \<Rightarrow> dhcp_error + dhcp_lease" where
  "exchange_tries xid chaddr want [] = Inl NoAnswer"
| "exchange_tries xid chaddr want (t # ts) =
     (if \<not> dt_sent t then Inl SendFailed
      else
        (case hear xid chaddr want (dt_heard t) of
           Some r \<Rightarrow> r
         | None \<Rightarrow> (if dt_over t then Inl ContextOver else exchange_tries xid chaddr want ts)))"

text \<open>\<open>xid\<close> is what the random source gave, \<open>None\<close> where the socket or the source failed.\<close>

definition dhcp_exchange :: "dhcp_client \<Rightarrow> 32 word option \<Rightarrow> byte \<Rightarrow> dhcp_try list \<Rightarrow> dhcp_error + dhcp_lease" where
  "dhcp_exchange c xid want tries =
     (case xid of
        None \<Rightarrow> Inl NoSocket
      | Some x \<Rightarrow> exchange_tries x (dc_chaddr c) want (take dhcp_tries tries))"

text \<open>The three messages, each with its exchange.\<close>

definition discover_message :: "dhcp_client \<Rightarrow> 32 word \<Rightarrow> 32 word option \<Rightarrow> byte list" where
  "discover_message c xid hint = dhcp_message c xid dhcp_discover hint None"

definition request_message :: "dhcp_client \<Rightarrow> 32 word \<Rightarrow> dhcp_lease \<Rightarrow> byte list" where
  "request_message c xid offer =
     dhcp_message c xid dhcp_request (Some (pf_addr (dl_addr offer))) (dl_server offer)"

definition reboot_message :: "dhcp_client \<Rightarrow> 32 word \<Rightarrow> 32 word \<Rightarrow> byte list" where
  "reboot_message c xid addr = dhcp_message c xid dhcp_request (Some addr) None"



section \<open>The loop over the options\<close>

text \<open>The reference reader: structural on the bytes that are left.\<close>

function read_options :: "byte list \<Rightarrow> options_map \<Rightarrow> options_map" where
  "read_options [] opts = opts"
| "read_options (c # bs) opts =
     (if c = 255 then opts
      else if c = 0 then read_options bs opts
      else
        (case bs of
           [] \<Rightarrow> opts
         | n # ds \<Rightarrow>
             (if length ds < unat n then opts
              else read_options (drop (unat n) ds) (opts(c \<mapsto> take (unat n) ds)))))"
  by pat_completeness auto
termination by (relation "measure (length \<circ> fst)") auto

lemma scan_step:
  "scan_options b i opts =
     (if \<not> i < length b then Some opts
      else if b ! i = 255 then Some opts
      else if b ! i = 0 then scan_options b (i + 1) opts
      else if length b \<le> i + 1 \<or> length b < i + 2 + unat (b ! (i + 1)) then Some opts
      else scan_options b (i + 2 + unat (b ! (i + 1)))
             (opts(b ! i \<mapsto> slice b (i + 2) (i + 2 + unat (b ! (i + 1))))))"
  by (rule scan_options.simps)

lemma options_loop:
  "scan_options b i opts = Some (read_options (drop i b) opts)"
proof (induction "length b - i" arbitrary: i opts rule: less_induct)
  case less
  show ?case
  proof (cases "i < length b")
    case False
    then show ?thesis by (simp add: scan_step [of b i])
  next
    case True
    define c where "c = b ! i"
    have d: "drop i b = c # drop (i + 1) b" using True by (simp add: c_def Cons_nth_drop_Suc)
    show ?thesis
    proof (cases "c = 255 \<or> c = 0 \<or> length b \<le> i + 1")
      case early: True
      have "c = 0 \<Longrightarrow> ?thesis"
        using less [of "i + 1" opts] True d by (simp add: scan_step [of b i] c_def [symmetric])
      moreover have "c \<noteq> 0 \<Longrightarrow> ?thesis"
        using early True d by (auto simp: scan_step [of b i] c_def [symmetric])
      ultimately show ?thesis by blast
    next
      case False
      define n where "n = unat (b ! Suc i)"
      have e: "drop (i + 1) b = b ! (i + 1) # drop (i + 2) b"
        using False Cons_nth_drop_Suc [of "i + 1" b] by simp
      show ?thesis
        using less [of "i + 2 + n" "opts(c \<mapsto> slice b (i + 2) (i + 2 + n))"] True False d e
        by (auto simp: scan_step [of b i] c_def [symmetric] n_def [symmetric] slice_def add.commute)
    qed
  qed
qed

text \<open>
  C26: The reader of a reply always ends, and reads what a structural reader reads: on any bytes
  whatever, from any index, the loop over the options returns, with the options that reading the bytes
  from that index on gives; so no reply, however malformed, can hang the client.\<close>
theorem options_loop_ends:
  "scan_options b i opts = Some (read_options (drop i b) opts)"
  by (rule options_loop)

lemma read_option:
  assumes "code \<noteq> 0" "code \<noteq> 255" "length data < 256"
  shows "read_options (dhcp_opt code data @ rest) opts = read_options rest (opts(code \<mapsto> data))"
proof -
  have "unat (word_of_nat (length data) :: byte) = length data"
    using assms(3) by (simp add: unat_of_nat)
  then show ?thesis using assms by (simp add: dhcp_opt_def)
qed

lemma header_length [simp]: "length (dhcp_header c xid) = 240"
  by (simp add: dhcp_header_def dhcp_cookie_def)

text \<open>What a message says: its options, read from the end of the fixed part.\<close>

definition message_options :: "dhcp_client \<Rightarrow> byte \<Rightarrow> 32 word option \<Rightarrow> 32 word option \<Rightarrow> options_map" where
  "message_options c kind req server =
     [53 \<mapsto> [kind], 61 \<mapsto> 1 # dc_chaddr c, 55 \<mapsto> [1, 3, 51, 54, 58]]
     ++ (case req of None \<Rightarrow> Map.empty | Some w \<Rightarrow> [50 \<mapsto> be32 w])
     ++ (case server of None \<Rightarrow> Map.empty | Some w \<Rightarrow> [54 \<mapsto> be32 w])
     ++ (if dc_hostname c = [] then Map.empty else [12 \<mapsto> dc_hostname c])"

lemma message_tail:
  assumes "length (dc_chaddr c) < 255" "length (dc_hostname c) < 256"
  shows "read_options (drop 240 (dhcp_message c xid kind req server)) Map.empty = message_options c kind req server"
proof -
  have e: "drop 240 (dhcp_message c xid kind req server) =
    dhcp_opt 53 [kind] @ dhcp_opt 61 (1 # dc_chaddr c) @ addr_opt 50 req @ addr_opt 54 server @
    (if dc_hostname c \<noteq> [] then dhcp_opt 12 (dc_hostname c) else []) @ dhcp_opt 55 [1, 3, 51, 54, 58] @
    255 # replicate (300 - length (dhcp_header c xid @ dhcp_opt 53 [kind] @ dhcp_opt 61 (1 # dc_chaddr c) @
            addr_opt 50 req @ addr_opt 54 server @
            (if dc_hostname c \<noteq> [] then dhcp_opt 12 (dc_hostname c) else []) @
            dhcp_opt 55 [1, 3, 51, 54, 58] @ [255])) 0"
    by (simp add: dhcp_message_def Let_def)
  have h: "read_options ((if dc_hostname c \<noteq> [] then dhcp_opt 12 (dc_hostname c) else []) @ rest) opts =
    read_options rest (if dc_hostname c \<noteq> [] then opts(12 \<mapsto> dc_hostname c) else opts)" for rest opts
    using assms by (simp add: read_option)
  have a: "read_options (addr_opt code w @ rest) opts =
      read_options rest (case w of None \<Rightarrow> opts | Some w \<Rightarrow> opts(code \<mapsto> be32 w))"
    if "code \<noteq> 0" "code \<noteq> 255" for code w rest opts
    using that by (simp add: addr_opt_def read_option split: option.split)
  show ?thesis
    unfolding e
    using assms
    by (auto simp: read_option h a message_options_def map_add_def fun_eq_iff split: option.split)
qed


section \<open>What a message says\<close>

lemma message_fixed:
  assumes "length (dc_chaddr c) = 6"
  shows "take 240 (dhcp_message c xid kind req server) = dhcp_header c xid"
  by (simp add: dhcp_message_def Let_def)

lemma slice_take: "j \<le> k \<Longrightarrow> slice (take k b) i j = slice b i j"
  by (simp add: slice_def drop_take)

lemma header_fields:
  assumes "length (dc_chaddr c) = 6"
  shows "dhcp_header c xid ! 0 = 1" "slice (dhcp_header c xid) 4 8 = be32 xid" "dhcp_header c xid ! 10 = 128"
    "slice (dhcp_header c xid) 12 16 = [0, 0, 0, 0]" "slice (dhcp_header c xid) 28 34 = dc_chaddr c"
    "slice (dhcp_header c xid) 236 240 = dhcp_cookie"
proof -
  obtain x y z w where x: "be32 xid = [x, y, z, w]" by (simp add: be32_def)
  obtain a b d e f g where c: "dc_chaddr c = [a, b, d, e, f, g]"
    using assms by (auto simp: numeral_eq_Suc length_Suc_conv)
  note simps = dhcp_header_def x c slice_def
  show "dhcp_header c xid ! 0 = 1" "slice (dhcp_header c xid) 4 8 = be32 xid" "dhcp_header c xid ! 10 = 128"
    "slice (dhcp_header c xid) 12 16 = [0, 0, 0, 0]" "slice (dhcp_header c xid) 28 34 = dc_chaddr c"
    by (simp_all add: simps numeral_eq_Suc)
  show "slice (dhcp_header c xid) 236 240 = dhcp_cookie"
    by (simp add: slice_def dhcp_header_def dhcp_cookie_def c)
qed

lemma message_length: "300 \<le> length (dhcp_message c xid kind req server)"
  by (simp add: dhcp_message_def Let_def)

text \<open>
  C25: What this client sends reads back: of every message, for a six-byte hardware address and a name
  that fits an option, the fixed part carries the operation of a client, the transaction and the flock's
  address, the broadcast flag is set and the client's own address is zero (so the answer comes back to
  the host, never to the guest that holds the address), the options read by the code's own reader are
  exactly the kind, the client identifier made of the same hardware address, the address asked for and
  the server when there are any, the name, and the list of what is wanted; and the message is never
  shorter than the 300 bytes that some routers insist on.\<close>
theorem message_reads_back:
  assumes "length (dc_chaddr c) = 6" and "length (dc_hostname c) < 256"
  shows "let m = dhcp_message c xid kind req server in
    300 \<le> length m \<and> m ! 0 = 1 \<and> of_be32 (slice m 4 8) = xid \<and> m ! 10 = 128 \<and>
    slice m 12 16 = [0, 0, 0, 0] \<and> slice m 28 34 = dc_chaddr c \<and> slice m 236 240 = dhcp_cookie \<and>
    scan_options m 240 Map.empty = Some (message_options c kind req server)"
proof -
  let ?m = "dhcp_message c xid kind req server"
  have n: "?m ! i = dhcp_header c xid ! i" if "i < 240" for i
    using that message_fixed [OF assms(1), of xid kind req server] nth_take [of i 240 ?m] by simp
  have s: "slice ?m i j = slice (dhcp_header c xid) i j" if "j \<le> 240" for i j
    using that slice_take [of j 240 ?m i] by (simp add: message_fixed [OF assms(1)])
  have "scan_options ?m 240 Map.empty = Some (message_options c kind req server)"
    using options_loop [of ?m 240 Map.empty] assms by (simp add: message_tail)
  then show ?thesis using header_fields [OF assms(1), of xid] message_length by (simp add: Let_def n s)
qed

definition example_client :: dhcp_client where
  "example_client = \<lparr>dc_chaddr = [2, 66, 10, 0, 0, 9], dc_hostname = [98, 114, 105]\<rparr>"

theorem message_reads_back_witness:
  "let m = dhcp_message example_client 7 dhcp_request (Some 9) None in
    300 \<le> length m \<and> m ! 0 = 1 \<and> of_be32 (slice m 4 8) = 7 \<and> m ! 10 = 128 \<and>
    slice m 12 16 = [0, 0, 0, 0] \<and> slice m 28 34 = dc_chaddr example_client \<and> slice m 236 240 = dhcp_cookie \<and>
    scan_options m 240 Map.empty = Some (message_options example_client dhcp_request (Some 9) None)"
  by (rule message_reads_back) (simp_all add: example_client_def)


section \<open>What an answer is\<close>

text \<open>Our own frame, looped back to us, is no answer: its operation is a client's.\<close>

lemma own_frame_is_skipped:
  assumes "length (dc_chaddr c) = 6"
  shows "parse_dhcp (dhcp_message c xid kind req server) x chaddr = Some None"
proof -
  have "dhcp_message c xid kind req server ! 0 = 1"
    using message_fixed [OF assms, of xid kind req server] header_fields(1) [OF assms, of xid]
    by (metis nth_take zero_less_numeral)
  then show ?thesis by (simp add: parse_dhcp_def reply_to_def)
qed

lemma parse_dhcp_total: "parse_dhcp b xid chaddr \<noteq> None"
  by (simp add: parse_dhcp_def options_loop split: option.split list.split)

lemma parse_dhcp_reply: "parse_dhcp b xid chaddr = Some (Some r) \<Longrightarrow> reply_to b xid chaddr"
  by (simp add: parse_dhcp_def split: if_splits)

lemma hear_lease:
  assumes "hear xid chaddr want bs = Some (Inr l)"
  shows "\<exists>pre b post. bs = pre @ b # post \<and> parse_dhcp b xid chaddr = Some (Some (want, l)) \<and>
    (\<forall>p\<in>set pre. \<forall>r. parse_dhcp p xid chaddr \<noteq> Some (Some (dhcp_nak, r)))"
  using assms
proof (induction bs)
  case (Cons b bs)
  show ?case
  proof (cases "hear xid chaddr want bs = Some (Inr l) \<and> (\<forall>r. parse_dhcp b xid chaddr \<noteq> Some (Some (dhcp_nak, r)))")
    case True
    then obtain pre c post where "bs = pre @ c # post" "parse_dhcp c xid chaddr = Some (Some (want, l))"
      "\<forall>p\<in>set pre. \<forall>r. parse_dhcp p xid chaddr \<noteq> Some (Some (dhcp_nak, r))"
      using Cons.IH by blast
    then show ?thesis using True by (intro exI [of _ "b # pre"]) auto
  next
    case False
    then have "parse_dhcp b xid chaddr = Some (Some (want, l))"
      using Cons.prems by (auto split: option.splits prod.splits if_splits)
    then show ?thesis by (intro exI [of _ "[]"] exI [of _ b] exI [of _ bs]) simp
  qed
qed simp

lemma hear_None: "hear xid chaddr want bs = None \<longleftrightarrow>
   (\<forall>b\<in>set bs. \<forall>k l. parse_dhcp b xid chaddr = Some (Some (k, l)) \<longrightarrow> k \<noteq> dhcp_nak \<and> k \<noteq> want)"
  by (induction bs) (auto split: option.splits prod.splits)

lemma tries_lease:
  assumes "exchange_tries xid chaddr want ts = Inr l"
  shows "\<exists>us t vs. ts = us @ t # vs \<and> hear xid chaddr want (dt_heard t) = Some (Inr l) \<and>
    (\<forall>u\<in>set us. hear xid chaddr want (dt_heard u) = None)"
  using assms
proof (induction ts)
  case (Cons t ts)
  show ?case
  proof (cases "hear xid chaddr want (dt_heard t)")
    case None
    then have "exchange_tries xid chaddr want ts = Inr l" using Cons.prems by (auto split: if_splits)
    then obtain us u vs where "ts = us @ u # vs" "hear xid chaddr want (dt_heard u) = Some (Inr l)"
      "\<forall>u\<in>set us. hear xid chaddr want (dt_heard u) = None" using Cons.IH by blast
    then show ?thesis using None by (intro exI [of _ "t # us"]) auto
  next
    case (Some r)
    then show ?thesis using Cons.prems by (intro exI [of _ "[]"]) (auto split: if_splits)
  qed
qed simp

text \<open>
  C17: A lease is never taken from anything but the answer to this exchange: whatever was heard, and in
  whatever order, an exchange that returns a lease heard, in one of its first five tries, a server's
  reply that carries this exchange's transaction number, the flock's hardware address and the cookie,
  of the kind that was waited for, and the lease is that reply's; and nothing heard before it in any of
  the tries was a refusal of this exchange.\<close>
theorem lease_comes_from_our_answer:
  assumes "dhcp_exchange c (Some xid) want tries = Inr l"
  shows "\<exists>pre b post. concat (map dt_heard (take 5 tries)) = pre @ b # post \<and>
    240 \<le> length b \<and> b ! 0 = 2 \<and> of_be32 (slice b 4 8) = xid \<and> slice b 236 240 = dhcp_cookie \<and>
    slice b 28 (28 + length (dc_chaddr c)) = dc_chaddr c \<and> parse_dhcp b xid (dc_chaddr c) = Some (Some (want, l)) \<and>
    (\<forall>p\<in>set pre. \<forall>r. parse_dhcp p xid (dc_chaddr c) \<noteq> Some (Some (dhcp_nak, r)))"
proof -
  have "exchange_tries xid (dc_chaddr c) want (take 5 tries) = Inr l"
    using assms by (simp add: dhcp_exchange_def dhcp_tries_def)
  then obtain us t vs where t: "take 5 tries = us @ t # vs"
    "hear xid (dc_chaddr c) want (dt_heard t) = Some (Inr l)"
    and us: "\<forall>u\<in>set us. hear xid (dc_chaddr c) want (dt_heard u) = None"
    using tries_lease by blast
  obtain pre b post where b: "dt_heard t = pre @ b # post" "parse_dhcp b xid (dc_chaddr c) = Some (Some (want, l))"
    "\<forall>p\<in>set pre. \<forall>r. parse_dhcp p xid (dc_chaddr c) \<noteq> Some (Some (dhcp_nak, r))"
    using hear_lease [OF t(2)] by blast
  have "\<forall>p\<in>set (concat (map dt_heard us)). \<forall>r. parse_dhcp p xid (dc_chaddr c) \<noteq> Some (Some (dhcp_nak, r))"
    using us by (fastforce simp: hear_None)
  then show ?thesis
    using t(1) b parse_dhcp_reply [OF b(2), unfolded reply_to_def]
    by (intro exI [of _ "concat (map dt_heard us) @ pre"] exI [of _ b] exI [of _ "post @ concat (map dt_heard vs)"])
      auto
qed

text \<open>An answer, as a server writes it, for the example client.\<close>

definition example_reply :: "byte list" where
  "example_reply =
     [2, 1, 6, 0] @ be32 7 @ replicate 8 0 @ [192, 168, 7, 20] @ replicate 8 0 @ dc_chaddr example_client @
     replicate 202 0 @ dhcp_cookie @ dhcp_opt 53 [dhcp_ack] @ dhcp_opt 51 [0, 0, 14, 16] @ [255]"

definition example_lease :: dhcp_lease where
  "example_lease = \<lparr>dl_addr = mk_prefix 192 168 7 20 24, dl_server = None, dl_time = hour, dl_t1 = 30 * minute\<rparr>"

lemma example_reply_parses:
  "parse_dhcp example_reply 7 (dc_chaddr example_client) = Some (Some (dhcp_ack, example_lease))"
proof -
  have h: "be32 7 = [0, 0, 0, 7]" by (simp add: be32_def)
  have r: "reply_to example_reply 7 (dc_chaddr example_client)"
    by (simp add: reply_to_def example_reply_def h slice_def example_client_def dhcp_cookie_def of_be32_def
        push_bit_eq_mult)
  have o: "scan_options example_reply 240 Map.empty = Some [53 \<mapsto> [dhcp_ack], 51 \<mapsto> [0, 0, 14, 16]]"
    by (simp add: options_loop example_reply_def h example_client_def dhcp_cookie_def read_option
        read_option [where rest = "[255]"])
  have "lease_from example_reply [53 \<mapsto> [dhcp_ack], 51 \<mapsto> [0, 0, 14, 16]] = example_lease"
    by (simp add: lease_from_def Let_def opt_seconds_def opt4_def example_lease_def
        example_reply_def h slice_def example_client_def of_be32_def push_bit_eq_mult mk_prefix_def
        addr4_def time_simps)
  then show ?thesis by (simp add: parse_dhcp_def r o)
qed

theorem lease_comes_from_our_answer_witness:
  "\<exists>pre b post. concat (map dt_heard (take 5 [\<lparr>dt_sent = True, dt_heard = [example_reply], dt_over = False\<rparr>])) =
      pre @ b # post \<and>
    of_be32 (slice b 4 8) = 7 \<and> slice b 28 (28 + length (dc_chaddr example_client)) = dc_chaddr example_client \<and>
    parse_dhcp b 7 (dc_chaddr example_client) = Some (Some (dhcp_ack, example_lease))"
  using lease_comes_from_our_answer [of example_client 7 dhcp_ack
      "[\<lparr>dt_sent = True, dt_heard = [example_reply], dt_over = False\<rparr>]" example_lease]
  by (simp add: dhcp_exchange_def dhcp_tries_def example_reply_parses dhcp_ack_def dhcp_nak_def) blast

text \<open>Every lease that is read has a length of an IPv4 prefix and times of at most 32 bits of seconds.\<close>

lemma mask_size_le: "mask_size m \<le> 32"
  using find_Some [of "\<lambda>n. mask_of_bits n = m" "[0..<33]"]
  by (cases "find (\<lambda>n. mask_of_bits n = m) [0..<33]") (auto simp: mask_size_def simp del: upt.simps)

lemma opt_seconds_bounds:
  assumes "opt_seconds opts code = Some t"
  shows "0 \<le> t \<and> t \<le> (2 ^ 32 - 1) * second"
proof -
  obtain w :: "32 word" where w: "t = uint w * second" using assms by (auto simp: opt_seconds_def)
  moreover have "uint w \<le> 2 ^ 32 - 1" using uint_lt2p [of w] by simp
  ultimately show ?thesis by (simp add: time_simps)
qed

lemma lease_bounds:
  "pf_bits (dl_addr (lease_from b opts)) \<le> 32 \<and>
   0 \<le> dl_time (lease_from b opts) \<and> dl_time (lease_from b opts) \<le> (2 ^ 32 - 1) * second \<and>
   0 \<le> dl_t1 (lease_from b opts) \<and> dl_t1 (lease_from b opts) \<le> (2 ^ 32 - 1) * second"
  using opt_seconds_bounds [of opts 51] opt_seconds_bounds [of opts 58]
  by (auto simp: lease_from_def Let_def mask_size_le time_simps split: option.split)

text \<open>What a client of the exchange relies on: a lease has the shape of an IPv4 lease.\<close>

definition lease_shaped :: "dhcp_lease \<Rightarrow> bool" where
  "lease_shaped l = (pf_bits (dl_addr l) \<le> 32 \<and> 0 \<le> dl_time l \<and> 0 \<le> dl_t1 l)"

locale lease_source =
  fixes ask :: "'q \<Rightarrow> dhcp_error + dhcp_lease"
  assumes shaped: "ask q = Inr l \<Longrightarrow> lease_shaped l"
begin

lemma well_formed: "ask q = Inr l \<Longrightarrow> pf_bits (dl_addr l) \<le> 32 \<and> 0 \<le> dl_time l \<and> 0 \<le> dl_t1 l"
  using shaped by (simp add: lease_shaped_def)

end

lemma parsed_lease_shaped: "parse_dhcp b xid chaddr = Some (Some (k, l)) \<Longrightarrow> lease_shaped l"
  using lease_bounds by (auto simp: parse_dhcp_def lease_shaped_def split: if_splits option.splits list.splits)

interpretation dhcp_wire: lease_source "\<lambda>(c, xid, want, tries). dhcp_exchange c xid want tries"
proof
  fix q l
  assume a: "(case q of (c, xid, want, tries) \<Rightarrow> dhcp_exchange c xid want tries) = Inr l"
  obtain c xid want tries where q: "q = (c, xid, want, tries)" by (cases q)
  with a obtain x where "exchange_tries x (dc_chaddr c) want (take dhcp_tries tries) = Inr l"
    by (auto simp: dhcp_exchange_def split: option.splits)
  from tries_lease [OF this] obtain t :: dhcp_try where "hear x (dc_chaddr c) want (dt_heard t) = Some (Inr l)" by blast
  from hear_lease [OF this] obtain b where "parse_dhcp b x (dc_chaddr c) = Some (Some (want, l))" by blast
  then show "lease_shaped l" by (rule parsed_lease_shaped)
qed

text \<open>
  A mask that is not a run of ones, which no reader calls a length, gives a /0 here, under which every
  address is of the flock's network; only a missing mask gives the /24 the comment promises.\<close>

lemma ragged_mask_is_zero: "mask_size (of_be32 [255, 0, 255, 0]) = 0"
proof -
  have "of_be32 [255, 0, 255, 0] = 0xFF00FF00" by (simp add: of_be32_def push_bit_eq_mult)
  then show ?thesis by (simp add: mask_size_def mask_of_bits_def mask_eq_exp_minus_1 upt_rec)
qed

end
