(* ===== verification/Lease.thy ===== *)
theory Lease
  imports Dhcp AlertStore
begin

text \<open>
  The flock's lease, kept by the host where the guest cannot ask for its own address
  (\<open>agent/host/lease.go\<close>): the record on disk, the bring-up's question, the renewal, the probe of a
  silent router, the refusal with its alert, and the address the guest holds meanwhile.

  The router's answers, the host's own addresses and the clock are the fields of a \<open>lease_env\<close>, read at
  the point of the code that reads them; what an operation sends and does is returned as a list of acts.
  Error texts are a function of the error.
\<close>


section \<open>The record and the leaser\<close>

definition lease_retry_silent :: duration where "lease_retry_silent = minute"
definition lease_retry_refused :: duration where "lease_retry_refused = 2 * minute"
definition lease_min_renew :: duration where "lease_min_renew = 30 * second"
definition lease_probe_every :: duration where "lease_probe_every = 10 * minute"

record lease_record =
  lr_addr :: string
  lr_renew :: time
  lr_until :: time

text \<open>Go's zero time.\<close>

definition zero_time :: time where "zero_time = 0"

definition no_record :: lease_record where
  "no_record = \<lparr>lr_addr = [], lr_renew = zero_time, lr_until = zero_time\<rparr>"

record nic_spec =
  ns_parent :: string
  ns_ipvtap :: bool
  ns_bridge :: bool

record leaser =
  ls_named :: bool
  ls_host_leases_bridge :: bool
  ls_node :: string
  ls_spec :: nic_spec
  ls_rec :: lease_record
  ls_disk :: "lease_record option"
  ls_retry :: "time option"
  ls_why :: string
  ls_relaunch :: bool
  ls_alerted :: bool
  ls_probed :: time
  ls_seen :: bool
  ls_link_was :: bool
  ls_host_was :: string
  ls_wake :: bool

definition new_leaser :: "bool \<Rightarrow> bool \<Rightarrow> string \<Rightarrow> lease_record option \<Rightarrow> leaser" where
  "new_leaser named host_leases_bridge node disk =
     \<lparr>ls_named = named, ls_host_leases_bridge = host_leases_bridge, ls_node = node,
      ls_spec = \<lparr>ns_parent = [], ns_ipvtap = False, ns_bridge = False\<rparr>,
      ls_rec = (case disk of None \<Rightarrow> no_record | Some r \<Rightarrow> r), ls_disk = disk, ls_retry = None, ls_why = [],
      ls_relaunch = False, ls_alerted = False, ls_probed = zero_time, ls_seen = False, ls_link_was = False,
      ls_host_was = [], ls_wake = False\<rparr>"

record lease_env =
  le_start :: time
  le_mid :: time
  le_end :: time
  le_discover :: "32 word option \<Rightarrow> dhcp_error + dhcp_lease"
  le_request :: "dhcp_lease \<Rightarrow> dhcp_error + dhcp_lease"
  le_reboot :: "32 word \<Rightarrow> dhcp_error + dhcp_lease"
  le_over :: bool
  le_host :: "string \<Rightarrow> string list"
  le_lan :: "string \<Rightarrow> string list"
  le_gateway :: "string \<Rightarrow> bool"
  le_quiet_on :: bool
  le_quiet_off :: bool
  le_writes :: "lease_record \<Rightarrow> bool"
  le_text :: "dhcp_error \<Rightarrow> string"

datatype lease_act =
    SentDiscover "32 word option"
  | SentRequest "32 word"
  | SentReboot "32 word"
  | SetQuiet bool

definition single_anchor :: "bool \<Rightarrow> nic_spec \<Rightarrow> bool" where
  "single_anchor host_leases_bridge s = (ns_ipvtap s \<or> (ns_bridge s \<and> host_leases_bridge))"

definition active :: "leaser \<Rightarrow> bool" where
  "active l = (\<not> ls_named l \<and> single_anchor (ls_host_leases_bridge l) (ls_spec l))"

definition refused :: "leaser \<Rightarrow> bool" where
  "refused l = (active l \<and> ls_why l \<noteq> [])"

definition parent :: "leaser \<Rightarrow> string" where
  "parent l = ns_parent (ls_spec l)"

text \<open>\<open>netip.ParsePrefix\<close> on IPv4 text; the address keeps its host part.\<close>

definition parse_prefix :: "string \<Rightarrow> ip_prefix option" where
  "parse_prefix s =
     (case cut (CHR ''/'') s of
        Some (a, n) \<Rightarrow>
          (case (parse_addr4 a, plain_decimal 32 n) of
             (Some w, Some bits) \<Rightarrow> Some \<lparr>pf_addr = w, pf_bits = bits\<rparr>
           | _ \<Rightarrow> None)
      | None \<Rightarrow> None)"

definition hint :: "leaser \<Rightarrow> 32 word option" where
  "hint l = map_option pf_addr (parse_prefix (lr_addr (ls_rec l)))"

definition record_lease :: "time \<Rightarrow> dhcp_lease \<Rightarrow> lease_record" where
  "record_lease now got =
     \<lparr>lr_addr = show_prefix (dl_addr got), lr_renew = now + max (dl_t1 got) lease_min_renew,
      lr_until = now + dl_time got\<rparr>"

definition store_lease :: "lease_env \<Rightarrow> lease_record \<Rightarrow> leaser \<Rightarrow> leaser" where
  "store_lease e r l =
     l\<lparr>ls_rec := r, ls_retry := None,
       ls_disk := (if le_writes e r then (if lr_addr r = [] then None else Some r) else ls_disk l)\<rparr>"

definition set_retry :: "time \<Rightarrow> leaser \<Rightarrow> leaser" where
  "set_retry t l = l\<lparr>ls_retry := Some t\<rparr>"

definition refuse :: "time \<Rightarrow> string \<Rightarrow> leaser \<Rightarrow> leaser" where
  "refuse now cause l = l\<lparr>ls_why := cause, ls_retry := Some (now + lease_retry_refused)\<rparr>"

definition ask_relaunch :: "leaser \<Rightarrow> leaser" where
  "ask_relaunch l = l\<lparr>ls_relaunch := True\<rparr>"

definition clear_refusal :: "leaser \<Rightarrow> leaser" where
  "clear_refusal l = l\<lparr>ls_why := []\<rparr>"

definition due :: "time \<Rightarrow> leaser \<Rightarrow> time" where
  "due now l =
     (case ls_retry l of
        Some t \<Rightarrow> t
      | None \<Rightarrow> if lr_addr (ls_rec l) \<noteq> [] then lr_renew (ls_rec l) else now + lease_retry_refused)"


section \<open>The record reads back\<close>

lemma parse_prefix_show:
  assumes "pf_bits p \<le> 32"
  shows "parse_prefix (show_prefix p) = Some p"
proof -
  let ?w = "pf_addr p"
  have e: "show_addr ?w = dotted [octet 0 ?w, octet (Suc 0) ?w, octet 2 ?w, octet 3 ?w]"
    by (simp add: show_addr_def dotted_def)
  have "CHR ''/'' \<notin> set (show_addr ?w)" using dotted_chars unfolding e by (fastforce simp: is_digit_def)
  then have "cut (CHR ''/'') (show_prefix p) = Some (show_addr ?w, dec_of_nat (pf_bits p))"
    using cut_app [of "CHR ''/''" "show_addr ?w" "dec_of_nat (pf_bits p)"] by (simp add: show_prefix_def)
  moreover have "parse_addr4 (show_addr ?w) = Some ?w"
    unfolding e using parse_addr4_dotted octet_lt addr4_octets by simp
  ultimately show ?thesis using assms by (simp add: parse_prefix_def plain_decimal_bits)
qed

context lease_source
begin

lemma recorded_address_reads_back:
  "ask q = Inr l \<Longrightarrow> parse_prefix (lr_addr (record_lease now l)) = Some (dl_addr l)"
  using well_formed parse_prefix_show by (simp add: record_lease_def)

lemma record_is_in_order:
  "ask q = Inr l \<Longrightarrow> now + lease_min_renew \<le> lr_renew (record_lease now l) \<and> now \<le> lr_until (record_lease now l)"
  using well_formed by (simp add: record_lease_def)

end

text \<open>What the wire leased is recorded so that it reads back, hint and renewal included.\<close>

lemma wire_lease_reads_back:
  assumes "dhcp_exchange c xid want tries = Inr l"
  shows "parse_prefix (lr_addr (record_lease now l)) = Some (dl_addr l)"
  using dhcp_wire.recorded_address_reads_back [of "(c, xid, want, tries)"] assms by simp


section \<open>Asking the router\<close>

definition nothing_answered :: string where
  "nothing_answered = ''nothing answered when Briard asked for an address''"

definition offered_our_own :: "32 word \<Rightarrow> string" where
  "offered_our_own a = ''it offered '' @ show_addr a @ '', the address of the machine Briard runs on''"

definition did_not_lease :: "32 word \<Rightarrow> string \<Rightarrow> string" where
  "did_not_lease a err = ''it offered '' @ show_addr a @ '' and then did not lease it ('' @ err @ '')''"

definition discover :: "lease_env \<Rightarrow> leaser \<Rightarrow> leaser \<times> lease_act list \<times> string" where
  "discover e l =
     (let asked = SentDiscover (hint l);
          give_up = (\<lambda>cause. if le_over e then l else refuse (le_end e) cause l)
      in case le_discover e (hint l) of
           Inl _ \<Rightarrow> (give_up nothing_answered, [asked], [])
         | Inr offer \<Rightarrow>
             (let a = pf_addr (dl_addr offer)
              in if show_addr a \<in> set (le_host e (parent l))
                 then (refuse (le_end e) (offered_our_own a) l, [asked], [])
                 else
                   (case le_request e offer of
                      Inl err \<Rightarrow> (give_up (did_not_lease a (le_text e err)), [asked, SentRequest a], [])
                    | Inr ack \<Rightarrow>
                        (clear_refusal (store_lease e (record_lease (le_end e) ack) l),
                         [asked, SentRequest a], show_prefix (dl_addr ack)))))"

definition keep :: "lease_env \<Rightarrow> lease_record \<Rightarrow> leaser \<Rightarrow> leaser \<times> lease_act list \<times> (dhcp_error + string)" where
  "keep e r l =
     (case parse_prefix (lr_addr r) of
        None \<Rightarrow> (store_lease e no_record l, [], Inl Nak)
      | Some want \<Rightarrow>
          (let asked = [SentReboot (pf_addr want)]
           in case le_reboot e (pf_addr want) of
                Inr got \<Rightarrow>
                  (if pf_addr (dl_addr got) = pf_addr want
                   then (store_lease e (record_lease (le_mid e) got) l, asked, Inr (show_prefix (dl_addr got)))
                   else (store_lease e no_record l, asked, Inl Nak))
              | Inl err \<Rightarrow>
                  (if err = Nak then (store_lease e no_record l, asked, Inl Nak) else (l, asked, Inl err))))"

definition link_local :: "32 word \<Rightarrow> bool" where
  "link_local w = (octet 0 w = 169 \<and> octet 1 w = 254)"

definition contains :: "ip_prefix \<Rightarrow> 32 word \<Rightarrow> bool" where
  "contains p w = (net_part (pf_bits p) (pf_addr p) = net_part (pf_bits p) w)"

text \<open>The host's addresses that count as being on a LAN: not link-local, not the node's own.\<close>

definition lan_addrs :: "leaser \<Rightarrow> string list \<Rightarrow> string list" where
  "lan_addrs l addrs =
     filter (\<lambda>s. (case parse_addr4 s of None \<Rightarrow> False | Some a \<Rightarrow> \<not> link_local a) \<and> s \<noteq> ls_node l) addrs"

definition moved :: "lease_env \<Rightarrow> lease_record \<Rightarrow> leaser \<Rightarrow> bool" where
  "moved e r l =
     (case parse_prefix (lr_addr r) of
        None \<Rightarrow> False
      | Some vip \<Rightarrow>
          (let lan = lan_addrs l (le_lan e (parent l))
           in \<not> list_ex (\<lambda>s. case parse_addr4 s of None \<Rightarrow> False | Some a \<Rightarrow> contains vip a) lan \<and> lan \<noteq> []))"


section \<open>A bring-up and a renewal\<close>

definition acquire :: "lease_env \<Rightarrow> nic_spec \<Rightarrow> bool \<Rightarrow> leaser \<Rightarrow> leaser \<times> lease_act list \<times> string" where
  "acquire e s fresh l0 =
     (let l = l0\<lparr>ls_spec := s\<rparr>; r = ls_rec l
      in if \<not> active l then (l, [], [])
         else if lr_addr r \<noteq> [] \<and> \<not> fresh then (set_retry (le_start e) l, [], lr_addr r)
         else if lr_addr r \<noteq> [] \<and> lr_until r < le_start e then discover e l
         else if lr_addr r \<noteq> [] then
           (case keep e r l of
              (l', acts, Inr addr) \<Rightarrow> (l', acts, addr)
            | (l', acts, Inl err) \<Rightarrow>
                (if err \<noteq> Nak \<and> moved e r l' then
                   (case discover e (store_lease e no_record l') of (l'', acts', addr) \<Rightarrow> (l'', acts @ acts', addr))
                 else if err \<noteq> Nak then (set_retry (le_mid e + lease_retry_silent) l', acts, lr_addr r)
                 else (case discover e l' of (l'', acts', addr) \<Rightarrow> (l'', acts @ acts', addr))))
         else discover e l)"

definition probe :: "lease_env \<Rightarrow> leaser \<Rightarrow> leaser \<times> lease_act list" where
  "probe e l =
     (if \<not> le_quiet_on e then (set_retry (le_mid e + lease_retry_silent) l, [])
      else
        (let asked = SentDiscover (hint l);
             given = (if le_quiet_off e then [SetQuiet False] else []);
             retry = set_retry (le_end e + lease_retry_silent) l
         in case le_discover e (hint l) of
              Inr offer \<Rightarrow>
                (if Some (pf_addr (dl_addr offer)) = hint l then
                   (case le_request e offer of
                      Inr ack \<Rightarrow>
                        (if Some (pf_addr (dl_addr ack)) = hint l
                         then (store_lease e (record_lease (le_end e) ack) l,
                               [SetQuiet True, asked, SentRequest (pf_addr (dl_addr offer))] @ given)
                         else (retry, [SetQuiet True, asked, SentRequest (pf_addr (dl_addr offer))] @ given))
                    | Inl _ \<Rightarrow>
                        (retry, [SetQuiet True, asked, SentRequest (pf_addr (dl_addr offer))] @ given))
                 else (ask_relaunch (store_lease e no_record l), [SetQuiet True, asked] @ given))
            | Inl _ \<Rightarrow>
                (retry\<lparr>ls_probed := le_end e\<rparr>, [SetQuiet True, asked] @ given)))"

definition renew :: "lease_env \<Rightarrow> leaser \<Rightarrow> leaser \<times> lease_act list" where
  "renew e l =
     (let r = ls_rec l
      in if \<not> active l then (l, [])
         else if ls_why l \<noteq> [] then
           (case discover e l of (l', acts, addr) \<Rightarrow> (if addr \<noteq> [] then ask_relaunch l' else l', acts))
         else if lr_addr r \<noteq> [] then
           (case keep e r l of
              (l', acts, Inr _) \<Rightarrow> (l', acts)
            | (l', acts, Inl err) \<Rightarrow>
                (if err = Nak then (ask_relaunch l', acts)
                 else if moved e r l' then (ask_relaunch (store_lease e no_record l'), acts)
                 else if lr_until r < le_mid e \<and> lease_probe_every \<le> time_sub (le_mid e) (ls_probed l') \<and>
                         le_gateway e (parent l') then
                   (case probe e l' of (l'', acts') \<Rightarrow> (l'', acts @ acts'))
                 else (set_retry (le_mid e + lease_retry_silent) l', acts)))
         else (l, []))"



section \<open>The link, the alert and the loop\<close>

definition ask_now :: "time \<Rightarrow> leaser \<Rightarrow> leaser" where
  "ask_now now l = (if \<not> active l then l else (set_retry now l)\<lparr>ls_wake := True\<rparr>)"

definition watch :: "time \<Rightarrow> (string \<Rightarrow> bool) \<Rightarrow> (string \<Rightarrow> string list) \<Rightarrow> leaser \<Rightarrow> leaser" where
  "watch now carrier addrs l =
     (if \<not> active l then l
      else
        (let up = (\<not> ns_ipvtap (ls_spec l) \<or> carrier (parent l));
             host = join_with '','' (lan_addrs l (addrs (parent l)));
             l' = l\<lparr>ls_seen := True, ls_link_was := up, ls_host_was := host\<rparr>
         in if ls_seen l \<and> up \<and> (\<not> ls_link_was l \<or> (host \<noteq> [] \<and> host \<noteq> ls_host_was l))
            then ask_now now l' else l'))"

text \<open>\<open>linkBack\<close>: \<open>uplink\<close> says which member a bridge swaps and whether it swaps any.\<close>

definition link_back :: "string \<Rightarrow> (string \<Rightarrow> string \<times> bool) \<Rightarrow> (string \<Rightarrow> bool) \<Rightarrow> bool" where
  "link_back p uplink up = (case uplink p of (m, swaps) \<Rightarrow> \<not> swaps \<or> (m \<noteq> [] \<and> up m))"

text \<open>\<open>refusal\<close>: the detail and the remedy; \<open>fix_hint\<close> is the platform's, given the prefix.\<close>

definition refusal :: "(string \<Rightarrow> string) \<Rightarrow> (string \<Rightarrow> string) \<Rightarrow> leaser \<Rightarrow> string \<times> string" where
  "refusal prefix_of fix_hint l =
     (if \<not> refused l then ([], [])
      else
        (let n = prefix_of (parent l)
         in (''your router leases Briard nothing of its own: '' @ ls_why l,
             ''pick a free address outside your router's DHCP range and '' @ fix_hint (if n = [] then ''24'' else n))))"

definition address_open :: alert where
  "address_open = \<lparr>al_key = ''address'', al_kind = Open, al_severity = Critical,
     al_title = ''Briard: this machine cannot take an address on your network''\<rparr>"

definition address_resolved :: alert where
  "address_resolved = \<lparr>al_key = ''address'', al_kind = Resolved, al_severity = NoSeverity,
     al_title = ''Briard: this machine has an address on your network''\<rparr>"

text \<open>\<open>tick\<close>: the alerts it raises and whether it restarts the guest; \<open>lane\<close> is whether the act is taken.\<close>

definition tick :: "time \<Rightarrow> (string \<Rightarrow> bool) \<Rightarrow> (string \<Rightarrow> string list) \<Rightarrow> bool \<Rightarrow> bool \<Rightarrow> leaser \<Rightarrow>
    leaser \<times> alert list \<times> bool" where
  "tick now carrier addrs reboots lane l0 =
     (let l = watch now carrier addrs l0;
          wants = ls_relaunch l \<and> active l;
          l' = l\<lparr>ls_alerted := refused l\<rparr>;
          said = (if refused l \<and> \<not> ls_alerted l then [address_open]
                  else if \<not> refused l \<and> ls_alerted l then [address_resolved] else [])
      in if \<not> wants \<or> \<not> reboots then (l', said, False)
         else if lane then (l'\<lparr>ls_relaunch := False\<rparr>, said, True)
         else (l', said, False))"

text \<open>The household names an address, or asks for DHCP again (\<open>configset.go\<close>).\<close>

definition config_vip :: "bool \<Rightarrow> leaser \<Rightarrow> leaser" where
  "config_vip named l = clear_refusal (l\<lparr>ls_named := named\<rparr>)"


section \<open>The host and its guest\<close>

text \<open>
  What happens to one host: bring-ups of a fresh guest or of one that kept running, renewals, ticks,
  the household's setting, and the agent restarting over a guest that runs on. The second component of
  the state is the address of ours the guest holds, empty when it was given none. A bring-up asks for
  nothing where the household named the address (\<open>host.go\<close>).\<close>

datatype lease_event =
    FreshGuest nic_spec lease_env
  | AdoptedGuest nic_spec lease_env
  | Renewal lease_env
  | Tick time "string \<Rightarrow> bool" "string \<Rightarrow> string list" bool bool
  | HouseholdSets bool
  | AgentRestarts

fun lease_step :: "lease_event \<Rightarrow> leaser \<times> string \<Rightarrow> (leaser \<times> string) \<times> lease_act list" where
  "lease_step (FreshGuest s e) (l, guest) =
     (if ls_named l then ((l, []), [])
      else (case acquire e s True l of (l', acts, addr) \<Rightarrow> ((l', addr), acts)))"
| "lease_step (AdoptedGuest s e) (l, guest) =
     (if ls_named l then ((l, []), [])
      else (case acquire e s False l of (l', acts, addr) \<Rightarrow> ((l', addr), acts)))"
| "lease_step (Renewal e) (l, guest) = (case renew e l of (l', acts) \<Rightarrow> ((l', guest), acts))"
| "lease_step (Tick now carrier addrs reboots lane) (l, guest) =
     ((fst (tick now carrier addrs reboots lane l), guest), [])"
| "lease_step (HouseholdSets named) (l, guest) = ((config_vip named l, guest), [])"
| "lease_step AgentRestarts (l, guest) =
     ((new_leaser (ls_named l) (ls_host_leases_bridge l) (ls_node l) (ls_disk l), guest), [])"

text \<open>The address the guest holds while the acts of an event happen: a fresh guest holds none.\<close>

fun held_during :: "lease_event \<Rightarrow> string \<Rightarrow> string" where
  "held_during (FreshGuest s e) guest = []"
| "held_during _ guest = guest"

text \<open>Rule 2: a DISCOVER only while the guest holds no address of ours, or while its link is down.\<close>

fun discovers_in_silence :: "string \<Rightarrow> bool \<Rightarrow> lease_act list \<Rightarrow> bool" where
  "discovers_in_silence guest quiet [] = True"
| "discovers_in_silence guest quiet (SetQuiet on # acts) = discovers_in_silence guest on acts"
| "discovers_in_silence guest quiet (SentDiscover h # acts) =
     ((guest = [] \<or> quiet) \<and> discovers_in_silence guest quiet acts)"
| "discovers_in_silence guest quiet (SentRequest a # acts) = discovers_in_silence guest quiet acts"
| "discovers_in_silence guest quiet (SentReboot a # acts) = discovers_in_silence guest quiet acts"

text \<open>Time goes forward through an event, and from one event to the next.\<close>

definition env_from :: "time \<Rightarrow> lease_env \<Rightarrow> bool" where
  "env_from t e = (t \<le> le_start e \<and> le_start e \<le> le_mid e \<and> le_mid e \<le> le_end e)"

fun event_from :: "time \<Rightarrow> lease_event \<Rightarrow> bool" where
  "event_from t (FreshGuest s e) = env_from t e"
| "event_from t (AdoptedGuest s e) = env_from t e"
| "event_from t (Renewal e) = env_from t e"
| "event_from t (Tick now carrier addrs reboots lane) = (t \<le> now)"
| "event_from t (HouseholdSets named) = True"
| "event_from t AgentRestarts = True"

fun event_ends :: "time \<Rightarrow> lease_event \<Rightarrow> time" where
  "event_ends t (FreshGuest s e) = le_end e"
| "event_ends t (AdoptedGuest s e) = le_end e"
| "event_ends t (Renewal e) = le_end e"
| "event_ends t (Tick now carrier addrs reboots lane) = now"
| "event_ends t (HouseholdSets named) = t"
| "event_ends t AgentRestarts = t"

text \<open>What the code takes for granted of a guest it adopts: it holds the address of the record.\<close>

fun adopts_what_is_recorded :: "leaser \<times> string \<Rightarrow> lease_event \<Rightarrow> bool" where
  "adopts_what_is_recorded (l, guest) (AdoptedGuest s e) = (guest = lr_addr (ls_rec l))"
| "adopts_what_is_recorded st _ = True"

inductive lease_run :: "time \<Rightarrow> leaser \<times> string \<Rightarrow> lease_event list \<Rightarrow> (string \<times> lease_act list) list \<Rightarrow>
    time \<Rightarrow> leaser \<times> string \<Rightarrow> bool" where
  run_start: "lease_run t st [] [] t st"
| run_event: "lease_run t st evs acts t1 (l, guest) \<Longrightarrow> event_from t1 ev \<Longrightarrow>
    adopts_what_is_recorded (l, guest) ev \<Longrightarrow> lease_step ev (l, guest) = (st', out) \<Longrightarrow>
    lease_run t st (evs @ [ev]) (acts @ [(held_during ev guest, out)]) (event_ends t1 ev) st'"

inductive_cases lease_run_snocE: "lease_run t st (evs @ [ev]) acts t' st'"



section \<open>One operation\<close>

named_theorems lease_simps "what the small operations do to the leaser"

lemma small_ops [lease_simps]:
  "ls_rec (store_lease e r l) = r" "ls_why (store_lease e r l) = ls_why l" "ls_retry (store_lease e r l) = None"
  "ls_rec (set_retry t l) = ls_rec l" "ls_why (set_retry t l) = ls_why l" "ls_retry (set_retry t l) = Some t"
  "ls_rec (refuse t c l) = ls_rec l" "ls_why (refuse t c l) = c" "ls_retry (refuse t c l) = Some (t + lease_retry_refused)"
  "ls_rec (ask_relaunch l) = ls_rec l" "ls_why (ask_relaunch l) = ls_why l" "ls_retry (ask_relaunch l) = ls_retry l"
  "ls_rec (clear_refusal l) = ls_rec l" "ls_why (clear_refusal l) = []" "ls_retry (clear_refusal l) = ls_retry l"
  "ls_disk (set_retry t l) = ls_disk l" "ls_disk (refuse t c l) = ls_disk l" "ls_disk (ask_relaunch l) = ls_disk l"
  "ls_disk (clear_refusal l) = ls_disk l"
  "lr_addr no_record = []" "lr_addr (record_lease t got) = show_prefix (dl_addr got)"
  "lr_renew (record_lease t got) = t + max (dl_t1 got) lease_min_renew"
  by (simp_all add: store_lease_def set_retry_def refuse_def ask_relaunch_def clear_refusal_def no_record_def record_lease_def)

text \<open>The whole behaviour of a DISCOVER and of an INIT-REBOOT, by their outcomes.\<close>

lemma discover_cases [consumes 1, case_names over refused leased]:
  assumes "discover e l = (l', acts, addr)"
  obtains
    (over) "l' = l" "addr = []" "le_over e"
  | (refused) cause where "l' = refuse (le_end e) cause l" "addr = []" "cause \<noteq> []"
  | (leased) ack where "l' = clear_refusal (store_lease e (record_lease (le_end e) ack) l)"
      "addr = show_prefix (dl_addr ack)"
proof -
  have c: "nothing_answered \<noteq> []" "offered_our_own a \<noteq> []" "did_not_lease a t \<noteq> []" for a t
    by (simp_all add: nothing_answered_def offered_our_own_def did_not_lease_def)
  show ?thesis
    using assms that c
    by (auto simp: discover_def Let_def split: sum.splits if_splits)
qed

lemma keep_cases [consumes 1, case_names kept lost silent]:
  assumes "keep e r l = (l', acts, res)"
  obtains
    (kept) got where "l' = store_lease e (record_lease (le_mid e) got) l" "res = Inr (show_prefix (dl_addr got))"
      "hint (l\<lparr>ls_rec := r\<rparr>) = Some (pf_addr (dl_addr got))"
  | (lost) "l' = store_lease e no_record l" "res = Inl Nak"
  | (silent) err where "l' = l" "res = Inl err" "err \<noteq> Nak"
  using assms
  by (auto simp: keep_def hint_def Let_def split: option.splits sum.splits if_splits)

lemma discover_acts:
  assumes "discover e l = (l', acts, addr)"
  shows "acts = [SentDiscover (hint l)] \<or>
    (\<exists>offer. le_discover e (hint l) = Inr offer \<and> acts = [SentDiscover (hint l), SentRequest (pf_addr (dl_addr offer))] \<and>
      show_addr (pf_addr (dl_addr offer)) \<notin> set (le_host e (parent l)))"
  using assms by (auto simp: discover_def Let_def split: sum.splits if_splits)

lemma keep_acts: "keep e r l = (l', acts, res) \<Longrightarrow> acts = [] \<or> (\<exists>a. acts = [SentReboot a])"
  by (auto simp: keep_def Let_def split: option.splits sum.splits if_splits)

lemma silence_append_keep:
  "keep e r l = (l', acts, res) \<Longrightarrow> discovers_in_silence g q (acts @ acts') = discovers_in_silence g q acts'"
  using keep_acts by fastforce

lemma silence_discover: "discover e l = (l', acts, addr) \<Longrightarrow> discovers_in_silence [] q acts"
  using discover_acts by fastforce

lemma silence_probe: "probe e l = (l', acts) \<Longrightarrow> discovers_in_silence g q acts"
  by (auto simp: probe_def Let_def split: sum.splits if_splits)

lemma probe_why: "probe e l = (l', acts) \<Longrightarrow> ls_why l' = ls_why l"
  by (auto simp: probe_def Let_def lease_simps split: sum.splits if_splits)


section \<open>The two rules\<close>

text \<open>A refused node's guest was given no address, and its record, if any, has expired.\<close>

fun refused_holds_nothing :: "time \<Rightarrow> leaser \<times> string \<Rightarrow> bool" where
  "refused_holds_nothing t (l, guest) =
     (ls_why l = [] \<or> (guest = [] \<and> (lr_addr (ls_rec l) = [] \<or> lr_until (ls_rec l) < t)))"

lemma discover_refusal:
  assumes "discover e l = (l', acts, addr)" "lr_addr (ls_rec l) = [] \<or> lr_until (ls_rec l) < t"
  shows "refused_holds_nothing t (l', addr)"
  using assms by (cases rule: discover_cases) (auto simp: lease_simps)

lemma acquire_fresh:
  assumes "acquire e s True l = (l', acts, addr)" and "refused_holds_nothing t (l, guest)" and "env_from t e"
  shows "refused_holds_nothing (le_end e) (l', addr) \<and> discovers_in_silence [] False acts"
proof -
  let ?l = "l\<lparr>ls_spec := s\<rparr>"
  have t: "t \<le> le_start e" "le_start e \<le> le_end e" using assms(3) by (simp_all add: env_from_def)
  have inv: "ls_why l = [] \<or> lr_addr (ls_rec l) = [] \<or> lr_until (ls_rec l) < le_start e"
    using assms(2) t by auto
  show ?thesis
  proof (cases "active ?l \<and> lr_addr (ls_rec l) \<noteq> [] \<and> \<not> lr_until (ls_rec l) < le_start e")
    case False
    then consider "\<not> active ?l" | "active ?l" "lr_addr (ls_rec l) = [] \<or> lr_until (ls_rec l) < le_start e" by blast
    then show ?thesis
    proof cases
      case 1
      then show ?thesis using assms(1) inv t by (auto simp: acquire_def Let_def)
    next
      case 2
      then have "discover e ?l = (l', acts, addr)" using assms(1) by (auto simp: acquire_def Let_def split: if_splits)
      then show ?thesis
        using 2 t discover_refusal [of e ?l l' acts addr "le_end e"] silence_discover [of e ?l l' acts addr] by auto
    qed
  next
    case True
    then have why: "ls_why l = []" using inv by auto
    obtain k acts1 res where k: "keep e (ls_rec l) ?l = (k, acts1, res)" by (cases "keep e (ls_rec l) ?l")
    note sil = silence_append_keep [OF k] silence_append_keep [OF k, where acts' = "[]", simplified]
    show ?thesis
      using k
    proof (cases rule: keep_cases)
      case (kept got)
      then have "ls_why k = []" using why by (simp add: lease_simps)
      then show ?thesis using kept(2) assms(1) True k sil by (simp add: acquire_def Let_def)
    next
      case lost
      then have "(case discover e k of (l'', acts', addr) \<Rightarrow> (l'', acts1 @ acts', addr)) = (l', acts, addr)"
        using assms(1) True k by (simp add: acquire_def Let_def)
      then obtain acts2 where d: "discover e k = (l', acts2, addr)" "acts = acts1 @ acts2" by (auto split: prod.splits)
      then show ?thesis
        using lost discover_refusal [OF d(1), of "le_end e"] silence_discover [OF d(1)] by (simp add: sil lease_simps)
    next
      case (silent err)
      show ?thesis
      proof (cases "moved e (ls_rec l) k")
        case False
        then have "l' = set_retry (le_mid e + lease_retry_silent) k \<and> acts = acts1"
          using silent assms(1) True k by (simp add: acquire_def Let_def)
        then show ?thesis using silent(1) why sil by (simp add: lease_simps)
      next
        case mv: True
        then have "(case discover e (store_lease e no_record k) of (l'', acts', addr) \<Rightarrow> (l'', acts1 @ acts', addr)) =
            (l', acts, addr)"
          using silent assms(1) True k by (simp add: acquire_def Let_def)
        then obtain acts2 where d: "discover e (store_lease e no_record k) = (l', acts2, addr)" "acts = acts1 @ acts2"
          by (auto split: prod.splits)
        then show ?thesis
          using discover_refusal [OF d(1), of "le_end e"] silence_discover [OF d(1)] by (simp add: sil lease_simps)
      qed
    qed
  qed
qed

lemma acquire_adopted:
  assumes "acquire e s False l = (l', acts, addr)" and "refused_holds_nothing t (l, guest)" and "env_from t e"
    and "guest = lr_addr (ls_rec l)"
  shows "refused_holds_nothing (le_end e) (l', addr) \<and> discovers_in_silence guest False acts"
proof -
  let ?l = "l\<lparr>ls_spec := s\<rparr>"
  have t: "t \<le> le_end e" using assms(3) by (simp add: env_from_def)
  consider "\<not> active ?l" | "active ?l" "guest \<noteq> []" | "active ?l" "guest = []" by blast
  then show ?thesis
  proof cases
    case 1
    then show ?thesis using assms t by (auto simp: acquire_def Let_def)
  next
    case 2
    then show ?thesis using assms by (auto simp: acquire_def Let_def lease_simps)
  next
    case 3
    then have d: "discover e ?l = (l', acts, addr)" using assms by (auto simp: acquire_def Let_def split: if_splits)
    then show ?thesis
      using 3 assms(4) discover_refusal [OF d, of "le_end e"] silence_discover [OF d] by simp
  qed
qed

lemma renew_rules:
  assumes "renew e l = (l', acts)" and "refused_holds_nothing t (l, guest)" and "env_from t e"
  shows "refused_holds_nothing (le_end e) (l', guest) \<and> discovers_in_silence guest False acts"
proof -
  have t: "t \<le> le_end e" using assms(3) by (simp add: env_from_def)
  consider "\<not> active l" | "active l" "ls_why l \<noteq> []" | "active l" "ls_why l = []" "lr_addr (ls_rec l) = []"
    | "active l" "ls_why l = []" "lr_addr (ls_rec l) \<noteq> []" by blast
  then show ?thesis
  proof cases
    case 1
    then show ?thesis using assms t by (auto simp: renew_def Let_def)
  next
    case 2
    then have g: "guest = []" and r: "lr_addr (ls_rec l) = [] \<or> lr_until (ls_rec l) < le_end e" using assms(2) t by auto
    obtain k addr where d: "discover e l = (k, acts, addr)" and l': "l' = (if addr \<noteq> [] then ask_relaunch k else k)"
      using assms(1) 2 by (auto simp: renew_def Let_def split: prod.splits)
    have "refused_holds_nothing (le_end e) (k, addr)" by (rule discover_refusal [OF d r])
    then show ?thesis using g l' silence_discover [OF d] by (auto simp: lease_simps)
  next
    case 3
    then show ?thesis using assms t by (auto simp: renew_def Let_def)
  next
    case 4
    obtain k acts1 res where k: "keep e (ls_rec l) l = (k, acts1, res)" by (cases "keep e (ls_rec l) l")
    note sil = silence_append_keep [OF k] silence_append_keep [OF k, where acts' = "[]", simplified]
    from k have "ls_why k = []" using 4 by (cases rule: keep_cases) (auto simp: lease_simps)
    then have "ls_why l' = [] \<and> (acts = acts1 \<or> (\<exists>l2 acts2. probe e k = (l2, acts2) \<and> acts = acts1 @ acts2))"
      using assms(1) 4 k probe_why [of e k] by (auto simp: renew_def Let_def lease_simps split: sum.splits if_splits prod.splits)
    then show ?thesis using silence_probe [of e k] by (auto simp: sil)
  qed
qed


lemma refused_later: "refused_holds_nothing t st \<Longrightarrow> t \<le> t' \<Longrightarrow> refused_holds_nothing t' st"
  by (cases st) auto

lemma tick_keeps: "ls_rec (fst (tick now carrier addrs reboots lane l)) = ls_rec l \<and>
   ls_why (fst (tick now carrier addrs reboots lane l)) = ls_why l \<and>
   ls_disk (fst (tick now carrier addrs reboots lane l)) = ls_disk l"
  by (simp add: tick_def watch_def ask_now_def Let_def set_retry_def)

lemma event_ends_later: "event_from t ev \<Longrightarrow> t \<le> event_ends t ev"
  by (cases ev) (auto simp: env_from_def)

lemma lease_step_rules:
  assumes "lease_step ev (l, guest) = (st', out)" and "refused_holds_nothing t (l, guest)" and "event_from t ev"
    and "adopts_what_is_recorded (l, guest) ev"
  shows "refused_holds_nothing (event_ends t ev) st' \<and> discovers_in_silence (held_during ev guest) False out"
proof (cases ev)
  case (FreshGuest s e)
  show ?thesis
  proof (cases "ls_named l")
    case True
    then show ?thesis using assms FreshGuest by (auto simp: env_from_def)
  next
    case False
    obtain l' addr where "acquire e s True l = (l', out, addr)" "st' = (l', addr)"
      using False assms(1) FreshGuest by (auto split: prod.splits)
    then show ?thesis using acquire_fresh assms FreshGuest by simp
  qed
next
  case (AdoptedGuest s e)
  show ?thesis
  proof (cases "ls_named l")
    case True
    then show ?thesis using assms AdoptedGuest by (auto simp: env_from_def)
  next
    case False
    obtain l' addr where "acquire e s False l = (l', out, addr)" "st' = (l', addr)"
      using False assms(1) AdoptedGuest by (auto split: prod.splits)
    then show ?thesis using acquire_adopted assms AdoptedGuest by simp
  qed
next
  case (Renewal e)
  then obtain l' where "renew e l = (l', out)" "st' = (l', guest)" using assms(1) by (auto split: prod.splits)
  then show ?thesis using renew_rules assms Renewal by simp
next
  case (Tick now carrier addrs reboots lane)
  then show ?thesis using assms tick_keeps [of now carrier addrs reboots lane l] by auto
next
  case (HouseholdSets named)
  then show ?thesis using assms by (auto simp: config_vip_def lease_simps)
next
  case AgentRestarts
  then show ?thesis using assms by (auto simp: new_leaser_def)
qed

lemma lease_run_rules:
  assumes "lease_run t st evs acts t' st'" and "refused_holds_nothing t st"
  shows "refused_holds_nothing t' st' \<and> (\<forall>(guest, out)\<in>set acts. discovers_in_silence guest False out)"
  using assms
proof (induction rule: lease_run.induct)
  case (run_event t st evs acts t1 l guest ev st' out)
  then show ?case using lease_step_rules [OF run_event.hyps(4)] by auto
qed simp

text \<open>
  C10: The host never looks for an address while its guest answers for one: in every history of bring-ups,
  renewals, ticks, settings of the household and restarts of the agent, with a clock that goes forward
  and whatever the router answers, a DISCOVER is broadcast only while the guest holds no address of
  ours or while its link is down for the probe, so no reply and no conflict check of a router ever meets
  the guest. What the code takes for granted is a hypothesis: a guest that is adopted holds the address
  that is recorded.\<close>
theorem discovers_only_in_silence:
  assumes "lease_run t (new_leaser named bridge node disk, guest) evs acts t' st"
  shows "\<forall>(held, out)\<in>set acts. discovers_in_silence held False out"
proof -
  have "refused_holds_nothing t (new_leaser named bridge node disk, guest)" by (simp add: new_leaser_def)
  then show ?thesis using lease_run_rules assms by blast
qed


section \<open>The record and the guest\<close>

text \<open>Whether every write of an event reaches the disk.\<close>

fun event_writes :: "lease_event \<Rightarrow> bool" where
  "event_writes (FreshGuest s e) = (\<forall>r. le_writes e r)"
| "event_writes (AdoptedGuest s e) = (\<forall>r. le_writes e r)"
| "event_writes (Renewal e) = (\<forall>r. le_writes e r)"
| "event_writes _ = True"

text \<open>What is in memory is what is on disk, and an empty address is not a record.\<close>

definition in_step :: "leaser \<Rightarrow> bool" where
  "in_step l = (ls_disk l = (if lr_addr (ls_rec l) = [] then None else Some (ls_rec l)))"

declare show_prefix_not_Nil [simp]

lemma store_in_step [simp]: "\<forall>r. le_writes e r \<Longrightarrow> in_step (store_lease e r l)"
  by (simp add: in_step_def store_lease_def)

lemma in_step_ops [simp]:
  "in_step (set_retry t l) = in_step l" "in_step (refuse t c l) = in_step l" "in_step (ask_relaunch l) = in_step l"
  "in_step (clear_refusal l) = in_step l" "in_step (l\<lparr>ls_spec := s\<rparr>) = in_step l"
  "in_step (l\<lparr>ls_probed := t\<rparr>) = in_step l"
  by (simp_all add: in_step_def set_retry_def refuse_def ask_relaunch_def clear_refusal_def)

lemma discover_in_step:
  assumes "discover e l = (l', acts, addr)" and "\<forall>r. le_writes e r" and "in_step l"
  shows "in_step l' \<and> (addr \<noteq> [] \<longrightarrow> addr = lr_addr (ls_rec l'))"
  using assms by (cases rule: discover_cases) (auto simp: lease_simps)

lemma keep_in_step:
  assumes "keep e r l = (l', acts, res)" and "\<forall>r. le_writes e r" and "in_step l" and "ls_rec l = r"
  shows "in_step l' \<and> (\<forall>addr. res = Inr addr \<longrightarrow> addr = lr_addr (ls_rec l')) \<and>
    (\<forall>err. res = Inl err \<longrightarrow> err \<noteq> Nak \<longrightarrow> ls_rec l' = r)"
  using assms by (cases rule: keep_cases) (auto simp: lease_simps)

lemma probe_in_step: "probe e l = (l', acts) \<Longrightarrow> \<forall>r. le_writes e r \<Longrightarrow> in_step l \<Longrightarrow> in_step l'"
  by (auto simp: probe_def Let_def split: sum.splits if_splits)

lemma acquire_in_step:
  assumes "acquire e s fresh l = (l', acts, addr)" and w: "\<forall>r. le_writes e r" and "in_step l"
  shows "in_step l' \<and> (addr \<noteq> [] \<longrightarrow> addr = lr_addr (ls_rec l'))"
proof -
  let ?l = "l\<lparr>ls_spec := s\<rparr>"
  have i: "in_step ?l" using assms(3) by simp
  obtain k acts1 res where k: "keep e (ls_rec l) ?l = (k, acts1, res)" by (cases "keep e (ls_rec l) ?l")
  note ks = keep_in_step [OF k w i, simplified]
  have d: "discover e m = (l', b, addr) \<Longrightarrow> in_step m \<Longrightarrow> ?thesis" for m b
    using discover_in_step [OF _ w] by blast
  consider "\<not> active ?l" | "active ?l" "lr_addr (ls_rec l) \<noteq> []" "\<not> fresh"
    | "active ?l" "lr_addr (ls_rec l) = [] \<or> (fresh \<and> lr_until (ls_rec l) < le_start e)"
    | "active ?l" "lr_addr (ls_rec l) \<noteq> []" "fresh" "\<not> lr_until (ls_rec l) < le_start e" by blast
  then show ?thesis
  proof cases
    case 3
    then have "discover e ?l = (l', acts, addr)" using assms(1) by (auto simp: acquire_def Let_def split: if_splits)
    then show ?thesis using d i by blast
  next
    case 4
    show ?thesis
    proof (cases res)
      case (Inr a)
      then show ?thesis using assms(1) 4 k ks by (auto simp: acquire_def Let_def)
    next
      case (Inl err)
      let ?m = "if err = Nak then k else store_lease e no_record k"
      consider (kept) "err \<noteq> Nak" "\<not> moved e (ls_rec l) k" | (asked) "err = Nak \<or> moved e (ls_rec l) k" by blast
      then show ?thesis
      proof cases
        case kept
        then show ?thesis using assms(1) 4 k ks Inl by (auto simp: acquire_def Let_def lease_simps)
      next
        case asked
        then have "(case discover e ?m of (l'', acts', addr) \<Rightarrow> (l'', acts1 @ acts', addr)) = (l', acts, addr)"
          using assms(1) 4 k Inl by (auto simp: acquire_def Let_def)
        then obtain b where "discover e ?m = (l', b, addr)" by (auto split: prod.splits)
        then show ?thesis using d ks w by auto
      qed
    qed
  qed (use assms in \<open>auto simp: acquire_def Let_def lease_simps\<close>)
qed

lemma renew_in_step:
  assumes "renew e l = (l', acts)" and w: "\<forall>r. le_writes e r" and i: "in_step l"
  shows "in_step l'"
proof -
  obtain k acts1 res where k: "keep e (ls_rec l) l = (k, acts1, res)" by (cases "keep e (ls_rec l) l")
  have ks: "in_step k" using keep_in_step [OF k w i] by simp
  obtain d acts2 addr where d: "discover e l = (d, acts2, addr)" by (cases "discover e l")
  have ds: "in_step d" using discover_in_step [OF d w i] by simp
  show ?thesis
    using assms(1) k ks d ds i w probe_in_step [of e k]
    by (auto simp: renew_def Let_def split: sum.splits if_splits prod.splits)
qed


lemma step_in_step:
  assumes "lease_step ev (l, guest) = ((l', guest'), out)" and i: "in_step l" and w: "event_writes ev"
  shows "in_step l'"
proof (cases ev)
  case (FreshGuest s e)
  then show ?thesis using assms acquire_in_step [of e s True l] by (auto split: prod.splits if_splits)
next
  case (AdoptedGuest s e)
  then show ?thesis using assms acquire_in_step [of e s False l] by (auto split: prod.splits if_splits)
next
  case (Renewal e)
  then show ?thesis using assms renew_in_step [of e l] by (auto split: prod.splits)
next
  case (Tick now carrier addrs reboots lane)
  then show ?thesis using assms tick_keeps [of now carrier addrs reboots lane l] by (auto simp: in_step_def)
next
  case (HouseholdSets named)
  then show ?thesis using assms by (auto simp: in_step_def config_vip_def clear_refusal_def)
next
  case AgentRestarts
  then show ?thesis using assms by (auto simp: in_step_def new_leaser_def no_record_def split: if_splits)
qed

text \<open>Events of any kind, one after the other, on whatever clock.\<close>

definition lease_after :: "leaser \<times> string \<Rightarrow> lease_event list \<Rightarrow> leaser \<times> string" where
  "lease_after = foldl (\<lambda>st ev. fst (lease_step ev st))"

lemma lease_after_in_step:
  "lease_after st evs = (l', guest') \<Longrightarrow> in_step (fst st) \<Longrightarrow> \<forall>ev\<in>set evs. event_writes ev \<Longrightarrow> in_step l'"
proof (induction evs arbitrary: st)
  case (Cons ev evs)
  obtain l guest l1 guest1 out where st: "st = (l, guest)" "lease_step ev (l, guest) = ((l1, guest1), out)"
    by (metis prod.exhaust)
  then have "in_step l1" using step_in_step Cons.prems by simp
  then show ?case using Cons.IH [of "(l1, guest1)"] Cons.prems st by (simp add: lease_after_def)
qed (simp add: lease_after_def)

text \<open>No operation on the lease changes what the node is configured to do.\<close>

definition lease_config :: "leaser \<Rightarrow> bool \<times> bool \<times> string" where
  "lease_config l = (ls_named l, ls_host_leases_bridge l, ls_node l)"

lemma small_config [simp]:
  "lease_config (store_lease e r l) = lease_config l" "lease_config (set_retry t l) = lease_config l"
  "lease_config (refuse t c l) = lease_config l" "lease_config (ask_relaunch l) = lease_config l"
  "lease_config (clear_refusal l) = lease_config l" "lease_config (l\<lparr>ls_spec := s\<rparr>) = lease_config l"
  by (simp_all add: lease_config_def store_lease_def set_retry_def refuse_def ask_relaunch_def clear_refusal_def)

lemma discover_config: "discover e l = (l', acts, addr) \<Longrightarrow> lease_config l' = lease_config l"
  by (cases rule: discover_cases) auto

lemma keep_config: "keep e r l = (l', acts, res) \<Longrightarrow> lease_config l' = lease_config l"
  by (cases rule: keep_cases) auto

lemma acquire_config:
  assumes "acquire e s fresh l = (l', acts, addr)"
  shows "lease_config l' = lease_config l"
proof -
  obtain k acts1 res where k: "keep e (ls_rec l) (l\<lparr>ls_spec := s\<rparr>) = (k, acts1, res)"
    by (cases "keep e (ls_rec l) (l\<lparr>ls_spec := s\<rparr>)")
  show ?thesis
    using assms k keep_config [OF k] discover_config [of e]
    by (fastforce simp: acquire_def Let_def split: sum.splits if_splits prod.splits)
qed

lemma acquire_asks_when_active: "acquire e s fresh l = (l', acts, addr) \<Longrightarrow> addr \<noteq> [] \<Longrightarrow> active (l\<lparr>ls_spec := s\<rparr>)"
  by (auto simp: acquire_def Let_def split: if_splits)

lemma active_config: "lease_config l = lease_config l' \<Longrightarrow> ls_spec l = ls_spec l' \<Longrightarrow> active l = active l'"
  by (simp add: lease_config_def active_def)

text \<open>
  C16: The address a guest is given survives a restart of the agent. After any events, in any order and on any
  clock, a bring-up hands a fresh guest an address. When every write so far has reached the disk, that of this bring-up
  included, the address is on disk by then. And when it is there, however the writes before ended, an agent that
  restarts right then, however long the router stays away, adopts the guest with that same address and
  sends nothing to get it.\<close>
theorem given_address_survives_a_restart:
  assumes "lease_after (new_leaser named bridge node disk, g) evs = (l, g')"
    and "\<forall>r. disk = Some r \<longrightarrow> lr_addr r \<noteq> []"
    and "lease_step (FreshGuest s e) (l, g') = ((l1, addr), out)" and "addr \<noteq> []"
  shows "((\<forall>ev\<in>set (evs @ [FreshGuest s e]). event_writes ev) \<longrightarrow> map_option lr_addr (ls_disk l1) = Some addr) \<and>
    (map_option lr_addr (ls_disk l1) = Some addr \<longrightarrow>
      (\<exists>l2 l3. lease_step AgentRestarts (l1, addr) = ((l2, addr), []) \<and>
        lease_step (AdoptedGuest s e') (l2, addr) = ((l3, addr), []) \<and> due (le_start e') l3 = le_start e'))"
proof (intro conjI impI)
  have n: "\<not> ls_named l" and a: "acquire e s True l = (l1, out, addr)"
    using assms(3,4) by (auto split: if_splits prod.splits)
  {
    assume w: "\<forall>ev\<in>set (evs @ [FreshGuest s e]). event_writes ev"
    have "in_step (new_leaser named bridge node disk)"
      using assms(2) by (auto simp: in_step_def new_leaser_def no_record_def split: option.splits)
    then have "in_step l" using lease_after_in_step [OF assms(1)] w by simp
    then have "in_step l1" "addr = lr_addr (ls_rec l1)" using acquire_in_step [OF a] w assms(4) by auto
    then show "map_option lr_addr (ls_disk l1) = Some addr" using assms(4) by (simp add: in_step_def)
  }
  assume "map_option lr_addr (ls_disk l1) = Some addr"
  then obtain r where d: "ls_disk l1 = Some r" "lr_addr r = addr" by auto
  have c: "lease_config l1 = lease_config l" by (rule acquire_config [OF a])
  define l2 where "l2 = new_leaser (ls_named l1) (ls_host_leases_bridge l1) (ls_node l1) (ls_disk l1)"
  have l2: "ls_rec l2 = r" "lease_config l2 = lease_config l"
    using c by (simp_all add: l2_def new_leaser_def d lease_config_def)
  then have act: "active (l2\<lparr>ls_spec := s\<rparr>)"
    using acquire_asks_when_active [OF a assms(4)] active_config [of "l2\<lparr>ls_spec := s\<rparr>" "l\<lparr>ls_spec := s\<rparr>"] by simp
  then have "acquire e' s False l2 = (set_retry (le_start e') (l2\<lparr>ls_spec := s\<rparr>), [], addr)"
    using d(2) l2(1) assms(4) by (simp add: acquire_def Let_def)
  moreover have "\<not> ls_named l2" using l2(2) n by (simp add: lease_config_def)
  ultimately show "\<exists>l2 l3. lease_step AgentRestarts (l1, addr) = ((l2, addr), []) \<and>
        lease_step (AdoptedGuest s e') (l2, addr) = ((l3, addr), []) \<and> due (le_start e') l3 = le_start e'"
    by (intro exI [of _ l2] exI [of _ "set_retry (le_start e') (l2\<lparr>ls_spec := s\<rparr>)"])
      (simp add: l2_def lease_simps due_def)
qed


section \<open>What is never asked, and how often\<close>

lemma probe_acts:
  "probe e l = (l', acts) \<Longrightarrow> SentRequest a \<in> set acts \<Longrightarrow> Some a = hint l"
  by (auto simp: probe_def Let_def split: sum.splits if_splits)

lemma request_in_discover:
  "discover e l = (l', acts, addr) \<Longrightarrow> SentRequest a \<in> set acts \<Longrightarrow> show_addr a \<notin> set (le_host e (parent l))"
  using discover_acts by fastforce

lemma keep_sends_no_request: "keep e r l = (l', acts, res) \<Longrightarrow> SentRequest a \<notin> set acts"
  using keep_acts by fastforce

lemma keep_parent: "keep e r l = (l', acts, res) \<Longrightarrow> ls_spec l' = ls_spec l"
  by (cases rule: keep_cases) (auto simp: store_lease_def)

lemma acquire_requests:
  assumes "acquire e s fresh l = (l', acts, addr)" and "SentRequest a \<in> set acts"
  shows "\<exists>m b. discover e m = (l', b, addr) \<and> SentRequest a \<in> set b \<and> ls_spec m = s"
proof -
  let ?l = "l\<lparr>ls_spec := s\<rparr>"
  obtain k acts1 res where k: "keep e (ls_rec l) ?l = (k, acts1, res)" by (cases "keep e (ls_rec l) ?l")
  have spec: "ls_spec k = s" "ls_spec (store_lease e no_record k) = s"
    using keep_parent [OF k] by (simp_all add: store_lease_def)
  have "set acts \<subseteq> set acts1 \<or> discover e ?l = (l', acts, addr) \<or>
      (\<exists>m\<in>{k, store_lease e no_record k}. \<exists>b. discover e m = (l', b, addr) \<and> acts = acts1 @ b)"
    using assms(1) k by (auto simp: acquire_def Let_def split: sum.splits if_splits prod.splits)
  then show ?thesis
    using assms(2) keep_sends_no_request [OF k, of a] spec by fastforce
qed

lemma renew_requests:
  assumes "renew e l = (l', acts)" and "SentRequest a \<in> set acts"
  shows "(\<exists>b addr m. discover e l = (m, b, addr) \<and> SentRequest a \<in> set b) \<or> Some a = hint l"
proof -
  obtain k acts1 res where k: "keep e (ls_rec l) l = (k, acts1, res)" by (cases "keep e (ls_rec l) l")
  have n: "SentRequest a \<notin> set acts1" by (rule keep_sends_no_request [OF k])
  have h: "res = Inl err \<Longrightarrow> err \<noteq> Nak \<Longrightarrow> k = l" for err using k by (cases rule: keep_cases) auto
  show ?thesis
    using assms k n h probe_acts [of e l l'] 
    by (auto simp: renew_def Let_def split: sum.splits if_splits prod.splits)
qed

text \<open>
  The address of the machine itself is never asked for: whatever the router offers, in a bring-up or
  in a renewal, every REQUEST is for an address that is not one of the host's own, or, in the probe of a
  silent router, for the very address that is already on the record.\<close>
lemma own_address_is_never_requested:
  "(\<forall>a. SentRequest a \<in> set (fst (snd (acquire e s fresh l))) \<longrightarrow> show_addr a \<notin> set (le_host e (ns_parent s))) \<and>
   (\<forall>a. SentRequest a \<in> set (snd (renew e l)) \<longrightarrow>
      show_addr a \<notin> set (le_host e (parent l)) \<or> Some a = hint l)"
proof (intro conjI allI impI)
  fix a assume "SentRequest a \<in> set (fst (snd (acquire e s fresh l)))"
  moreover obtain l' acts addr where "acquire e s fresh l = (l', acts, addr)" by (cases "acquire e s fresh l")
  ultimately show "show_addr a \<notin> set (le_host e (ns_parent s))"
    using acquire_requests request_in_discover by (fastforce simp: parent_def)
next
  fix a assume "SentRequest a \<in> set (snd (renew e l))"
  moreover obtain l' acts where "renew e l = (l', acts)" by (cases "renew e l")
  ultimately show "show_addr a \<notin> set (le_host e (parent l)) \<or> Some a = hint l"
    using renew_requests request_in_discover by fastforce
qed

lemma due_simps [simp]:
  "due t (set_retry u l) = u" "due t (refuse u c l) = u + lease_retry_refused" "due t (ask_relaunch l) = due t l"
  "due t (store_lease e no_record l) = t + lease_retry_refused"
  "due t (store_lease e (record_lease u got) l) = u + max (dl_t1 got) lease_min_renew"
  "due t (clear_refusal l) = due t l" "due t (l\<lparr>ls_probed := p\<rparr>) = due t l"
  by (auto simp: due_def lease_simps split: option.split)

lemma probe_due:
  assumes "probe e l = (l', acts)" and "le_mid e \<le> le_end e"
  shows "le_mid e + lease_min_renew \<le> due (le_end e) l'"
  using assms
  by (auto simp: probe_def Let_def lease_min_renew_def lease_retry_silent_def lease_retry_refused_def time_simps
      split: sum.splits if_splits)

text \<open>
  The household's router is asked at a measured pace: a renewal that sent anything, while the agent
  is not being stopped, leaves the next one due at least thirty seconds after the answer came, and two
  minutes after where the node is refused.\<close>
lemma renewals_are_paced:
  assumes "renew e l = (l', acts)" and "acts \<noteq> []" and "env_from t e" and "\<not> le_over e"
  shows "le_mid e + lease_min_renew \<le> due (le_end e) l' \<and>
    (refused l' \<longrightarrow> due (le_end e) l' = le_end e + lease_retry_refused)"
proof -
  have m: "le_mid e \<le> le_end e" using assms(3) by (simp add: env_from_def)
  have a: "active l" using assms(1,2) by (auto simp: renew_def Let_def split: if_splits)
  show ?thesis
  proof (cases "ls_why l = []")
    case False
    obtain k addr where d: "discover e l = (k, acts, addr)" and l': "l' = (if addr \<noteq> [] then ask_relaunch k else k)"
      using assms(1) a False by (auto simp: renew_def Let_def split: prod.splits)
    from d show ?thesis
      by (cases rule: discover_cases)
        (use l' m assms(4) in \<open>auto simp: refused_def lease_simps lease_min_renew_def lease_retry_refused_def time_simps\<close>)
  next
    case True
    obtain k acts1 res where k: "keep e (ls_rec l) l = (k, acts1, res)" by (cases "keep e (ls_rec l) l")
    from k have kd: "ls_why k = [] \<and> (\<forall>x. res = Inr x \<longrightarrow> le_mid e + lease_min_renew \<le> due (le_end e) k) \<and>
        (res = Inl Nak \<longrightarrow> le_mid e + lease_min_renew \<le> due (le_end e) k)"
      by (cases rule: keep_cases)
        (use True m in \<open>auto simp: lease_simps lease_min_renew_def lease_retry_refused_def time_simps\<close>)
    have "ls_why l' = [] \<and> le_mid e + lease_min_renew \<le> due (le_end e) l'"
      using assms(1,2) a True k kd m probe_why [of e k] probe_due [of e k]
      by (auto simp: renew_def Let_def lease_simps lease_min_renew_def lease_retry_silent_def
          lease_retry_refused_def time_simps split: sum.splits if_splits prod.splits)
    then show ?thesis by (simp add: refused_def)
  qed
qed



section \<open>What a restart of the agent forgets\<close>

text \<open>
  The refusal lives in memory. A node refused with an expired record, whose guest was given no address,
  forgets it when its agent restarts: the guest that runs on is adopted, and the expired address is
  pushed to it without a question to the router, against the comment of \<open>acquire\<close>.\<close>

lemma restart_pushes_expired_address:
  assumes "lr_addr r \<noteq> []" and "lr_until r < le_start e" and "single_anchor bridge s"
    and "\<forall>h. le_discover e h = Inl NoAnswer" and "\<not> le_over e"
  shows "\<exists>l1 l2 l3 acts. lease_step (FreshGuest s e) (new_leaser False bridge node (Some r), []) = ((l1, []), acts) \<and>
    refused l1 \<and> lease_step AgentRestarts (l1, []) = ((l2, []), []) \<and>
    lease_step (AdoptedGuest s e') (l2, []) = ((l3, lr_addr r), [])"
  using assms
  by (simp add: new_leaser_def acquire_def discover_def Let_def active_def refused_def refuse_def
      nothing_answered_def)

text \<open>
  So does the relaunch that a lost lease asks for: a NAK empties the record, and an agent that restarts
  before the guest was stopped adopts it and broadcasts a DISCOVER while it still answers for the old
  address, against rule 2.\<close>

lemma restart_after_nak_breaks_the_rule:
  assumes "active l" and "ls_why l = []" and "guest = lr_addr (ls_rec l)" and "parse_prefix guest \<noteq> None"
    and "\<forall>a. le_reboot e a = Inl Nak" and "\<forall>r. le_writes e r" and "ls_spec l = s"
  shows "\<exists>l1 l2 st out. lease_step (Renewal e) (l, guest) = ((l1, guest), out) \<and> ls_relaunch l1 \<and>
    lease_step AgentRestarts (l1, guest) = ((l2, guest), []) \<and>
    (\<exists>out'. lease_step (AdoptedGuest s e') (l2, guest) = (st, out') \<and> \<not> discovers_in_silence guest False out')"
proof -
  have ne: "guest \<noteq> []" using assms(4) by (auto simp: parse_prefix_def cut_def)
  define k where "k = store_lease e no_record l"
  have "\<exists>w. keep e (ls_rec l) l = (k, [SentReboot w], Inl Nak)"
    using assms(3-6) by (auto simp: keep_def k_def split: option.split)
  then obtain w where "renew e l = (ask_relaunch k, [SentReboot w])"
    using assms ne by (auto simp: renew_def Let_def)
  moreover define l2 where "l2 = new_leaser (ls_named l) (ls_host_leases_bridge l) (ls_node l) None"
  have "new_leaser (ls_named (ask_relaunch k)) (ls_host_leases_bridge (ask_relaunch k)) (ls_node (ask_relaunch k))
      (ls_disk (ask_relaunch k)) = l2"
    using assms(6) by (simp add: l2_def k_def ask_relaunch_def store_lease_def no_record_def)
  moreover have n: "\<not> ls_named l2" "active (l2\<lparr>ls_spec := s\<rparr>)" "lr_addr (ls_rec l2) = []"
    using assms(1,7) by (auto simp: l2_def new_leaser_def active_def no_record_def)
  moreover obtain l3 acts addr where d: "discover e' (l2\<lparr>ls_spec := s\<rparr>) = (l3, acts, addr)" by (cases "discover e' (l2\<lparr>ls_spec := s\<rparr>)")
  moreover have "acquire e' s False l2 = (l3, acts, addr)" using n d by (simp add: acquire_def Let_def)
  moreover have "\<not> discovers_in_silence guest False acts" using discover_acts [OF d] ne by auto
  ultimately show ?thesis by (simp add: ask_relaunch_def)
qed

text \<open>An offer is judged, the lease that follows it is not: the address acknowledged is the one pushed.\<close>

lemma acknowledged_address_is_not_judged:
  assumes "le_discover e (hint l) = Inr offer" and "show_addr (pf_addr (dl_addr offer)) \<notin> set (le_host e (parent l))"
    and "le_request e offer = Inr ack"
  shows "snd (snd (discover e l)) = show_prefix (dl_addr ack)"
  using assms by (simp add: discover_def Let_def)


section \<open>The refusal's alert\<close>

text \<open>A tick raises the alert exactly when the refusal begins and takes it back exactly when it ends.\<close>

lemma tick_alerts:
  "fst (snd (tick now carrier addrs reboots lane l)) =
     (if refused l = ls_alerted l then [] else if refused l then [address_open] else [address_resolved]) \<and>
   ls_alerted (fst (tick now carrier addrs reboots lane l)) = refused l \<and>
   refused (fst (tick now carrier addrs reboots lane l)) = refused l"
proof -
  have w: "refused (watch now carrier addrs l) = refused l" "ls_alerted (watch now carrier addrs l) = ls_alerted l"
    by (simp_all add: watch_def ask_now_def Let_def set_retry_def refused_def active_def)
  have r: "refused (m\<lparr>ls_alerted := x\<rparr>) = refused m" "refused (m\<lparr>ls_relaunch := x\<rparr>) = refused m" for m x
    by (simp_all add: refused_def active_def)
  show ?thesis by (auto simp: tick_def Let_def w r)
qed

text \<open>The link given back by a probe is never up while the member of a bridge is down or gone.\<close>

lemma link_back_follows_the_member: "uplink p = (m, True) \<Longrightarrow> link_back p uplink up \<longleftrightarrow> m \<noteq> [] \<and> up m"
  by (simp add: link_back_def)


section \<open>Examples\<close>

definition example_spec :: nic_spec where
  "example_spec = \<lparr>ns_parent = ''wlan0'', ns_ipvtap = True, ns_bridge = False\<rparr>"

text \<open>A router that leases when asked and is silent otherwise, or is silent altogether.\<close>

definition example_env :: "time \<Rightarrow> bool \<Rightarrow> lease_env" where
  "example_env t answers =
     \<lparr>le_start = t, le_mid = t + second, le_end = t + 2 * second,
      le_discover = (\<lambda>h. if answers then Inr example_lease else Inl NoAnswer),
      le_request = (\<lambda>l. Inr l), le_reboot = (\<lambda>a. Inl NoAnswer), le_over = False,
      le_host = (\<lambda>d. [''192.168.7.50'']), le_lan = (\<lambda>d. [''192.168.7.50'']), le_gateway = (\<lambda>d. True),
      le_quiet_on = True, le_quiet_off = True, le_writes = (\<lambda>r. True), le_text = (\<lambda>e. ''no answer'')\<rparr>"

abbreviation example_leaser :: leaser where
  "example_leaser \<equiv> new_leaser False False ''192.168.49.2'' None"

lemma example_refused:
  "\<exists>l. lease_step (FreshGuest example_spec (example_env 0 False)) (example_leaser, g) = ((l, []), [SentDiscover None]) \<and>
    ls_why l \<noteq> [] \<and> active l \<and> hint l = None \<and> ls_rec l = no_record \<and> parent l = ''wlan0''"
  by (simp add: acquire_def Let_def new_leaser_def no_record_def active_def single_anchor_def example_spec_def
      discover_def example_env_def hint_def parse_prefix_def cut_def refuse_def nothing_answered_def parent_def)

lemma show_example_lease:
  "show_addr (pf_addr (dl_addr example_lease)) = ''192.168.7.20''" "show_prefix (dl_addr example_lease) = ''192.168.7.20/24''"
  using show_addr4 [of 192 168 7 20] by (simp_all add: example_lease_def mk_prefix_def show_prefix_def dotted_def dec_of_nat.simps digit_char_def char_of_def bit_Suc_0_iff)

lemma example_leased:
  "\<exists>l. lease_step (FreshGuest example_spec (example_env 0 True)) (example_leaser, g) =
      ((l, ''192.168.7.20/24''), [SentDiscover None, SentRequest (pf_addr (dl_addr example_lease))])"
  by (simp add: acquire_def Let_def new_leaser_def no_record_def active_def single_anchor_def example_spec_def
      discover_def example_env_def hint_def parse_prefix_def cut_def show_example_lease)

lemma example_env_from: "t \<le> u \<Longrightarrow> env_from t (example_env u b)"
  by (simp add: env_from_def example_env_def time_simps)


lemma example_renewed:
  assumes "ls_why l \<noteq> []" "active l" "hint l = None" "parent l = ''wlan0''"
  shows "\<exists>l'. renew (example_env 10 True) l = (l', [SentDiscover None, SentRequest (pf_addr (dl_addr example_lease))])"
  using assms
  by (simp add: renew_def discover_def Let_def example_env_def show_example_lease)

theorem discovers_only_in_silence_witness:
  "discovers_in_silence [] False [SentDiscover None] \<and>
   discovers_in_silence [] False [SentDiscover None, SentRequest (pf_addr (dl_addr example_lease))]"
proof -
  let ?f = "FreshGuest example_spec (example_env 0 False)" and ?r = "Renewal (example_env (2 * second) True)"
  obtain l where l: "lease_step ?f (example_leaser, []) = ((l, []), [SentDiscover None])"
    "ls_why l \<noteq> []" "active l" "hint l = None" "parent l = ''wlan0''"
    using example_refused [of "[]"] by blast
  obtain l' where r: "renew (example_env (2 * second) True) l =
      (l', [SentDiscover None, SentRequest (pf_addr (dl_addr example_lease))])"
    using l(2-5) by (simp add: renew_def discover_def Let_def example_env_def show_example_lease)
  have "lease_run 0 (example_leaser, []) ([] @ [?f]) ([] @ [(held_during ?f [], [SentDiscover None])])
      (event_ends 0 ?f) (l, [])"
    by (rule run_event [OF run_start _ _ l(1)]) (simp_all add: example_env_from)
  then have "lease_run 0 (example_leaser, []) (([] @ [?f]) @ [?r])
      (([] @ [(held_during ?f [], [SentDiscover None])]) @
       [(held_during ?r [], [SentDiscover None, SentRequest (pf_addr (dl_addr example_lease))])])
      (event_ends (event_ends 0 ?f) ?r) (l', [])"
    by (rule run_event) (simp_all add: r example_env_from [of "2 * second", simplified] example_env_def [of 0])
  from discovers_only_in_silence [OF this] show ?thesis by simp
qed

theorem given_address_survives_a_restart_witness:
  "\<exists>l1 l2 l3. lease_step AgentRestarts (l1, ''192.168.7.20/24'') = ((l2, ''192.168.7.20/24''), []) \<and>
    lease_step (AdoptedGuest example_spec (example_env 90 False)) (l2, ''192.168.7.20/24'') =
      ((l3, ''192.168.7.20/24''), []) \<and> due 90 l3 = 90"
proof -
  obtain l1 where l: "lease_step (FreshGuest example_spec (example_env 0 True)) (example_leaser, []) =
      ((l1, ''192.168.7.20/24''), [SentDiscover None, SentRequest (pf_addr (dl_addr example_lease))])"
    using example_leased by blast
  have t: "le_start (example_env 90 False) = 90" by (simp add: example_env_def)
  have none: "lease_after (example_leaser, []) [] = (example_leaser, [])" by (simp add: lease_after_def)
  have given: "((\<forall>ev\<in>set ([] @ [FreshGuest example_spec (example_env 0 True)]). event_writes ev) \<longrightarrow>
       map_option lr_addr (ls_disk l1) = Some ''192.168.7.20/24'') \<and>
     (map_option lr_addr (ls_disk l1) = Some ''192.168.7.20/24'' \<longrightarrow>
      (\<exists>l2 l3. lease_step AgentRestarts (l1, ''192.168.7.20/24'') = ((l2, ''192.168.7.20/24''), []) \<and>
        lease_step (AdoptedGuest example_spec (example_env 90 False)) (l2, ''192.168.7.20/24'') = ((l3, ''192.168.7.20/24''), []) \<and>
        due (le_start (example_env 90 False)) l3 = le_start (example_env 90 False)))"
    by (rule given_address_survives_a_restart [OF none _ l]) simp_all
  have "\<forall>ev\<in>set ([] @ [FreshGuest example_spec (example_env 0 True)]). event_writes ev" by (simp add: example_env_def)
  then have "\<exists>l2 l3. lease_step AgentRestarts (l1, ''192.168.7.20/24'') = ((l2, ''192.168.7.20/24''), []) \<and>
    lease_step (AdoptedGuest example_spec (example_env 90 False)) (l2, ''192.168.7.20/24'') =
      ((l3, ''192.168.7.20/24''), []) \<and> due (le_start (example_env 90 False)) l3 = le_start (example_env 90 False)"
    using given by blast
  then show ?thesis unfolding t by blast
qed

end
