(* ===== verification/Stamp.thy ===== *)
theory Stamp
  imports Prelude
begin

text \<open>
  The second-precision UTC time stamps that name the members of an app's history
  (\<open>snapshotStamp\<close> in \<open>agent/quadlet/render.go\<close>): Go's \<open>Time.Format\<close> and \<open>time.Parse\<close> for the layout
  \<open>20060102T150405Z\<close>, over the proleptic Gregorian calendar, and their round trip.

  A day is numbered from the first of January of the year 0; Go's zero time is the first of January of the year 1.
\<close>


section \<open>The calendar\<close>

definition leap :: "int \<Rightarrow> bool" where
  "leap y = (4 dvd y \<and> (\<not> 100 dvd y \<or> 400 dvd y))"

definition days_before :: "int \<Rightarrow> int" where
  "days_before y = 365 * y + (y + 3) div 4 - (y + 99) div 100 + (y + 399) div 400"

definition year_days :: "int \<Rightarrow> int" where
  "year_days y = (if leap y then 366 else 365)"

definition month_days :: "int \<Rightarrow> int list" where
  "month_days y = [31, if leap y then 29 else 28, 31, 30, 31, 30, 31, 31, 30, 31, 30, 31]"

definition zero_day :: int where
  "zero_day = 366"

text \<open>The year a day is in, found from the mean length of a year and corrected by one.\<close>

definition year_of :: "int \<Rightarrow> int" where
  "year_of n =
     (let y = (400 * n) div 146097
      in if days_before (y + 1) \<le> n then y + 1 else if n < days_before y then y - 1 else y)"

fun month_split :: "int list \<Rightarrow> int \<Rightarrow> nat \<times> int" where
  "month_split [] k = (0, k)"
| "month_split (d # ds) k =
     (if k < d then (0, k) else (case month_split ds (k - d) of (m, r) \<Rightarrow> (Suc m, r)))"

text \<open>A day as year, month and day of the month, and its number.\<close>

definition civil_of_day :: "int \<Rightarrow> int \<times> nat \<times> int" where
  "civil_of_day n =
     (let y = year_of n in (case month_split (month_days y) (n - days_before y) of (m, r) \<Rightarrow> (y, m + 1, r + 1)))"

definition day_of_civil :: "int \<Rightarrow> nat \<Rightarrow> int \<Rightarrow> int" where
  "day_of_civil y m d = days_before y + sum_list (take (m - 1) (month_days y)) + (d - 1)"

lemma div_within:
  assumes "0 < (k :: int)"
  shows "k * (x div k) \<le> x \<and> x < k * (x div k) + k"
  using mult_div_mod_eq [of k x] pos_mod_bound [OF assms, of x] pos_mod_sign [OF assms, of x] by linarith

lemma div_next:
  assumes "0 < (k :: int)"
  shows "(y + k) div k = (y + (k - 1)) div k + (if k dvd y then 1 else 0)"
proof (cases "k dvd y")
  case True
  then obtain q where q: "y = k * q" by blast
  have "(k * q + (k - 1)) div k = q + (k - 1) div k" by (rule div_mult_self4) (use assms in simp)
  moreover have "(k - 1) div k = 0" using assms by (simp add: div_pos_pos_trivial)
  ultimately show ?thesis using assms q by simp
next
  case False
  have "0 < y mod k" using False assms pos_mod_sign [OF assms, of y] by (simp add: dvd_eq_mod_eq_0 order_less_le)
  then have r: "0 \<le> y mod k - 1" "y mod k - 1 < k" using pos_mod_bound [OF assms, of y] by simp_all
  have "y + (k - 1) = (y mod k - 1) + (y div k + 1) * k"
    using mult_div_mod_eq [of k y] by (simp add: algebra_simps)
  then have "(y + (k - 1)) div k = (y mod k - 1 + (y div k + 1) * k) div k" by (rule arg_cong)
  also have "\<dots> = y div k + 1 + (y mod k - 1) div k" by (rule div_mult_self1) (use assms in simp)
  also have "\<dots> = y div k + 1" using div_pos_pos_trivial [OF r] by simp
  finally have "(y + (k - 1)) div k = y div k + 1" .
  moreover have "(y + k) div k = y div k + 1" by (rule div_add_self2) (use assms in simp)
  ultimately show ?thesis using False by simp
qed

lemma leap_count:
  "(C \<longrightarrow> B) \<Longrightarrow> (B \<longrightarrow> A) \<Longrightarrow> (if A \<and> (\<not> B \<or> C) then 366 else 365) =
     365 + ((if A then 1 else 0) - (if B then 1 else 0) + (if C then 1 else (0 :: int)))"
  by (cases A; cases B; cases C; simp)

lemma days_before_Suc: "days_before (y + 1) = days_before y + year_days y"
proof -
  have s: "y + 1 + 3 = y + 4" "y + 1 + 99 = y + 100" "y + 1 + 399 = y + 400" by simp_all
  obtain p q r where n: "(y + 4) div 4 = (y + 3) div 4 + p" "(y + 100) div 100 = (y + 99) div 100 + q"
      "(y + 400) div 400 = (y + 399) div 400 + r"
    and v: "p = (if 4 dvd y then 1 else 0)" "q = (if 100 dvd y then 1 else 0)" "r = (if 400 dvd y then 1 else 0)"
    using div_next [of 4 y] div_next [of 100 y] div_next [of 400 y] by simp
  have q: "4 dvd (100 :: int)" "100 dvd (400 :: int)" by simp_all
  have "100 dvd y \<Longrightarrow> 4 dvd y" "400 dvd y \<Longrightarrow> 100 dvd y"
    by (erule dvd_trans [OF q(1)], erule dvd_trans [OF q(2)])
  then have d: "year_days y = 365 + (p - q + r)" unfolding year_days_def leap_def v by (intro leap_count) blast+
  have "365 * (y + 1) + (a + p) - (b + q) + (c + r) = 365 * y + a - b + c + (365 + (p - q + r))" for a b c
    by simp
  then show ?thesis unfolding days_before_def s n d by blast
qed

text \<open>The day numbers, with the three roundings as variables of their own.\<close>

lemma days_before_obtain:
  obtains a b c where "days_before y = 365 * y + a - b + c" "4 * a \<le> y + 3" "y + 3 < 4 * a + 4"
    "100 * b \<le> y + 99" "y + 99 < 100 * b + 100" "400 * c \<le> y + 399" "y + 399 < 400 * c + 400"
proof (rule that [of "(y + 3) div 4" "(y + 99) div 100" "(y + 399) div 400"])
  show "days_before y = 365 * y + (y + 3) div 4 - (y + 99) div 100 + (y + 399) div 400" by (rule days_before_def)
qed (use div_within [of 4 "y + 3"] div_within [of 100 "y + 99"] div_within [of 400 "y + 399"] in \<open>simp_all only: zero_less_numeral\<close>)

lemma days_before_mean:
  "146097 * y - 396 \<le> 400 * days_before y" "400 * days_before y \<le> 146097 * y + 699"
proof -
  obtain a b c where e: "days_before y = 365 * y + a - b + c" "4 * a \<le> y + 3" "y + 3 < 4 * a + 4"
    "100 * b \<le> y + 99" "y + 99 < 100 * b + 100" "400 * c \<le> y + 399" "y + 399 < 400 * c + 400"
    by (rule days_before_obtain)
  show "146097 * y - 396 \<le> 400 * days_before y" using e by linarith
  show "400 * days_before y \<le> 146097 * y + 699" using e by linarith
qed

lemma days_before_mono:
  assumes "y \<le> z"
  shows "days_before y \<le> days_before z"
proof (cases "y = z")
  case False
  then have "400 * days_before y \<le> 400 * days_before z"
    using assms days_before_mean(2) [of y] days_before_mean(1) [of z] by linarith
  then show ?thesis by simp
qed simp

lemma mean_year_obtain:
  obtains z where "(400 * n) div 146097 = z" "146097 * z \<le> 400 * n" "400 * n < 146097 * z + (146097 :: int)"
  by (rule that [OF refl]) (use div_within [of 146097 "400 * n"] in \<open>simp_all only: zero_less_numeral\<close>)

lemma year_of_range:
  assumes "days_before y \<le> n" and "n < days_before (y + 1)"
  shows "year_of n = y"
proof -
  obtain z where z: "(400 * n) div 146097 = z" "146097 * z \<le> 400 * n" "400 * n < 146097 * z + 146097"
    by (rule mean_year_obtain)
  have "y - 1 \<le> z" using days_before_mean(1) [of y] assms(1) z(3) by linarith
  moreover have "z \<le> y + 1" using days_before_mean(2) [of "y + 1"] assms(2) z(2) by (simp add: algebra_simps)
  ultimately consider "z = y - 1" | "z = y" | "z = y + 1" by linarith
  then show ?thesis
    using assms days_before_mono [of "y + 1" "y + 1 + 1"] by cases (auto simp: year_of_def Let_def z(1))
qed

lemma year_of_bounds: "days_before (year_of n) \<le> n \<and> n < days_before (year_of n + 1)"
proof -
  obtain z where z: "(400 * n) div 146097 = z" "146097 * z \<le> 400 * n" "400 * n < 146097 * z + 146097"
    by (rule mean_year_obtain)
  have a: "days_before (z - 1) \<le> n" using days_before_mean(2) [of "z - 1"] z(2) by (simp add: algebra_simps)
  have b: "n < days_before (z + 2)" using days_before_mean(1) [of "z + 2"] z(3) by (simp add: algebra_simps)
  show ?thesis using a b by (auto simp: year_of_def Let_def z(1) add.assoc)
qed

lemma month_split_sum:
  assumes "i < length ds" and "0 \<le> r" and "r < ds ! i" and "\<forall>d\<in>set ds. 0 \<le> d"
  shows "month_split ds (sum_list (take i ds) + r) = (i, r)"
  using assms
proof (induction ds arbitrary: i)
  case (Cons d ds)
  show ?case
  proof (cases i)
    case 0
    then show ?thesis using Cons.prems by simp
  next
    case (Suc j)
    have "0 \<le> sum_list (take j ds)" using Cons.prems(4) by (intro sum_list_nonneg) (auto dest: in_set_takeD)
    then show ?thesis using Suc Cons.IH [of j] Cons.prems by simp
  qed
qed simp

lemma month_split_bounds:
  assumes "0 \<le> k" and "k < sum_list ds" and "month_split ds k = (m, r)"
  shows "m < length ds \<and> 0 \<le> r \<and> r < ds ! m \<and> k = sum_list (take m ds) + r"
  using assms
proof (induction ds arbitrary: k m)
  case (Cons d ds)
  show ?case
  proof (cases "k < d")
    case True
    then show ?thesis using Cons.prems by auto
  next
    case False
    obtain m' where m': "month_split ds (k - d) = (m', r)" "m = Suc m'"
      using False Cons.prems(3) by (auto split: prod.splits)
    show ?thesis using Cons.IH [OF _ _ m'(1)] False Cons.prems(1,2) m'(2) by auto
  qed
qed simp

lemma month_days_sum: "sum_list (month_days y) = year_days y"
  by (simp add: month_days_def year_days_def)

lemma civil_round_trip:
  assumes "civil_of_day n = (y, m, d)"
  shows "day_of_civil y m d = n \<and> 1 \<le> m \<and> m \<le> 12 \<and> 1 \<le> d \<and> d \<le> month_days y ! (m - 1) \<and> y = year_of n"
proof -
  have y: "y = year_of n" using assms by (auto simp: civil_of_day_def Let_def split: prod.splits)
  obtain m' r where s: "month_split (month_days y) (n - days_before y) = (m', r)" by (cases "month_split (month_days y) (n - days_before y)")
  have md: "m = m' + 1" "d = r + 1" using assms s y by (simp_all add: civil_of_day_def Let_def)
  have b: "days_before y \<le> n" "n < days_before (y + 1)" using year_of_bounds [of n] y by simp_all
  note g = days_before_Suc [of y]
  have "m' < length (month_days y) \<and> 0 \<le> r \<and> r < month_days y ! m' \<and> n - days_before y = sum_list (take m' (month_days y)) + r"
    by (rule month_split_bounds [OF _ _ s]) (use b g in \<open>simp_all add: month_days_sum\<close>)
  moreover have "length (month_days y) = 12" by (simp add: month_days_def)
  ultimately show ?thesis using md y by (simp add: day_of_civil_def)
qed


section \<open>The stamp\<close>

definition pad2 :: "int \<Rightarrow> string" where
  "pad2 n = [digit_char (nat (n div 10 mod 10)), digit_char (nat (n mod 10))]"

definition pad4 :: "int \<Rightarrow> string" where
  "pad4 n = pad2 (n div 100) @ pad2 (n mod 100)"

definition format_stamp :: "time \<Rightarrow> string" where
  "format_stamp t =
     (let secs = t div second;
          s = secs mod 86400
      in case civil_of_day (secs div 86400 + zero_day) of
           (y, m, d) \<Rightarrow> pad4 y @ pad2 (int m) @ pad2 d @ ''T'' @ pad2 (s div 3600) @ pad2 (s div 60 mod 60) @
             pad2 (s mod 60) @ ''Z'')"

text \<open>
  \<open>time.Parse\<close>: digits of fixed width in their ranges, the day within its month; a fraction of a second
  after the seconds is read although the layout has none.\<close>

definition digits_at :: "nat \<Rightarrow> nat \<Rightarrow> string \<Rightarrow> int option" where
  "digits_at i n s =
     (let w = take n (drop i s) in if length w = n \<and> list_all is_digit w then Some (int (dec_value w)) else None)"

definition fraction :: "string \<Rightarrow> (int \<times> string) option" where
  "fraction s =
     (case s of
        c # d # _ \<Rightarrow>
          (if (c = CHR ''.'' \<or> c = CHR '','') \<and> is_digit d
           then (let ds = takeWhile is_digit (tl s); kept = take 9 ds
                 in Some (int (dec_value kept) * 10 ^ (9 - length kept), dropWhile is_digit (tl s)))
           else Some (0, s))
      | _ \<Rightarrow> Some (0, s))"

definition parse_stamp :: "string \<Rightarrow> time option" where
  "parse_stamp s =
     (case (digits_at 0 4 s, digits_at 4 2 s, digits_at 6 2 s, digits_at 9 2 s, digits_at 11 2 s, digits_at 13 2 s,
            fraction (drop 15 s)) of
        (Some y, Some m, Some d, Some hh, Some mm, Some ss, Some (ns, rest)) \<Rightarrow>
          (if s ! 8 = CHR ''T'' \<and> rest = ''Z'' \<and> 1 \<le> m \<and> m \<le> 12 \<and> 1 \<le> d \<and> d \<le> month_days y ! (nat m - 1) \<and>
              hh < 24 \<and> mm < 60 \<and> ss < 60
           then Some (((day_of_civil y (nat m) d - zero_day) * 86400 + hh * 3600 + mm * 60 + ss) * second + ns)
           else None)
      | _ \<Rightarrow> None)"

lemma pad2_digits: "list_all is_digit (pad2 n)" "length (pad2 n) = 2"
  by (simp_all add: pad2_def nat_less_iff)

lemma dec_value_pad2:
  assumes "0 \<le> n" and "n < 100"
  shows "int (dec_value (pad2 n)) = n"
proof -
  have d: "0 \<le> n div 10 \<and> n div 10 < 10" using div_within [of 10 n] assms by simp
  then have "dec_value (pad2 n) = 10 * nat (n div 10) + nat (n mod 10)"
    by (simp add: pad2_def dec_value_def nat_less_iff mod_pos_pos_trivial)
  then show ?thesis using d mult_div_mod_eq [of 10 n] by simp
qed

lemma pad4_digits: "list_all is_digit (pad4 n)" "length (pad4 n) = 4"
  by (simp_all add: pad4_def pad2_digits)

lemma dec_value_append: "dec_value (a @ b) = dec_value a * 10 ^ length b + dec_value b"
proof (induction b rule: rev_induct)
  case (snoc c b)
  then show ?case by (simp add: dec_value_def algebra_simps)
qed (simp add: dec_value_def)

lemma dec_value_pad4:
  assumes "0 \<le> n" and "n < 10000"
  shows "int (dec_value (pad4 n)) = n"
proof -
  have "0 \<le> n div 100 \<and> n div 100 < 100" using div_within [of 100 n] assms by simp
  then show ?thesis
    using dec_value_pad2 [of "n div 100"] dec_value_pad2 [of "n mod 100"] mult_div_mod_eq [of 100 n]
    by (simp add: pad4_def dec_value_append pad2_digits)
qed

lemma digits_at_0: "length w = n \<Longrightarrow> list_all is_digit w \<Longrightarrow> digits_at 0 n (w @ s) = Some (int (dec_value w))"
  by (simp add: digits_at_def)

lemma digits_at_skip: "length w \<le> i \<Longrightarrow> digits_at i n (w @ s) = digits_at (i - length w) n s"
  by (simp add: digits_at_def)

text \<open>The times whose year has four digits.\<close>

definition stampable :: "time \<Rightarrow> bool" where
  "stampable t = (0 \<le> t div second div 86400 + zero_day \<and> t div second div 86400 + zero_day < days_before 10000)"

lemma year_of_four_digits:
  assumes "0 \<le> n" and "n < days_before 10000"
  shows "0 \<le> year_of n \<and> year_of n < 10000"
proof -
  have "days_before 0 = 0" by (simp add: days_before_def)
  then show ?thesis
    using year_of_bounds [of n] assms days_before_mono [of "year_of n + 1" 0] days_before_mono [of 10000 "year_of n"]
    by linarith
qed

lemma hms: "s div 3600 * 3600 + s div 60 mod 60 * 60 + s mod 60 = (s :: int)"
proof -
  have q: "s div 3600 = s div 60 div 60" using zdiv_zmult2_eq [of 60 s 60] by simp
  have e: "x * 3600 + y * 60 + z = (x * 60 + y) * 60 + z" for x y z :: int by simp
  show ?thesis unfolding q e div_mult_mod_eq by (rule refl)
qed

lemma parse_format_stamp:
  assumes "stampable t"
  shows "parse_stamp (format_stamp t) = Some (t div second * second)"
proof -
  define secs where "secs = t div second"
  define n where "n = secs div 86400 + zero_day"
  define s where "s = secs mod 86400"
  obtain y m d where c: "civil_of_day n = (y, m, d)" by (cases "civil_of_day n")
  note rt = civil_round_trip [OF c]
  have y: "0 \<le> y" "y < 10000"
    using rt year_of_four_digits [of n] assms by (simp_all add: stampable_def n_def secs_def)
  have "month_days y ! (m - 1) \<le> 31"
  proof -
    have "m - 1 < 12" using rt by linarith
    then have "m - 1 < length (month_days y)" by (simp add: month_days_def)
    then have "month_days y ! (m - 1) \<in> set (month_days y)" by (rule nth_mem)
    then show ?thesis by (auto simp: month_days_def)
  qed
  then have md: "0 \<le> int m" "int m < 100" "0 \<le> d" "d < 100" using rt by linarith+
  have s: "0 \<le> s" "s < 86400" by (simp_all add: s_def)
  then have h: "0 \<le> s div 3600" "s div 3600 < 24" "0 \<le> s div 60 mod 60" "s div 60 mod 60 < 60" "0 \<le> s mod 60" "s mod 60 < 60"
    by (simp_all add: div_less_iff_less_mult pos_imp_zdiv_nonneg_iff)
  have f: "format_stamp t = pad4 y @ pad2 (int m) @ pad2 d @ ''T'' @ pad2 (s div 3600) @ pad2 (s div 60 mod 60) @
      pad2 (s mod 60) @ ''Z''"
    using c by (simp add: format_stamp_def Let_def n_def s_def secs_def)
  note lens = pad2_digits pad4_digits
  have fields: "digits_at 0 4 (format_stamp t) = Some y" "digits_at 4 2 (format_stamp t) = Some (int m)"
    "digits_at 6 2 (format_stamp t) = Some d" "digits_at 9 2 (format_stamp t) = Some (s div 3600)"
    "digits_at 11 2 (format_stamp t) = Some (s div 60 mod 60)" "digits_at 13 2 (format_stamp t) = Some (s mod 60)"
    unfolding f using y md h
    by (simp_all add: digits_at_skip digits_at_0 lens dec_value_pad2 dec_value_pad4 digits_at_def)
  have z: "drop 15 (format_stamp t) = ''Z''" "format_stamp t ! 8 = CHR ''T''"
    unfolding f by (simp_all add: lens nth_append)
  have "(day_of_civil y m d - zero_day) * 86400 + s div 3600 * 3600 + s div 60 mod 60 * 60 + s mod 60 = secs"
  proof -
    have "day_of_civil y m d = n" using rt by blast
    then have "day_of_civil y m d - zero_day = secs div 86400" by (simp add: n_def)
    moreover have "secs div 86400 * 86400 + s = secs" by (simp add: s_def)
    ultimately show ?thesis using hms [of s] by (simp only: add.assoc)
  qed
  moreover have "1 \<le> int m" "int m \<le> 12" "1 \<le> d" "d \<le> month_days y ! (nat (int m) - 1)" using rt by auto
  ultimately show ?thesis
    using h(2,4,6) fields z unfolding parse_stamp_def by (simp only: fraction_def) (simp add: secs_def)
qed

lemma format_stamp_shape:
  assumes "c \<in> set (format_stamp t)"
  shows "is_digit c \<or> c = CHR ''T'' \<or> c = CHR ''Z''"
  using assms pad2_digits pad4_digits
  by (auto simp: format_stamp_def Let_def list_all_iff split: prod.splits)

text \<open>A text that parses holds no dash, which is what lets a name be read from the right.\<close>

lemma digits_nth:
  assumes "list_all is_digit (take n (drop j s))" and "j \<le> i" and "i < j + n" and "i < length s"
  shows "is_digit (s ! i)"
proof -
  have "take n (drop j s) ! (i - j) = s ! i" and "i - j < length (take n (drop j s))" using assms by auto
  then show ?thesis using assms(1) by (metis list_all_length)
qed

lemma fraction_chars:
  assumes "fraction u = Some (ns, ''Z'')" and "c \<in> set u"
  shows "is_digit c \<or> c \<in> {CHR ''Z'', CHR ''.'', CHR '',''}"
proof (cases "u = ''Z''")
  case False
  then obtain x us where u: "u = x # us" "x = CHR ''.'' \<or> x = CHR '',''" "dropWhile is_digit us = ''Z''"
    using assms(1) by (auto simp: fraction_def Let_def split: list.splits if_splits)
  then have "us = takeWhile is_digit us @ ''Z''" by (metis takeWhile_dropWhile_id)
  then show ?thesis using assms(2) u by (metis (no_types, lifting) Un_iff insertCI insertE list.set(1,2) empty_iff set_append set_takeWhileD)
qed (use assms(2) in simp)

lemma parse_stamp_chars:
  assumes "parse_stamp s = Some t"
  shows "CHR ''-'' \<notin> set s"
proof
  assume "CHR ''-'' \<in> set s"
  then obtain i where i: "i < length s" "s ! i = CHR ''-''" by (auto simp: in_set_conv_nth)
  let ?d = "\<lambda>i n. list_all is_digit (take n (drop i s))"
  obtain ns where f: "fraction (drop 15 s) = Some (ns, ''Z'')" and n: "s ! 8 = CHR ''T''"
    and d: "?d 0 4" "?d 4 2" "?d 6 2" "?d 9 2" "?d 11 2" "?d 13 2"
    using assms by (auto simp: parse_stamp_def digits_at_def Let_def split: option.splits prod.splits if_splits)
  consider "i < 4" | "4 \<le> i" "i < 6" | "6 \<le> i" "i < 8" | "i = 8" | "9 \<le> i" "i < 11" | "11 \<le> i" "i < 13"
    | "13 \<le> i" "i < 15" | "15 \<le> i" by linarith
  then show False
  proof cases
    case 4
    then show ?thesis using i n by simp
  next
    case 8
    then have "drop 15 s ! (i - 15) = CHR ''-''" "i - 15 < length (drop 15 s)" using i by auto
    then have "CHR ''-'' \<in> set (drop 15 s)" by (metis nth_mem)
    then show ?thesis using fraction_chars [OF f] by (fastforce simp: is_digit_def)
  qed (use digits_nth [OF d(1), of i] digits_nth [OF d(2), of i] digits_nth [OF d(3), of i] digits_nth [OF d(4), of i]
      digits_nth [OF d(5), of i] digits_nth [OF d(6), of i] i in \<open>simp_all add: is_digit_def\<close>)
qed

end
