(* ===== verification/RingNames.thy ===== *)
theory RingNames
  imports Stamp
begin

text \<open>
  The names of the samples of an app's history (\<open>agent/quadlet/render.go\<close>): app, trigger and second in a
  path, read back from the right because an app's own name may hold dashes.
\<close>


section \<open>Triggers\<close>

datatype trigger =
    TriggerStart
  | TriggerClock
  | TriggerAppUpdateBefore
  | TriggerAppUndoBefore
  | TriggerHassRestoreBefore
  | TriggerHassDBRestoreBefore
  | TriggerFromBackup

fun trigger_name :: "trigger \<Rightarrow> string" where
  "trigger_name TriggerStart = ''start''"
| "trigger_name TriggerClock = ''clock''"
| "trigger_name TriggerAppUpdateBefore = ''app-update-before''"
| "trigger_name TriggerAppUndoBefore = ''app-undo-before''"
| "trigger_name TriggerHassRestoreBefore = ''hass-restore-before''"
| "trigger_name TriggerHassDBRestoreBefore = ''hass-db-restore-before''"
| "trigger_name TriggerFromBackup = ''from-backup''"

definition all_triggers :: "trigger list" where
  "all_triggers = [TriggerStart, TriggerClock, TriggerAppUpdateBefore, TriggerAppUndoBefore,
     TriggerHassRestoreBefore, TriggerHassDBRestoreBefore, TriggerFromBackup]"

fun is_before :: "trigger \<Rightarrow> bool" where
  "is_before TriggerStart = False"
| "is_before TriggerClock = False"
| "is_before _ = True"


section \<open>The names of samples\<close>

definition snapshots_dir :: string where
  "snapshots_dir = ''/var/lib/briard/data/.snapshots/''"

definition snapshot_member :: "string \<Rightarrow> trigger \<Rightarrow> time \<Rightarrow> string" where
  "snapshot_member app t at = snapshots_dir @ app @ ''-'' @ trigger_name t @ ''-'' @ format_stamp at"

text \<open>\<open>strings.LastIndex\<close>: the last place where a pattern stands.\<close>

definition last_index_of :: "string \<Rightarrow> string \<Rightarrow> nat option" where
  "last_index_of pat s = find (\<lambda>i. prefix pat (drop i s)) (rev [0..<Suc (length s)])"

definition parse_with :: "string \<Rightarrow> trigger \<Rightarrow> (string \<times> trigger \<times> time) option" where
  "parse_with name t =
     (let suffix = ''-'' @ trigger_name t @ ''-''
      in case last_index_of suffix name of
           None \<Rightarrow> None
         | Some i \<Rightarrow>
             (if i = 0 then None
              else map_option (\<lambda>at. (take i name, t, at)) (parse_stamp (drop (i + length suffix) name))))"

fun first_some :: "('a \<Rightarrow> 'b option) \<Rightarrow> 'a list \<Rightarrow> 'b option" where
  "first_some f [] = None"
| "first_some f (x # xs) = (case f x of None \<Rightarrow> first_some f xs | Some y \<Rightarrow> Some y)"

definition parse_snapshot_member :: "string \<Rightarrow> (string \<times> trigger \<times> time) option" where
  "parse_snapshot_member name = first_some (parse_with (trim_prefix snapshots_dir name)) all_triggers"

definition member_time :: "string \<Rightarrow> time option" where
  "member_time name = map_option (\<lambda>(_, _, at). at) (parse_snapshot_member name)"

definition member_app :: "string \<Rightarrow> string option" where
  "member_app name = map_option fst (parse_snapshot_member name)"

definition snapshot_sidecar :: "string \<Rightarrow> string" where
  "snapshot_sidecar m = m @ ''.json''"

definition app_sidecar :: "string \<Rightarrow> string" where
  "app_sidecar m = m @ ''.app.json''"


section \<open>Names read back\<close>

lemma find_rev_upt_Some:
  "find P (rev [0..<n]) = Some i \<longleftrightarrow> i < n \<and> P i \<and> (\<forall>j. i < j \<and> j < n \<longrightarrow> \<not> P j)"
proof (induction n)
  case (Suc n)
  show ?case
  proof (cases "P n")
    case True
    then show ?thesis by (auto simp: less_Suc_eq)
  next
    case False
    then have "find P (rev [0..<Suc n]) = find P (rev [0..<n])" by simp
    then show ?thesis using Suc.IH False by (auto simp: less_Suc_eq)
  qed
qed simp

lemma find_rev_upt_None: "find P (rev [0..<n]) = None \<longleftrightarrow> (\<forall>j<n. \<not> P j)"
  by (induction n) (auto simp: less_Suc_eq)

lemma dash_split:
  assumes "a @ CHR ''-'' # u = b @ CHR ''-'' # v" and "CHR ''-'' \<notin> set u" and "CHR ''-'' \<notin> set v"
  shows "a = b \<and> u = v"
proof -
  have "cut (CHR ''-'') (rev u @ CHR ''-'' # rev a) = cut (CHR ''-'') (rev v @ CHR ''-'' # rev b)"
    using arg_cong [OF assms(1), of "\<lambda>x. cut (CHR ''-'') (rev x)"] by simp
  then show ?thesis using cut_app [of "CHR ''-''" "rev u" "rev a"] cut_app [of "CHR ''-''" "rev v" "rev b"] assms(2,3) by simp
qed

text \<open>No trigger's name ends in another's, so a name ends in one trigger only.\<close>

lemma triggers_differ:
  "list_all (\<lambda>t. list_all (\<lambda>u. t = u \<or> \<not> suffix (CHR ''-'' # trigger_name u) (CHR ''-'' # trigger_name t)) all_triggers) all_triggers"
  by code_simp

lemma trigger_in_all: "t \<in> set all_triggers"
  by (cases t) (simp_all add: all_triggers_def)

lemma trigger_suffix: "suffix (CHR ''-'' # trigger_name u) (CHR ''-'' # trigger_name t) \<Longrightarrow> t = u"
  using triggers_differ trigger_in_all [of t] trigger_in_all [of u] by (auto simp: list_all_iff)

lemma same_trigger:
  assumes "a @ CHR ''-'' # trigger_name t = b @ CHR ''-'' # trigger_name u"
  shows "t = u"
proof -
  let ?s = "a @ CHR ''-'' # trigger_name t"
  have "suffix (CHR ''-'' # trigger_name t) ?s" "suffix (CHR ''-'' # trigger_name u) ?s"
    using assms unfolding suffix_def by blast+
  then have "suffix (CHR ''-'' # trigger_name t) (CHR ''-'' # trigger_name u) \<or>
      suffix (CHR ''-'' # trigger_name u) (CHR ''-'' # trigger_name t)"
    by (rule suffix_same_cases)
  then show ?thesis using trigger_suffix by blast
qed

lemma occurrence:
  assumes "prefix p (drop i s)"
  shows "s = take i s @ p @ drop (i + length p) s"
proof -
  obtain w where w: "drop i s = p @ w" using assms by (auto simp: prefix_def)
  have "drop (i + length p) s = drop (length p) (drop i s)" by (simp add: add.commute)
  then have "drop (i + length p) s = w" using w by simp
  then show ?thesis using w append_take_drop_id [of i s] by simp
qed

lemma parse_with_name:
  assumes "CHR ''-'' \<notin> set st" and "app \<noteq> []"
  shows "parse_with (app @ CHR ''-'' # trigger_name t @ CHR ''-'' # st) u =
    (if u = t then map_option (\<lambda>at. (app, t, at)) (parse_stamp st) else None)"
proof -
  let ?p = "\<lambda>u. CHR ''-'' # trigger_name u @ ''-''"
  let ?name = "app @ CHR ''-'' # trigger_name t @ CHR ''-'' # st"
  show ?thesis
  proof (cases "u = t")
    case True
    have "last_index_of (?p t) ?name = Some (length app)"
      unfolding last_index_of_def find_rev_upt_Some
    proof (intro conjI allI impI)
      fix j assume j: "length app < j \<and> j < Suc (length ?name)"
      show "\<not> prefix (?p t) (drop j ?name)"
      proof
        assume "prefix (?p t) (drop j ?name)"
        then obtain w where w: "drop j ?name = CHR ''-'' # trigger_name t @ CHR ''-'' # w" by (auto simp: prefix_def)
        have e: "?name = (take j ?name @ CHR ''-'' # trigger_name t) @ CHR ''-'' # w"
          using append_take_drop_id [of j ?name] w by simp
        have "j \<le> length ?name" using j by linarith
        then have "length (take j ?name) = j" by (simp only: length_take min_absorb2)
        then have "length w < length st" using j arg_cong [OF e, of length] by simp
        moreover have "suffix w ?name" unfolding suffix_def using e by (metis append.assoc append_Cons append_Nil)
        moreover have "suffix st ?name" by (simp add: suffix_def)
        ultimately have "suffix w st" by (meson less_imp_le suffix_length_suffix)
        then have "CHR ''-'' \<notin> set w" using assms(1) set_mono_suffix by blast
        then show False
          using dash_split [of "app @ CHR ''-'' # trigger_name t" st "take j ?name @ CHR ''-'' # trigger_name t" w] assms(1) e
            \<open>length w < length st\<close> by auto
      qed
    qed simp_all
    then show ?thesis using True assms(2) by (simp add: parse_with_def Let_def)
  next
    case False
    have "parse_with ?name u = None"
    proof (rule ccontr)
      assume "parse_with ?name u \<noteq> None"
      then obtain i at where i: "last_index_of (?p u) ?name = Some i" "parse_stamp (drop (i + length (?p u)) ?name) = Some at"
        by (auto simp: parse_with_def Let_def split: option.splits if_splits)
      let ?w = "drop (i + length (?p u)) ?name"
      have "prefix (?p u) (drop i ?name)" using i(1) unfolding last_index_of_def find_rev_upt_Some by blast
      from occurrence [OF this]
      have "(app @ CHR ''-'' # trigger_name t) @ CHR ''-'' # st = (take i ?name @ CHR ''-'' # trigger_name u) @ CHR ''-'' # ?w"
        by (simp only: append.assoc append_Cons append_Nil)
      from dash_split [OF this assms(1) parse_stamp_chars [OF i(2)]]
      have "app @ CHR ''-'' # trigger_name t = take i ?name @ CHR ''-'' # trigger_name u" by (rule conjunct1)
      then show False using same_trigger False by blast
    qed
    then show ?thesis using False by simp
  qed
qed

lemma first_some_only:
  assumes "x \<in> set xs" and "f x = Some y" and "\<And>z. z \<in> set xs \<Longrightarrow> z \<noteq> x \<Longrightarrow> f z = None"
  shows "first_some f xs = Some y"
  using assms
proof (induction xs)
  case (Cons a xs)
  then show ?case by (cases "a = x") auto
qed simp

lemma stamp_no_dash: "CHR ''-'' \<notin> set (format_stamp t)"
  using format_stamp_shape [of "CHR ''-''" t] by (auto simp: is_digit_def)

lemma parse_snapshot_name:
  assumes "app \<noteq> []" and "stampable at"
  shows "parse_snapshot_member (snapshot_member app t at) = Some (app, t, at div second * second)"
proof -
  have "trim_prefix snapshots_dir (snapshot_member app t at) =
      app @ CHR ''-'' # trigger_name t @ CHR ''-'' # format_stamp at"
    by (simp add: trim_prefix_def snapshot_member_def)
  moreover have "first_some (parse_with (app @ CHR ''-'' # trigger_name t @ CHR ''-'' # format_stamp at)) all_triggers =
      Some (app, t, at div second * second)"
    by (rule first_some_only [OF trigger_in_all [of t]])
      (use assms in \<open>simp_all add: parse_with_name stamp_no_dash parse_format_stamp\<close>)
  ultimately show ?thesis by (simp add: parse_snapshot_member_def)
qed

text \<open>
  The name of a sample reads back: for every app, even one whose own name holds dashes or another
  trigger's word, every trigger, and every time with a year of four digits, the path the guest gives a
  sample parses to that app, that trigger and that time to the second.\<close>
lemma sample_names_read_back:
  assumes "app \<noteq> []" and "stampable at"
  shows "parse_snapshot_member (snapshot_member app t at) = Some (app, t, at div second * second)"
  using assms by (rule parse_snapshot_name)

lemma stampable_example: "stampable (1790000000 * second)"
  by (simp add: stampable_def zero_day_def days_before_def time_simps)

end
