(* ===== verification/History.thy ===== *)
theory History
  imports RingNames
begin

text \<open>
  The history of an app (\<open>agent/quadlet/history.go\<close>) over the ring of its samples: what is an event, where a quiet stretch gets its restore point, which
  samples the history no longer needs, and the rows a household reads.

  A sample is named by its path; its time is read out of the name. Go sorts with an unstable sort, so
  where two samples of one app carry the same second their order here is that of the listing. A member
  is known by its position where the code compares indices.
\<close>


section \<open>Samples\<close>

datatype reason_kind =
    ReasonAppUpdate
  | ReasonAppUndo
  | ReasonHassRestore
  | ReasonChanged
  | ReasonReset
  | ReasonUnhealthy
  | ReasonDBRestore
  | ReasonQuiet

record reason =
  rs_kind :: reason_kind
  rs_what :: string

record ring_event =
  ev_at :: time
  ev_reasons :: "reason list"

datatype app_health = HealthUnknown | Healthy | Unhealthy | Starting

fun settled :: "app_health \<Rightarrow> app_health" where
  "settled h = (if h = Starting then Unhealthy else h)"

datatype consistency = Unrecorded | Quiesced | Crash

fun consistency_note :: "consistency \<Rightarrow> string" where
  "consistency_note Quiesced = []"
| "consistency_note Crash = ''taken while the app was running''"
| "consistency_note Unrecorded = ''taken by an older briard; unverified''"

record snapshot_meta =
  sm_app :: string
  sm_trigger :: trigger
  sm_taken_at :: time
  sm_consistency :: consistency
  sm_manifest :: string
  sm_event :: "ring_event option"
  sm_pending :: bool
  sm_health :: app_health
  sm_resets :: "string list"

record snapshot_entry =
  se_member :: string
  se_meta :: snapshot_meta
  se_app :: bool

text \<open>\<open>Has\<close> and \<open>With\<close> of an event that may be missing.\<close>

definition event_has :: "ring_event option \<Rightarrow> reason_kind \<Rightarrow> bool" where
  "event_has e k = (case e of None \<Rightarrow> False | Some ev \<Rightarrow> list_ex (\<lambda>r. rs_kind r = k) (ev_reasons ev))"

definition event_with :: "ring_event option \<Rightarrow> reason \<Rightarrow> time \<Rightarrow> ring_event" where
  "event_with e r at =
     (case e of None \<Rightarrow> \<lparr>ev_at = at, ev_reasons = [r]\<rparr> | Some ev \<Rightarrow> ev\<lparr>ev_reasons := ev_reasons ev @ [r]\<rparr>)"


section \<open>The order of a ring\<close>

definition entry_time :: "snapshot_entry \<Rightarrow> time" where
  "entry_time e = (case member_time (se_member e) of None \<Rightarrow> 0 | Some t \<Rightarrow> t)"

definition entry_event :: "snapshot_entry \<Rightarrow> ring_event option" where
  "entry_event e = sm_event (se_meta e)"

definition sorted_members :: "snapshot_entry list \<Rightarrow> snapshot_entry list" where
  "sorted_members es = sort_key entry_time (filter (\<lambda>e. member_time (se_member e) \<noteq> None) es)"

text \<open>The index of the last element with a property.\<close>

definition last_where :: "('a \<Rightarrow> bool) \<Rightarrow> 'a list \<Rightarrow> nat option" where
  "last_where P xs = find (\<lambda>i. P (xs ! i)) (rev [0..<length xs])"


section \<open>Quiet time\<close>

definition quiet_after :: duration where "quiet_after = 5 * hour"
definition quiet_every :: duration where "quiet_every = 24 * hour"

definition quiet_start :: "snapshot_entry list \<Rightarrow> nat option" where
  "quiet_start es =
     (case last_where (\<lambda>e. entry_event e \<noteq> None) es of
        Some i \<Rightarrow> (if event_has (entry_event (es ! i)) ReasonQuiet \<or> i + 1 = length es then None else Some (i + 1))
      | None \<Rightarrow> (if es = [] then None else Some 0))"

definition quiet_point :: "snapshot_entry list \<Rightarrow> string \<Rightarrow> snapshot_entry option" where
  "quiet_point es member =
     (case member_time member of
        None \<Rightarrow> None
      | Some at \<Rightarrow>
          (let before = filter (\<lambda>e. se_member e \<noteq> member \<and> entry_time e < at) (sorted_members es)
           in if before = [] then None
              else
                (case quiet_start before of
                   Some s \<Rightarrow> (if quiet_after \<le> time_sub at (entry_time (before ! s)) then Some (before ! s) else None)
                 | None \<Rightarrow>
                     (if entry_event (last before) \<noteq> None then None
                      else
                        (case last_where (\<lambda>e. event_has (entry_event e) ReasonQuiet) before of
                           None \<Rightarrow> None
                         | Some i \<Rightarrow>
                             (if quiet_every \<le> time_sub at (entry_time (before ! i)) then Some (last before)
                              else None))))))"


section \<open>Retention\<close>

definition retain_events :: duration where "retain_events = 5 * 24 * hour"
definition retain_last_update :: duration where "retain_last_update = 14 * 24 * hour"
definition retain_app :: duration where "retain_app = 7 * 24 * hour"

definition kept_at :: "snapshot_entry list \<Rightarrow> time \<Rightarrow> nat \<Rightarrow> bool" where
  "kept_at all now i =
     (let m = all ! i;
          ev = entry_event m;
          last_update = last_where (\<lambda>e. event_has (entry_event e) ReasonAppUpdate) all;
          evaluated = last_where (\<lambda>e. \<not> sm_pending (se_meta e)) all
      in i = length all - 1 \<or> Some i = quiet_start all \<or> Some i = evaluated \<or> sm_pending (se_meta m) \<or>
         (case ev of Some e \<Rightarrow> time_sub now (ev_at e) \<le> retain_events | None \<Rightarrow> False) \<or>
         (Some i = last_update \<and>
            (case ev of Some e \<Rightarrow> time_sub now (ev_at e) \<le> retain_last_update | None \<Rightarrow> False)) \<or>
         (se_app m \<and> time_sub now (entry_time m) \<le> retain_app) \<or>
         (sm_trigger (se_meta m) = TriggerFromBackup \<and> time_sub now (entry_time m) \<le> retain_events))"

definition retention_prune :: "snapshot_entry list \<Rightarrow> time \<Rightarrow> string list" where
  "retention_prune es now =
     (let all = sorted_members es
      in map (\<lambda>i. se_member (all ! i)) (filter (\<lambda>i. \<not> kept_at all now i) [0..<length all]))"


section \<open>The rows a household reads\<close>

record history_row =
  hr_reasons :: "reason list"
  hr_what :: string
  hr_caption :: string
  hr_at :: time
  hr_point :: snapshot_entry

text \<open>\<open>show\<close> is the reader's rendering of a time (\<open>Mon 15:04\<close> in the reader's zone).\<close>

definition reason_words :: "(time \<Rightarrow> string) \<Rightarrow> time option \<Rightarrow> reason \<Rightarrow> string list" where
  "reason_words show_time later r =
     (if rs_kind r = ReasonUnhealthy then []
      else if rs_kind r \<noteq> ReasonQuiet then [rs_what r]
      else (case later of None \<Rightarrow> [''Running normally''] | Some t \<Rightarrow> [''Ran normally until '' @ show_time t]))"

definition title :: "(time \<Rightarrow> string) \<Rightarrow> time option \<Rightarrow> reason list \<Rightarrow> string" where
  "title show_time later rs = join_with ''; '' (concat (map (reason_words show_time later) rs))"

text \<open>The rows, newest first; each is given the creation time of the row above it.\<close>

fun history_rows :: "(time \<Rightarrow> string) \<Rightarrow> time option \<Rightarrow> snapshot_entry list \<Rightarrow> history_row list" where
  "history_rows show_time later [] = []"
| "history_rows show_time later (e # es) =
     (case entry_event e of
        None \<Rightarrow> history_rows show_time later es
      | Some ev \<Rightarrow>
          \<lparr>hr_reasons = ev_reasons ev, hr_what = title show_time later (ev_reasons ev),
           hr_caption = (if event_has (Some ev) ReasonUnhealthy
                         then sm_app (se_meta e) @ '' failed to start cleanly after this change.'' else []),
           hr_at = ev_at ev, hr_point = e\<rparr> # history_rows show_time (Some (ev_at ev)) es)"

definition history :: "(time \<Rightarrow> string) \<Rightarrow> snapshot_entry list \<Rightarrow> history_row list" where
  "history show_time es = history_rows show_time None (rev (sorted_members es))"

definition unhealthy :: "snapshot_entry list \<Rightarrow> snapshot_entry option" where
  "unhealthy es =
     (let all = sorted_members es;
          verdict = last_where (\<lambda>e. \<not> sm_pending (se_meta e)) all
      in case verdict of
           Some i \<Rightarrow>
             (if sm_health (se_meta (all ! i)) \<noteq> Unhealthy then None
              else map_option (\<lambda>j. all ! j) (last_where (\<lambda>e. event_has (entry_event e) ReasonUnhealthy) all))
         | None \<Rightarrow> map_option (\<lambda>j. all ! j) (last_where (\<lambda>e. event_has (entry_event e) ReasonUnhealthy) all))"



section \<open>Which samples the history needs\<close>

text \<open>The reference: the ring as a set, and what a sample is needed for, without an index.\<close>

definition ring_of :: "snapshot_entry list \<Rightarrow> snapshot_entry set" where
  "ring_of es = {e \<in> set es. member_time (se_member e) \<noteq> None}"

definition newest_with :: "(snapshot_entry \<Rightarrow> bool) \<Rightarrow> snapshot_entry set \<Rightarrow> snapshot_entry \<Rightarrow> bool" where
  "newest_with P R m = (m \<in> R \<and> P m \<and> (\<forall>e\<in>R. P e \<longrightarrow> entry_time e \<le> entry_time m))"

text \<open>The first sample after the newest event, when that is not quiet, or of a ring with no event.\<close>

definition opens_quiet_stretch :: "snapshot_entry set \<Rightarrow> snapshot_entry \<Rightarrow> bool" where
  "opens_quiet_stretch R m =
     (m \<in> R \<and> (\<forall>e\<in>R. entry_event e \<noteq> None \<longrightarrow> entry_time e < entry_time m) \<and>
      (\<forall>e\<in>R. entry_time e < entry_time m \<longrightarrow>
         (\<exists>v\<in>R. entry_time e \<le> entry_time v \<and> entry_time v < entry_time m \<and> entry_event v \<noteq> None)) \<and>
      (\<forall>v. newest_with (\<lambda>e. entry_event e \<noteq> None) R v \<longrightarrow> \<not> event_has (entry_event v) ReasonQuiet))"

definition event_within :: "duration \<Rightarrow> time \<Rightarrow> snapshot_entry \<Rightarrow> bool" where
  "event_within d now m = (case entry_event m of None \<Rightarrow> False | Some ev \<Rightarrow> now - ev_at ev \<le> d)"

definition needed :: "snapshot_entry set \<Rightarrow> time \<Rightarrow> snapshot_entry \<Rightarrow> bool" where
  "needed R now m =
     (newest_with (\<lambda>e. True) R m \<or> newest_with (\<lambda>e. \<not> sm_pending (se_meta e)) R m \<or> sm_pending (se_meta m) \<or>
      opens_quiet_stretch R m \<or> event_within retain_events now m \<or>
      (newest_with (\<lambda>e. event_has (entry_event e) ReasonAppUpdate) R m \<and> event_within retain_last_update now m) \<or>
      (se_app m \<and> now - entry_time m \<le> retain_app) \<or>
      (sm_trigger (se_meta m) = TriggerFromBackup \<and> now - entry_time m \<le> retain_events))"

text \<open>No two samples of the ring carry the same second.\<close>

definition one_per_second :: "snapshot_entry list \<Rightarrow> bool" where
  "one_per_second es = distinct (map entry_time (filter (\<lambda>e. member_time (se_member e) \<noteq> None) es))"

abbreviation in_order :: "snapshot_entry list \<Rightarrow> bool" where
  "in_order es \<equiv> sorted_wrt (\<lambda>a b. entry_time a < entry_time b) es"

lemma set_sorted_members [simp]: "set (sorted_members es) = ring_of es"
  by (auto simp: sorted_members_def ring_of_def)

lemma sorted_members_in_order:
  assumes "one_per_second es"
  shows "in_order (sorted_members es)"
proof -
  let ?xs = "sorted_members es"
  have "sorted (map entry_time ?xs)" by (simp add: sorted_members_def)
  moreover have "distinct (map entry_time ?xs)"
    using assms by (simp add: sorted_members_def one_per_second_def distinct_map)
  ultimately have "sorted_wrt (<) (map entry_time ?xs)" by (simp add: strict_sorted_iff)
  then show ?thesis by (simp add: sorted_wrt_map)
qed

lemma in_order_nth:
  assumes "in_order xs" and "i < length xs" and "j < length xs"
  shows "entry_time (xs ! i) < entry_time (xs ! j) \<longleftrightarrow> i < j"
proof
  assume "entry_time (xs ! i) < entry_time (xs ! j)"
  moreover have "j < i \<Longrightarrow> entry_time (xs ! j) < entry_time (xs ! i)"
    using sorted_wrt_nth_less [OF assms(1)] assms(2) by blast
  ultimately show "i < j" by (cases i j rule: linorder_cases) auto
qed (use sorted_wrt_nth_less [OF assms(1)] assms(3) in blast)

lemma in_order_nth_le:
  "in_order xs \<Longrightarrow> i < length xs \<Longrightarrow> j < length xs \<Longrightarrow> entry_time (xs ! i) \<le> entry_time (xs ! j) \<longleftrightarrow> i \<le> j"
  using in_order_nth [of xs j i] by (simp add: not_less [symmetric])

lemma newest_with_nth:
  assumes "in_order xs" and "i < length xs"
  shows "newest_with P (set xs) (xs ! i) \<longleftrightarrow> P (xs ! i) \<and> (\<forall>j. i < j \<and> j < length xs \<longrightarrow> \<not> P (xs ! j))"
proof -
  have "(\<forall>e\<in>set xs. P e \<longrightarrow> entry_time e \<le> entry_time (xs ! i)) \<longleftrightarrow> (\<forall>j<length xs. P (xs ! j) \<longrightarrow> j \<le> i)"
    using in_order_nth_le [OF assms(1) _ assms(2)] by (simp add: all_set_conv_all_nth)
  then show ?thesis using assms(2) by (auto simp: newest_with_def not_less [symmetric])
qed

lemma last_where_newest:
  assumes "in_order xs" and "i < length xs"
  shows "last_where P xs = Some i \<longleftrightarrow> newest_with P (set xs) (xs ! i)"
  using assms by (simp add: last_where_def find_rev_upt_Some newest_with_nth)

lemma newest_at_end:
  assumes "in_order xs" and "i < length xs"
  shows "i = length xs - 1 \<longleftrightarrow> newest_with (\<lambda>e. True) (set xs) (xs ! i)"
  using assms(2) by (auto simp: newest_with_nth [OF assms])

lemma opens_without_events:
  assumes o: "in_order xs" and i: "i < length xs" and n: "\<And>j. j < length xs \<Longrightarrow> entry_event (xs ! j) = None"
  shows "opens_quiet_stretch (set xs) (xs ! i) \<longleftrightarrow> i = 0"
proof -
  have none: "entry_event e = None" if "e \<in> set xs" for e using that n by (auto simp: in_set_conv_nth)
  then have "opens_quiet_stretch (set xs) (xs ! i) \<longleftrightarrow> (\<forall>e\<in>set xs. \<not> entry_time e < entry_time (xs ! i))"
    using i by (auto simp: opens_quiet_stretch_def newest_with_def)
  also have "\<dots> \<longleftrightarrow> (\<forall>j<length xs. \<not> j < i)"
    using in_order_nth [OF o _ i] by (simp add: all_set_conv_all_nth)
  also have "\<dots> \<longleftrightarrow> i = 0" using i by (metis less_nat_zero_code not_gr_zero)
  finally show ?thesis .
qed

lemma opens_after_event:
  assumes o: "in_order xs" and i: "i < length xs" and k: "k < length xs" "entry_event (xs ! k) \<noteq> None"
    and later: "\<And>j. k < j \<Longrightarrow> j < length xs \<Longrightarrow> entry_event (xs ! j) = None"
  shows "opens_quiet_stretch (set xs) (xs ! i) \<longleftrightarrow> i = k + 1 \<and> \<not> event_has (entry_event (xs ! k)) ReasonQuiet"
proof -
  note lt = in_order_nth [OF o] and le = in_order_nth_le [OF o]
  have nw: "newest_with (\<lambda>e. entry_event e \<noteq> None) (set xs) (xs ! j) \<longleftrightarrow> j = k" if "j < length xs" for j
  proof
    assume a: "newest_with (\<lambda>e. entry_event e \<noteq> None) (set xs) (xs ! j)"
    then have "entry_event (xs ! j) \<noteq> None" "\<not> j < k" using k by (auto simp: newest_with_nth [OF o that])
    then show "j = k" using later that by (metis linorder_neqE_nat)
  next
    assume "j = k"
    then show "newest_with (\<lambda>e. entry_event e \<noteq> None) (set xs) (xs ! j)"
      using k later by (auto simp: newest_with_nth [OF o k(1)])
  qed
  have q: "(\<forall>v. newest_with (\<lambda>e. entry_event e \<noteq> None) (set xs) v \<longrightarrow> \<not> event_has (entry_event v) ReasonQuiet) \<longleftrightarrow>
      \<not> event_has (entry_event (xs ! k)) ReasonQuiet"
  proof
    show "\<forall>v. newest_with (\<lambda>e. entry_event e \<noteq> None) (set xs) v \<longrightarrow> \<not> event_has (entry_event v) ReasonQuiet \<Longrightarrow>
        \<not> event_has (entry_event (xs ! k)) ReasonQuiet"
      using nw [OF k(1)] by blast
  next
    assume a: "\<not> event_has (entry_event (xs ! k)) ReasonQuiet"
    show "\<forall>v. newest_with (\<lambda>e. entry_event e \<noteq> None) (set xs) v \<longrightarrow> \<not> event_has (entry_event v) ReasonQuiet"
    proof (intro allI impI)
      fix v assume v: "newest_with (\<lambda>e. entry_event e \<noteq> None) (set xs) v"
      then obtain j where "j < length xs" "v = xs ! j" unfolding newest_with_def in_set_conv_nth by blast
      then show "\<not> event_has (entry_event v) ReasonQuiet" using v nw a by simp
    qed
  qed
  have e: "(\<forall>e\<in>set xs. entry_event e \<noteq> None \<longrightarrow> entry_time e < entry_time (xs ! i)) \<longleftrightarrow> k < i"
  proof -
    have "(\<forall>e\<in>set xs. entry_event e \<noteq> None \<longrightarrow> entry_time e < entry_time (xs ! i)) \<longleftrightarrow>
        (\<forall>j<length xs. entry_event (xs ! j) \<noteq> None \<longrightarrow> j < i)"
      using lt [OF _ i] by (simp add: all_set_conv_all_nth)
    also have "\<dots> \<longleftrightarrow> k < i"
    proof
      assume "k < i"
      moreover have "entry_event (xs ! j) \<noteq> None \<Longrightarrow> j < length xs \<Longrightarrow> j \<le> k" for j using later [of j] by fastforce
      ultimately show "\<forall>j<length xs. entry_event (xs ! j) \<noteq> None \<longrightarrow> j < i" by (meson le_less_trans)
    qed (use k in blast)
    finally show ?thesis .
  qed
  have s: "(\<forall>e\<in>set xs. entry_time e < entry_time (xs ! i) \<longrightarrow>
      (\<exists>v\<in>set xs. entry_time e \<le> entry_time v \<and> entry_time v < entry_time (xs ! i) \<and> entry_event v \<noteq> None)) \<longleftrightarrow>
      (\<forall>j<i. \<exists>m. j \<le> m \<and> m < i \<and> entry_event (xs ! m) \<noteq> None)"
  proof -
    have "(\<exists>v\<in>set xs. entry_time (xs ! j) \<le> entry_time v \<and> entry_time v < entry_time (xs ! i) \<and> entry_event v \<noteq> None) \<longleftrightarrow>
        (\<exists>m. j \<le> m \<and> m < i \<and> entry_event (xs ! m) \<noteq> None)" if "j < length xs" for j
    proof -
      have "(\<exists>v\<in>set xs. entry_time (xs ! j) \<le> entry_time v \<and> entry_time v < entry_time (xs ! i) \<and> entry_event v \<noteq> None) \<longleftrightarrow>
          (\<exists>m<length xs. j \<le> m \<and> m < i \<and> entry_event (xs ! m) \<noteq> None)"
        using lt [OF _ i] le [OF that] by (auto simp: in_set_conv_nth Bex_def)
      also have "\<dots> \<longleftrightarrow> (\<exists>m. j \<le> m \<and> m < i \<and> entry_event (xs ! m) \<noteq> None)" using i by (meson less_trans)
      finally show ?thesis .
    qed
    then have "(\<forall>e\<in>set xs. entry_time e < entry_time (xs ! i) \<longrightarrow>
        (\<exists>v\<in>set xs. entry_time e \<le> entry_time v \<and> entry_time v < entry_time (xs ! i) \<and> entry_event v \<noteq> None)) \<longleftrightarrow>
        (\<forall>j<length xs. j < i \<longrightarrow> (\<exists>m. j \<le> m \<and> m < i \<and> entry_event (xs ! m) \<noteq> None))"
      using lt [OF _ i] by (simp add: all_set_conv_all_nth)
    then show ?thesis using i by (meson less_trans)
  qed
  have "k < i \<Longrightarrow> (\<forall>j<i. \<exists>m. j \<le> m \<and> m < i \<and> entry_event (xs ! m) \<noteq> None) \<longleftrightarrow> i = k + 1"
  proof
    assume "k < i" and a: "\<forall>j<i. \<exists>m. j \<le> m \<and> m < i \<and> entry_event (xs ! m) \<noteq> None"
    then obtain m where m: "i - 1 \<le> m" "m < i" "entry_event (xs ! m) \<noteq> None" by (metis diff_less less_nat_zero_code not_gr_zero zero_less_one)
    then have "\<not> k < m" using later [of m] i by auto
    then show "i = k + 1" using m \<open>k < i\<close> by linarith
  next
    assume "i = k + 1"
    then show "\<forall>j<i. \<exists>m. j \<le> m \<and> m < i \<and> entry_event (xs ! m) \<noteq> None" using k(2) by (metis less_Suc_eq_le Suc_eq_plus1 lessI)
  qed
  then show ?thesis unfolding opens_quiet_stretch_def q e s using i by auto
qed

lemma quiet_start_opens:
  assumes o: "in_order xs" and i: "i < length xs"
  shows "quiet_start xs = Some i \<longleftrightarrow> opens_quiet_stretch (set xs) (xs ! i)"
proof (cases "last_where (\<lambda>e. entry_event e \<noteq> None) xs")
  case None
  then have n: "entry_event (xs ! j) = None" if "j < length xs" for j
    using that by (auto simp: last_where_def find_rev_upt_None)
  have "quiet_start xs = Some i \<longleftrightarrow> i = 0" using None i by (auto simp: quiet_start_def)
  then show ?thesis using opens_without_events [OF o i n] by simp
next
  case (Some k)
  then have k: "k < length xs" "entry_event (xs ! k) \<noteq> None"
    and later: "\<And>j. k < j \<Longrightarrow> j < length xs \<Longrightarrow> entry_event (xs ! j) = None"
    by (auto simp: last_where_def find_rev_upt_Some)
  have "quiet_start xs = Some i \<longleftrightarrow> i = k + 1 \<and> \<not> event_has (entry_event (xs ! k)) ReasonQuiet"
    using Some i by (auto simp: quiet_start_def)
  then show ?thesis using opens_after_event [OF o i k later] by simp
qed


lemma time_sub_le_iff: "min_duration \<le> d \<Longrightarrow> d < max_duration \<Longrightarrow> time_sub t u \<le> d \<longleftrightarrow> t - u \<le> d"
  by (auto simp: time_sub_def)

lemma retain_bounds:
  "min_duration \<le> retain_events" "retain_events < max_duration" "min_duration \<le> retain_last_update"
  "retain_last_update < max_duration" "min_duration \<le> retain_app" "retain_app < max_duration"
  by (simp_all add: retain_events_def retain_last_update_def retain_app_def time_simps)

lemma kept_is_needed:
  assumes o: "in_order xs" and i: "i < length xs"
  shows "kept_at xs now i \<longleftrightarrow> needed (set xs) now (xs ! i)"
proof -
  have sym: "Some i = x \<longleftrightarrow> x = Some i" for x :: "nat option" by auto
  show ?thesis
    unfolding kept_at_def needed_def event_within_def Let_def sym time_sub_le_iff [OF retain_bounds(3,4)] last_where_newest [OF o i] newest_at_end [OF o i]
      quiet_start_opens [OF o i] time_sub_le_iff [OF retain_bounds(5,6)] time_sub_le_iff [OF retain_bounds(1,2)]
    by blast
qed

lemma map_filter_nth: "map (\<lambda>i. f (xs ! i)) (filter (\<lambda>i. Q (xs ! i)) [0..<length xs]) = map f (filter Q xs)"
proof -
  have "map f (filter Q xs) = map f (filter Q (map ((!) xs) [0..<length xs]))" by (simp add: map_nth)
  then show ?thesis by (simp add: filter_map o_def)
qed

lemma prune_filter:
  assumes "one_per_second es"
  shows "retention_prune es now = map se_member (filter (\<lambda>m. \<not> needed (ring_of es) now m) (sorted_members es))"
proof -
  let ?xs = "sorted_members es"
  have "filter (\<lambda>i. \<not> kept_at ?xs now i) [0..<length ?xs] =
      filter (\<lambda>i. \<not> needed (ring_of es) now (?xs ! i)) [0..<length ?xs]"
    using kept_is_needed [OF sorted_members_in_order [OF assms], of _ now] by (intro filter_cong) simp_all
  then show ?thesis by (simp only: retention_prune_def Let_def map_filter_nth [where Q = "\<lambda>m. \<not> needed (ring_of es) now m"])
qed

lemma in_order_filter: "in_order xs \<Longrightarrow> in_order (filter P xs)"
  by (rule sorted_wrt_filter)

text \<open>
  C21: The prune deletes exactly the samples the history does not need, the oldest first: for any ring with
  at most one sample a second, whatever the order of the listing, what is deleted is every sample that
  is neither the newest, nor the newest evaluated, nor still waiting for its boot, nor the start of a
  quiet stretch that has no restore point yet, nor the point of an event of the last five days, nor of
  the latest update within fourteen days, nor held by its app within seven days, nor put there from the
  backup within five; so no event a household can still see loses the point that undoes it.\<close>
theorem prune_deletes_what_is_not_needed:
  assumes "one_per_second es"
  shows "\<exists>ms. retention_prune es now = map se_member ms \<and> in_order ms \<and>
    set ms = {m \<in> ring_of es. \<not> needed (ring_of es) now m}"
  using prune_filter [OF assms, of now] in_order_filter [OF sorted_members_in_order [OF assms]]
  by (intro exI [of _ "filter (\<lambda>m. \<not> needed (ring_of es) now m) (sorted_members es)"]) auto


section \<open>Where quiet time lands\<close>

lemma last_where_split:
  assumes "P v" and "\<forall>e\<in>set post. \<not> P e"
  shows "last_where P (pre @ v # post) = Some (length pre)"
  using assms by (auto simp: last_where_def find_rev_upt_Some nth_append nth_Cons' less_Suc_eq_0_disj)

lemma last_where_none: "\<forall>e\<in>set xs. \<not> P e \<Longrightarrow> last_where P xs = None"
  by (simp add: last_where_def find_rev_upt_None)

lemma split_at_last:
  obtains "\<forall>e\<in>set xs. \<not> P e" | pre v post where "xs = pre @ v # post" "P v" "\<forall>e\<in>set post. \<not> P e"
  using split_list_last_prop_iff [of xs P] by blast

text \<open>The decision, on the samples taken before the new one, by elements instead of positions.\<close>

definition quiet_choice :: "snapshot_entry list \<Rightarrow> time \<Rightarrow> snapshot_entry option" where
  "quiet_choice before at =
     (if before = [] then None
      else
        (case quiet_start before of
           Some s \<Rightarrow> (if quiet_after \<le> time_sub at (entry_time (before ! s)) then Some (before ! s) else None)
         | None \<Rightarrow>
             (if entry_event (last before) \<noteq> None then None
              else
                (case last_where (\<lambda>e. event_has (entry_event e) ReasonQuiet) before of
                   None \<Rightarrow> None
                 | Some i \<Rightarrow>
                     (if quiet_every \<le> time_sub at (entry_time (before ! i)) then Some (last before) else None)))))"

lemma quiet_point_choice:
  "quiet_point es member =
     (case member_time member of
        None \<Rightarrow> None
      | Some at \<Rightarrow> quiet_choice (filter (\<lambda>e. se_member e \<noteq> member \<and> entry_time e < at) (sorted_members es)) at)"
  by (simp add: quiet_point_def quiet_choice_def Let_def split: option.split)

lemma event_has_Some: "event_has e k \<Longrightarrow> e \<noteq> None"
  by (auto simp: event_has_def split: option.splits)

lemma choice_without_events:
  assumes "\<forall>e\<in>set xs. entry_event e = None" and "xs \<noteq> []"
  shows "quiet_choice xs at = (if quiet_after \<le> time_sub at (entry_time (hd xs)) then Some (hd xs) else None)"
  using assms last_where_none [of xs "\<lambda>e. entry_event e \<noteq> None"]
  by (simp add: quiet_choice_def quiet_start_def hd_conv_nth)

lemma choice_after_event:
  assumes v: "entry_event v \<noteq> None" and post: "\<forall>e\<in>set post. entry_event e = None"
  shows "quiet_choice (pre @ v # post) at =
    (if post = [] then None
     else if event_has (entry_event v) ReasonQuiet then
       (if quiet_every \<le> time_sub at (entry_time v) then Some (last post) else None)
     else (if quiet_after \<le> time_sub at (entry_time (hd post)) then Some (hd post) else None))"
proof -
  have lw: "last_where (\<lambda>e. entry_event e \<noteq> None) (pre @ v # post) = Some (length pre)"
    using v post by (intro last_where_split) simp_all
  show ?thesis
  proof (cases "post = [] \<or> \<not> event_has (entry_event v) ReasonQuiet")
    case True
    then show ?thesis
      using v lw by (auto simp: quiet_choice_def quiet_start_def nth_append hd_conv_nth)
  next
    case False
    moreover have "last_where (\<lambda>e. event_has (entry_event e) ReasonQuiet) (pre @ v # post) = Some (length pre)"
      using False post event_has_Some by (intro last_where_split) (auto dest: event_has_Some)
    moreover have "last (pre @ v # post) = last post" "entry_event (last post) = None" using False post by simp_all
    ultimately show ?thesis using lw by (simp add: quiet_choice_def quiet_start_def)
  qed
qed

lemma quiet_choice_free:
  assumes "quiet_choice xs at = Some p"
  shows "p \<in> set xs \<and> entry_event p = None"
proof (cases rule: split_at_last [of xs "\<lambda>e. entry_event e \<noteq> None"])
  case 1
  then have "xs \<noteq> []" using assms by (auto simp: quiet_choice_def)
  then show ?thesis using assms 1 choice_without_events [of xs at] by (auto split: if_splits)
next
  case (2 pre v post)
  then have "quiet_choice xs at = Some p \<Longrightarrow> post \<noteq> [] \<and> p \<in> set post"
    using choice_after_event [of v post pre at] by (auto split: if_splits)
  then show ?thesis using assms 2 by auto
qed

text \<open>
  Quiet time is never recorded on an event, nor on the sample that is being evaluated: the restore
  point a quiet evaluation picks is a sample of the ring taken strictly before the one it evaluates, and
  it carries no event; so what is found at the next sample, which lands on this one, can never share its
  record with quiet time.\<close>
lemma quiet_point_is_free:
  assumes "quiet_point es member = Some p"
  shows "\<exists>at. member_time member = Some at \<and> p \<in> ring_of es \<and> se_member p \<noteq> member \<and> entry_time p < at \<and>
    entry_event p = None"
proof -
  obtain at where "member_time member = Some at"
    "quiet_choice (filter (\<lambda>e. se_member e \<noteq> member \<and> entry_time e < at) (sorted_members es)) at = Some p"
    using assms by (auto simp: quiet_point_choice split: option.splits)
  then show ?thesis using quiet_choice_free by fastforce
qed


text \<open>
  What the prune of a ring leaves for the next quiet evaluation: the same answer, as long as the newest
  event is one the prune keeps.\<close>

lemma choice_filter:
  assumes last: "xs \<noteq> [] \<Longrightarrow> K (last xs)"
    and opens: "\<And>i. quiet_start xs = Some i \<Longrightarrow> K (xs ! i)"
    and newest: "\<And>v pre post. xs = pre @ v # post \<Longrightarrow> entry_event v \<noteq> None \<Longrightarrow> \<forall>e\<in>set post. entry_event e = None \<Longrightarrow> K v"
  shows "quiet_choice (filter K xs) at = quiet_choice xs at"
proof (cases rule: split_at_last [of xs "\<lambda>e. entry_event e \<noteq> None"])
  case 1
  show ?thesis
  proof (cases xs)
    case (Cons x ys)
    then have "quiet_start xs = Some 0" using 1 last_where_none [of xs "\<lambda>e. entry_event e \<noteq> None"] by (simp add: quiet_start_def)
    then have "K x" using opens [of 0] Cons by simp
    then show ?thesis
      using 1 Cons choice_without_events [of xs at] choice_without_events [of "filter K xs" at] by simp
  qed simp
next
  case (2 pre v post)
  then have v: "K v" "entry_event v \<noteq> None" and p: "\<forall>e\<in>set post. entry_event e = None" using newest by blast+
  have f: "filter K xs = filter K pre @ v # filter K post" "\<forall>e\<in>set (filter K post). entry_event e = None"
    using 2 v p by simp_all
  note choice = choice_after_event [OF v(2) p, of pre at] choice_after_event [OF v(2) f(2), of "filter K pre" at]
  show ?thesis
  proof (cases "post = []")
    case True
    then show ?thesis using choice f 2(1) by simp
  next
    case False
    have kl: "K (last post)" using last False 2(1) by simp
    obtain ps l where "post = ps @ [l]" using False by (cases post rule: rev_cases) auto
    then have ne: "filter K post \<noteq> []" "last (filter K post) = last post" using kl by simp_all
    show ?thesis
    proof (cases "event_has (entry_event v) ReasonQuiet")
      case True
      then show ?thesis using choice f(1) 2(1) ne False by simp
    next
      case nq: False
      have "last_where (\<lambda>e. entry_event e \<noteq> None) xs = Some (length pre)"
        unfolding 2(1) using v p by (intro last_where_split) simp_all
      then have "quiet_start xs = Some (length pre + 1)"
        using nq False 2(1) by (simp add: quiet_start_def nth_append)
      then have "K (hd post)" using opens 2(1) False by (fastforce simp: nth_append hd_conv_nth)
      then have "hd (filter K post) = hd post" using False by (cases post) simp_all
      then show ?thesis using choice f(1) 2(1) ne False nq by simp
    qed
  qed
qed

text \<open>
  Pruning never changes what quiet time will say: as long as the newest event of a ring is less than
  five days old, the next sample, taken after all the others, gets the same answer from the ring that is
  left as it would have got from the whole ring: the same restore point, or none.\<close>
lemma prune_leaves_quiet_time_alone:
  assumes "one_per_second es" and "distinct (map se_member es)"
    and "\<forall>v. newest_with (\<lambda>e. entry_event e \<noteq> None) (ring_of es) v \<longrightarrow> event_within retain_events now v"
    and "member_time member = Some at" and "\<forall>e\<in>ring_of es. entry_time e < at"
  shows "quiet_point (filter (\<lambda>e. se_member e \<notin> set (retention_prune es now)) es) member = quiet_point es member"
proof -
  let ?xs = "sorted_members es"
  let ?K = "\<lambda>m. needed (ring_of es) now m"
  have o: "in_order ?xs" by (rule sorted_members_in_order [OF assms(1)])
  have inj: "inj_on se_member (ring_of es)" using assms(2) by (auto simp: distinct_map ring_of_def inj_on_def)
  have "se_member e \<notin> set (retention_prune es now) \<longleftrightarrow> ?K e" if "e \<in> ring_of es" for e
    using that inj prune_filter [OF assms(1), of now] by (auto simp: inj_on_def)
  then have kept: "(member_time (se_member e) \<noteq> None \<and> se_member e \<notin> set (retention_prune es now)) =
      (?K e \<and> member_time (se_member e) \<noteq> None)" if "e \<in> set es" for e
    using that by (auto simp: ring_of_def)
  have ys: "sorted_members (filter (\<lambda>e. se_member e \<notin> set (retention_prune es now)) es) = filter ?K ?xs"
    unfolding sorted_members_def filter_filter filter_sort [symmetric]
  proof (rule filter_cong [OF refl])
    fix e assume "e \<in> set (sort_key entry_time es)"
    then have "e \<in> set es" by simp
    then show "(se_member e \<notin> set (retention_prune es now) \<and> member_time (se_member e) \<noteq> None) =
        (member_time (se_member e) \<noteq> None \<and> ?K e)" using kept by blast
  qed
  have nm: "se_member e \<noteq> member" if "e \<in> ring_of es" for e
    using assms(4,5) that by (auto simp: entry_time_def)
  have all: "filter (\<lambda>e. se_member e \<noteq> member \<and> entry_time e < at) xs = xs" if "set xs \<subseteq> ring_of es" for xs
    using that nm assms(5) by (auto simp: filter_id_conv)
  have "quiet_choice (filter ?K ?xs) at = quiet_choice ?xs at"
  proof (rule choice_filter)
    assume "?xs \<noteq> []"
    then show "?K (last ?xs)"
      using newest_at_end [OF o, of "length ?xs - 1"] by (simp add: needed_def last_conv_nth)
  next
    fix i assume "quiet_start ?xs = Some i"
    moreover have "i < length ?xs" using calculation by (auto simp: quiet_start_def last_where_def find_rev_upt_Some split: option.splits if_splits)
    ultimately show "?K (?xs ! i)" using quiet_start_opens [OF o] by (simp add: needed_def)
  next
    fix v pre post
    assume x: "?xs = pre @ v # post" "entry_event v \<noteq> None" "\<forall>e\<in>set post. entry_event e = None"
    then have "last_where (\<lambda>e. entry_event e \<noteq> None) ?xs = Some (length pre)" by (simp add: last_where_split)
    then have "newest_with (\<lambda>e. entry_event e \<noteq> None) (ring_of es) v"
      using last_where_newest [OF o, of "length pre" "\<lambda>e. entry_event e \<noteq> None"] x(1)
      by (simp only: set_sorted_members [symmetric]) simp
    then show "?K v" using assms(3) by (simp add: needed_def)
  qed
  then show ?thesis using ys all [of ?xs] all [of "filter ?K ?xs"] by (simp add: quiet_point_choice assms(4))
qed



section \<open>Undo back to here\<close>

lemma rows_points: "map hr_point (history_rows show_time later es) = filter (\<lambda>e. entry_event e \<noteq> None) es"
  by (induction es arbitrary: later) (auto split: option.split)

lemma rows_say:
  "r \<in> set (history_rows show_time later es) \<Longrightarrow>
   entry_event (hr_point r) = Some \<lparr>ev_at = hr_at r, ev_reasons = hr_reasons r\<rparr>"
  by (induction es arbitrary: later) (auto split: option.splits)

text \<open>
  Undoing a row undoes exactly the rows above it: the rows of a history, of any ring with at most one
  sample a second, are the events of the ring, each once with its creation time and its reasons, and
  their restore points go strictly back in time from each row to every row below it.\<close>
lemma history_is_ordered_by_restore_point:
  assumes "one_per_second es"
  shows "sorted_wrt (\<lambda>a b. entry_time (hr_point b) < entry_time (hr_point a)) (history show_time es) \<and>
    hr_point ` set (history show_time es) = {e \<in> ring_of es. entry_event e \<noteq> None} \<and>
    (\<forall>r\<in>set (history show_time es). entry_event (hr_point r) = Some \<lparr>ev_at = hr_at r, ev_reasons = hr_reasons r\<rparr>)"
proof -
  have p: "map hr_point (history show_time es) = filter (\<lambda>e. entry_event e \<noteq> None) (rev (sorted_members es))"
    by (simp add: history_def rows_points)
  have "sorted_wrt (\<lambda>a b. entry_time b < entry_time a) (rev (sorted_members es))"
    using sorted_members_in_order [OF assms] by (simp add: sorted_wrt_rev)
  then have "sorted_wrt (\<lambda>a b. entry_time b < entry_time a) (map hr_point (history show_time es))"
    unfolding p by (rule sorted_wrt_filter)
  moreover have "hr_point ` set (history show_time es) = {e \<in> ring_of es. entry_event e \<noteq> None}"
    using arg_cong [OF p, of set] by simp
  ultimately show ?thesis using rows_say by (auto simp: sorted_wrt_map history_def)
qed


section \<open>An example\<close>

definition example_sample :: "int \<Rightarrow> string" where
  "example_sample n = snapshot_member ''home-assistant'' TriggerClock ((1790000000 + n * 3600) * second)"

definition example_entry :: "int \<Rightarrow> ring_event option \<Rightarrow> snapshot_entry" where
  "example_entry n e =
     \<lparr>se_member = example_sample n,
      se_meta = \<lparr>sm_app = ''home-assistant'', sm_trigger = TriggerClock, sm_taken_at = (1790000000 + n * 3600) * second,
        sm_consistency = Quiesced, sm_manifest = [], sm_event = e, sm_pending = False, sm_health = Healthy, sm_resets = []\<rparr>,
      se_app = False\<rparr>"

definition example_update :: ring_event where
  "example_update = \<lparr>ev_at = 1790000000 * second, ev_reasons = [\<lparr>rs_kind = ReasonAppUpdate, rs_what = ''Updated to 2026.9.1''\<rparr>]\<rparr>"

definition example_ring :: "snapshot_entry list" where
  "example_ring = [example_entry 2 None, example_entry 0 (Some example_update), example_entry 3 None, example_entry 1 None]"

lemma example_sample_time:
  assumes "0 \<le> n" and "n < 1000000"
  shows "member_time (example_sample n) = Some ((1790000000 + n * 3600) * second)"
proof -
  have d: "(1790000000 + n * 3600) * second div second = 1790000000 + n * 3600" by (simp add: time_simps)
  have "0 \<le> (1790000000 + n * 3600) div 86400" "(1790000000 + n * 3600) div 86400 < 100000"
    using assms by (simp_all add: pos_imp_zdiv_nonneg_iff div_less_iff_less_mult)
  moreover have "days_before 10000 = 3652425" by (simp add: days_before_def)
  ultimately have "stampable ((1790000000 + n * 3600) * second)" unfolding stampable_def d by (simp add: zero_day_def)
  then show ?thesis
    using parse_snapshot_name [of "''home-assistant''" "(1790000000 + n * 3600) * second" TriggerClock] d
    by (simp add: member_time_def example_sample_def)
qed

lemma example_time: "0 \<le> n \<Longrightarrow> n < 1000000 \<Longrightarrow> entry_time (example_entry n e) = (1790000000 + n * 3600) * second"
  by (simp add: entry_time_def example_entry_def example_sample_time)

lemma example_member: "se_member (example_entry n e) = example_sample n" "entry_event (example_entry n e) = e"
  by (simp_all add: example_entry_def entry_event_def)

lemma example_samples_differ:
  assumes "0 \<le> n" "n < 1000000" "0 \<le> m" "m < 1000000"
  shows "example_sample n = example_sample m \<longleftrightarrow> n = m"
proof
  assume "example_sample n = example_sample m"
  then have "Some ((1790000000 + n * 3600) * second) = Some ((1790000000 + m * 3600) * second)"
    using example_sample_time [OF assms(1,2)] example_sample_time [OF assms(3,4)] by (simp only:)
  then show "n = m" by (simp add: second_def)
qed simp

lemma example_ring_of: "ring_of example_ring = set example_ring"
  by (auto simp: ring_of_def example_ring_def example_member example_sample_time)

lemma example_one_per_second: "one_per_second example_ring"
  by (simp add: one_per_second_def example_ring_def example_member example_sample_time example_time time_simps)

theorem prune_deletes_what_is_not_needed_witness:
  "\<exists>ms. retention_prune example_ring (1790020000 * second) = map se_member ms \<and> in_order ms \<and>
    set ms = {m \<in> ring_of example_ring. \<not> needed (ring_of example_ring) (1790020000 * second) m}"
  by (rule prune_deletes_what_is_not_needed [OF example_one_per_second])

lemma example_newest_event:
  "newest_with (\<lambda>e. entry_event e \<noteq> None) (ring_of example_ring) v \<Longrightarrow> v = example_entry 0 (Some example_update)"
  unfolding example_ring_of by (auto simp: newest_with_def example_ring_def example_member)

lemma quiet_point_is_free_example: "quiet_point example_ring (example_sample 9) = Some (example_entry 1 None)"
proof -
  let ?r = "[example_entry 0 (Some example_update), example_entry 1 None, example_entry 2 None, example_entry 3 None]"
  have s: "sorted_members example_ring = ?r"
    by (simp add: sorted_members_def example_ring_def example_member example_sample_time example_time time_simps)
  have f: "filter (\<lambda>e. se_member e \<noteq> example_sample 9 \<and> entry_time e < (1790000000 + 9 * 3600) * second) ?r = ?r"
    by (simp add: example_member example_samples_differ example_time time_simps)
  have "quiet_choice ?r ((1790000000 + 9 * 3600) * second) = Some (example_entry 1 None)"
    using choice_after_event [of "example_entry 0 (Some example_update)" "tl ?r" "[]"]
    by (simp add: example_member example_update_def event_has_def quiet_after_def example_time time_simps)
  then show ?thesis
    using example_sample_time [of 9] unfolding quiet_point_choice s by (simp only: f option.case)
qed

end
