(* ===== verification/Utf8.thy ===== *)
theory Utf8
  imports Prelude
begin

text \<open>
  Text as Go's \<open>range\<close> over a string reads it and \<open>strings.Builder.WriteRune\<close> writes it: a string is
  bytes, a rune is a code point, and a byte that starts no well-formed sequence reads as U+FFFD.
\<close>


section \<open>Runes\<close>

type_synonym rune = nat

definition byte :: "char \<Rightarrow> nat" where "byte c = of_char c"

definition rune_error :: rune where "rune_error = 65533"

definition between :: "nat \<Rightarrow> nat \<Rightarrow> nat \<Rightarrow> bool" where "between a b n \<longleftrightarrow> a \<le> n \<and> n \<le> b"

abbreviation continuation :: "nat \<Rightarrow> bool" where "continuation \<equiv> between 128 191"

text \<open>The least and the greatest second byte after a first byte of a longer sequence.\<close>

definition second_low :: "nat \<Rightarrow> nat" where
  "second_low b = (if b = 224 then 160 else if b = 240 then 144 else 128)"

definition second_high :: "nat \<Rightarrow> nat" where
  "second_high b = (if b = 237 then 159 else if b = 244 then 143 else 191)"

text \<open>The first rune of a byte list and how many bytes it takes.\<close>

definition decode_bytes :: "nat list \<Rightarrow> rune \<times> nat" where
  "decode_bytes bs =
     (case bs of
        [] \<Rightarrow> (rune_error, 0)
      | a # r1 \<Rightarrow>
          (if a < 128 then (a, 1)
           else if between 194 223 a then
             (case r1 of
                b # _ \<Rightarrow> if continuation b then ((a - 192) * 64 + (b - 128), 2) else (rune_error, 1)
              | _ \<Rightarrow> (rune_error, 1))
           else if between 224 239 a then
             (case r1 of
                b # c # _ \<Rightarrow>
                  if between (second_low a) (second_high a) b \<and> continuation c
                  then ((a - 224) * 4096 + (b - 128) * 64 + (c - 128), 3) else (rune_error, 1)
              | _ \<Rightarrow> (rune_error, 1))
           else if between 240 244 a then
             (case r1 of
                b # c # d # _ \<Rightarrow>
                  if between (second_low a) (second_high a) b \<and> continuation c \<and> continuation d
                  then ((a - 240) * 262144 + (b - 128) * 4096 + (c - 128) * 64 + (d - 128), 4)
                  else (rune_error, 1)
              | _ \<Rightarrow> (rune_error, 1))
           else (rune_error, 1)))"

definition valid_rune :: "rune \<Rightarrow> bool" where
  "valid_rune r \<longleftrightarrow> r < 1114112 \<and> \<not> between 55296 57343 r"

definition encode_bytes :: "rune \<Rightarrow> nat list" where
  "encode_bytes r0 =
     (let r = (if valid_rune r0 then r0 else rune_error)
      in if r < 128 then [r]
         else if r < 2048 then [192 + r div 64, 128 + r mod 64]
         else if r < 65536 then [224 + r div 4096, 128 + r div 64 mod 64, 128 + r mod 64]
         else [240 + r div 262144, 128 + r div 4096 mod 64, 128 + r div 64 mod 64, 128 + r mod 64])"

function runes_of_bytes :: "nat list \<Rightarrow> rune list" where
  "runes_of_bytes [] = []"
| "runes_of_bytes (b # bs) =
     (let (r, n) = decode_bytes (b # bs) in r # runes_of_bytes (drop (n - 1) bs))"
  by pat_completeness auto
termination by (relation "measure length") auto

definition runes :: "string \<Rightarrow> rune list" where "runes s = runes_of_bytes (map byte s)"

definition encode_rune :: "rune \<Rightarrow> string" where "encode_rune r = map char_of (encode_bytes r)"

definition write_runes :: "rune list \<Rightarrow> string" where "write_runes rs = concat (map encode_rune rs)"


section \<open>What is written reads back\<close>

lemma valid_rune_cases:
  assumes "valid_rune r"
  obtains (one) "r < 128"
    | (two) a b where "r = a * 64 + b" "b < 64" "2 \<le> a" "a < 32"
    | (three) a b c where "r = a * 4096 + b * 64 + c" "a < 16" "b < 64" "c < 64" "a = 0 \<longrightarrow> 32 \<le> b" "a = 13 \<longrightarrow> b < 32"
    | (four) a b c d where "r = a * 262144 + b * 4096 + c * 64 + d" "a < 5" "b < 64" "c < 64" "d < 64" "a = 0 \<longrightarrow> 16 \<le> b" "a = 4 \<longrightarrow> b < 16"
proof -
  obtain d q1 where d: "r = q1 * 64 + d" "d < 64" by (metis div_mult_mod_eq mod_less_divisor zero_less_numeral)
  obtain c q2 where c: "q1 = q2 * 64 + c" "c < 64" by (metis div_mult_mod_eq mod_less_divisor zero_less_numeral)
  obtain b q3 where b: "q2 = q3 * 64 + b" "b < 64" by (metis div_mult_mod_eq mod_less_divisor zero_less_numeral)
  have v: "r < 1114112" "r < 55296 \<or> 57343 < r" using assms by (auto simp: valid_rune_def between_def)
  consider "r < 128" | "128 \<le> r" "r < 2048" | "2048 \<le> r" "r < 65536" | "65536 \<le> r" by linarith
  then show thesis
  proof cases
    case 1 then show thesis by (rule one)
  next
    case 2 then show thesis using d by (intro two [of q1 d]) linarith+
  next
    case 3
    have "q2 < 16" "q2 = 0 \<longrightarrow> 32 \<le> c" "q2 = 13 \<longrightarrow> c < 32" using 3 v(2) d c by (auto; linarith)+
    then show thesis using d c by (intro three [of q2 c d]) (simp_all add: algebra_simps)
  next
    case 4
    have "q3 < 5" "q3 = 0 \<longrightarrow> 16 \<le> b" "q3 = 4 \<longrightarrow> b < 16" using 4 v(1) d c b by (auto; linarith)+
    then show thesis using d c b by (intro four [of q3 b c d]) (simp_all add: algebra_simps)
  qed
qed

lemma base64: "c < 64 \<Longrightarrow> (q * 64 + c) div 64 = (q :: nat)" "c < 64 \<Longrightarrow> (q * 64 + c) mod 64 = (c :: nat)"
  by auto

lemma div_4096: "r div 4096 = r div 64 div (64 :: nat)" "r div 262144 = r div 64 div 64 div (64 :: nat)"
  by (simp_all flip: div_mult2_eq)

lemma decode_encode:
  assumes "valid_rune r"
  shows "decode_bytes (encode_bytes r @ bs) = (r, length (encode_bytes r))"
  using assms
proof (cases r rule: valid_rune_cases)
  case one
  then show ?thesis using assms by (simp add: encode_bytes_def decode_bytes_def)
next
  case (two a b)
  then have "r div 64 = a" "r mod 64 = b" "\<not> r < 128" "r < 2048" by auto
  then have "encode_bytes r = [192 + a, 128 + b]" using assms by (simp add: encode_bytes_def)
  then show ?thesis using two by (simp add: decode_bytes_def between_def)
next
  case (three a b c)
  have "r = (a * 64 + b) * 64 + c" using three(1) by simp
  then have "r mod 64 = c" "r div 64 = a * 64 + b" using three(4) by (simp_all only: base64)
  moreover have "r div 4096 = a" by (simp only: div_4096 calculation base64 three(3))
  moreover have "2048 \<le> r" "r < 65536" using three by (auto; linarith)+
  ultimately have "encode_bytes r = [224 + a, 128 + b, 128 + c]" using assms base64(2) [OF three(3), of a] by (simp add: encode_bytes_def)
  then show ?thesis using three by (auto simp: decode_bytes_def between_def second_low_def second_high_def)
next
  case (four a b c d)
  have "r = ((a * 64 + b) * 64 + c) * 64 + d" using four(1) by simp
  then have "r mod 64 = d" "r div 64 = (a * 64 + b) * 64 + c" using four(5) by (simp_all only: base64)
  moreover have "r div 4096 = a * 64 + b" by (simp only: div_4096 calculation base64 four(4))
  moreover have "r div 262144 = a" by (simp only: div_4096 calculation(2) base64 four(3,4))
  moreover have "65536 \<le> r" using four by (auto; linarith)
  ultimately have "encode_bytes r = [240 + a, 128 + b, 128 + c, 128 + d]"
    using assms base64(2) [OF four(4), of "a * 64 + b"] base64(2) [OF four(3), of a] by (simp add: encode_bytes_def)
  then show ?thesis using four by (auto simp: decode_bytes_def between_def second_low_def second_high_def)
qed

lemma encode_bytes_small: "list_all (\<lambda>b. b < 256) (encode_bytes r)"
proof -
  define r' where "r' = (if valid_rune r then r else rune_error)"
  have "r' < 1114112" by (auto simp: r'_def valid_rune_def rune_error_def)
  then have "r' div 64 < 17408" "r' div 4096 < 272" "r' div 262144 < 5" by auto
  moreover have "r' < 2048 \<Longrightarrow> r' div 64 < 32" "r' < 65536 \<Longrightarrow> r' div 4096 < 16" by auto
  moreover have "x mod 64 < 64" for x :: nat by simp
  ultimately show ?thesis
    unfolding encode_bytes_def Let_def r'_def [symmetric] by (auto simp: trans_less_add2 intro: less_trans [of _ 64] less_le_trans [of _ 64])
qed

lemma encode_bytes_length: "0 < length (encode_bytes r)" "length (encode_bytes r) \<le> 4"
  by (simp_all add: encode_bytes_def Let_def)

lemma map_byte_char: "list_all (\<lambda>b. b < 256) bs \<Longrightarrow> map byte (map char_of bs) = bs"
  by (induction bs) (simp_all add: byte_def)

lemma map_byte_encode: "map byte (encode_rune r) = encode_bytes r"
  unfolding encode_rune_def by (rule map_byte_char [OF encode_bytes_small])

lemma runes_of_encoded: "valid_rune r \<Longrightarrow> runes_of_bytes (encode_bytes r @ bs) = r # runes_of_bytes bs"
proof -
  assume r: "valid_rune r"
  obtain b rest where e: "encode_bytes r = b # rest" using encode_bytes_length(1) [of r] by (cases "encode_bytes r") auto
  show ?thesis using decode_encode [OF r, of bs] by (simp add: e)
qed

lemma runes_write: "list_all valid_rune rs \<Longrightarrow> runes (write_runes rs) = rs"
proof (induction rs)
  case (Cons r rs)
  then show ?case using runes_of_encoded [of r "map byte (write_runes rs)"]
    by (simp add: runes_def write_runes_def map_byte_encode)
qed (simp add: runes_def write_runes_def)

lemma valid_two: "between 194 223 a \<Longrightarrow> continuation b \<Longrightarrow> valid_rune ((a - 192) * 64 + (b - 128))"
proof -
  assume "between 194 223 a" "continuation b"
  then have "a - 192 < 32" "b - 128 < 64" by (auto simp: between_def)
  then show ?thesis by (simp add: valid_rune_def between_def)
qed

lemma valid_three:
  assumes "between 224 239 a" "between (second_low a) (second_high a) b" "continuation c"
  shows "valid_rune ((a - 224) * 4096 + (b - 128) * 64 + (c - 128))"
proof -
  define x y z where "x = a - 224" and "y = b - 128" and "z = c - 128"
  have f: "x < 16" "z < 64" "y < 64" "x = 13 \<longrightarrow> y < 32"
    using assms by (auto simp: between_def x_def y_def z_def second_low_def second_high_def split: if_splits)
  consider "x < 13" | "x = 13" "y < 32" | "13 < x" using f(4) by linarith
  then have "x * 4096 + y * 64 + z < 55296 \<or> 57343 < x * 4096 + y * 64 + z"
  proof cases
    case 1
    then have "x \<le> 12" by simp
    then show ?thesis using f(2,3) by linarith
  qed (use f(2,3) in linarith)+
  moreover have "x * 4096 + y * 64 + z < 65536" using f(1,2,3) by linarith
  ultimately show ?thesis by (auto simp: valid_rune_def between_def x_def y_def z_def)
qed

lemma valid_four:
  assumes "between 240 244 a" "between (second_low a) (second_high a) b" "continuation c" "continuation d"
  shows "valid_rune ((a - 240) * 262144 + (b - 128) * 4096 + (c - 128) * 64 + (d - 128))"
proof -
  define x y z w where "x = a - 240" and "y = b - 128" and "z = c - 128" and "w = d - 128"
  have f: "x < 5" "z < 64" "y < 64" "w < 64" "x = 0 \<longrightarrow> 16 \<le> y" "x = 4 \<longrightarrow> y < 16"
    using assms by (auto simp: between_def x_def y_def z_def w_def second_low_def second_high_def split: if_splits)
  have "x * 262144 + y * 4096 + z * 64 + w < 1114112"
  proof (cases "x = 4")
    case True
    then have "y < 16" using f(6) by simp
    then show ?thesis using True f(2,4) by linarith
  next
    case False
    then have "x \<le> 3" using f(1) by simp
    then show ?thesis using f(2,3,4) by linarith
  qed
  moreover have "57343 < x * 262144 + y * 4096 + z * 64 + w"
  proof (cases "x = 0")
    case True
    then have "16 \<le> y" using f(5) by simp
    then show ?thesis by linarith
  qed simp
  ultimately show ?thesis by (simp add: valid_rune_def between_def x_def y_def z_def w_def)
qed

lemma decode_valid: "valid_rune (fst (decode_bytes bs))"
proof -
  have "valid_rune rune_error" by (simp add: valid_rune_def rune_error_def between_def)
  moreover have "a < 128 \<Longrightarrow> valid_rune a" for a by (simp add: valid_rune_def between_def)
  ultimately show ?thesis
    unfolding decode_bytes_def by (simp add: valid_two valid_three valid_four split: list.split)
qed

lemma runes_valid: "list_all valid_rune (runes s)"
proof -
  have "list_all valid_rune (runes_of_bytes bs)" for bs
    by (induction bs rule: runes_of_bytes.induct) (use decode_valid in \<open>auto split: prod.split simp: prod_eq_iff\<close>)
  then show ?thesis by (simp add: runes_def)
qed

text \<open>Text written from runes holds them and nothing else, cut where a rune ends.\<close>

lemma write_runes_append: "write_runes (a @ b) = write_runes a @ write_runes b"
  by (simp add: write_runes_def)

lemma encode_rune_length: "length (encode_rune r) \<le> 4"
  using encode_bytes_length(2) [of r] by (simp add: encode_rune_def)

end
