(* ===== verification/HassChanges.thy ===== *)
theory HassChanges
  imports Utf8
begin

text \<open>
  What a household did to Home Assistant between two samples (\<open>agent/hass/changes.go\<close>): the signals read
  out of a copy of its configuration directory, what changed between two of them, what Home Assistant
  set aside as undecodable, and the phrases a row of the history shows.

  A Go map is an association list whose first entry for a key counts; the code reads every map it
  goes through in the order of its keys, except where the result does not depend on the order.
  \<open>encoding/json\<close> is a parameter: what the decoder leaves in the fields the code declares.
\<close>


section \<open>The files of a volume\<close>

text \<open>\<open>ReadFile\<close>, \<open>ls -1\<close> and \<open>find -type f -name *.yaml\<close>, with the words of the output.\<close>

record volume =
  v_read :: "string \<Rightarrow> string option"
  v_ls :: "string \<Rightarrow> string list option"
  v_find_yaml :: "string \<Rightarrow> string list option"

type_synonym signals = "(string \<times> string) list"

definition sorted_keys :: "(string \<times> 'a) list \<Rightarrow> string list" where
  "sorted_keys m = sort (remdups (map fst m))"

definition signal_yaml :: "(string \<times> string) list" where
  "signal_yaml = [(''configuration.yaml'', ''Changed configuration''), (''automations.yaml'', ''Changed automations''),
     (''scripts.yaml'', ''Changed scripts''), (''scenes.yaml'', ''Changed scenes'')]"

definition custom_components :: string where "custom_components = ''custom_components''"
definition packages_dir :: string where "packages_dir = ''packages''"
definition config_entries :: string where "config_entries = ''.storage/core.config_entries''"
definition storage_dir :: string where "storage_dir = ''.storage''"
definition corrupt_mark :: string where "corrupt_mark = ''.corrupt.''"


section \<open>Strings\<close>

definition strip_prefix :: "string \<Rightarrow> string \<Rightarrow> string option" where
  "strip_prefix p s = (if prefix p s then Some (drop (length p) s) else None)"

definition first_index_of :: "string \<Rightarrow> string \<Rightarrow> nat option" where
  "first_index_of pat s = find (\<lambda>i. prefix pat (drop i s)) [0..<Suc (length s)]"

definition has_within :: "string \<Rightarrow> string \<Rightarrow> bool" where
  "has_within pat s = (first_index_of pat s \<noteq> None)"

definition cut_at :: "string \<Rightarrow> string \<Rightarrow> (string \<times> string) option" where
  "cut_at pat s = map_option (\<lambda>i. (take i s, drop (i + length pat) s)) (first_index_of pat s)"

definition is_control :: "rune \<Rightarrow> bool" where
  "is_control r \<longleftrightarrow> r < 32 \<or> between 127 159 r"

text \<open>Text that Home Assistant wrote, made fit for a terminal.\<close>

definition clean :: "string \<Rightarrow> string" where
  "clean s = foldl (\<lambda>b r. if is_control r \<or> 60 \<le> length b then b else b @ encode_rune r) [] (runes s)"


section \<open>The signals of a copy\<close>

definition corrupt_in :: "volume \<Rightarrow> string \<Rightarrow> string \<Rightarrow> string list" where
  "corrupt_in v dir sub =
     (case v_ls v (if sub = [] then dir else dir @ ''/'' @ sub) of
        None \<Rightarrow> []
      | Some names \<Rightarrow>
          map (\<lambda>n. (if sub = [] then [] else sub @ ''/'') @ n) (filter (has_within corrupt_mark) names))"

definition corrupt :: "volume \<Rightarrow> string \<Rightarrow> string list" where
  "corrupt v dir = corrupt_in v dir [] @ corrupt_in v dir storage_dir"

definition read_signal :: "volume \<Rightarrow> string \<Rightarrow> string \<Rightarrow> signals \<Rightarrow> signals" where
  "read_signal v dir rel out = (case v_read v (dir @ ''/'' @ rel) of None \<Rightarrow> out | Some b \<Rightarrow> (rel, b) # out)"

definition signals_of :: "volume \<Rightarrow> string \<Rightarrow> signals" where
  "signals_of v dir =
     (let yaml = fold (read_signal v dir) (map fst signal_yaml) [];
          entries = read_signal v dir config_entries yaml;
          components = (case v_ls v (dir @ ''/'' @ custom_components) of
             None \<Rightarrow> entries
           | Some ds \<Rightarrow> fold (\<lambda>d. read_signal v dir (custom_components @ ''/'' @ d @ ''/manifest.json'')) ds entries);
          packages = (case v_find_yaml v (dir @ ''/'' @ packages_dir) of
             None \<Rightarrow> components
           | Some ps \<Rightarrow>
               fold (\<lambda>p out. case strip_prefix (dir @ ''/'') p of None \<Rightarrow> out | Some rel \<Rightarrow> read_signal v dir rel out)
                 ps components)
      in fold (\<lambda>rel out. (rel, []) # out) (corrupt v dir) packages)"


section \<open>Resets\<close>

definition resets :: "signals \<Rightarrow> signals \<Rightarrow> string list" where
  "resets prev next = filter (\<lambda>rel. map_of prev rel = None \<and> has_within corrupt_mark rel) (sorted_keys next)"

definition reset_what :: "string \<Rightarrow> string" where
  "reset_what name =
     (if name = ''core.config_entries'' then ''integrations''
      else if name = ''core.entity_registry'' then ''entities''
      else if name = ''auth'' then ''users and logins''
      else if name = ''home-assistant_v2.db'' then ''history''
      else [])"

definition lost_word :: "string \<Rightarrow> string option" where
  "lost_word rel =
     (case cut_at corrupt_mark (trim_prefix (storage_dir @ ''/'') rel) of
        None \<Rightarrow> None
      | Some (name, _) \<Rightarrow>
          (if CHR ''/'' \<in> set name then None
           else Some (if reset_what name = [] then clean name else reset_what name)))"

definition lost_words :: "string list \<Rightarrow> string list" where
  "lost_words rels =
     foldl (\<lambda>lost rel. case lost_word rel of None \<Rightarrow> lost | Some w \<Rightarrow> if w \<in> set lost then lost else lost @ [w])
       [] (sort rels)"

definition reset_phrase :: "string list \<Rightarrow> string" where
  "reset_phrase rels =
     (let lost = lost_words rels
      in if lost = [] then []
         else if length lost = 1
         then ''Home Assistant could not read its '' @ hd lost @ '' and started without them''
         else ''Home Assistant could not read its '' @ join_with '', '' (butlast lost) @ '' and '' @
              last lost @ '' and started without them'')"


section \<open>Changes\<close>

text \<open>
  \<open>custom_json\<close> is what the decoder leaves in a custom integration's name and version,
  \<open>entries_json\<close> the domains and titles of the configured integrations, or None for a file that does
  not parse.
\<close>

record hass_json =
  custom_json :: "string \<Rightarrow> string \<times> string"
  entries_json :: "string \<Rightarrow> (string \<times> string) list option"

definition customs :: "hass_json \<Rightarrow> signals \<Rightarrow> (string \<times> (string \<times> string)) list" where
  "customs j sig =
     List.map_filter (\<lambda>rel. case strip_prefix (custom_components @ ''/'') rel of
        None \<Rightarrow> None
      | Some rest \<Rightarrow>
          (let domain = takeWhile (\<lambda>c. c \<noteq> CHR ''/'') rest;
               (name, version) = custom_json j (the (map_of sig rel))
           in Some (domain, (clean (if name = [] then domain else name), clean version)))) (sorted_keys sig)"

definition integrations :: "hass_json \<Rightarrow> string \<Rightarrow> (string \<times> string) list" where
  "integrations j b =
     (case entries_json j b of
        None \<Rightarrow> []
      | Some es \<Rightarrow>
          foldl (\<lambda>out (domain, title).
             if domain = [] \<or> map_of out domain \<noteq> None then out
             else out @ [(domain, clean (if title = [] then domain else title))]) [] es)"

definition same_signal :: "signals \<Rightarrow> signals \<Rightarrow> string \<Rightarrow> bool" where
  "same_signal a b rel = (map_of a rel = map_of b rel)"

definition append_group :: "string list \<Rightarrow> string \<Rightarrow> string list \<Rightarrow> string \<Rightarrow> string \<Rightarrow> string list" where
  "append_group out verb names plural suf =
     (case names of
        [] \<Rightarrow> out
      | [n] \<Rightarrow> out @ [verb @ '' '' @ n @ suf]
      | [n, m] \<Rightarrow> out @ [verb @ '' '' @ n @ '' and '' @ m @ suf]
      | _ \<Rightarrow> out @ [verb @ '' '' @ dec_of_nat (length names) @ '' '' @ plural @ suf])"

definition signal_bytes :: "signals \<Rightarrow> string \<Rightarrow> string" where
  "signal_bytes sig rel = (case map_of sig rel of None \<Rightarrow> [] | Some b \<Rightarrow> b)"

definition new_keys :: "(string \<times> 'a) list \<Rightarrow> (string \<times> 'a) list \<Rightarrow> string list" where
  "new_keys prev next = filter (\<lambda>d. map_of prev d = None) (sorted_keys next)"

definition updated_customs :: "(string \<times> (string \<times> string)) list \<Rightarrow> (string \<times> (string \<times> string)) list \<Rightarrow> string list" where
  "updated_customs prev next =
     List.map_filter (\<lambda>d. case (map_of prev d, map_of next d) of
        (Some (_, v), Some (name, w)) \<Rightarrow> (if v \<noteq> w then Some (name @ '' to '' @ w) else None)
      | _ \<Rightarrow> None) (sorted_keys next)"

definition yaml_phrases :: "signals \<Rightarrow> signals \<Rightarrow> string list" where
  "yaml_phrases prev next =
     (let top = foldl (\<lambda>ys (rel, phrase). if \<not> same_signal prev next rel \<and> phrase \<notin> set ys then ys @ [phrase] else ys)
                  [] signal_yaml;
          config = the (map_of signal_yaml ''configuration.yaml'')
      in foldl (\<lambda>ys rel. if prefix (packages_dir @ ''/'') rel \<and> \<not> same_signal prev next rel \<and> config \<notin> set ys
                         then ys @ [config] else ys)
           top (sorted_keys (prev @ next)))"

definition detect :: "hass_json \<Rightarrow> signals \<Rightarrow> signals \<Rightarrow> bool \<Rightarrow> string list" where
  "detect j prev next running =
     (let later = (if running then '' (takes effect at next restart)'' else []);
          prev_cc = customs j prev; next_cc = customs j next;
          installed = map (\<lambda>d. fst (the (map_of next_cc d))) (new_keys prev_cc next_cc);
          removed = map (\<lambda>d. fst (the (map_of prev_cc d))) (new_keys next_cc prev_cc);
          updated = updated_customs prev_cc next_cc;
          out1 = append_group [] ''Installed'' installed ''custom integrations'' [];
          out2 = append_group out1 ''Updated'' updated ''custom integrations'' later;
          out3 = append_group out2 ''Removed'' removed ''custom integrations'' later;
          prev_in = integrations j (signal_bytes prev config_entries);
          next_in = integrations j (signal_bytes next config_entries);
          the_one = (\<lambda>m d. ''the '' @ the (map_of m d) @ '' integration'');
          out4 = append_group out3 ''Added'' (map (the_one next_in) (new_keys prev_in next_in)) ''integrations'' [];
          out5 = append_group out4 ''Removed'' (map (the_one prev_in) (new_keys next_in prev_in)) ''integrations'' []
      in out5 @ sort (yaml_phrases prev next))"

text \<open>Every phrase begins with one of the verbs above, so its first rune is an ASCII letter.\<close>

definition lower_first :: "string \<Rightarrow> string" where
  "lower_first s =
     (case s of
        [] \<Rightarrow> []
      | c # cs \<Rightarrow> (if between 65 90 (byte c) then char_of (byte c + 32) else c) # cs)"

definition sentence :: "string list \<Rightarrow> string" where
  "sentence changes =
     (case changes of [] \<Rightarrow> [] | c # cs \<Rightarrow> join_with '', '' (c # map lower_first cs))"


section \<open>What a household would say changed\<close>

text \<open>
  The reference reads the copy's files itself. The custom integration \<open>d\<close> is there when its manifest is, at the
  version the manifest gives; \<open>d\<close> is configured when an entry of the store names it; of the YAML the bytes count.
\<close>

definition manifest_rel :: "string \<Rightarrow> string" where "manifest_rel d = ''custom_components/'' @ d @ ''/manifest.json''"

definition custom_version :: "hass_json \<Rightarrow> signals \<Rightarrow> string \<Rightarrow> string option" where
  "custom_version j sig d =
     (if CHR ''/'' \<in> set d then None else map_option (\<lambda>b. snd (custom_json j b)) (map_of sig (manifest_rel d)))"

definition configured :: "hass_json \<Rightarrow> signals \<Rightarrow> string \<Rightarrow> bool" where
  "configured j sig d \<longleftrightarrow>
     d \<noteq> [] \<and> (\<exists>b es. map_of sig ''.storage/core.config_entries'' = Some b \<and> entries_json j b = Some es \<and> d \<in> fst ` set es)"

definition yaml_differs :: "signals \<Rightarrow> signals \<Rightarrow> bool" where
  "yaml_differs prev next \<longleftrightarrow>
     (\<exists>rel. (rel \<in> {''configuration.yaml'', ''automations.yaml'', ''scripts.yaml'', ''scenes.yaml''} \<or> prefix ''packages/'' rel) \<and>
        map_of prev rel \<noteq> map_of next rel)"

text \<open>Text that is shown as it is: printable ASCII of at most 60 characters.\<close>

definition plain_text :: "string \<Rightarrow> bool" where
  "plain_text s \<longleftrightarrow> length s \<le> 60 \<and> list_all (\<lambda>c. between 32 126 (byte c)) s"

text \<open>
  A copy as \<open>Signals\<close> reads one: below the custom integrations there are only their manifests; their versions are
  plain text; and the store of the entries, when there is one, parses.
\<close>

definition readable_copy :: "hass_json \<Rightarrow> signals \<Rightarrow> bool" where
  "readable_copy j sig \<longleftrightarrow>
     (\<forall>rel\<in>fst ` set sig. prefix ''custom_components/'' rel \<longrightarrow> (\<exists>d. CHR ''/'' \<notin> set d \<and> rel = manifest_rel d)) \<and>
     (\<forall>d v. custom_version j sig d = Some v \<longrightarrow> plain_text v) \<and>
     (\<forall>b. map_of sig ''.storage/core.config_entries'' = Some b \<longrightarrow> entries_json j b \<noteq> None)"

lemma set_sorted_keys [simp]: "set (sorted_keys m) = fst ` set m"
  by (simp add: sorted_keys_def)

lemma new_keys_empty: "new_keys prev next = [] \<longleftrightarrow> fst ` set next \<subseteq> fst ` set prev"
  by (auto simp: new_keys_def filter_empty_conv map_of_eq_None_iff)

lemma append_group_empty: "append_group out verb names plural suf = [] \<longleftrightarrow> out = [] \<and> names = []"
  by (auto simp: append_group_def split: list.splits)

lemma map_filter_empty: "List.map_filter f xs = [] \<longleftrightarrow> (\<forall>x\<in>set xs. f x = None)"
  by (induction xs) (auto simp: List.map_filter_def)

lemma foldl_grow_empty:
  assumes "\<And>x. x \<in> set xs \<Longrightarrow> f [] x = [] \<longleftrightarrow> \<not> P x"
    and "\<And>ys x. ys \<noteq> [] \<Longrightarrow> f ys x \<noteq> []"
  shows "foldl f ys xs = [] \<longleftrightarrow> ys = [] \<and> (\<forall>x\<in>set xs. \<not> P x)"
proof -
  have grown: "ys \<noteq> [] \<Longrightarrow> foldl f ys xs \<noteq> []" for ys xs
    by (induction xs arbitrary: ys) (auto simp: assms(2))
  have "foldl f [] xs = [] \<longleftrightarrow> (\<forall>x\<in>set xs. \<not> P x)" using assms(1)
  proof (induction xs)
    case (Cons x xs)
    have "f [] x = [] \<longleftrightarrow> \<not> P x" using Cons.prems [of x] by simp
    moreover have "foldl f [] xs = [] \<longleftrightarrow> (\<forall>x\<in>set xs. \<not> P x)" using Cons by simp
    ultimately show ?case using grown [of "f [] x" xs] by (cases "P x") simp_all
  qed simp
  then show ?thesis using grown by (cases "ys = []") auto
qed

lemma sort_key_empty: "sort xs = [] \<longleftrightarrow> xs = []"
  by (metis set_sort set_empty)

lemma customs_changed:
  "updated_customs prev next \<noteq> [] \<longleftrightarrow>
   (\<exists>d v w. map_option snd (map_of prev d) = Some v \<and> map_option snd (map_of next d) = Some w \<and> v \<noteq> w)"
proof -
  let ?f = "\<lambda>d. case (map_of prev d, map_of next d) of
        (Some (_, v), Some (name, w)) \<Rightarrow> (if v \<noteq> w then Some (name @ '' to '' @ w) else None)
      | _ \<Rightarrow> None"
  have one: "?f d \<noteq> None \<longleftrightarrow> (\<exists>v w. map_option snd (map_of prev d) = Some v \<and> map_option snd (map_of next d) = Some w \<and> v \<noteq> w)" for d
    by (auto split: option.splits)
  have "updated_customs prev next \<noteq> [] \<longleftrightarrow> (\<exists>d\<in>fst ` set next. ?f d \<noteq> None)"
    by (simp add: updated_customs_def map_filter_empty)
  also have "\<dots> \<longleftrightarrow> (\<exists>d. ?f d \<noteq> None)"
  proof -
    have "d \<in> fst ` set next" if "?f d \<noteq> None" for d
    proof -
      have "map_of next d \<noteq> None" using that by (auto split: option.splits)
      then show ?thesis by (simp only: map_of_eq_None_iff not_not)
    qed
    then show ?thesis by blast
  qed
  finally show ?thesis unfolding one .
qed

lemma yaml_phrases_empty:
  "yaml_phrases prev next = [] \<longleftrightarrow>
   (\<forall>rel. rel \<in> fst ` set signal_yaml \<or> prefix (packages_dir @ ''/'') rel \<longrightarrow> same_signal prev next rel)"
proof -
  define config where "config = the (map_of signal_yaml ''configuration.yaml'')"
  define top where "top = foldl (\<lambda>ys (rel, phrase). if \<not> same_signal prev next rel \<and> phrase \<notin> set ys then ys @ [phrase] else ys) [] signal_yaml"
  have "top = [] \<longleftrightarrow> [] = ([] :: string list) \<and> (\<forall>x\<in>set signal_yaml. \<not> \<not> same_signal prev next (fst x))"
    unfolding top_def by (rule foldl_grow_empty) (auto split: prod.splits)
  then have top: "top = [] \<longleftrightarrow> (\<forall>rel\<in>fst ` set signal_yaml. same_signal prev next rel)" by auto
  have "yaml_phrases prev next = [] \<longleftrightarrow> top = [] \<and>
      (\<forall>rel\<in>set (sorted_keys (prev @ next)). \<not> (prefix (packages_dir @ ''/'') rel \<and> \<not> same_signal prev next rel))"
    unfolding yaml_phrases_def Let_def config_def [symmetric] top_def [symmetric]
    by (rule foldl_grow_empty) auto
  moreover have "same_signal prev next rel" if "rel \<notin> set (sorted_keys (prev @ next))" for rel
    using that by (simp add: same_signal_def image_Un) (metis map_of_eq_None_iff)
  ultimately show ?thesis using top by blast
qed

lemma integrations_keys:
  "fst ` set (integrations j b) =
   (case entries_json j b of None \<Rightarrow> {} | Some es \<Rightarrow> fst ` set es - {[]})"
proof -
  have "fst ` set (foldl (\<lambda>out (domain, title).
             if domain = [] \<or> map_of out domain \<noteq> None then out
             else out @ [(domain, clean (if title = [] then domain else title))]) out es) =
        fst ` set out \<union> (fst ` set es - {[]})" for out es
  proof (induction es arbitrary: out)
    case (Cons e es)
    obtain domain title where e: "e = (domain, title)" by (cases e)
    show ?case
    proof (cases "domain = [] \<or> map_of out domain \<noteq> None")
      case True
      then have "domain = [] \<or> domain \<in> fst ` set out" by (auto simp: map_of_eq_None_iff)
      then show ?thesis using True e Cons.IH [of out] by auto
    next
      case False
      then show ?thesis using e Cons.IH [of "out @ [(domain, clean (if title = [] then domain else title))]"] by auto
    qed
  qed simp
  from this [of "[]"] show ?thesis by (simp add: integrations_def split: option.split)
qed

lemma clean_plain:
  assumes "plain_text s"
  shows "clean s = s"
proof -
  have one: "encode_rune (byte c) = [c]" "valid_rune (byte c)" "\<not> is_control (byte c)" if "between 32 126 (byte c)" for c
    using that by (auto simp: encode_rune_def encode_bytes_def between_def valid_rune_def is_control_def byte_def)
  have "runes s = map byte s"
  proof -
    have "s = write_runes (map byte s)" using assms one(1) by (induction s) (auto simp: plain_text_def write_runes_def)
    moreover have "list_all valid_rune (map byte s)" using assms one(2) by (auto simp: plain_text_def list_all_iff)
    ultimately show ?thesis using runes_write by metis
  qed
  moreover have "foldl (\<lambda>b r. if is_control r \<or> 60 \<le> length b then b else b @ encode_rune r) a (map byte u) = a @ u"
    if "length a + length u \<le> 60" "list_all (\<lambda>c. between 32 126 (byte c)) u" for a u
    using that
  proof (induction u arbitrary: a)
    case (Cons c u)
    then show ?case using Cons.IH [of "a @ [c]"] one by simp
  qed simp
  ultimately show ?thesis using assms by (simp add: clean_def plain_text_def)
qed

lemma map_of_by_set: "(\<And>x. (k, x) \<in> set kvs \<longleftrightarrow> v = Some x) \<Longrightarrow> map_of kvs k = v"
  by (metis map_of_SomeD not_None_eq weak_map_of_SomeI)

lemma takeWhile_domain: "CHR ''/'' \<notin> set d \<Longrightarrow> takeWhile (\<lambda>c. c \<noteq> CHR ''/'') (d @ ''/manifest.json'') = d"
  by (induction d) auto

lemma map_filter_in: "y \<in> set (List.map_filter f xs) \<longleftrightarrow> (\<exists>x\<in>set xs. f x = Some y)"
  by (induction xs) (auto simp: List.map_filter_def)

lemma customs_lookup:
  assumes "readable_copy j sig"
  shows "map_option snd (map_of (customs j sig) d) = custom_version j sig d"
proof -
  let ?f = "\<lambda>b. (clean (if fst (custom_json j b) = [] then d else fst (custom_json j b)), clean (snd (custom_json j b)))"
  let ?v = "if CHR ''/'' \<in> set d then None else map_option ?f (map_of sig (manifest_rel d))"
  have cut: "strip_prefix (custom_components @ ''/'') (manifest_rel e) = Some (e @ ''/manifest.json'')" for e
    by (simp add: strip_prefix_def manifest_rel_def custom_components_def)
  have "map_of (customs j sig) d = ?v"
  proof (rule map_of_by_set)
    fix x
    show "(d, x) \<in> set (customs j sig) \<longleftrightarrow> ?v = Some x"
    proof
      assume "(d, x) \<in> set (customs j sig)"
      then obtain rel where "rel \<in> set (sorted_keys sig)" "(case strip_prefix (custom_components @ ''/'') rel of
          None \<Rightarrow> None
        | Some rest \<Rightarrow>
            (let domain = takeWhile (\<lambda>c. c \<noteq> CHR ''/'') rest;
                 (name, version) = custom_json j (the (map_of sig rel))
             in Some (domain, (clean (if name = [] then domain else name), clean version)))) = Some (d, x)"
        unfolding customs_def map_filter_in by blast
      then obtain rest where rel: "rel \<in> fst ` set sig" "strip_prefix (custom_components @ ''/'') rel = Some rest"
          "d = takeWhile (\<lambda>c. c \<noteq> CHR ''/'') rest" "x = ?f (the (map_of sig rel))"
        by (auto simp: Let_def case_prod_beta split: option.splits)
      from rel(2) have "prefix ''custom_components/'' rel"
        by (auto simp: strip_prefix_def custom_components_def split: if_splits)
      then obtain e where e: "CHR ''/'' \<notin> set e" "rel = manifest_rel e" using assms rel(1) unfolding readable_copy_def by blast
      have "rest = e @ ''/manifest.json''" using rel(2) e(2) cut [of e] by simp
      then have "d = e" using rel(3) takeWhile_domain [OF e(1)] by simp
      moreover obtain b where "map_of sig rel = Some b" using rel(1) by (metis map_of_eq_None_iff not_None_eq)
      ultimately show "?v = Some x" using e rel(4) by simp
    next
      assume "?v = Some x"
      then obtain b where b: "CHR ''/'' \<notin> set d" "map_of sig (manifest_rel d) = Some b" "x = ?f b" by (auto split: if_splits)
      then have "manifest_rel d \<in> set (sorted_keys sig)" using map_of_SomeD [OF b(2)] by (force simp: sorted_keys_def)
      then show "(d, x) \<in> set (customs j sig)"
        using b takeWhile_domain [OF b(1)]
        unfolding customs_def map_filter_in by (intro bexI [of _ "manifest_rel d"]) (simp_all add: cut Let_def case_prod_beta)
    qed
  qed
  moreover have "clean v = v" if "custom_version j sig d = Some v" for v
    using clean_plain that assms unfolding readable_copy_def by blast
  ultimately show ?thesis by (cases "map_of sig (manifest_rel d)") (auto simp: custom_version_def)
qed

lemma configured_iff: "entries_json j [] = None \<Longrightarrow>
    d \<in> fst ` set (integrations j (signal_bytes sig config_entries)) \<longleftrightarrow> configured j sig d"
  by (auto simp: integrations_keys configured_def signal_bytes_def config_entries_def split: option.splits)

lemma yaml_phrases_differ: "yaml_phrases prev next \<noteq> [] \<longleftrightarrow> yaml_differs prev next"
proof -
  have files: "fst ` set signal_yaml = {''configuration.yaml'', ''automations.yaml'', ''scripts.yaml'', ''scenes.yaml''}"
    "packages_dir @ ''/'' = ''packages/''" by (simp_all add: signal_yaml_def packages_dir_def)
  show ?thesis unfolding yaml_phrases_empty files yaml_differs_def same_signal_def not_all not_imp by (rule refl)
qed

lemma append_group_form: "\<exists>p. append_group out verb names plural suf = out @ (if names = [] then [] else [verb @ '' '' @ p])"
  by (auto simp: append_group_def split: list.splits)

lemma yaml_phrases_changed: "p \<in> set (yaml_phrases prev next) \<Longrightarrow> prefix ''Changed '' p"
proof -
  have top: "set (foldl (\<lambda>ys (rel, phrase). if \<not> same_signal prev next rel \<and> phrase \<notin> set ys then ys @ [phrase] else ys) ys kvs)
      \<subseteq> set ys \<union> snd ` set kvs" for ys kvs
  proof (induction kvs arbitrary: ys)
    case (Cons kv kvs)
    then show ?case by (cases kv) (force split: if_splits)
  qed simp
  have rest: "set (foldl (\<lambda>ys rel. if prefix (packages_dir @ ''/'') rel \<and> \<not> same_signal prev next rel \<and> c \<notin> set ys then ys @ [c] else ys) ys rels)
      \<subseteq> insert c (set ys)" for c ys rels
  proof (induction rels arbitrary: ys)
    case (Cons rel rels)
    then show ?case using Cons.IH [of ys] Cons.IH [of "ys @ [c]"] by auto
  qed auto
  let ?c = "the (map_of signal_yaml ''configuration.yaml'')"
  have c: "?c \<in> snd ` set signal_yaml" by (simp add: signal_yaml_def)
  define ys where "ys = foldl (\<lambda>ys (rel, phrase). if \<not> same_signal prev next rel \<and> phrase \<notin> set ys then ys @ [phrase] else ys) [] signal_yaml"
  have ys: "set ys \<subseteq> snd ` set signal_yaml" using top [of "[]" signal_yaml] by (simp only: ys_def list.set Un_empty_left)
  have "set (yaml_phrases prev next) \<subseteq> insert ?c (set ys)"
    unfolding yaml_phrases_def Let_def ys_def [symmetric] by (rule rest)
  then have sub: "set (yaml_phrases prev next) \<subseteq> snd ` set signal_yaml"
    by (rule subset_trans) (simp only: insert_subset c ys simp_thms)
  have all: "\<forall>q\<in>snd ` set signal_yaml. prefix ''Changed '' q" by (simp add: signal_yaml_def)
  assume "p \<in> set (yaml_phrases prev next)"
  then show "prefix ''Changed '' p" by (rule bspec [OF all subsetD [OF sub]])
qed

lemma detect_phrases:
  "\<exists>a b c d e. detect j prev next running =
     (if new_keys (customs j prev) (customs j next) = [] then [] else [''Installed '' @ a]) @
     (if updated_customs (customs j prev) (customs j next) = [] then [] else [''Updated '' @ b]) @
     (if new_keys (customs j next) (customs j prev) = [] then [] else [''Removed '' @ c]) @
     (if new_keys (integrations j (signal_bytes prev config_entries)) (integrations j (signal_bytes next config_entries)) = [] then [] else [''Added '' @ d]) @
     (if new_keys (integrations j (signal_bytes next config_entries)) (integrations j (signal_bytes prev config_entries)) = [] then [] else [''Removed '' @ e]) @
     sort (yaml_phrases prev next)"
proof -
  let ?pc = "customs j prev" and ?nc = "customs j next"
  let ?pi = "integrations j (signal_bytes prev config_entries)" and ?ni = "integrations j (signal_bytes next config_entries)"
  let ?later = "if running then '' (takes effect at next restart)'' else []"
  let ?i = "map (\<lambda>d. fst (the (map_of ?nc d))) (new_keys ?pc ?nc)" and ?r = "map (\<lambda>d. fst (the (map_of ?pc d))) (new_keys ?nc ?pc)"
  let ?a = "map (\<lambda>d. ''the '' @ the (map_of ?ni d) @ '' integration'') (new_keys ?pi ?ni)"
  let ?d = "map (\<lambda>d. ''the '' @ the (map_of ?pi d) @ '' integration'') (new_keys ?ni ?pi)"
  define o1 where "o1 = append_group [] ''Installed'' ?i ''custom integrations'' []"
  define o2 where "o2 = append_group o1 ''Updated'' (updated_customs ?pc ?nc) ''custom integrations'' ?later"
  define o3 where "o3 = append_group o2 ''Removed'' ?r ''custom integrations'' ?later"
  define o4 where "o4 = append_group o3 ''Added'' ?a ''integrations'' []"
  define o5 where "o5 = append_group o4 ''Removed'' ?d ''integrations'' []"
  have run: "detect j prev next running = o5 @ sort (yaml_phrases prev next)"
    by (simp only: detect_def Let_def o1_def o2_def o3_def o4_def o5_def)
  have "\<exists>a. o1 = [] @ (if ?i = [] then [] else [''Installed'' @ '' '' @ a])" unfolding o1_def by (rule append_group_form)
  then obtain a where e1: "o1 = [] @ (if ?i = [] then [] else [''Installed'' @ '' '' @ a])" ..
  have "\<exists>b. o2 = o1 @ (if updated_customs ?pc ?nc = [] then [] else [''Updated'' @ '' '' @ b])" unfolding o2_def by (rule append_group_form)
  then obtain b where e2: "o2 = o1 @ (if updated_customs ?pc ?nc = [] then [] else [''Updated'' @ '' '' @ b])" ..
  have "\<exists>c. o3 = o2 @ (if ?r = [] then [] else [''Removed'' @ '' '' @ c])" unfolding o3_def by (rule append_group_form)
  then obtain c where e3: "o3 = o2 @ (if ?r = [] then [] else [''Removed'' @ '' '' @ c])" ..
  have "\<exists>d. o4 = o3 @ (if ?a = [] then [] else [''Added'' @ '' '' @ d])" unfolding o4_def by (rule append_group_form)
  then obtain d where e4: "o4 = o3 @ (if ?a = [] then [] else [''Added'' @ '' '' @ d])" ..
  have "\<exists>e. o5 = o4 @ (if ?d = [] then [] else [''Removed'' @ '' '' @ e])" unfolding o5_def by (rule append_group_form)
  then obtain e where e5: "o5 = o4 @ (if ?d = [] then [] else [''Removed'' @ '' '' @ e])" ..
  show ?thesis
    unfolding run e5 e4 e3 e2 e1
    by (intro exI [of _ a] exI [of _ b] exI [of _ c] exI [of _ d] exI [of _ e])
      (simp only: append_assoc append_Nil append_Cons map_is_Nil_conv)
qed

text \<open>Whether a row has a phrase that begins with a verb.\<close>

definition says :: "string list \<Rightarrow> string \<Rightarrow> bool" where "says row verb \<longleftrightarrow> (\<exists>p\<in>set row. prefix verb p)"

lemma says_simps:
  "says (a @ b) verb \<longleftrightarrow> says a verb \<or> says b verb" "says (if c then [] else [p]) verb \<longleftrightarrow> \<not> c \<and> prefix verb p"
  "says (sort row) verb \<longleftrightarrow> says row verb"
  by (auto simp: says_def)

lemma verb_own: "prefix v (v @ p)"
  by simp

lemma verbs_apart:
  "\<not> prefix ''Installed '' (''Updated '' @ p)" "\<not> prefix ''Installed '' (''Removed '' @ p)" "\<not> prefix ''Installed '' (''Added '' @ p)"
  "\<not> prefix ''Updated '' (''Installed '' @ p)" "\<not> prefix ''Updated '' (''Removed '' @ p)" "\<not> prefix ''Updated '' (''Added '' @ p)"
  "\<not> prefix ''Removed '' (''Installed '' @ p)" "\<not> prefix ''Removed '' (''Updated '' @ p)" "\<not> prefix ''Removed '' (''Added '' @ p)"
  "\<not> prefix ''Added '' (''Installed '' @ p)" "\<not> prefix ''Added '' (''Updated '' @ p)" "\<not> prefix ''Added '' (''Removed '' @ p)"
  "\<not> prefix ''Changed '' (''Installed '' @ p)" "\<not> prefix ''Changed '' (''Updated '' @ p)" "\<not> prefix ''Changed '' (''Removed '' @ p)"
  "\<not> prefix ''Changed '' (''Added '' @ p)"
  by simp_all

lemma changed_only:
  "prefix ''Changed '' p \<Longrightarrow> \<not> prefix ''Installed '' p \<and> \<not> prefix ''Updated '' p \<and> \<not> prefix ''Removed '' p \<and> \<not> prefix ''Added '' p"
  by (cases p) simp_all

lemma says_yaml:
  "says (yaml_phrases prev next) ''Changed '' \<longleftrightarrow> yaml_phrases prev next \<noteq> []"
  "\<not> says (yaml_phrases prev next) ''Installed ''" "\<not> says (yaml_phrases prev next) ''Updated ''"
  "\<not> says (yaml_phrases prev next) ''Removed ''" "\<not> says (yaml_phrases prev next) ''Added ''"
proof -
  note only = yaml_phrases_changed [THEN changed_only]
  show "says (yaml_phrases prev next) ''Changed '' \<longleftrightarrow> yaml_phrases prev next \<noteq> []"
    unfolding says_def using yaml_phrases_changed by (metis equals0I list.set_intros(1) set_empty2 ex_in_conv)
  show "\<not> says (yaml_phrases prev next) ''Installed ''" "\<not> says (yaml_phrases prev next) ''Updated ''"
    "\<not> says (yaml_phrases prev next) ''Removed ''" "\<not> says (yaml_phrases prev next) ''Added ''"
    unfolding says_def by (meson only)+
qed


text \<open>
  C20: for two copies that can be read, the row has a phrase for exactly what the household would see change: a
  custom integration installed, updated to another version or removed, an integration configured or removed, the
  YAML of the four files or the packages changed; and it stays empty exactly when there is none of it. Nothing
  else (entity state, history, a renamed integration) makes a row.
\<close>

theorem detect_says_what_a_household_sees:
  assumes "readable_copy j prev" and "readable_copy j next" and "entries_json j [] = None"
  shows "let row = detect j prev next running; old = custom_version j prev; new = custom_version j next;
       installed = (\<exists>d. old d = None \<and> new d \<noteq> None); gone = (\<exists>d. old d \<noteq> None \<and> new d = None);
       updated = (\<exists>d v w. old d = Some v \<and> new d = Some w \<and> v \<noteq> w);
       added = (\<exists>d. \<not> configured j prev d \<and> configured j next d); dropped = (\<exists>d. configured j prev d \<and> \<not> configured j next d)
     in (says row ''Installed '' \<longleftrightarrow> installed) \<and> (says row ''Updated '' \<longleftrightarrow> updated) \<and> (says row ''Removed '' \<longleftrightarrow> gone \<or> dropped) \<and>
        (says row ''Added '' \<longleftrightarrow> added) \<and> (says row ''Changed '' \<longleftrightarrow> yaml_differs prev next) \<and>
        (row = [] \<longleftrightarrow> \<not> installed \<and> \<not> updated \<and> \<not> gone \<and> \<not> added \<and> \<not> dropped \<and> \<not> yaml_differs prev next)"
proof -
  let ?pc = "customs j prev" and ?nc = "customs j next"
  let ?pi = "integrations j (signal_bytes prev config_entries)" and ?ni = "integrations j (signal_bytes next config_entries)"
  note look = customs_lookup [OF assms(1)] customs_lookup [OF assms(2)]
  have keys: "d \<in> fst ` set ?pc \<longleftrightarrow> custom_version j prev d \<noteq> None" "d \<in> fst ` set ?nc \<longleftrightarrow> custom_version j next d \<noteq> None" for d
    using look [of d] by (metis map_of_eq_None_iff option.map_disc_iff)+
  have fresh: "new_keys ?pc ?nc \<noteq> [] \<longleftrightarrow> (\<exists>d. custom_version j prev d = None \<and> custom_version j next d \<noteq> None)"
      "new_keys ?nc ?pc \<noteq> [] \<longleftrightarrow> (\<exists>d. custom_version j prev d \<noteq> None \<and> custom_version j next d = None)"
      "new_keys ?pi ?ni \<noteq> [] \<longleftrightarrow> (\<exists>d. \<not> configured j prev d \<and> configured j next d)"
      "new_keys ?ni ?pi \<noteq> [] \<longleftrightarrow> (\<exists>d. configured j prev d \<and> \<not> configured j next d)"
    unfolding new_keys_empty subset_iff keys configured_iff [OF assms(3)] by - auto
  have moved: "updated_customs ?pc ?nc \<noteq> [] \<longleftrightarrow>
      (\<exists>d v w. custom_version j prev d = Some v \<and> custom_version j next d = Some w \<and> v \<noteq> w)"
    using customs_changed look by (simp only: customs_changed)
  obtain a b c d e where row: "detect j prev next running =
     (if new_keys ?pc ?nc = [] then [] else [''Installed '' @ a]) @
     (if updated_customs ?pc ?nc = [] then [] else [''Updated '' @ b]) @
     (if new_keys ?nc ?pc = [] then [] else [''Removed '' @ c]) @
     (if new_keys ?pi ?ni = [] then [] else [''Added '' @ d]) @
     (if new_keys ?ni ?pi = [] then [] else [''Removed '' @ e]) @
     sort (yaml_phrases prev next)" using detect_phrases by blast
  show ?thesis
    unfolding Let_def fresh [symmetric] moved [symmetric] yaml_phrases_differ [symmetric] row
    by (simp only: says_simps says_yaml verbs_apart verb_own append_is_Nil_conv sort_key_empty if_False if_True
        simp_thms) (simp add: sort_key_empty)
qed

text \<open>A store of the entries that is there and does not parse is no missed row but a false one.\<close>

lemma unread_entries_show_as_removed:
  assumes "configured j prev d" and "entries_json j (signal_bytes next config_entries) = None" and "entries_json j [] = None"
  shows "says (detect j prev next running) ''Removed ''"
proof -
  let ?pi = "integrations j (signal_bytes prev config_entries)" and ?ni = "integrations j (signal_bytes next config_entries)"
  have "d \<in> fst ` set ?pi" using assms(1,3) configured_iff by blast
  moreover have "?ni = []" using assms(2) by (simp add: integrations_def)
  ultimately have "new_keys ?ni ?pi \<noteq> []" unfolding new_keys_empty by auto
  then show ?thesis using detect_phrases [of j prev "next" running]
    by (elim exE) (simp only: says_simps verb_own simp_thms)
qed

section \<open>Text fit for a terminal\<close>

text \<open>
  whatever Home Assistant or a custom integration calls itself, what reaches a row holds no control
  character, so no escape sequence of somebody's terminal, and at most 63 bytes.
\<close>

lemma clean_is_fit_for_a_terminal:
  "list_all (\<lambda>r. \<not> is_control r) (runes (clean s)) \<and> length (clean s) \<le> 63"
proof -
  define step where "step = (\<lambda>b r. if is_control r \<or> 60 \<le> length b then b else b @ encode_rune r)"
  have "\<exists>ks. foldl step (write_runes ks0) rs = write_runes ks \<and> list_all valid_rune ks \<and>
      list_all (\<lambda>r. \<not> is_control r) ks \<and> length (write_runes ks) \<le> 63"
    if "list_all valid_rune rs" "list_all valid_rune ks0" "list_all (\<lambda>r. \<not> is_control r) ks0" "length (write_runes ks0) \<le> 63" for ks0 rs
    using that
  proof (induction rs arbitrary: ks0)
    case (Cons r rs)
    show ?case
    proof (cases "is_control r \<or> 60 \<le> length (write_runes ks0)")
      case True
      then have "step (write_runes ks0) r = write_runes ks0" by (auto simp: step_def)
      then show ?thesis using Cons.IH [of ks0] Cons.prems by simp
    next
      case False
      then have "step (write_runes ks0) r = write_runes (ks0 @ [r])" by (simp add: step_def write_runes_def)
      moreover have "length (write_runes (ks0 @ [r])) \<le> 63"
        using False encode_rune_length [of r] by (simp add: write_runes_def)
      ultimately show ?thesis using Cons.IH [of "ks0 @ [r]"] Cons.prems False by simp
    qed
  qed auto
  from this [of "runes s" "[]"] obtain ks where "foldl step [] (runes s) = write_runes ks" "list_all valid_rune ks"
      "list_all (\<lambda>r. \<not> is_control r) ks" "length (write_runes ks) \<le> 63"
    using runes_valid [of s] by (auto simp: write_runes_def)
  then show ?thesis by (simp add: clean_def step_def [symmetric] runes_write)
qed


section \<open>Each reset once\<close>

definition set_aside :: "signals \<Rightarrow> string set" where
  "set_aside sig = {rel \<in> fst ` set sig. has_within corrupt_mark rel}"

fun resets_along :: "signals \<Rightarrow> signals list \<Rightarrow> string list" where
  "resets_along s [] = []"
| "resets_along s (t # ts) = resets s t @ resets_along t ts"

lemma set_resets: "set (resets prev next) = set_aside next - set_aside prev"
  by (auto simp: resets_def set_aside_def map_of_eq_None_iff)

lemma distinct_resets: "distinct (resets prev next)"
  by (simp add: resets_def sorted_keys_def)

text \<open>
  Over a series of samples each of which still holds what the one before had set aside, every
  reset is found at one sample and at one only.
\<close>

lemma each_reset_is_found_once:
  assumes "sorted_wrt (\<lambda>a b. set_aside a \<subseteq> set_aside b) (s # ss)"
  shows "distinct (resets_along s ss) \<and> set (resets_along s ss) = set_aside (last (s # ss)) - set_aside s"
  using assms
proof (induction ss arbitrary: s)
  case (Cons t ts)
  let ?l = "last (t # ts)"
  have t: "set_aside s \<subseteq> set_aside t" "set_aside t \<subseteq> set_aside ?l" using Cons.prems by (auto simp: last_conv_nth)
  have IH: "distinct (resets_along t ts)" "set (resets_along t ts) = set_aside ?l - set_aside t"
    using Cons.IH [of t] Cons.prems by auto
  then have "distinct (resets s t @ resets_along t ts)" by (auto simp: distinct_resets set_resets)
  moreover have "set (resets s t @ resets_along t ts) = set_aside ?l - set_aside s" using IH t by (auto simp: set_resets)
  ultimately show ?case by simp
qed simp

section \<open>An example\<close>

text \<open>The household removes the Hue integration and installs a custom one.\<close>

definition example_hass_json :: hass_json where
  "example_hass_json =
     \<lparr>custom_json = (\<lambda>_. (''HACS'', ''1.2'')),
      entries_json = (\<lambda>b. if b = ''one'' then Some [(''hue'', ''Hue'')] else if b = ''none'' then Some [] else None)\<rparr>"

definition example_before :: signals where "example_before = [(config_entries, ''one'')]"
definition example_after :: signals where "example_after = [(config_entries, ''none''), (manifest_rel ''hacs'', ''{}'')]"

theorem detect_says_what_a_household_sees_witness:
  "says (detect example_hass_json example_before example_after False) ''Installed '' \<and>
   says (detect example_hass_json example_before example_after False) ''Removed ''"
proof -
  have plain: "plain_text ''1.2''" by code_simp
  have keys: "\<not> prefix ''custom_components/'' config_entries" "CHR ''/'' \<notin> set ''hacs''" "config_entries = ''.storage/core.config_entries''"
    "manifest_rel ''hacs'' \<noteq> config_entries" by code_simp+
  have versions: "custom_version example_hass_json sig d = Some v \<Longrightarrow> v = ''1.2''" for sig d v
    by (auto simp: custom_version_def example_hass_json_def split: if_splits)
  have before: "readable_copy example_hass_json example_before"
    unfolding readable_copy_def using keys plain versions by (auto simp: example_before_def example_hass_json_def)
  have after: "readable_copy example_hass_json example_after"
    unfolding readable_copy_def using keys plain versions
    by (auto simp: example_after_def example_hass_json_def intro!: exI [of _ "''hacs''"] dest!: versions split: if_splits)
  have empty: "entries_json example_hass_json [] = None" by (simp add: example_hass_json_def)
  note all = detect_says_what_a_household_sees [OF before after empty, of False, unfolded Let_def]
  have "custom_version example_hass_json example_before ''hacs'' = None" "custom_version example_hass_json example_after ''hacs'' \<noteq> None"
    "configured example_hass_json example_before ''hue''" "\<not> configured example_hass_json example_after ''hue''"
    using keys by (simp_all add: custom_version_def configured_def example_before_def example_after_def example_hass_json_def manifest_rel_def)
  then show ?thesis using conjunct1 [OF all] conjunct1 [OF conjunct2 [OF conjunct2 [OF all]]] by blast
qed

end
