(* ===== verification/DbCheck.thy ===== *)
theory DbCheck
  imports HassChanges History
begin

text \<open>
  The recorder check (\<open>agent/hass/dbcheck.go\<close>): which samples are held as restore candidates, what one
  night's check of Home Assistant's database finds and marks, which copy it names for a restore, the
  gate a restore passes again, and the restore of the files.

  The database readings are a parameter: what the script printed for a directory, in full or for the
  schema alone. Each command that writes a sidecar is numbered, and an outcome function says how the
  n-th one ends; a write is a new file moved over the old, so it is made or it is not, and may be made and
  not flushed.
\<close>


section \<open>App sidecars\<close>

datatype write_outcome = NotWritten | Unflushed | Written

datatype db_state = DBRetained | DBChecking | DBClean | DBOther string

text \<open>The raw value of a key of the sidecar: a record of this check, or bytes that are not one.\<close>

datatype app_value = DBRecord db_state | Opaque string

definition db_key :: string where "db_key = ''hass-db''"
definition retain_every :: duration where "retain_every = 8 * hour"
definition db_name :: string where "db_name = ''home-assistant_v2.db''"

text \<open>The sidecars, and the writes so far: of which sidecar, to which record, and how it ended.\<close>

record db_disk =
  dd_sidecar :: "string \<Rightarrow> (string \<times> app_value) list option"
  dd_writes :: "(string \<times> db_state option \<times> write_outcome) list"

record db_member =
  dm_path :: string
  dm_dir :: string
  dm_app :: string
  dm_at :: time
  dm_quiesced :: bool

text \<open>An absent sidecar reads as no keys, and so does one that is there and does not parse, which is \<open>Some []\<close>.\<close>

definition read_app :: "db_disk \<Rightarrow> string \<Rightarrow> (string \<times> app_value) list" where
  "read_app d app = (case dd_sidecar d app of None \<Rightarrow> [] | Some all \<Rightarrow> all)"

definition db_record :: "db_disk \<Rightarrow> string \<Rightarrow> db_state option" where
  "db_record d app = (case map_of (read_app d app) db_key of Some (DBRecord s) \<Rightarrow> Some s | _ \<Rightarrow> None)"

definition wrote :: "string \<Rightarrow> db_state option \<Rightarrow> write_outcome \<Rightarrow> db_disk \<Rightarrow> db_disk" where
  "wrote app r out d = d\<lparr>dd_writes := dd_writes d @ [(app, r, out)]\<rparr>"

text \<open>\<open>SetRecord\<close>: the disk, and whether it returned without an error.\<close>

definition set_record :: "(nat \<Rightarrow> write_outcome) \<Rightarrow> db_disk \<Rightarrow> string \<Rightarrow> db_state option \<Rightarrow> db_disk \<times> bool" where
  "set_record io d app r =
     (let all = read_app d app;
          others = filter (\<lambda>(k, _). k \<noteq> db_key) all;
          out = io (length (dd_writes d))
      in case r of
           None \<Rightarrow>
             (if map_of all db_key = None then (d, True)
              else if others = []
              then (if out = NotWritten then (wrote app r out d, False)
                    else ((wrote app r out d)\<lparr>dd_sidecar := (dd_sidecar d)(app := None)\<rparr>, True))
              else (if out = NotWritten then (wrote app r out d, False)
                    else ((wrote app r out d)\<lparr>dd_sidecar := (dd_sidecar d)(app := Some others)\<rparr>, out = Written)))
         | Some s \<Rightarrow>
             (if out = NotWritten then (wrote app r out d, False)
              else ((wrote app r out d)\<lparr>dd_sidecar := (dd_sidecar d)(app := Some ((db_key, DBRecord s) # others))\<rparr>,
                    out = Written)))"

definition db_release :: "(nat \<Rightarrow> write_outcome) \<Rightarrow> db_disk \<Rightarrow> db_member \<Rightarrow> db_disk" where
  "db_release io d m = fst (set_record io d (dm_app m) None)"

text \<open>\<open>Sampled\<close>: the sample just taken is held unless a held one is less than eight hours older.\<close>

definition db_sampled :: "(nat \<Rightarrow> write_outcome) \<Rightarrow> db_disk \<Rightarrow> db_member list \<Rightarrow> db_member \<Rightarrow> db_disk \<times> bool" where
  "db_sampled io d ring m =
     (if \<not> dm_quiesced m then (d, True)
      else if list_ex (\<lambda>o'. dm_app o' \<noteq> dm_app m \<and> dm_at o' \<le> dm_at m \<and>
                            db_record d (dm_app o') \<noteq> None \<and> time_sub (dm_at m) (dm_at o') < retain_every) ring
      then (d, True)
      else set_record io d (dm_app m) (Some DBRetained))"


section \<open>One reading\<close>

datatype db_verdict = VerdictClean | VerdictCorrupt

record check_reply =
  cr_check :: string
  cr_schema :: "int option"
  cr_error :: string

text \<open>
  What \<open>podman run\<close> gave: None when the command failed or its last line does not parse. A schema
  that was not read is -1, never 0.
\<close>

type_synonym readings = "string \<Rightarrow> bool \<Rightarrow> check_reply option"

definition check :: "readings \<Rightarrow> string \<Rightarrow> bool \<Rightarrow> (db_verdict \<times> int) option" where
  "check rd dir full =
     (case rd dir full of
        None \<Rightarrow> None
      | Some r \<Rightarrow>
          (if cr_error r \<noteq> [] then None
           else if cr_check r = ''corrupt'' then Some (VerdictCorrupt, -1)
           else if full \<and> cr_check r \<noteq> ''ok'' then None
           else case cr_schema r of None \<Rightarrow> Some (VerdictClean, -1) | Some s \<Rightarrow> Some (VerdictClean, s)))"

text \<open>A reading of the schema alone; None when there is none.\<close>

definition schema_of :: "readings \<Rightarrow> string \<Rightarrow> int option" where
  "schema_of rd dir = (case check rd dir False of None \<Rightarrow> None | Some (_, s) \<Rightarrow> if s < 0 then None else Some s)"


section \<open>The search for a copy\<close>

datatype db_why =
    NoQuiescedMember
  | CouldNotHold
  | CheckCouldNotRun
  | LiveUnreadable
  | CopyUnreadable string
  | CopyWithoutSchema string
  | NoCleanCopy

definition clean_floor :: "db_disk \<Rightarrow> db_member list \<Rightarrow> nat" where
  "clean_floor d ring =
     (case last_where (\<lambda>m. db_record d (dm_app m) = Some DBClean) ring of None \<Rightarrow> 0 | Some i \<Rightarrow> i)"

fun search_down :: "(nat \<Rightarrow> write_outcome) \<Rightarrow> readings \<Rightarrow> int \<Rightarrow> db_member list \<Rightarrow> db_disk \<Rightarrow> nat list \<Rightarrow>
    db_disk \<times> (db_why + nat)" where
  "search_down io rd live_schema ring d [] = (d, Inl NoCleanCopy)"
| "search_down io rd live_schema ring d (i # is) =
     (let m = ring ! i;
          r = db_record d (dm_app m);
          held = (r \<noteq> None);
          (d1, ok) = (if held then (d, True) else set_record io d (dm_app m) (Some DBChecking));
          unheld = (if held then d1 else db_release io d1 m)
      in if \<not> dm_quiesced m then search_down io rd live_schema ring d is
         else if \<not> ok then search_down io rd live_schema ring d1 is
         else
           (case check rd (dm_dir m) (r \<noteq> Some DBClean) of
              None \<Rightarrow> (unheld, Inl (CopyUnreadable (dm_path m)))
            | Some (VerdictCorrupt, _) \<Rightarrow> search_down io rd live_schema ring (db_release io d1 m) is
            | Some (VerdictClean, s) \<Rightarrow>
                (if s < 0 then (unheld, Inl (CopyWithoutSchema (dm_path m)))
                 else if live_schema < s then search_down io rd live_schema ring unheld is
                 else (d1, Inr i))))"

definition search :: "(nat \<Rightarrow> write_outcome) \<Rightarrow> readings \<Rightarrow> string \<Rightarrow> db_disk \<Rightarrow> db_member list \<Rightarrow>
    db_disk \<times> (db_why + nat)" where
  "search io rd live d ring =
     (case schema_of rd live of
        None \<Rightarrow> (d, Inl LiveUnreadable)
      | Some s \<Rightarrow> search_down io rd s ring d (rev [clean_floor d ring..<length ring]))"


section \<open>One night\<close>

record db_report =
  rp_checked :: "db_member option"
  rp_verdict :: "db_verdict option"
  rp_candidate :: "db_member option"
  rp_why :: "db_why option"

text \<open>Recorded clean first, then every older hold released.\<close>

definition mark_clean :: "(nat \<Rightarrow> write_outcome) \<Rightarrow> db_disk \<Rightarrow> db_member list \<Rightarrow> nat \<Rightarrow> db_disk" where
  "mark_clean io d ring i =
     (let (d1, ok) = set_record io d (dm_app (ring ! i)) (Some DBClean)
      in if ok then foldl (db_release io) d1 (take i ring) else d1)"

definition clear_checking :: "(nat \<Rightarrow> write_outcome) \<Rightarrow> db_disk \<Rightarrow> db_member \<Rightarrow> db_disk" where
  "clear_checking io d m = (if db_record d (dm_app m) = Some DBChecking then db_release io d m else d)"

definition nightly :: "(nat \<Rightarrow> write_outcome) \<Rightarrow> readings \<Rightarrow> string \<Rightarrow> db_disk \<Rightarrow> db_member list \<Rightarrow> db_disk \<times> db_report" where
  "nightly io rd live d0 ring0 =
     (let ring = sort_key dm_at ring0;
          d = foldl (clear_checking io) d0 ring;
          none = \<lparr>rp_checked = None, rp_verdict = None, rp_candidate = None, rp_why = None\<rparr>
      in case last_where dm_quiesced ring of
           None \<Rightarrow> (d, none\<lparr>rp_why := Some NoQuiescedMember\<rparr>)
         | Some newest \<Rightarrow>
             (let m = ring ! newest;
                  rep = none\<lparr>rp_checked := Some m\<rparr>;
                  held = (db_record d (dm_app m) \<noteq> None);
                  (d1, ok) = (if held then (d, True) else set_record io d (dm_app m) (Some DBChecking))
              in if \<not> ok then (d1, rep\<lparr>rp_why := Some CouldNotHold\<rparr>)
                 else
                   (case check rd (dm_dir m) True of
                      None \<Rightarrow> (if held then d1 else db_release io d1 m, rep\<lparr>rp_why := Some CheckCouldNotRun\<rparr>)
                    | Some (VerdictClean, _) \<Rightarrow> (mark_clean io d1 ring newest, rep\<lparr>rp_verdict := Some VerdictClean\<rparr>)
                    | Some (VerdictCorrupt, _) \<Rightarrow>
                        (let rep2 = rep\<lparr>rp_verdict := Some VerdictCorrupt\<rparr>
                         in case search io rd live (db_release io d1 m) (take newest ring) of
                              (d2, Inl why) \<Rightarrow> (d2, rep2\<lparr>rp_why := Some why\<rparr>)
                            | (d2, Inr from) \<Rightarrow>
                                (mark_clean io d2 ring from, rep2\<lparr>rp_candidate := Some (ring ! from)\<rparr>)))))"

text \<open>The gate again, at the moment of the restore.\<close>

datatype restore_refusal = NotCleanChecked | SchemaUnread | LiveSchemaUnread | SchemaNewer int int

definition restorable :: "readings \<Rightarrow> string \<Rightarrow> db_disk \<Rightarrow> db_member \<Rightarrow> restore_refusal option" where
  "restorable rd live d m =
     (if db_record d (dm_app m) \<noteq> Some DBClean then Some NotCleanChecked
      else case schema_of rd (dm_dir m) of
        None \<Rightarrow> Some SchemaUnread
      | Some mine \<Rightarrow>
          (case schema_of rd live of
             None \<Rightarrow> Some LiveSchemaUnread
           | Some s \<Rightarrow> (if s < mine then Some (SchemaNewer mine s) else None)))"


section \<open>The restore of the files\<close>

text \<open>
  Into a staged copy, which is thrown away when a command fails (None). \<open>cp_ok\<close>, \<open>rm_ok\<close> and \<open>test_ok\<close>
  say whether the command on a file works; a test that can not be run reads as no frames. What Home Assistant
  had set aside is listed by \<open>corrupt\<close> in the volume as it is then, \<open>vol\<close> of the files; a listing that
  fails reads as empty.
\<close>

type_synonym file_map = "string \<Rightarrow> string option"

definition rm_files :: "(string \<Rightarrow> bool) \<Rightarrow> string list \<Rightarrow> file_map \<Rightarrow> file_map option" where
  "rm_files rm_ok ps fs = (if list_all rm_ok ps then Some (\<lambda>p. if p \<in> set ps then None else fs p) else None)"

definition cp_file :: "(string \<Rightarrow> bool) \<Rightarrow> string \<Rightarrow> string \<Rightarrow> file_map \<Rightarrow> file_map option" where
  "cp_file cp_ok a b fs = (if cp_ok b \<and> fs a \<noteq> None then Some (fs(b := fs a)) else None)"

definition with_frames :: "string option \<Rightarrow> bool" where
  "with_frames w = (w \<noteq> None \<and> w \<noteq> Some [])"

definition restore_db :: "(string \<Rightarrow> bool) \<Rightarrow> (string \<Rightarrow> bool) \<Rightarrow> (string \<Rightarrow> bool) \<Rightarrow> (file_map \<Rightarrow> volume) \<Rightarrow> string \<Rightarrow> string \<Rightarrow>
    file_map \<Rightarrow> file_map option" where
  "restore_db rm_ok cp_ok test_ok vol from into fs =
     (let db = into @ ''/'' @ db_name; src = from @ ''/'' @ db_name; wal = ''-wal''
      in Option.bind (rm_files rm_ok [db @ wal, db @ ''-shm''] fs) (\<lambda>f1.
         Option.bind (cp_file cp_ok src db f1) (\<lambda>f2.
         Option.bind (if test_ok (src @ wal) \<and> with_frames (f2 (src @ wal)) then cp_file cp_ok (src @ wal) (db @ wal) f2 else Some f2) (\<lambda>f3.
         rm_files rm_ok (map (\<lambda>rel. into @ ''/'' @ rel) (filter (prefix db_name) (corrupt (vol f3) into))) f3))))"


section \<open>Records\<close>

lemma set_record_other [simp]: "app' \<noteq> app \<Longrightarrow> db_record (fst (set_record io d app r)) app' = db_record d app'"
  by (auto simp: set_record_def Let_def db_record_def read_app_def wrote_def split: option.split)

lemma map_of_without: "map_of (filter (\<lambda>(k, _). k \<noteq> key) kvs) key = None"
  by (induction kvs) auto

lemma set_record_done: "snd (set_record io d app r) \<Longrightarrow> db_record (fst (set_record io d app r)) app = r"
  using map_of_without [of db_key "read_app d app"]
  by (cases r) (auto simp: set_record_def Let_def db_record_def read_app_def wrote_def split: if_splits option.splits)

lemma set_record_same:
  "db_record (fst (set_record io d app r)) app = db_record d app \<or> db_record (fst (set_record io d app r)) app = r"
  using map_of_without [of db_key "read_app d app"]
  by (cases r) (auto simp: set_record_def Let_def db_record_def read_app_def wrote_def split: if_splits option.splits)

lemma set_record_clean:
  assumes "db_record (fst (set_record io d app r)) a = Some DBClean" and "r \<noteq> Some DBClean"
  shows "db_record d a = Some DBClean"
proof (cases "a = app")
  case True
  then show ?thesis using assms set_record_same [of io d app r] by auto
next
  case False
  then show ?thesis using assms(1) by simp
qed

lemma release_clean: "db_record (db_release io d m) a = Some DBClean \<Longrightarrow> db_record d a = Some DBClean"
  unfolding db_release_def by (rule set_record_clean) auto

lemma clear_checking_clean:
  "db_record (foldl (clear_checking io) d ms) a = Some DBClean \<Longrightarrow> db_record d a = Some DBClean"
proof (induction ms arbitrary: d)
  case (Cons m ms)
  then have "db_record (clear_checking io d m) a = Some DBClean" by simp
  then show ?case by (auto simp: clear_checking_def dest: release_clean split: if_splits)
qed simp

lemma set_record_written: "\<forall>n. io n = Written \<Longrightarrow> snd (set_record io d app r)"
  by (auto simp: set_record_def Let_def split: option.split)


section \<open>The copy the night names\<close>

text \<open>A reading after which a member may be put back under the schema version \<open>live\<close>.\<close>

definition usable_copy :: "readings \<Rightarrow> int \<Rightarrow> db_disk \<Rightarrow> db_member \<Rightarrow> bool" where
  "usable_copy rd live d m \<longleftrightarrow>
     (\<exists>full s. check rd (dm_dir m) full = Some (VerdictClean, s) \<and> 0 \<le> s \<and> s \<le> live \<and>
        (\<not> full \<longrightarrow> db_record d (dm_app m) = Some DBClean))"

text \<open>The writes of a run that took the disk from \<open>d\<close> to \<open>d'\<close>.\<close>

definition writes_since :: "db_disk \<Rightarrow> db_disk \<Rightarrow> (string \<times> db_state option \<times> write_outcome) list" where
  "writes_since d d' = drop (length (dd_writes d)) (dd_writes d')"

text \<open>Why the search goes past a member: of the writes \<open>ws\<close> the one that would have held it failed, or what was read of it.\<close>

definition passed_over :: "(string \<times> db_state option \<times> write_outcome) list \<Rightarrow> readings \<Rightarrow> int \<Rightarrow> db_member \<Rightarrow> bool" where
  "passed_over ws rd live m \<longleftrightarrow>
     \<not> dm_quiesced m \<or> (\<exists>out. out \<noteq> Written \<and> (dm_app m, Some DBChecking, out) \<in> set ws) \<or>
     (\<exists>full s. check rd (dm_dir m) full = Some (VerdictCorrupt, s)) \<or>
     (\<exists>full s. check rd (dm_dir m) full = Some (VerdictClean, s) \<and> live < s)"

definition grows :: "db_disk \<Rightarrow> db_disk \<Rightarrow> bool" where "grows d d' \<longleftrightarrow> prefix (dd_writes d) (dd_writes d')"

lemma grows_refl [simp]: "grows d d"
  by (simp add: grows_def)

lemma grows_trans [trans]: "grows d e \<Longrightarrow> grows e f \<Longrightarrow> grows d f"
  unfolding grows_def by (rule prefix_order.trans)

lemma set_record_grows: "grows d (fst (set_record io d app r))"
  by (cases r) (auto simp: set_record_def Let_def wrote_def grows_def)

lemma release_grows: "grows d (db_release io d m)"
  by (simp add: db_release_def set_record_grows)

lemma foldl_grows: "(\<And>d m. grows d (f d m)) \<Longrightarrow> grows d (foldl f d ms)"
  by (induction ms arbitrary: d) (auto intro: grows_trans)

lemma mark_clean_grows: "grows d (mark_clean io d ring i)"
proof -
  let ?d = "fst (set_record io d (dm_app (ring ! i)) (Some DBClean))"
  have "grows ?d (foldl (db_release io) ?d (take i ring))" by (rule foldl_grows) (rule release_grows)
  then show ?thesis using set_record_grows grows_trans by (simp add: mark_clean_def case_prod_beta) blast
qed

lemma clear_checking_grows: "grows d (clear_checking io d m)"
  by (simp add: clear_checking_def release_grows)

lemma search_down_grows: "grows d (fst (search_down io rd live ring d is))"
proof (induction "is" arbitrary: d)
  case (Cons k ks)
  let ?d = "fst (set_record io d (dm_app (ring ! k)) (Some DBChecking))"
  have one: "grows d ?d" by (rule set_record_grows)
  have two: "grows d (db_release io ?d (ring ! k))" "grows d (db_release io d (ring ! k))"
    using one release_grows grows_trans by blast+
  from Cons.IH [of d] Cons.IH [of ?d] Cons.IH [of "db_release io ?d (ring ! k)"] Cons.IH [of "db_release io d (ring ! k)"] one two
  show ?case
    by (auto simp: Let_def case_prod_beta intro: grows_trans split: option.split db_verdict.split)
qed simp

lemma writes_since_mono:
  assumes "grows d d1" and "grows d1 d2" and "grows d2 d'"
  shows "set (writes_since d1 d2) \<subseteq> set (writes_since d d')"
  using assms by (auto simp: grows_def writes_since_def prefix_def)

lemma passed_over_mono: "passed_over ws rd live m \<Longrightarrow> set ws \<subseteq> set ws' \<Longrightarrow> passed_over ws' rd live m"
  unfolding passed_over_def by blast

lemma set_record_failed:
  assumes "\<not> snd (set_record io d app (Some s))"
  shows "\<exists>out. out \<noteq> Written \<and> (app, Some s, out) \<in> set (writes_since d (fst (set_record io d app (Some s))))"
  using assms by (auto simp: set_record_def Let_def wrote_def writes_since_def split: if_splits)

lemma search_down_finds:
  assumes "search_down io rd live ring d is = (d', Inr i)"
  shows "\<exists>pre post. is = pre @ i # post \<and> dm_quiesced (ring ! i) \<and> usable_copy rd live d (ring ! i) \<and>
     (\<forall>j\<in>set pre. passed_over (writes_since d d') rd live (ring ! j))"
  using assms
proof (induction "is" arbitrary: d)
  case (Cons k ks)
  let ?m = "ring ! k"
  let ?r = "db_record d (dm_app ?m)"
  let ?set = "set_record io d (dm_app ?m) (Some DBChecking)"
  define d1 where "d1 = (if ?r \<noteq> None then d else fst ?set)"
  define ok where "ok = (?r \<noteq> None \<or> snd ?set)"
  define unheld where "unheld = (if ?r \<noteq> None then d1 else db_release io d1 ?m)"
  have step: "search_down io rd live ring d (k # ks) =
     (if \<not> dm_quiesced ?m then search_down io rd live ring d ks
      else if \<not> ok then search_down io rd live ring d1 ks
      else (case check rd (dm_dir ?m) (?r \<noteq> Some DBClean) of
              None \<Rightarrow> (unheld, Inl (CopyUnreadable (dm_path ?m)))
            | Some (VerdictCorrupt, _) \<Rightarrow> search_down io rd live ring (db_release io d1 ?m) ks
            | Some (VerdictClean, s) \<Rightarrow>
                (if s < 0 then (unheld, Inl (CopyWithoutSchema (dm_path ?m)))
                 else if live < s then search_down io rd live ring unheld ks
                 else (d1, Inr k))))"
    by (cases ?r) (simp_all add: Let_def d1_def ok_def unheld_def case_prod_beta split: option.split db_verdict.split)
  have d1: "db_record d1 a = Some DBClean \<Longrightarrow> db_record d a = Some DBClean" for a
    by (auto simp: d1_def dest: set_record_clean split: if_splits)
  have grows: "grows d d1" "grows d unheld" "grows d (db_release io d1 ?m)"
    using set_record_grows [of d] release_grows [of d1] grows_trans [of d d1] by (auto simp: d1_def unheld_def)
  have skip: ?case if "search_down io rd live ring e ks = (d', Inr i)" "passed_over (writes_since d e) rd live ?m"
      "\<And>a. db_record e a = Some DBClean \<Longrightarrow> db_record d a = Some DBClean" "grows d e" for e
  proof -
    have e: "grows e d'" using search_down_grows [of e io rd live ring ks] that(1) by simp
    have sub: "set (writes_since e d') \<subseteq> set (writes_since d d')" "set (writes_since d e) \<subseteq> set (writes_since d d')"
      using writes_since_mono [OF that(4) e grows_refl] writes_since_mono [OF grows_refl that(4) e] by simp_all
    from Cons.IH [OF that(1)] obtain pre post where p: "ks = pre @ i # post" "dm_quiesced (ring ! i)"
        "usable_copy rd live e (ring ! i)" "\<forall>j\<in>set pre. passed_over (writes_since e d') rd live (ring ! j)" by blast
    have "usable_copy rd live d (ring ! i)" using p(3) that(3) unfolding usable_copy_def by blast
    moreover have "passed_over (writes_since d d') rd live (ring ! j)" if "j \<in> set pre" for j
      using p(4) that passed_over_mono [OF _ sub(1)] by blast
    moreover have "passed_over (writes_since d d') rd live ?m" by (rule passed_over_mono [OF that(2) sub(2)])
    ultimately show ?thesis using p by (intro exI [of _ "k # pre"] exI [of _ post]) simp
  qed
  show ?case
  proof (cases "dm_quiesced ?m \<and> ok")
    case False
    have "passed_over (writes_since d d1) rd live ?m" if "\<not> ok"
      using that set_record_failed [of io d "dm_app ?m" DBChecking] by (auto simp: ok_def d1_def passed_over_def)
    moreover have "passed_over (writes_since d d) rd live ?m" if "\<not> dm_quiesced ?m" using that by (simp add: passed_over_def)
    ultimately show ?thesis using False Cons.prems d1 skip [of d] skip [of d1] grows unfolding step by (auto split: if_splits)
  next
    case True
    then obtain v s where c: "check rd (dm_dir ?m) (?r \<noteq> Some DBClean) = Some (v, s)"
      using Cons.prems unfolding step by (auto split: option.splits)
    show ?thesis
    proof (cases v)
      case VerdictCorrupt
      then have "passed_over ws rd live ?m" for ws using c by (auto simp: passed_over_def)
      then show ?thesis using VerdictCorrupt c True Cons.prems skip [of "db_release io d1 ?m"] d1 release_clean grows(3)
        unfolding step by auto
    next
      case VerdictClean
      show ?thesis
      proof (cases "live < s")
        case True
        then have "passed_over ws rd live ?m" for ws using c VerdictClean by (auto simp: passed_over_def)
        moreover have "db_record unheld a = Some DBClean \<Longrightarrow> db_record d a = Some DBClean" for a
          using d1 release_clean by (auto simp: unheld_def split: if_splits)
        ultimately show ?thesis using True \<open>dm_quiesced ?m \<and> ok\<close> c VerdictClean Cons.prems skip [of unheld] grows(2)
          unfolding step by (auto split: if_splits)
      next
        case False
        then have "i = k" "0 \<le> s" using True c VerdictClean Cons.prems unfolding step by (auto split: if_splits)
        moreover have "usable_copy rd live d ?m"
          using c VerdictClean False \<open>0 \<le> s\<close> unfolding usable_copy_def by (auto intro!: exI [of _ "?r \<noteq> Some DBClean"])
        ultimately show ?thesis using True by (intro exI [of _ "[]"] exI [of _ ks]) simp
      qed
    qed
  qed
qed simp

lemma last_where_Some:
  assumes "last_where P xs = Some i"
  shows "i < length xs \<and> P (xs ! i) \<and> (\<forall>j. i < j \<and> j < length xs \<longrightarrow> \<not> P (xs ! j))"
  using assms unfolding last_where_def find_rev_upt_Some by blast

lemma nightly_candidate:
  assumes "nightly io rd live d0 ring0 = (d', rep)" and "rp_candidate rep = Some c"
  shows "\<exists>newest d1 d2 i s. last_where dm_quiesced (sort_key dm_at ring0) = Some newest \<and>
     rp_checked rep = Some (sort_key dm_at ring0 ! newest) \<and> c = sort_key dm_at ring0 ! i \<and>
     check rd (dm_dir (sort_key dm_at ring0 ! newest)) True = Some (VerdictCorrupt, s) \<and>
     search io rd live d1 (take newest (sort_key dm_at ring0)) = (d2, Inr i) \<and>
     (\<forall>a. db_record d1 a = Some DBClean \<longrightarrow> db_record d0 a = Some DBClean) \<and> grows d0 d1 \<and> grows d2 d'"
proof -
  define ring where "ring = sort_key dm_at ring0"
  define d where "d = foldl (clear_checking io) d0 ring"
  obtain newest where n: "last_where dm_quiesced ring = Some newest"
    using assms by (cases "last_where dm_quiesced ring") (auto simp: nightly_def Let_def ring_def [symmetric])
  define m where "m = ring ! newest"
  define d1 where "d1 = (if db_record d (dm_app m) \<noteq> None then d else fst (set_record io d (dm_app m) (Some DBChecking)))"
  define ok where "ok = (db_record d (dm_app m) \<noteq> None \<or> snd (set_record io d (dm_app m) (Some DBChecking)))"
  have pair: "(if db_record d (dm_app m) \<noteq> None then (d, True) else set_record io d (dm_app m) (Some DBChecking)) = (d1, ok)"
    by (simp add: d1_def ok_def)
  have clean: "db_record (db_release io d1 m) a = Some DBClean \<Longrightarrow> db_record d0 a = Some DBClean" for a
    using release_clean [of io d1 m a] clear_checking_clean [of io d0 ring a]
    by (auto simp: d1_def d_def dest: set_record_clean split: if_splits)
  have grown: "grows d0 (db_release io d1 m)"
  proof -
    have "grows d0 d" unfolding d_def by (rule foldl_grows) (rule clear_checking_grows)
    moreover have "grows d d1" by (simp add: d1_def set_record_grows)
    ultimately show ?thesis using release_grows grows_trans by blast
  qed
  note run = assms(1) [unfolded nightly_def Let_def, folded ring_def, folded d_def, unfolded n, simplified option.case, folded m_def,
      unfolded pair, simplified prod.case]
  have ok: ok using run assms(2) by (auto split: if_splits)
  obtain v s where c: "check rd (dm_dir m) True = Some (v, s)"
    using run ok assms(2) by (auto split: option.splits)
  have v: "v = VerdictCorrupt" using run ok assms(2) c by (cases v) auto
  obtain d2 out where s: "search io rd live (db_release io d1 m) (take newest ring) = (d2, out)"
    by (cases "search io rd live (db_release io d1 m) (take newest ring)")
  obtain i where i: "out = Inr i" "rep = \<lparr>rp_checked = Some m, rp_verdict = Some VerdictCorrupt, rp_candidate = Some (ring ! i), rp_why = None\<rparr>"
      "d' = mark_clean io d2 ring i"
    using run ok assms(2) c v s by (cases out) auto
  show ?thesis
    unfolding ring_def [symmetric] using n i s c v clean assms(2) grown mark_clean_grows [of d2 io ring i]
    by (intro exI [of _ newest] exI [of _ "db_release io d1 m"] exI [of _ d2] exI [of _ i] exI [of _ s]) (auto simp: m_def)
qed

lemma search_finds:
  assumes "search io rd live d ring = (d', Inr i)"
  shows "\<exists>s. schema_of rd live = Some s \<and> i < length ring \<and> dm_quiesced (ring ! i) \<and> usable_copy rd s d (ring ! i) \<and>
     (\<forall>j. i < j \<and> j < length ring \<longrightarrow> passed_over (writes_since d d') rd s (ring ! j)) \<and> grows d d'"
proof -
  obtain s where s: "schema_of rd live = Some s" "search_down io rd s ring d (rev [clean_floor d ring..<length ring]) = (d', Inr i)"
    using assms by (auto simp: search_def split: option.splits)
  from search_down_finds [OF s(2)] obtain pre post where p: "rev [clean_floor d ring..<length ring] = pre @ i # post"
      "dm_quiesced (ring ! i)" "usable_copy rd s d (ring ! i)" "\<forall>j\<in>set pre. passed_over (writes_since d d') rd s (ring ! j)" by blast
  let ?is = "[clean_floor d ring..<length ring]"
  have e: "?is = rev post @ i # rev pre" using arg_cong [OF p(1), of rev] by simp
  have "i \<in> set ?is" by (subst e) simp
  then have i: "i < length ring" "clean_floor d ring \<le> i" by auto
  have "passed_over (writes_since d d') rd s (ring ! j)" if "i < j" "j < length ring" for j
  proof -
    have "j \<in> set ?is" using that i by simp
    then have "j \<in> set post \<or> j = i \<or> j \<in> set pre" by (subst (asm) e) auto
    moreover have "sorted ?is" by simp
    then have "\<forall>k\<in>set post. k \<le> i" by (subst (asm) e) (auto simp: sorted_append)
    ultimately show ?thesis using that p(4) by auto
  qed
  moreover have "grows d d'" using search_down_grows [of d io rd s ring "rev [clean_floor d ring..<length ring]"] s(2) by simp
  ultimately show ?thesis using s(1) i(1) p(2,3) by blast
qed

lemma sorted_key_nth: "i \<le> j \<Longrightarrow> j < length xs \<Longrightarrow> (f (sort_key f xs ! i) :: int) \<le> f (sort_key f xs ! j)"
  using sorted_nth_mono [of "map f (sort_key f xs)" i j] by simp

text \<open>
  What a night that took the disk from \<open>d\<close> to \<open>d'\<close> promises: \<open>damaged\<close> is the newest quiesced sample of the
  ring and reads damaged, and of the copy \<open>c\<close> it names and the samples between the two what follows.
\<close>

definition sound_candidate :: "readings \<Rightarrow> string \<Rightarrow> db_disk \<Rightarrow> db_disk \<Rightarrow> db_member list \<Rightarrow> db_member \<Rightarrow> db_member \<Rightarrow> bool" where
  "sound_candidate rd live d d' ring damaged c \<longleftrightarrow>
     damaged \<in> set ring \<and> dm_quiesced damaged \<and> (\<forall>m\<in>set ring. dm_quiesced m \<longrightarrow> dm_at m \<le> dm_at damaged) \<and>
     (\<exists>s. check rd (dm_dir damaged) True = Some (VerdictCorrupt, s)) \<and>
     c \<in> set ring \<and> dm_quiesced c \<and> dm_at c \<le> dm_at damaged \<and>
     (\<exists>s. schema_of rd live = Some s \<and> usable_copy rd s d c \<and>
        (\<forall>m\<in>set ring. dm_at c < dm_at m \<and> dm_at m < dm_at damaged \<longrightarrow> passed_over (writes_since d d') rd s m))"

text \<open>
  C7: a night names a copy for a restore only when the sample it checked is the newest quiesced one of the ring
  and reads damaged, and the copy
  is then quiesced, no newer, read clean (in full, or in full on an earlier night that recorded it clean)
  at a schema version the live database's recorder accepts; and of the samples between the two the
  search passed over every one for a reason of its own: not quiesced, damaged itself, of a newer schema, or the
  write of this night that would have held that very sample failed.
\<close>

theorem night_names_only_a_sound_copy:
  assumes "nightly io rd live d0 ring = (d', rep)" and "rp_candidate rep = Some c"
  shows "\<exists>damaged. rp_checked rep = Some damaged \<and> sound_candidate rd live d0 d' ring damaged c"
proof -
  let ?r = "sort_key dm_at ring"
  from nightly_candidate [OF assms] obtain newest d1 d2 i s where
    n: "last_where dm_quiesced ?r = Some newest" "rp_checked rep = Some (?r ! newest)" "c = ?r ! i"
      "check rd (dm_dir (?r ! newest)) True = Some (VerdictCorrupt, s)"
      "search io rd live d1 (take newest ?r) = (d2, Inr i)"
      "\<And>a. db_record d1 a = Some DBClean \<Longrightarrow> db_record d0 a = Some DBClean" "grows d0 d1" "grows d2 d'" by blast
  note newest = last_where_Some [OF n(1)]
  from search_finds [OF n(5)] newest obtain sl where sl: "schema_of rd live = Some sl" "i < newest" "dm_quiesced (?r ! i)"
      "usable_copy rd sl d1 (?r ! i)" "grows d1 d2"
      "\<And>j. i < j \<Longrightarrow> j < newest \<Longrightarrow> passed_over (writes_since d1 d2) rd sl (?r ! j)" by auto
  have le: "a \<le> b \<Longrightarrow> b < length ring \<Longrightarrow> dm_at (?r ! a) \<le> dm_at (?r ! b)" for a b by (rule sorted_key_nth)
  have at: "\<exists>j<length ring. m = ?r ! j" if "m \<in> set ring" for m
    using that by (metis in_set_conv_nth set_sort length_sort)
  have between: "passed_over (writes_since d0 d') rd sl m" if "m \<in> set ring" "dm_at c < dm_at m" "dm_at m < dm_at (?r ! newest)" for m
  proof -
    from at [OF that(1)] obtain j where j: "j < length ring" "m = ?r ! j" by blast
    have "i < j" using le [of j i] that(2) n(3) j sl(2) newest by (cases "j \<le> i") auto
    moreover have "j < newest" using le [of newest j] that(3) j by (cases "newest \<le> j") auto
    ultimately show ?thesis using passed_over_mono [OF sl(6) writes_since_mono [OF n(7) sl(5) n(8)]] j by simp
  qed
  have latest: "dm_at m \<le> dm_at (?r ! newest)" if "m \<in> set ring" "dm_quiesced m" for m
  proof -
    from at [OF that(1)] obtain j where j: "j < length ring" "m = ?r ! j" by blast
    then have "j \<le> newest" using newest that(2) by (metis length_sort not_le)
    then show ?thesis using le [of j newest] newest j by simp
  qed
  have "c \<in> set ?r" "?r ! newest \<in> set ?r" using n(3) sl(2) newest by (simp_all del: set_sort)
  then have "sound_candidate rd live d0 d' ring (?r ! newest) c"
    unfolding sound_candidate_def
    using n(3,4) sl(1,3,4) n(6) between latest newest le [of i newest] sl(2) by (auto simp: usable_copy_def)
  then show ?thesis using n(2) by blast
qed


section \<open>What the holds promise\<close>

text \<open>
  once a quiesced sample has been through \<open>Sampled\<close> without an error, a sample no more than eight
  hours older is held: that is the most history a restore loses. When the sample itself was not held
  already and is now, every other held sample that is not newer is at least eight hours away, so the
  holds stay few.
\<close>

lemma a_copy_within_eight_hours:
  assumes "db_sampled io d ring m = (d', True)" and "dm_quiesced m" and "m \<in> set ring"
  shows "(\<exists>o'\<in>set ring. db_record d' (dm_app o') \<noteq> None \<and> dm_at o' \<le> dm_at m \<and> dm_at m - dm_at o' < retain_every) \<and>
     (db_record d (dm_app m) = None \<and> db_record d' (dm_app m) \<noteq> None \<longrightarrow>
        (\<forall>o'\<in>set ring. dm_app o' \<noteq> dm_app m \<and> dm_at o' \<le> dm_at m \<and> db_record d' (dm_app o') \<noteq> None \<longrightarrow>
           retain_every \<le> dm_at m - dm_at o'))"
proof -
  let ?near = "\<lambda>o'. dm_app o' \<noteq> dm_app m \<and> dm_at o' \<le> dm_at m \<and> db_record d (dm_app o') \<noteq> None \<and>
      time_sub (dm_at m) (dm_at o') < retain_every"
  have near: "time_sub a b < retain_every \<longleftrightarrow> a - b < retain_every" for a b
    by (rule time_sub_less_iff) (simp_all add: retain_every_def time_simps)
  show ?thesis
  proof (cases "list_ex ?near ring")
    case True
    then have "d' = d" using assms(1,2) by (simp add: db_sampled_def)
    then show ?thesis using True near by (auto simp: list_ex_iff)
  next
    case False
    then have "d' = fst (set_record io d (dm_app m) (Some DBRetained))" "snd (set_record io d (dm_app m) (Some DBRetained))"
      using assms(1,2) by (simp_all add: db_sampled_def)
    then have d': "db_record d' (dm_app m) = Some DBRetained" "\<And>a. a \<noteq> dm_app m \<Longrightarrow> db_record d' a = db_record d a"
      using set_record_done [of io d "dm_app m" "Some DBRetained"] by simp_all
    have "0 < retain_every" by (simp add: retain_every_def time_simps)
    then have "\<exists>o'\<in>set ring. db_record d' (dm_app o') \<noteq> None \<and> dm_at o' \<le> dm_at m \<and> dm_at m - dm_at o' < retain_every"
      using assms(3) d'(1) by (intro bexI [of _ m]) auto
    moreover have "retain_every \<le> dm_at m - dm_at o'"
      if "o' \<in> set ring" "dm_app o' \<noteq> dm_app m" "dm_at o' \<le> dm_at m" "db_record d' (dm_app o') \<noteq> None" for o'
      using that False near [of "dm_at m" "dm_at o'"] d'(2) [OF that(2)] by (auto simp: list_ex_iff not_less)
    ultimately show ?thesis by blast
  qed
qed

lemma release_written:
  assumes "\<forall>n. io n = Written"
  shows "db_record (db_release io d m) a = (if a = dm_app m then None else db_record d a)"
  using set_record_done [OF set_record_written [OF assms], of d "dm_app m" None] by (simp add: db_release_def)

lemma releases_written:
  assumes "\<forall>n. io n = Written"
  shows "db_record (foldl (db_release io) d ms) a = (if a \<in> dm_app ` set ms then None else db_record d a)"
  by (induction ms arbitrary: d) (auto simp: release_written [OF assms])

text \<open>Marked clean, the copy is the floor of the next search and nothing older is held.\<close>

lemma mark_clean_leaves_the_floor:
  assumes "\<forall>n. io n = Written" and "dm_app (ring ! i) \<notin> dm_app ` set (take i ring)"
  shows "db_record (mark_clean io d ring i) (dm_app (ring ! i)) = Some DBClean"
    and "m \<in> set (take i ring) \<Longrightarrow> db_record (mark_clean io d ring i) (dm_app m) = None"
  using set_record_done [OF set_record_written [OF assms(1)], of d "dm_app (ring ! i)" "Some DBClean"]
    set_record_written [OF assms(1)] assms(2)
  by (auto simp: mark_clean_def case_prod_beta releases_written [OF assms(1)])

text \<open>
  The gate at the restore: the copy holds a clean record and both schema versions were read, the
  copy's not the newer.
\<close>

lemma restorable_iff:
  "restorable rd live d m = None \<longleftrightarrow>
   db_record d (dm_app m) = Some DBClean \<and>
   (\<exists>mine s. schema_of rd (dm_dir m) = Some mine \<and> schema_of rd live = Some s \<and> mine \<le> s)"
  by (auto simp: restorable_def split: option.splits)


section \<open>The restored files\<close>

lemma db_paths:
  "a @ ''/'' @ db_name \<noteq> b @ ''/'' @ db_name @ ''-wal''" "a @ ''/'' @ db_name \<noteq> b @ ''/'' @ db_name @ ''-shm''"
  "a @ ''/'' @ db_name @ ''-wal'' \<noteq> b @ ''/'' @ db_name @ ''-shm''" "a @ ''/'' @ db_name @ ''-wal'' \<noteq> b @ ''/'' @ db_name"
  by (auto simp: db_name_def dest!: arg_cong [of _ _ last])

lemma not_aside: "has_within corrupt_mark rel \<Longrightarrow> rel \<noteq> db_name \<and> rel \<noteq> db_name @ ''-wal'' \<and> rel \<noteq> db_name @ ''-shm''"
proof -
  have "\<not> has_within corrupt_mark db_name" "\<not> has_within corrupt_mark (db_name @ ''-wal'')"
    "\<not> has_within corrupt_mark (db_name @ ''-shm'')" by code_simp+
  then show "has_within corrupt_mark rel \<Longrightarrow> ?thesis" by blast
qed

text \<open>A listing names every plain file that is there, of those that were there at the start.\<close>

definition plain_name :: "string \<Rightarrow> bool" where
  "plain_name n \<longleftrightarrow> n \<noteq> [] \<and> list_all (\<lambda>c. c \<noteq> CHR ''/'' \<and> \<not> is_space c) n"

definition lists_truly :: "(file_map \<Rightarrow> volume) \<Rightarrow> string \<Rightarrow> file_map \<Rightarrow> bool" where
  "lists_truly vol dir fs \<longleftrightarrow>
     (\<forall>f n names. v_ls (vol f) dir = Some names \<longrightarrow> plain_name n \<longrightarrow> fs (dir @ ''/'' @ n) \<noteq> None \<longrightarrow> f (dir @ ''/'' @ n) \<noteq> None \<longrightarrow>
        n \<in> set names)"

lemma has_within_append: "has_within pat n \<Longrightarrow> has_within pat (w @ n)"
proof -
  assume "has_within pat n"
  then obtain i where "i < Suc (length n)" "prefix pat (drop i n)"
    unfolding has_within_def first_index_of_def find_None_iff by (auto simp del: upt_Suc)
  then have "length w + i \<in> set [0..<Suc (length (w @ n))]" "prefix pat (drop (length w + i) (w @ n))" by auto
  then show ?thesis
    unfolding has_within_def first_index_of_def find_None_iff by blast
qed

lemma corrupt_marked: "rel \<in> set (corrupt v dir) \<Longrightarrow> has_within corrupt_mark rel"
  by (auto simp: corrupt_def corrupt_in_def has_within_append has_within_append [of _ _ "_ @ ''/''", simplified] split: option.splits if_splits)

lemma corrupt_lists: "v_ls v dir = Some names \<Longrightarrow> n \<in> set names \<Longrightarrow> has_within corrupt_mark n \<Longrightarrow> n \<in> set (corrupt v dir)"
  by (simp add: corrupt_def corrupt_in_def)

lemma restore_db_result:
  assumes "restore_db rm_ok cp_ok test_ok vol from into fs = Some fs'" and "from \<noteq> into"
  shows "fs (from @ ''/'' @ db_name) \<noteq> None \<and> fs' (into @ ''/'' @ db_name) = fs (from @ ''/'' @ db_name) \<and>
     fs' (into @ ''/'' @ db_name @ ''-wal'') =
       (if test_ok (from @ ''/'' @ db_name @ ''-wal'') \<and> with_frames (fs (from @ ''/'' @ db_name @ ''-wal''))
        then fs (from @ ''/'' @ db_name @ ''-wal'') else None) \<and>
     fs' (into @ ''/'' @ db_name @ ''-shm'') = None"
    and "lists_truly vol into fs \<Longrightarrow> \<forall>f. v_ls (vol f) into \<noteq> None \<Longrightarrow> plain_name rel \<Longrightarrow> prefix db_name rel \<Longrightarrow>
       has_within corrupt_mark rel \<Longrightarrow> fs' (into @ ''/'' @ rel) = None"
proof -
  let ?db = "into @ ''/'' @ db_name" and ?src = "from @ ''/'' @ db_name"
  define f1 where "f1 = (\<lambda>p. if p \<in> set [?db @ ''-wal'', ?db @ ''-shm''] then None else fs p)"
  define f2 where "f2 = f1(?db := f1 ?src)"
  define f3 where "f3 = (if test_ok (?src @ ''-wal'') \<and> with_frames (f2 (?src @ ''-wal'')) then f2(?db @ ''-wal'' := f2 (?src @ ''-wal'')) else f2)"
  let ?gone = "map (\<lambda>rel. into @ ''/'' @ rel) (filter (prefix db_name) (corrupt (vol f3) into))"
  have run: "f1 ?src \<noteq> None" "fs' = (\<lambda>p. if p \<in> set ?gone then None else f3 p)"
    using assms(1) unfolding restore_db_def Let_def
    by (auto simp: rm_files_def cp_file_def f1_def f2_def f3_def Option.bind_eq_Some_conv split: if_splits)
  have src: "f1 ?src = fs ?src" "f2 (?src @ ''-wal'') = fs (?src @ ''-wal'')"
    using assms(2) db_paths by (auto simp: f1_def f2_def)
  have kept: "into @ ''/'' @ x \<notin> set ?gone" if "x = db_name \<or> x = db_name @ ''-wal'' \<or> x = db_name @ ''-shm''" for x
    using that not_aside corrupt_marked by auto
  have f3: "f3 ?db = fs ?src" "f3 (?db @ ''-shm'') = None"
      "f3 (?db @ ''-wal'') = (if test_ok (?src @ ''-wal'') \<and> with_frames (fs (?src @ ''-wal'')) then fs (?src @ ''-wal'') else None)"
    using src db_paths by (auto simp: f3_def f2_def f1_def)
  have at: "fs' ?db = f3 ?db" "fs' (?db @ ''-shm'') = f3 (?db @ ''-shm'')" "fs' (?db @ ''-wal'') = f3 (?db @ ''-wal'')"
    using kept [of db_name] kept [of "db_name @ ''-shm''"] kept [of "db_name @ ''-wal''"] by (simp_all add: run(2))
  show "fs (from @ ''/'' @ db_name) \<noteq> None \<and> fs' (into @ ''/'' @ db_name) = fs (from @ ''/'' @ db_name) \<and>
     fs' (into @ ''/'' @ db_name @ ''-wal'') =
       (if test_ok (from @ ''/'' @ db_name @ ''-wal'') \<and> with_frames (fs (from @ ''/'' @ db_name @ ''-wal''))
        then fs (from @ ''/'' @ db_name @ ''-wal'') else None) \<and>
     fs' (into @ ''/'' @ db_name @ ''-shm'') = None"
    using run(1) src(1) f3 at by auto
  show "fs' (into @ ''/'' @ rel) = None" if "lists_truly vol into fs" "\<forall>f. v_ls (vol f) into \<noteq> None" "plain_name rel" "prefix db_name rel"
    "has_within corrupt_mark rel"
  proof (cases "f3 (into @ ''/'' @ rel) = None")
    case False
    moreover have "f3 (into @ ''/'' @ rel) = fs (into @ ''/'' @ rel)"
      using not_aside [OF that(5)] by (simp add: f3_def f2_def f1_def)
    ultimately have "rel \<in> set (corrupt (vol f3) into)"
      using that corrupt_lists unfolding lists_truly_def by (metis option.exhaust_sel)
    then show ?thesis using that(4) by (auto simp: run(2))
  qed (simp add: run(2))
qed


lemma restore_db_frame:
  assumes "restore_db rm_ok cp_ok test_ok vol from into fs = Some fs'" and "under_db = (\<lambda>p. \<exists>rel. prefix db_name rel \<and> p = into @ ''/'' @ rel)"
    and "\<not> under_db p"
  shows "fs' p = fs p"
proof -
  have "p \<noteq> into @ ''/'' @ db_name @ x" "p \<noteq> into @ ''/'' @ rel \<or> \<not> prefix db_name rel" for x rel
    using assms(2,3) by (auto simp: prefix_def)
  from this(1) [of "[]"] this(1) [of "''-wal''"] this(1) [of "''-shm''"] this(2) show ?thesis
    using assms(1) unfolding restore_db_def Let_def
    by (auto simp: rm_files_def cp_file_def Option.bind_eq_Some_conv split: if_splits)
qed

text \<open>
  C40: when the restore into a staged copy ends without an error, the copy holds the database of the
  sample, its -wal when the test of it could be run and saw frames and none otherwise, no -shm, and, when the copy's
  directory could be listed, none of the damaged databases Home Assistant had set aside there; so no log of
  another database is replayed into it.
\<close>

theorem restored_database_is_the_copys:
  assumes "restore_db rm_ok cp_ok test_ok vol from into fs = Some fs'" and "from \<noteq> into" and "lists_truly vol into fs"
  shows "fs (from @ ''/'' @ db_name) \<noteq> None \<and> fs' (into @ ''/'' @ db_name) = fs (from @ ''/'' @ db_name) \<and>
     fs' (into @ ''/'' @ db_name @ ''-wal'') =
       (if test_ok (from @ ''/'' @ db_name @ ''-wal'') \<and> with_frames (fs (from @ ''/'' @ db_name @ ''-wal''))
        then fs (from @ ''/'' @ db_name @ ''-wal'') else None) \<and>
     fs' (into @ ''/'' @ db_name @ ''-shm'') = None \<and>
     ((\<forall>f. v_ls (vol f) into \<noteq> None) \<longrightarrow>
        (\<forall>rel. plain_name rel \<and> prefix db_name rel \<and> has_within corrupt_mark rel \<longrightarrow> fs' (into @ ''/'' @ rel) = None))"
  using restore_db_result(1) [OF assms(1,2)] restore_db_result(2) [OF assms] by blast

text \<open>A listing that fails is no error, and then the damaged database stays in the copy.\<close>

lemma unlisted_stays:
  assumes "\<And>f d. v_ls (vol f) d = None" and "restore_db rm_ok cp_ok test_ok vol from into fs = Some fs'"
    and "has_within corrupt_mark rel"
  shows "fs' (into @ ''/'' @ rel) = fs (into @ ''/'' @ rel)"
proof -
  have "corrupt (vol f) into = []" for f by (simp add: corrupt_def corrupt_in_def assms(1))
  then show ?thesis
    using assms(2) not_aside [OF assms(3)] unfolding restore_db_def Let_def
    by (auto simp: rm_files_def cp_file_def Option.bind_eq_Some_conv split: if_splits)
qed


section \<open>Examples\<close>

definition example_copy :: "nat \<Rightarrow> db_member" where
  "example_copy n = \<lparr>dm_path = ''m'' @ dec_of_nat n, dm_dir = ''d'' @ dec_of_nat n, dm_app = ''a'' @ dec_of_nat n,
     dm_at = int n * hour, dm_quiesced = True\<rparr>"

definition example_readings :: readings where
  "example_readings dir full =
     (if dir = ''d9'' \<or> dir = ''d8'' then Some \<lparr>cr_check = ''corrupt'', cr_schema = None, cr_error = []\<rparr>
      else Some \<lparr>cr_check = ''ok'', cr_schema = Some 48, cr_error = []\<rparr>)"

definition example_db_disk :: db_disk where
  "example_db_disk = \<lparr>dd_sidecar = (\<lambda>_. None), dd_writes = []\<rparr>"

definition example_copies :: "db_member list" where
  "example_copies = [example_copy 9, example_copy 7, example_copy 8, example_copy 1]"

theorem night_names_only_a_sound_copy_witness:
  "\<exists>damaged. rp_checked (snd (nightly (\<lambda>_. Written) example_readings ''live'' example_db_disk example_copies)) = Some damaged \<and>
     sound_candidate example_readings ''live'' example_db_disk
       (fst (nightly (\<lambda>_. Written) example_readings ''live'' example_db_disk example_copies)) example_copies damaged (example_copy 7)"
proof -
  have "rp_candidate (snd (nightly (\<lambda>_. Written) example_readings ''live'' example_db_disk example_copies)) = Some (example_copy 7)"
    by code_simp
  then show ?thesis by (rule night_names_only_a_sound_copy [OF prod.collapse [symmetric]])
qed

definition example_db_files :: file_map where
  "example_db_files =
     [''m/'' @ db_name \<mapsto> ''good'', ''live/'' @ db_name \<mapsto> ''bad'', ''live/'' @ db_name @ ''-wal'' \<mapsto> ''frames'',
      ''live/'' @ db_name @ ''.corrupt.1'' \<mapsto> ''worse'']"

definition example_names :: "string list" where "example_names = [db_name, db_name @ ''-wal'', db_name @ ''.corrupt.1'']"

definition example_view :: "file_map \<Rightarrow> volume" where
  "example_view f =
     \<lparr>v_read = f, v_ls = (\<lambda>dir. Some (filter (\<lambda>n. f (dir @ ''/'' @ n) \<noteq> None) example_names)), v_find_yaml = (\<lambda>_. None)\<rparr>"

lemma example_view_lists: "lists_truly example_view ''live'' example_db_files"
proof -
  have "n \<in> set example_names" if "example_db_files (''live/'' @ n) \<noteq> None" for n
    using that by (auto simp: example_db_files_def example_names_def split: if_splits)
  then show ?thesis by (auto simp: lists_truly_def example_view_def)
qed

theorem restored_database_is_the_copys_witness:
  "\<exists>fs'. restore_db (\<lambda>_. True) (\<lambda>_. True) (\<lambda>_. True) example_view ''m'' ''live'' example_db_files = Some fs' \<and>
     fs' (''live/'' @ db_name) = Some ''good'' \<and> fs' (''live/'' @ db_name @ ''-wal'') = None \<and>
     fs' (''live/'' @ db_name @ ''.corrupt.1'') = None"
proof -
  have "restore_db (\<lambda>_. True) (\<lambda>_. True) (\<lambda>_. True) example_view ''m'' ''live'' example_db_files \<noteq> None"
    "example_db_files (''m/'' @ db_name) = Some ''good''" "\<not> with_frames (example_db_files (''m/'' @ db_name @ ''-wal''))"
    by (code_simp)+
  then obtain fs' where run: "restore_db (\<lambda>_. True) (\<lambda>_. True) (\<lambda>_. True) example_view ''m'' ''live'' example_db_files = Some fs'" by auto
  have named: "plain_name (db_name @ ''.corrupt.1'')" "prefix db_name (db_name @ ''.corrupt.1'')"
    "has_within corrupt_mark (db_name @ ''.corrupt.1'')" by code_simp+
  have seen: "\<forall>f. v_ls (example_view f) ''live'' \<noteq> None" by (simp add: example_view_def)
  note all = restored_database_is_the_copys [OF run _ example_view_lists]
  have "fs' (''live'' @ ''/'' @ db_name @ ''.corrupt.1'') = None" using all named seen by blast
  then show ?thesis using run all \<open>example_db_files (''m/'' @ db_name) = Some ''good''\<close>
    \<open>\<not> with_frames (example_db_files (''m/'' @ db_name @ ''-wal''))\<close> by simp
qed

end
