(* ===== verification/Ring.thy ===== *)
theory Ring
  imports DbCheck
begin

text \<open>
  The ring of an app's samples on a guest (\<open>agent/guestagent/inbound.go\<close>, with the registry's part of
  \<open>agent/apps/apps.go\<close>): taking a sample, evaluating it, replacing pending starts, pruning, the clean-stop
  marker, and who may ask for a sample from inside a container.

  The disk is a record: the names in the snapshots directory (the sidecars beside the members, which the
  listing skips, are kept apart), the sidecars, the app sidecars, the clean-stop markers. Every command
  that changes it is numbered, and \<open>ring_io\<close> says how the n-th ends. Reads see what is on the disk. What
  depends on Home Assistant's files is computed from a \<open>volume\<close>; which app a manifest names is a parameter.
\<close>


section \<open>The disk and its commands\<close>

record ring_disk =
  rd_names :: "string list"
  rd_sidecars :: "string \<Rightarrow> snapshot_meta option"
  rd_apps :: db_disk
  rd_clean :: "string \<Rightarrow> bool"
  rd_cmds :: nat

record ring_io =
  io_write :: "nat \<Rightarrow> write_outcome"
  io_ok :: "nat \<Rightarrow> bool"
  io_removes :: "nat \<Rightarrow> string \<Rightarrow> bool"
  io_app :: "nat \<Rightarrow> write_outcome"

abbreviation next_cmd :: "ring_disk \<Rightarrow> ring_disk" where
  "next_cmd d \<equiv> d\<lparr>rd_cmds := Suc (rd_cmds d)\<rparr>"

text \<open>
  What the registry knows of an app from its manifest: None when the manifest does not parse, otherwise
  Home Assistant's configuration directory in the data area, when the app is Home Assistant and has one.
\<close>

record app_knowledge =
  ak_hass :: "string \<Rightarrow> string option option"
  ak_json :: hass_json

definition safe_unit_name :: "string \<Rightarrow> bool" where
  "safe_unit_name n \<longleftrightarrow> n \<noteq> [] \<and> CHR ''/'' \<notin> set n \<and> char_of (92 :: nat) \<notin> set n \<and> \<not> has_within ''..'' n"

definition manifest_dir :: string where "manifest_dir = ''/var/lib/briard/.apps''"
definition manifest_path :: "string \<Rightarrow> string" where "manifest_path app = manifest_dir @ ''/'' @ app @ ''.json''"
definition clean_stop_path :: "string \<Rightarrow> string" where "clean_stop_path app = manifest_dir @ ''/'' @ app @ ''.clean''"
definition data_root :: "string \<Rightarrow> string" where "data_root app = ''/var/lib/briard/data/'' @ app"
definition health_gate :: duration where "health_gate = 5 * minute"


section \<open>The registry's answers\<close>

definition apps_corrupt :: "app_knowledge \<Rightarrow> volume \<Rightarrow> string \<Rightarrow> string \<Rightarrow> string list" where
  "apps_corrupt ak v manifest root =
     (case ak_hass ak manifest of
        Some (Some dir) \<Rightarrow> map (\<lambda>r. dir @ ''/'' @ r) (corrupt v (root @ ''/'' @ dir))
      | _ \<Rightarrow> [])"

definition apps_detect :: "app_knowledge \<Rightarrow> volume \<Rightarrow> string \<Rightarrow> string \<Rightarrow> string \<Rightarrow> bool \<Rightarrow> string \<times> string list" where
  "apps_detect ak v manifest prev next running =
     (case ak_hass ak manifest of
        Some (Some dir) \<Rightarrow>
          (let before = signals_of v (prev @ ''/'' @ dir); after = signals_of v (next @ ''/'' @ dir)
           in (sentence (detect (ak_json ak) before after running), map (\<lambda>r. dir @ ''/'' @ r) (resets before after)))
      | _ \<Rightarrow> ([], []))"

definition apps_reset_phrase :: "string list \<Rightarrow> string" where
  "apps_reset_phrase rs = reset_phrase (map (\<lambda>r. case cut CHR ''/'' r of None \<Rightarrow> [] | Some (_, rel) \<Rightarrow> rel) rs)"

definition restore_markers :: "app_knowledge \<Rightarrow> string \<Rightarrow> string list" where
  "restore_markers ak manifest =
     (case ak_hass ak manifest of Some (Some dir) \<Rightarrow> [dir @ ''/.HA_RESTORE''] | _ \<Rightarrow> [])"

definition ring_member :: "string \<Rightarrow> snapshot_entry \<Rightarrow> db_member" where
  "ring_member dir e =
     \<lparr>dm_path = se_member e, dm_dir = se_member e @ ''/'' @ dir, dm_app = app_sidecar (se_member e),
      dm_at = entry_time e, dm_quiesced = (sm_consistency (se_meta e) = Quiesced)\<rparr>"


section \<open>Reading the ring\<close>

definition ends_with :: "string \<Rightarrow> string \<Rightarrow> bool" where "ends_with suf s \<longleftrightarrow> suffix suf s"

definition name_time :: "string \<Rightarrow> time" where
  "name_time n = (case member_time n of None \<Rightarrow> 0 | Some t \<Rightarrow> t)"

definition ring_members :: "ring_disk \<Rightarrow> string \<Rightarrow> string list" where
  "ring_members d app =
     sort_key name_time (filter (\<lambda>n. \<not> ends_with ''.json'' n \<and> member_app n = Some app) (rd_names d))"

definition entry_of :: "ring_disk \<Rightarrow> string \<Rightarrow> snapshot_entry option" where
  "entry_of d n =
     (let member = snapshots_dir @ n
      in map_option (\<lambda>meta. \<lparr>se_member = member, se_meta = meta,
           se_app = (dd_sidecar (rd_apps d) (app_sidecar member) \<noteq> None)\<rparr>)
         (rd_sidecars d (snapshot_sidecar member)))"

text \<open>None is the refusal of an unsafe name.\<close>

definition list_members :: "ring_disk \<Rightarrow> string \<Rightarrow> snapshot_entry list option" where
  "list_members d app =
     (if safe_unit_name app then Some (List.map_filter (entry_of d) (ring_members d app)) else None)"


section \<open>Writing and deleting\<close>

definition write_meta :: "ring_io \<Rightarrow> ring_disk \<Rightarrow> string \<Rightarrow> snapshot_meta \<Rightarrow> ring_disk \<times> bool" where
  "write_meta io d member meta =
     (let out = io_write io (rd_cmds d);
          d' = d\<lparr>rd_sidecars := (rd_sidecars d)(snapshot_sidecar member := Some meta)\<rparr>
      in case out of
           NotWritten \<Rightarrow> (next_cmd d, False)
         | Unflushed \<Rightarrow> (next_cmd d', False)
         | Written \<Rightarrow> (next_cmd d', True))"

definition remove_files :: "ring_io \<Rightarrow> ring_disk \<Rightarrow> string list \<Rightarrow> ring_disk" where
  "remove_files io d ps =
     (let gone = (\<lambda>p. p \<in> set ps \<and> io_removes io (rd_cmds d) p)
      in next_cmd d\<lparr>rd_sidecars := (\<lambda>p. if gone p then None else rd_sidecars d p),
           rd_apps := (rd_apps d)\<lparr>dd_sidecar := (\<lambda>p. if gone p then None else dd_sidecar (rd_apps d) p)\<rparr>\<rparr>)"

text \<open>The subvolume, then its sidecars; a subvolume that does not delete keeps them.\<close>

definition drop_member :: "ring_io \<Rightarrow> ring_disk \<Rightarrow> string \<Rightarrow> ring_disk" where
  "drop_member io d member =
     (if io_ok io (rd_cmds d)
      then remove_files io (next_cmd d\<lparr>rd_names := filter (\<lambda>n. snapshots_dir @ n \<noteq> member) (rd_names d)\<rparr>)
             [snapshot_sidecar member, app_sidecar member]
      else next_cmd d)"

definition prune_ring :: "ring_io \<Rightarrow> ring_disk \<Rightarrow> string \<Rightarrow> time \<Rightarrow> ring_disk" where
  "prune_ring io d app now =
     (case list_members d app of None \<Rightarrow> d | Some es \<Rightarrow> foldl (drop_member io) d (retention_prune es now))"


section \<open>Lists of renames\<close>

definition without :: "string list \<Rightarrow> string list \<Rightarrow> string list" where
  "without a b = filter (\<lambda>s. s \<notin> set b) a"

fun union_of :: "string list \<Rightarrow> string list \<Rightarrow> string list" where
  "union_of out [] = out"
| "union_of out (s # ss) = union_of (if s \<in> set out then out else out @ [s]) ss"

definition union_all :: "string list list \<Rightarrow> string list" where
  "union_all ls = foldl union_of [] ls"


section \<open>One sample's evaluation\<close>

text \<open>The loop starts at Go's zero time.\<close>

definition previous_evaluated :: "snapshot_entry list \<Rightarrow> string \<Rightarrow> snapshot_entry option" where
  "previous_evaluated es member =
     (case member_time member of
        None \<Rightarrow> None
      | Some at \<Rightarrow>
          fst (foldl (\<lambda>(prev, prev_at) m.
             case member_time (se_member m) of
               None \<Rightarrow> (prev, prev_at)
             | Some t \<Rightarrow>
                 (if \<not> sm_pending (se_meta m) \<and> se_member m \<noteq> member \<and> t < at \<and> prev_at < t then (Some m, t)
                  else (prev, prev_at))) (None, 0) es))"

definition evaluate_reasons :: "app_knowledge \<Rightarrow> volume \<Rightarrow> snapshot_entry \<Rightarrow> string \<Rightarrow> snapshot_meta \<Rightarrow> reason list \<Rightarrow>
    reason list" where
  "evaluate_reasons ak v prev member meta extra =
     (let compared = (\<not> is_before (sm_trigger (se_meta prev)) \<and> ak_hass ak (sm_manifest meta) \<noteq> None);
          (changed, rs) = (if compared
             then apps_detect ak v (sm_manifest meta) (se_member prev) member (sm_trigger meta = TriggerClock)
             else ([], []));
          resets = union_all [without rs (sm_resets (se_meta prev)), sm_resets meta]
      in (if changed = [] then [] else [\<lparr>rs_kind = ReasonChanged, rs_what = changed\<rparr>]) @
         (if resets = [] then [] else [\<lparr>rs_kind = ReasonReset, rs_what = apps_reset_phrase resets\<rparr>]) @ extra)"

text \<open>The member the reasons land on with the reasons, or None when nothing is registered.\<close>

definition evaluate_sample :: "app_knowledge \<Rightarrow> volume \<Rightarrow> snapshot_entry list \<Rightarrow> snapshot_entry \<Rightarrow> string \<Rightarrow>
    snapshot_meta \<Rightarrow> reason list \<Rightarrow> (snapshot_entry \<times> reason list) option" where
  "evaluate_sample ak v es prev member meta extra =
     (let found = evaluate_reasons ak v prev member meta extra
      in if found \<noteq> [] then Some (prev, found)
         else if sm_event meta \<noteq> None then None
         else map_option (\<lambda>point. (point, [\<lparr>rs_kind = ReasonQuiet, rs_what = []\<rparr>])) (quiet_point es member))"

definition with_reasons :: "ring_event option \<Rightarrow> reason list \<Rightarrow> time \<Rightarrow> ring_event option" where
  "with_reasons ev rs at =
     foldl (\<lambda>ev r. if rs_kind r = ReasonQuiet \<and> ev \<noteq> None then ev else Some (event_with ev r at)) ev rs"

definition add_reasons :: "ring_io \<Rightarrow> ring_disk \<Rightarrow> snapshot_entry \<Rightarrow> reason list \<Rightarrow> time \<Rightarrow> ring_disk" where
  "add_reasons io d point rs at =
     (let ev = entry_event point; ev' = with_reasons ev rs at
      in if rs = [] \<or> (\<forall>r\<in>set rs. rs_kind r = ReasonQuiet \<and> ev \<noteq> None) then d
         else fst (write_meta io d (se_member point) ((se_meta point)\<lparr>sm_event := ev'\<rparr>)))"

text \<open>The older samples still pending are closed as replaced, on the disk and in the list at hand.\<close>

fun close_older :: "ring_io \<Rightarrow> ring_disk \<Rightarrow> time \<Rightarrow> snapshot_entry list \<Rightarrow> ring_disk \<times> snapshot_entry list" where
  "close_older io d at [] = (d, [])"
| "close_older io d at (m # ms) =
     (if member_time (se_member m) \<noteq> None \<and> sm_pending (se_meta m) \<and> entry_time m < at
      then
        (let meta = (se_meta m)\<lparr>sm_pending := False\<rparr>;
             (d', ms') = close_older io (fst (write_meta io d (se_member m) meta)) at ms
         in (d', m\<lparr>se_meta := meta\<rparr> # ms'))
      else (let (d', ms') = close_older io d at ms in (d', m # ms')))"

definition settled_meta :: "snapshot_entry option \<Rightarrow> snapshot_meta \<Rightarrow> snapshot_meta" where
  "settled_meta prev was =
     was\<lparr>sm_pending := False,
         sm_health := (case prev of
            Some p \<Rightarrow> if sm_health was = HealthUnknown then sm_health (se_meta p) else sm_health was
          | None \<Rightarrow> sm_health was)\<rparr>"

definition settle :: "ring_io \<Rightarrow> app_knowledge \<Rightarrow> volume \<Rightarrow> ring_disk \<Rightarrow> snapshot_entry list \<Rightarrow> snapshot_entry \<Rightarrow>
    reason list \<Rightarrow> time \<Rightarrow> ring_disk" where
  "settle io ak v d es e extra at =
     (let prev = previous_evaluated es (se_member e);
          (d1, es1) = close_older io d (entry_time e) es;
          meta = settled_meta prev (se_meta e);
          d2 = (if sm_pending meta \<noteq> sm_pending (se_meta e) \<or> sm_health meta \<noteq> sm_health (se_meta e)
                then fst (write_meta io d1 (se_member e) meta) else d1)
      in case prev of
           None \<Rightarrow> d2
         | Some p \<Rightarrow>
             (case evaluate_sample ak v es1 p (se_member e) meta extra of
                None \<Rightarrow> d2
              | Some (point, rs) \<Rightarrow> add_reasons io d2 point rs at))"


section \<open>Replacing pending starts\<close>

definition replaceable :: "time \<Rightarrow> snapshot_entry \<Rightarrow> bool" where
  "replaceable at m \<longleftrightarrow>
     member_time (se_member m) \<noteq> None \<and> entry_time m < at \<and> sm_pending (se_meta m) \<and>
     sm_trigger (se_meta m) = TriggerStart \<and> entry_event m = None"

definition carried_resets :: "app_knowledge \<Rightarrow> volume \<Rightarrow> string \<Rightarrow> snapshot_meta \<Rightarrow> snapshot_entry list \<Rightarrow> string list" where
  "carried_resets ak v member meta old =
     (if ak_hass ak (sm_manifest meta) = None then sm_resets meta
      else
        (let here = apps_corrupt ak v (sm_manifest meta) member;
             carried = foldl (\<lambda>c m. union_all [c, sm_resets (se_meta m),
                 without here (apps_corrupt ak v (sm_manifest meta) (se_member m))]) (sm_resets meta) old
         in if length (sm_resets meta) < length carried then carried else sm_resets meta))"

definition carried_meta :: "app_knowledge \<Rightarrow> volume \<Rightarrow> string \<Rightarrow> snapshot_meta \<Rightarrow> snapshot_entry list \<Rightarrow> snapshot_meta" where
  "carried_meta ak v member meta old =
     meta\<lparr>sm_resets := carried_resets ak v member meta old,
          sm_consistency := (if list_ex (\<lambda>m. sm_consistency (se_meta m) = Crash) old then Crash else sm_consistency meta)\<rparr>"

definition replace_pending :: "ring_io \<Rightarrow> app_knowledge \<Rightarrow> volume \<Rightarrow> ring_disk \<Rightarrow> string \<Rightarrow> snapshot_meta \<Rightarrow> ring_disk" where
  "replace_pending io ak v d member meta =
     (case (list_members d (sm_app meta), member_time member) of
        (Some es, Some at) \<Rightarrow>
          (let old = filter (replaceable at) es; meta' = carried_meta ak v member meta old
           in if old = [] then d
              else if meta' = meta then foldl (drop_member io) d (map se_member old)
              else
                (let (d1, ok) = write_meta io d member meta'
                 in if ok then foldl (drop_member io) d1 (map se_member old) else d1))
      | _ \<Rightarrow> d)"


section \<open>What every take does\<close>

definition sampled :: "ring_io \<Rightarrow> app_knowledge \<Rightarrow> ring_disk \<Rightarrow> string \<Rightarrow> snapshot_meta \<Rightarrow> ring_disk" where
  "sampled io ak d member meta =
     (if sm_trigger meta = TriggerHassDBRestoreBefore then d
      else
        (case (ak_hass ak (sm_manifest meta), list_members d (sm_app meta)) of
           (Some (Some dir), Some es) \<Rightarrow>
             (case find (\<lambda>e. se_member e = member) (rev es) of
                None \<Rightarrow> d
              | Some self \<Rightarrow>
                  d\<lparr>rd_apps := fst (db_sampled (io_app io) (rd_apps d) (map (ring_member dir) es) (ring_member dir self))\<rparr>)
         | _ \<Rightarrow> d))"

definition record_member :: "ring_io \<Rightarrow> app_knowledge \<Rightarrow> volume \<Rightarrow> ring_disk \<Rightarrow> string \<Rightarrow> snapshot_meta \<Rightarrow> ring_disk" where
  "record_member io ak v d member meta =
     (let d1 = (if sm_pending meta then replace_pending io ak v d member meta
                else
                  (case list_members d (sm_app meta) of
                     None \<Rightarrow> d
                   | Some es \<Rightarrow>
                       settle io ak v d es \<lparr>se_member = member, se_meta = meta, se_app = False\<rparr> [] (sm_taken_at meta)));
          d2 = sampled io ak d1 member meta
      in prune_ring io d2 (sm_app meta) (sm_taken_at meta))"

text \<open>\<open>health\<close> is \<open>appHealth\<close>'s answer, unknown when it fails.\<close>

definition evaluate_pending :: "ring_io \<Rightarrow> app_knowledge \<Rightarrow> volume \<Rightarrow> app_health \<Rightarrow> ring_disk \<Rightarrow> string \<Rightarrow> time \<Rightarrow> ring_disk" where
  "evaluate_pending io ak v health d app now =
     (case list_members d app of
        None \<Rightarrow> d
      | Some es \<Rightarrow>
          (case find (\<lambda>m. sm_pending (se_meta m)) (rev es) of
             None \<Rightarrow> d
           | Some p \<Rightarrow>
               (if health \<noteq> Healthy \<and> time_sub now (sm_taken_at (se_meta p)) < health_gate then d
                else
                  (let h = settled health;
                       turned = (case previous_evaluated es (se_member p) of
                          None \<Rightarrow> False
                        | Some q \<Rightarrow> h = Unhealthy \<and> sm_health (se_meta q) \<noteq> Unhealthy);
                       extra = (if turned then [\<lparr>rs_kind = ReasonUnhealthy, rs_what = []\<rparr>] else []);
                       manifest = sm_manifest (se_meta p);
                       resets = (if ak_hass ak manifest = None then sm_resets (se_meta p)
                                 else union_all [sm_resets (se_meta p),
                                   without (apps_corrupt ak v manifest (data_root app)) (apps_corrupt ak v manifest (se_member p))]);
                       e = p\<lparr>se_meta := (se_meta p)\<lparr>sm_health := h, sm_resets := resets\<rparr>\<rparr>
                   in prune_ring io (settle io ak v d es e extra now) app now))))"


section \<open>The clean-stop marker\<close>

datatype stop_error = UnsafeApp | MarkerFailed

definition record_app_stop :: "ring_io \<Rightarrow> ring_disk \<Rightarrow> string \<Rightarrow> string \<Rightarrow> ring_disk \<times> stop_error option" where
  "record_app_stop io d app result =
     (if \<not> safe_unit_name app then (d, Some UnsafeApp)
      else if result \<noteq> ''success'' then
        (if io_ok io (rd_cmds d) then (next_cmd d\<lparr>rd_clean := (rd_clean d)(app := False)\<rparr>, None)
         else (next_cmd d, Some MarkerFailed))
      else
        (case io_write io (rd_cmds d) of
           NotWritten \<Rightarrow> (next_cmd d, Some MarkerFailed)
         | Unflushed \<Rightarrow> (next_cmd d\<lparr>rd_clean := (rd_clean d)(app := True)\<rparr>, Some MarkerFailed)
         | Written \<Rightarrow> (next_cmd d\<lparr>rd_clean := (rd_clean d)(app := True)\<rparr>, None)))"

definition consume_clean_stop :: "ring_io \<Rightarrow> ring_disk \<Rightarrow> string \<Rightarrow> ring_disk \<times> consistency" where
  "consume_clean_stop io d app =
     (if \<not> rd_clean d app then (d, Crash)
      else if io_ok io (rd_cmds d) then (next_cmd d\<lparr>rd_clean := (rd_clean d)(app := False)\<rparr>, Quiesced)
      else (next_cmd d, Quiesced))"


section \<open>Taking a sample\<close>

datatype take_error = AlreadyThere | NoGroup | NotTaken | NotLabelled bool

text \<open>\<open>grouped\<close> says whether the area has its quota grouped; a label that fails may leave part of a file.\<close>

definition take_snapshot :: "ring_io \<Rightarrow> bool \<Rightarrow> ring_disk \<Rightarrow> string \<Rightarrow> snapshot_meta \<Rightarrow> ring_disk \<times> take_error option" where
  "take_snapshot io grouped d n meta =
     (let member = snapshots_dir @ n; sidecar = snapshot_sidecar member
      in if n \<in> set (rd_names d) then (d, Some AlreadyThere)
         else if \<not> grouped then (d, Some NoGroup)
         else if \<not> io_ok io (rd_cmds d) then (next_cmd d, Some NotTaken)
         else
           (let d1 = next_cmd d\<lparr>rd_names := rd_names d @ [n]\<rparr>
            in if io_write io (rd_cmds d1) = Written
               then (next_cmd d1\<lparr>rd_sidecars := (rd_sidecars d1)(sidecar := Some meta)\<rparr>, None)
               else
                 (let d2 = next_cmd d1\<lparr>rd_sidecars := (rd_sidecars d1)(sidecar := None)\<rparr>
                  in if io_ok io (rd_cmds d2)
                     then (next_cmd d2\<lparr>rd_names := filter (\<lambda>m. m \<noteq> n) (rd_names d2)\<rparr>, Some (NotLabelled True))
                     else (next_cmd d2, Some (NotLabelled False)))))"

text \<open>
  What the history calls a backup, out of the marker Home Assistant wrote: \<open>json_path\<close> is the decoder's
  answer, the path under \<open>path\<close>, or None for a body that does not parse.
\<close>

definition base_name :: "string \<Rightarrow> string" where
  "base_name p =
     (if p = [] then ''.''
      else
        (let q = rev (dropWhile (\<lambda>c. c = CHR ''/'') (rev p))
         in if q = [] then ''/'' else rev (takeWhile (\<lambda>c. c \<noteq> CHR ''/'') (rev q))))"

definition backup_name :: "(string \<Rightarrow> string option) \<Rightarrow> string \<Rightarrow> string" where
  "backup_name json_path body =
     (let raw = (case json_path body of Some p \<Rightarrow> if p \<noteq> [] then p else trim_space body | None \<Rightarrow> trim_space body);
          name = foldl (\<lambda>b r. if r < 32 \<or> r = 127 \<or> 80 \<le> length b then b else b @ encode_rune r) [] (runes (base_name raw))
      in if name = [] \<or> name = ''.'' \<or> name = ''/'' \<or> prefix ''{'' name then ''a backup'' else ''backup '' @ name)"

definition hass_restore :: "app_knowledge \<Rightarrow> volume \<Rightarrow> (string \<Rightarrow> string option) \<Rightarrow> string \<Rightarrow> string \<Rightarrow> string option" where
  "hass_restore ak v json_path app manifest =
     first_some (\<lambda>rel. map_option (backup_name json_path) (v_read v (data_root app @ ''/'' @ rel))) (restore_markers ak manifest)"

datatype start_error = UnsafeName | NoManifest | TakeFailed take_error

definition start_meta :: "string \<Rightarrow> time \<Rightarrow> consistency \<Rightarrow> string \<Rightarrow> string option \<Rightarrow> snapshot_meta" where
  "start_meta app at cons manifest restored =
     \<lparr>sm_app = app,
      sm_trigger = (if restored = None then TriggerStart else TriggerHassRestoreBefore),
      sm_taken_at = at, sm_consistency = cons, sm_manifest = manifest,
      sm_event = map_option (\<lambda>b. \<lparr>ev_at = at, ev_reasons = [\<lparr>rs_kind = ReasonHassRestore, rs_what = ''Restored '' @ b\<rparr>]\<rparr>) restored,
      sm_pending = (restored = None), sm_health = HealthUnknown, sm_resets = []\<rparr>"

definition starting_member :: "ring_io \<Rightarrow> app_knowledge \<Rightarrow> volume \<Rightarrow> (string \<Rightarrow> string option) \<Rightarrow> bool \<Rightarrow>
    ring_disk \<Rightarrow> string \<Rightarrow> bool \<Rightarrow> time \<Rightarrow> ring_disk \<times> (start_error + string)" where
  "starting_member io ak v json_path grouped d app container_start at =
     (if \<not> safe_unit_name app then (d, Inl UnsafeName)
      else
        (case v_read v (manifest_path app) of
           None \<Rightarrow> (d, Inl NoManifest)
         | Some raw \<Rightarrow>
             (let (d1, cons) = (if container_start then consume_clean_stop io d app else (d, Quiesced));
                  restored = hass_restore ak v json_path app raw;
                  meta = start_meta app at cons raw restored;
                  n = trim_prefix snapshots_dir (snapshot_member app (sm_trigger meta) at)
              in case take_snapshot io grouped d1 n meta of
                   (d2, Some err) \<Rightarrow> (d2, Inl (TakeFailed err))
                 | (d2, None) \<Rightarrow> (record_member io ak v d2 (snapshots_dir @ n) meta, Inr n))))"


section \<open>Who is calling\<close>

text \<open>\<open>run_dir\<close> is the listing of the run directory, \<open>token_of\<close> the token file of a name in it.\<close>

definition resolve_caller :: "string list option \<Rightarrow> (string \<Rightarrow> string option) \<Rightarrow> string \<Rightarrow> string option" where
  "resolve_caller run_dir token_of token =
     (if length token < 32 then None
      else
        (case run_dir of
           None \<Rightarrow> None
         | Some names \<Rightarrow> find (\<lambda>n. map_option trim_space (token_of n) = Some token) names))"

datatype inbound_error = Malformed | UnknownCaller | UnknownVerb string | StartError start_error

text \<open>One request: None is a body the decoder refuses. The caller's app is never read from the request.\<close>

definition serve_inbound :: "ring_io \<Rightarrow> app_knowledge \<Rightarrow> volume \<Rightarrow> (string \<Rightarrow> string option) \<Rightarrow> bool \<Rightarrow>
    string list option \<Rightarrow> (string \<Rightarrow> string option) \<Rightarrow> ring_disk \<Rightarrow> (string \<times> string) option \<Rightarrow> time \<Rightarrow>
    ring_disk \<times> (inbound_error + string)" where
  "serve_inbound io ak v json_path grouped run_dir token_of d req at =
     (case req of
        None \<Rightarrow> (d, Inl Malformed)
      | Some (verb, token) \<Rightarrow>
          (case resolve_caller run_dir token_of token of
             None \<Rightarrow> (d, Inl UnknownCaller)
           | Some app \<Rightarrow>
               (if verb = ''app.starting'' then
                  (let (d', out) = starting_member io ak v json_path grouped d app False at
                   in (d', case out of Inl e \<Rightarrow> Inl (StartError e) | Inr n \<Rightarrow> Inr n))
                else (d, Inl (UnknownVerb verb)))))"


section \<open>Names and paths\<close>

lemma parse_stamp_ends: "parse_stamp s = Some t \<Longrightarrow> s \<noteq> [] \<and> last s = CHR ''Z''"
proof -
  assume "parse_stamp s = Some t"
  then obtain ns where f: "fraction (drop 15 s) = Some (ns, ''Z'')"
    by (auto simp: parse_stamp_def Let_def split: option.splits prod.splits if_splits)
  have "u \<noteq> [] \<and> last u = CHR ''Z''" if "fraction u = Some (ns, ''Z'')" for u
  proof (cases "\<exists>x us. u = x # us \<and> (x = CHR ''.'' \<or> x = CHR '','') \<and> dropWhile is_digit us = ''Z''")
    case True
    then obtain x us where "u = x # us" "dropWhile is_digit us = ''Z''" by blast
    moreover have "us = takeWhile is_digit us @ dropWhile is_digit us" by simp
    ultimately show ?thesis by (metis last_ConsR last_appendR last.simps list.distinct(1) append_is_Nil_conv)
  next
    case False
    then show ?thesis using that by (auto simp: fraction_def Let_def split: list.splits if_splits)
  qed
  from this [OF f] have "drop 15 s \<noteq> []" "last (drop 15 s) = CHR ''Z''" by blast+
  then show ?thesis by (cases "s = []") (simp_all add: last_drop)
qed

lemma first_some_Some: "first_some f xs = Some y \<Longrightarrow> \<exists>x\<in>set xs. f x = Some y"
  by (induction xs) (auto split: option.splits)

lemma member_name_ends:
  assumes "member_time m \<noteq> None \<or> member_app m \<noteq> None"
  shows "m \<noteq> [] \<and> last m = CHR ''Z''"
proof -
  let ?n = "trim_prefix snapshots_dir m"
  obtain r where "parse_snapshot_member m = Some r" using assms by (auto simp: member_time_def member_app_def)
  then obtain t where "parse_with ?n t = Some r" unfolding parse_snapshot_member_def by (meson first_some_Some)
  then obtain k at where "parse_stamp (drop k ?n) = Some at"
    by (auto simp: parse_with_def Let_def split: option.splits if_splits)
  then have "drop k ?n \<noteq> []" "last (drop k ?n) = CHR ''Z''" using parse_stamp_ends by blast+
  then have "?n \<noteq> []" "last ?n = CHR ''Z''" by (auto simp: last_drop)
  then show ?thesis by (auto simp: trim_prefix_def last_drop split: if_splits)
qed

lemma sidecar_paths [simp]:
  "snapshot_sidecar a = snapshot_sidecar b \<longleftrightarrow> a = b" "app_sidecar a = app_sidecar b \<longleftrightarrow> a = b"
  by (simp_all add: snapshot_sidecar_def app_sidecar_def)

lemma sidecars_apart:
  assumes "member_time a \<noteq> None \<or> member_app a \<noteq> None"
  shows "snapshot_sidecar a \<noteq> app_sidecar b"
proof
  assume "snapshot_sidecar a = app_sidecar b"
  then have "a @ ''.json'' = (b @ ''.app'') @ ''.json''" by (simp add: snapshot_sidecar_def app_sidecar_def)
  then have "a = b @ ''.app''" by (simp only: append_same_eq)
  then show False using member_name_ends [OF assms] by simp
qed

lemma trimmed_name [simp]: "trim_prefix snapshots_dir (snapshots_dir @ n) = n"
  by (simp add: trim_prefix_def)


section \<open>What a reader sees after a write and after a delete\<close>

lemma list_members_Some: "list_members d app = Some es \<Longrightarrow> e \<in> set es \<Longrightarrow>
   \<exists>n\<in>set (rd_names d). member_app n = Some app \<and> se_member e = snapshots_dir @ n \<and>
     rd_sidecars d (snapshot_sidecar (se_member e)) = Some (se_meta e)"
  by (fastforce simp: list_members_def List.map_filter_def ring_members_def entry_of_def Let_def split: if_splits option.splits)

text \<open>The listed names are bare, so what is read out of the path is what is read out of the name.\<close>

definition bare_names :: "ring_disk \<Rightarrow> bool" where
  "bare_names d \<longleftrightarrow> list_all (\<lambda>n. CHR ''/'' \<notin> set n) (rd_names d)"

lemma bare_name_facts:
  assumes "CHR ''/'' \<notin> set n"
  shows "member_time (snapshots_dir @ n) = member_time n" "member_app (snapshots_dir @ n) = member_app n"
proof -
  have "trim_prefix snapshots_dir n = n" using assms by (auto simp: trim_prefix_def snapshots_dir_def prefix_def)
  then show "member_time (snapshots_dir @ n) = member_time n" "member_app (snapshots_dir @ n) = member_app n"
    by (simp_all add: member_time_def member_app_def parse_snapshot_member_def)
qed

lemma map_filter_cong: "(\<And>x. x \<in> set xs \<Longrightarrow> f x = g x) \<Longrightarrow> List.map_filter f xs = List.map_filter g xs"
  by (induction xs) (auto simp: List.map_filter_simps split: option.split)

lemma map_filter_filter_out:
  "(\<And>x y. x \<in> set xs \<Longrightarrow> f x = Some y \<Longrightarrow> P x \<longleftrightarrow> Q y) \<Longrightarrow>
   List.map_filter f (filter P xs) = filter Q (List.map_filter f xs)"
  by (induction xs) (auto simp: List.map_filter_simps split: option.splits)

lemma map_filter_map: "List.map_filter (\<lambda>x. map_option g (f x)) xs = map g (List.map_filter f xs)"
  by (induction xs) (auto simp: List.map_filter_simps split: option.splits)

lemma list_members_write:
  assumes "list_members d app = Some es" and "m \<in> se_member ` set es"
  shows "list_members (fst (write_meta io d m meta)) app =
    Some (map (\<lambda>e. if se_member e = m \<and> io_write io (rd_cmds d) \<noteq> NotWritten then e\<lparr>se_meta := meta\<rparr> else e) es)"
proof -
  let ?d = "fst (write_meta io d m meta)"
  let ?up = "\<lambda>e. if se_member e = m \<and> io_write io (rd_cmds d) \<noteq> NotWritten then e\<lparr>se_meta := meta\<rparr> else e"
  obtain n0 where n0: "m = snapshots_dir @ n0" "rd_sidecars d (snapshot_sidecar m) \<noteq> None"
    using assms list_members_Some [OF assms(1)] by fastforce
  have e: "entry_of ?d n = map_option ?up (entry_of d n)" for n
    using n0 by (cases "rd_sidecars d (snapshot_sidecar (snapshots_dir @ n))"; cases "n = n0")
      (auto simp: entry_of_def Let_def write_meta_def split: write_outcome.split)
  have "ring_members ?d app = ring_members d app"
    by (simp add: ring_members_def write_meta_def Let_def split: write_outcome.split)
  moreover have "entry_of ?d = (\<lambda>n. map_option ?up (entry_of d n))" using e by (rule ext)
  ultimately show ?thesis using assms(1) by (simp add: list_members_def map_filter_map split: if_splits)
qed

lemma list_members_drop:
  assumes "list_members d app = Some es" and "m \<in> se_member ` set es"
  shows "list_members (drop_member io d m) app =
    Some (if io_ok io (rd_cmds d) then filter (\<lambda>e. se_member e \<noteq> m) es else es)"
proof (cases "io_ok io (rd_cmds d)")
  case True
  let ?d = "drop_member io d m"
  obtain n0 where n0: "m = snapshots_dir @ n0" "member_app n0 = Some app"
    using assms list_members_Some [OF assms(1)] by fastforce
  have rm: "ring_members ?d app = filter (\<lambda>n. snapshots_dir @ n \<noteq> m) (ring_members d app)"
    using True by (simp add: ring_members_def drop_member_def remove_files_def Let_def filter_sort conj_ac)
  have "entry_of ?d n = entry_of d n" if "n \<in> set (ring_members d app)" "snapshots_dir @ n \<noteq> m" for n
  proof -
    have a: "snapshot_sidecar x \<noteq> app_sidecar y" if "member_app x \<noteq> None" for x y using sidecars_apart that by blast
    have p: "snapshot_sidecar (snapshots_dir @ k) \<noteq> app_sidecar y" if "member_app k = Some app" for k y
    proof
      assume "snapshot_sidecar (snapshots_dir @ k) = app_sidecar y"
      then have "(snapshots_dir @ k) @ ''.json'' = (y @ ''.app'') @ ''.json''" by (simp add: snapshot_sidecar_def app_sidecar_def)
      then have "snapshots_dir @ k = y @ ''.app''" by (simp only: append_same_eq)
      then have "last (snapshots_dir @ k) = CHR ''p''" by simp
      then show False using member_name_ends [of k] that by simp
    qed
    have "member_app n = Some app" using that(1) by (simp add: ring_members_def)
    then show ?thesis
      using that(2) p [of n] p [of n0, symmetric] n0 True
      by (simp add: entry_of_def Let_def drop_member_def remove_files_def)
  qed
  then have "List.map_filter (entry_of ?d) (ring_members ?d app) =
      List.map_filter (entry_of d) (filter (\<lambda>n. snapshots_dir @ n \<noteq> m) (ring_members d app))"
    unfolding rm by (intro map_filter_cong) auto
  also have "\<dots> = filter (\<lambda>e. se_member e \<noteq> m) (List.map_filter (entry_of d) (ring_members d app))"
    by (rule map_filter_filter_out) (auto simp: entry_of_def Let_def)
  finally show ?thesis using True assms(1) by (auto simp: list_members_def split: if_splits)
next
  case False
  have "entry_of (next_cmd d) = entry_of d" by (rule ext) (simp add: entry_of_def)
  then show ?thesis using assms(1) False by (simp add: drop_member_def list_members_def ring_members_def split: if_splits)
qed




section \<open>Commands that work\<close>

definition works :: "ring_io \<Rightarrow> bool" where
  "works io \<longleftrightarrow> (\<forall>n. io_write io n = Written \<and> io_ok io n)"

lemma works_simps: "works io \<Longrightarrow> io_write io n = Written" "works io \<Longrightarrow> io_ok io n"
  by (simp_all add: works_def)


section \<open>The marker of a clean stop\<close>

datatype app_step = Stopped string | ContainerStarted

fun app_steps :: "ring_io \<Rightarrow> string \<Rightarrow> ring_disk \<Rightarrow> app_step list \<Rightarrow> ring_disk" where
  "app_steps io app d [] = d"
| "app_steps io app d (Stopped result # ss) = app_steps io app (fst (record_app_stop io d app result)) ss"
| "app_steps io app d (ContainerStarted # ss) = app_steps io app (fst (consume_clean_stop io d app)) ss"

lemma app_steps_append: "app_steps io app d (ss @ ts) = app_steps io app (app_steps io app d ss) ts"
  by (induction io app d ss rule: app_steps.induct) simp_all

text \<open>
  A start says the data was flushed exactly when the last thing that happened to the container was a
  stop that systemd called a success: the marker is spent by the start that reads it.
\<close>

lemma quiesced_only_after_a_clean_stop:
  assumes "works io" and "safe_unit_name app"
  shows "snd (consume_clean_stop io (app_steps io app d (ss @ [s])) app) = Quiesced \<longleftrightarrow> s = Stopped ''success''"
  using works_simps [OF assms(1)] assms(2)
  by (cases s) (auto simp: app_steps_append record_app_stop_def consume_clean_stop_def)

text \<open>A stop that failed to remove the marker, or a start that failed to spend it, says so by failing only.\<close>

lemma stop_keeps_the_ring: "rd_names (fst (record_app_stop io d app r)) = rd_names d"
  by (simp add: record_app_stop_def split: write_outcome.split)


section \<open>Taking a sample\<close>

definition labelled :: "ring_disk \<Rightarrow> bool" where
  "labelled d \<longleftrightarrow> (\<forall>n\<in>set (rd_names d). rd_sidecars d (snapshot_sidecar (snapshots_dir @ n)) \<noteq> None)"

text \<open>
  a take leaves every sample labelled. It refuses a name that is taken and touches no older sample;
  an error leaves the ring as it was, unless the unlabelled sample could neither be labelled nor removed,
  which is the one error that says so; and without an error the new sample is there with its label.
\<close>

lemma take_leaves_every_sample_labelled:
  assumes "labelled d" and "take_snapshot io grouped d n meta = (d', out)" and "out \<noteq> Some (NotLabelled False)"
  shows "labelled d' \<and>
     (\<forall>m\<in>set (rd_names d). rd_sidecars d' (snapshot_sidecar (snapshots_dir @ m)) = rd_sidecars d (snapshot_sidecar (snapshots_dir @ m))) \<and>
     (case out of
        None \<Rightarrow> n \<notin> set (rd_names d) \<and> rd_names d' = rd_names d @ [n] \<and> rd_sidecars d' (snapshot_sidecar (snapshots_dir @ n)) = Some meta
      | Some _ \<Rightarrow> rd_names d' = rd_names d)"
proof (cases "n \<in> set (rd_names d)")
  case True
  then show ?thesis using assms by (auto simp: take_snapshot_def)
next
  case False
  then have "filter (\<lambda>m. m \<noteq> n) (rd_names d) = rd_names d" by (auto simp: filter_id_conv)
  moreover have "m \<noteq> n" if "m \<in> set (rd_names d)" for m using that False by auto
  ultimately show ?thesis
    using assms False
    by (auto simp: take_snapshot_def Let_def labelled_def split: if_splits)
qed


section \<open>Who may ask\<close>

lemma resolve_caller_holds:
  "resolve_caller run_dir token_of token = Some app \<Longrightarrow>
   32 \<le> length token \<and> (\<exists>names. run_dir = Some names \<and> app \<in> set names \<and> map_option trim_space (token_of app) = Some token)"
  by (auto simp: resolve_caller_def find_Some_iff split: if_splits option.splits)

text \<open>No two entries of the run directory hold the same token.\<close>

definition tokens_differ :: "string list \<Rightarrow> (string \<Rightarrow> string option) \<Rightarrow> bool" where
  "tokens_differ names token_of \<longleftrightarrow>
     (\<forall>a\<in>set names. \<forall>b\<in>set names. token_of a \<noteq> None \<longrightarrow>
        map_option trim_space (token_of a) = map_option trim_space (token_of b) \<longrightarrow> a = b)"

text \<open>
  C9: a container can only have its own app sampled. Whatever a request holds, the disk changes, or a
  sample is named in the answer, only for the verb of a start and only when the request presents, in at
  least 32 bytes, a token that is kept in the run directory of some app; the start recorded is then of that app,
  and with tokens that differ of no other whose token this is.
\<close>

theorem only_the_holder_of_its_token_is_served:
  assumes "serve_inbound io ak v json_path grouped run_dir token_of d req at = (d', out)" and "d' \<noteq> d \<or> (\<exists>n. out = Inr n)"
  shows "\<exists>token app names. req = Some (''app.starting'', token) \<and> 32 \<le> length token \<and>
     run_dir = Some names \<and> app \<in> set names \<and> map_option trim_space (token_of app) = Some token \<and>
     d' = fst (starting_member io ak v json_path grouped d app False at) \<and>
     (\<forall>n. out = Inr n \<longrightarrow> snd (starting_member io ak v json_path grouped d app False at) = Inr n) \<and>
     (tokens_differ names token_of \<longrightarrow> (\<forall>b\<in>set names. map_option trim_space (token_of b) = Some token \<longrightarrow> b = app))"
proof -
  obtain token caller where c: "req = Some (''app.starting'', token)" "resolve_caller run_dir token_of token = Some caller"
      "d' = fst (starting_member io ak v json_path grouped d caller False at)"
      "\<And>n. out = Inr n \<Longrightarrow> snd (starting_member io ak v json_path grouped d caller False at) = Inr n"
    using assms by (auto simp: serve_inbound_def case_prod_beta Let_def split: option.splits if_splits sum.splits)
  from resolve_caller_holds [OF c(2)] obtain names where r: "32 \<le> length token" "run_dir = Some names" "caller \<in> set names"
      "map_option trim_space (token_of caller) = Some token" by blast
  have "b = caller" if "tokens_differ names token_of" "b \<in> set names" "map_option trim_space (token_of b) = Some token" for b
    using that r(3,4) unfolding tokens_differ_def by (metis option.map_disc_iff option.distinct(1))
  then show ?thesis using c r by blast
qed


section \<open>Examples\<close>

definition ex_clock_name :: string where "ex_clock_name = ''app-clock-20260921T090000Z''"
definition ex_old_start_name :: string where "ex_old_start_name = ''app-start-20260921T100000Z''"
definition ex_start_name :: string where "ex_start_name = ''app-start-20260921T150000Z''"

definition ex_meta :: "trigger \<Rightarrow> bool \<Rightarrow> consistency \<Rightarrow> snapshot_meta" where
  "ex_meta t pending cons =
     \<lparr>sm_app = ''app'', sm_trigger = t, sm_taken_at = 0, sm_consistency = cons, sm_manifest = [], sm_event = None,
      sm_pending = pending, sm_health = Healthy, sm_resets = []\<rparr>"

definition ex_entry :: "string \<Rightarrow> snapshot_meta \<Rightarrow> snapshot_entry" where
  "ex_entry n meta = \<lparr>se_member = snapshots_dir @ n, se_meta = meta, se_app = False\<rparr>"

text \<open>A ring with an evaluated sample, a pending start after a power cut, and the start just taken.\<close>

definition ex_rest :: "snapshot_entry list" where
  "ex_rest = [ex_entry ex_clock_name (ex_meta TriggerClock False Quiesced), ex_entry ex_old_start_name (ex_meta TriggerStart True Crash)]"

definition ex_new :: snapshot_entry where
  "ex_new = ex_entry ex_start_name (ex_meta TriggerStart True Quiesced)"

definition ex_ring_disk :: ring_disk where
  "ex_ring_disk =
     \<lparr>rd_names = [ex_start_name, ex_clock_name, ex_old_start_name],
      rd_sidecars = (\<lambda>p. map_of (map (\<lambda>e. (snapshot_sidecar (se_member e), se_meta e)) (ex_rest @ [ex_new])) p),
      rd_apps = example_db_disk, rd_clean = (\<lambda>_. False), rd_cmds = 0\<rparr>"

definition ex_ring_io :: ring_io where
  "ex_ring_io = \<lparr>io_write = (\<lambda>_. Written), io_ok = (\<lambda>_. True), io_removes = (\<lambda>_ _. True), io_app = (\<lambda>_. Written)\<rparr>"

definition ex_knowledge :: app_knowledge where
  "ex_knowledge = \<lparr>ak_hass = (\<lambda>_. Some None), ak_json = \<lparr>custom_json = (\<lambda>_. ([], [])), entries_json = (\<lambda>_. None)\<rparr>\<rparr>"

definition ex_volume :: volume where
  "ex_volume = \<lparr>v_read = (\<lambda>_. None), v_ls = (\<lambda>_. None), v_find_yaml = (\<lambda>_. None)\<rparr>"

lemma ex_listed: "list_members ex_ring_disk ''app'' = Some (ex_rest @ [ex_new])"
  by code_simp

lemma ex_times:
  "member_time (snapshots_dir @ ex_clock_name) = Some (63925578000 * second)"
  "member_time (snapshots_dir @ ex_old_start_name) = Some (63925581600 * second)"
  "member_time (snapshots_dir @ ex_start_name) = Some (63925599600 * second)"
  by code_simp+

lemma ex_works: "works ex_ring_io"
  by (simp add: works_def ex_ring_io_def)

lemmas ex_entries = ex_rest_def ex_new_def ex_entry_def ex_meta_def entry_time_def entry_event_def ex_times

definition ex_token :: string where "ex_token = replicate 64 CHR ''a''"

lemma served:
  assumes "resolve_caller run_dir token_of token = Some app" and "safe_unit_name app" and "v_read v (manifest_path app) = Some raw"
    and "hass_restore ak v json_path app raw = None"
    and "snd (take_snapshot io grouped d (trim_prefix snapshots_dir (snapshot_member app TriggerStart at))
      (start_meta app at Quiesced raw None)) = None"
  shows "\<exists>n. snd (serve_inbound io ak v json_path grouped run_dir token_of d (Some (''app.starting'', token)) at) = Inr n"
  using assms by (auto simp: serve_inbound_def starting_member_def Let_def start_meta_def case_prod_beta split: prod.split)

theorem only_the_holder_of_its_token_is_served_witness:
  "fst (serve_inbound ex_ring_io ex_knowledge (ex_volume\<lparr>v_read := (\<lambda>_. Some [])\<rparr>) (\<lambda>_. None) True (Some [''app'', ''b''])
     (\<lambda>n. if n = ''app'' then Some ex_token else None) ex_ring_disk (Some (''app.starting'', ex_token)) (63925599601 * second)) =
   fst (starting_member ex_ring_io ex_knowledge (ex_volume\<lparr>v_read := (\<lambda>_. Some [])\<rparr>) (\<lambda>_. None) True ex_ring_disk ''app'' False (63925599601 * second))"
proof -
  let ?v = "ex_volume\<lparr>v_read := (\<lambda>_. Some [])\<rparr>" and ?tok = "\<lambda>n. if n = ''app'' then Some ex_token else None"
  let ?r = "serve_inbound ex_ring_io ex_knowledge ?v (\<lambda>_. None) True (Some [''app'', ''b'']) ?tok ex_ring_disk (Some (''app.starting'', ex_token)) (63925599601 * second)"
  have s: "trim_space ex_token = ex_token" by code_simp
  have "resolve_caller (Some [''app'', ''b'']) ?tok ex_token = Some ''app''" "safe_unit_name ''app''" by code_simp+
  moreover have "hass_restore ex_knowledge ?v (\<lambda>_. None) ''app'' [] = None"
    by (simp add: hass_restore_def restore_markers_def ex_knowledge_def)
  moreover have "snd (take_snapshot ex_ring_io True ex_ring_disk (trim_prefix snapshots_dir (snapshot_member ''app'' TriggerStart (63925599601 * second)))
      (start_meta ''app'' (63925599601 * second) Quiesced [] None)) = None" by code_simp
  ultimately have r: "fst ?r \<noteq> ex_ring_disk \<or> (\<exists>n. snd ?r = Inr n)" by (intro disjI2 served) simp_all
  obtain app where app: "app \<in> set [''app'', ''b'']" "map_option trim_space (?tok app) = Some ex_token"
      "fst ?r = fst (starting_member ex_ring_io ex_knowledge ?v (\<lambda>_. None) True ex_ring_disk app False (63925599601 * second))"
    using only_the_holder_of_its_token_is_served [OF prod.collapse [symmetric] r] by (elim exE conjE) (simp only: option.inject prod.inject)
  have "app = ''app''" using app(2) by (auto split: if_splits)
  then show ?thesis using app(3) by simp
qed

end
