(* ===== verification/RingHistory.thy ===== *)
theory RingHistory
  imports Ring
begin

text \<open>
  What the takes and the evaluations of the ring (\<open>Ring\<close>) keep of an app's history: it only grows, a start
  that replaces another carries what that one knew, quiet time stays alone on its record, and one start
  waits at a time.
\<close>


section \<open>A history only grows\<close>

text \<open>An event keeps its time and its reasons, and more may follow.\<close>

definition event_grows :: "ring_event option \<Rightarrow> ring_event option \<Rightarrow> bool" where
  "event_grows a b \<longleftrightarrow>
     (case a of None \<Rightarrow> True | Some ev \<Rightarrow> (\<exists>rs. b = Some (ev\<lparr>ev_reasons := ev_reasons ev @ rs\<rparr>)))"

text \<open>Every sidecar there is was there, its event grown at most; and it grew only on a sample before \<open>at\<close>.\<close>

definition history_kept :: "time \<Rightarrow> ring_disk \<Rightarrow> ring_disk \<Rightarrow> bool" where
  "history_kept at d d' \<longleftrightarrow>
     (\<forall>m meta'. rd_sidecars d' (snapshot_sidecar m) = Some meta' \<longrightarrow>
        (\<exists>meta. rd_sidecars d (snapshot_sidecar m) = Some meta \<and> event_grows (sm_event meta) (sm_event meta') \<and>
           (sm_event meta' \<noteq> sm_event meta \<longrightarrow> (\<exists>t. member_time m = Some t \<and> t < at))))"

definition says :: "ring_disk \<Rightarrow> string \<Rightarrow> ring_event option \<Rightarrow> bool" where
  "says d m ev \<longleftrightarrow> (\<exists>meta. rd_sidecars d (snapshot_sidecar m) = Some meta \<and> sm_event meta = ev)"

lemma event_grows_refl [simp]: "event_grows a a"
  by (cases a) (auto simp: event_grows_def intro!: exI [of _ "[]"])

lemma event_grows_trans: "event_grows a b \<Longrightarrow> event_grows b c \<Longrightarrow> event_grows a c"
  by (cases a; cases b) (auto simp: event_grows_def)

lemma history_kept_refl [simp]: "history_kept at d d"
  by (simp add: history_kept_def)

lemma history_kept_trans: "history_kept at a b \<Longrightarrow> history_kept at b c \<Longrightarrow> history_kept at a c"
proof -
  assume ab: "history_kept at a b" and bc: "history_kept at b c"
  show "history_kept at a c"
    unfolding history_kept_def
  proof (intro allI impI)
    fix m meta''
    assume "rd_sidecars c (snapshot_sidecar m) = Some meta''"
    with bc obtain meta' where m': "rd_sidecars b (snapshot_sidecar m) = Some meta'" "event_grows (sm_event meta') (sm_event meta'')"
      "sm_event meta'' \<noteq> sm_event meta' \<Longrightarrow> \<exists>t. member_time m = Some t \<and> t < at" unfolding history_kept_def by blast
    with ab obtain meta where m: "rd_sidecars a (snapshot_sidecar m) = Some meta" "event_grows (sm_event meta) (sm_event meta')"
      "sm_event meta' \<noteq> sm_event meta \<Longrightarrow> \<exists>t. member_time m = Some t \<and> t < at" unfolding history_kept_def by blast
    have "event_grows (sm_event meta) (sm_event meta'')" using m(2) m'(2) by (rule event_grows_trans)
    moreover have "sm_event meta'' \<noteq> sm_event meta \<longrightarrow> (\<exists>t. member_time m = Some t \<and> t < at)"
      using m(3) m'(3) by (cases "sm_event meta' = sm_event meta") simp_all
    ultimately show "\<exists>meta. rd_sidecars a (snapshot_sidecar m) = Some meta \<and> event_grows (sm_event meta) (sm_event meta'') \<and>
        (sm_event meta'' \<noteq> sm_event meta \<longrightarrow> (\<exists>t. member_time m = Some t \<and> t < at))" using m(1) by blast
  qed
qed

lemma history_kept_write:
  assumes "says d m ev" and "event_grows ev (sm_event meta)"
    and "sm_event meta \<noteq> ev \<Longrightarrow> \<exists>t. member_time m = Some t \<and> t < at"
  shows "history_kept at d (fst (write_meta io d m meta))"
  using assms unfolding history_kept_def says_def
  by (auto simp: write_meta_def Let_def split: write_outcome.splits)

lemma history_kept_drop: "history_kept at d (drop_member io d m)"
  by (auto simp: history_kept_def drop_member_def remove_files_def Let_def)

lemma history_kept_drops: "history_kept at d (foldl (drop_member io) d ms)"
  by (induction ms arbitrary: d) (auto intro: history_kept_trans history_kept_drop)

lemma history_kept_prune: "history_kept at d (prune_ring io d app now)"
  by (simp add: prune_ring_def history_kept_drops split: option.split)

lemma says_write: "says d m (sm_event meta) \<Longrightarrow> says d x ev \<Longrightarrow> says (fst (write_meta io d m meta)) x ev"
  by (auto simp: says_def write_meta_def Let_def split: write_outcome.split)

lemma says_listed: "list_members d app = Some es \<Longrightarrow> e \<in> set es \<Longrightarrow> says d (se_member e) (entry_event e)"
  using list_members_Some [of d app es e] by (auto simp: says_def entry_event_def)

lemma with_reasons_grows: "event_grows ev (with_reasons ev rs at)"
proof -
  have step: "event_grows e (if rs_kind r = ReasonQuiet \<and> e \<noteq> None then e else Some (event_with e r at))" for e r
  proof (cases "rs_kind r = ReasonQuiet \<and> e \<noteq> None")
    case False
    then show ?thesis by (cases e) (auto simp: event_grows_def event_with_def intro!: exI [of _ "[r]"])
  qed simp
  show ?thesis
    unfolding with_reasons_def
  proof (induction rs arbitrary: ev)
    case (Cons r rs)
    show ?case unfolding foldl_Cons by (rule event_grows_trans [OF step Cons.IH])
  qed simp
qed

lemma close_older_keeps:
  assumes "close_older io d at es = (d', es')" and "\<forall>e\<in>set es. says d (se_member e) (entry_event e)"
  shows "history_kept t0 d d' \<and> (\<forall>x ev. says d x ev \<longrightarrow> says d' x ev) \<and>
     map (\<lambda>e. (se_member e, entry_event e)) es' = map (\<lambda>e. (se_member e, entry_event e)) es"
  using assms
proof (induction es arbitrary: d d' es')
  case (Cons m ms)
  show ?case
  proof (cases "member_time (se_member m) \<noteq> None \<and> sm_pending (se_meta m) \<and> entry_time m < at")
    case True
    let ?meta = "(se_meta m)\<lparr>sm_pending := False\<rparr>"
    define d1 where "d1 = fst (write_meta io d (se_member m) ?meta)"
    obtain ms' where r: "close_older io d1 at ms = (d', ms')" "es' = m\<lparr>se_meta := ?meta\<rparr> # ms'"
      using Cons.prems(1) True by (auto simp: d1_def Let_def split: prod.splits)
    have s: "says d (se_member m) (sm_event ?meta)" using Cons.prems(2) by (simp add: entry_event_def)
    have k: "history_kept t0 d d1" unfolding d1_def by (rule history_kept_write [OF s]) simp_all
    have w: "says d x ev \<Longrightarrow> says d1 x ev" for x ev unfolding d1_def by (rule says_write [OF s])
    have "\<forall>e\<in>set ms. says d1 (se_member e) (entry_event e)" using Cons.prems(2) w by auto
    from Cons.IH [OF r(1) this] k w show ?thesis
      by (auto simp: r(2) entry_event_def intro: history_kept_trans)
  next
    case False
    obtain ms' where r: "close_older io d at ms = (d', ms')" "es' = m # ms'"
      using Cons.prems(1) False by (auto simp: Let_def split: prod.splits)
    have "\<forall>e\<in>set ms. says d (se_member e) (entry_event e)" using Cons.prems(2) by simp
    from Cons.IH [OF r(1) this] show ?thesis by (simp add: r(2))
  qed
qed simp

lemma previous_evaluated_Some:
  assumes "previous_evaluated es member = Some p"
  shows "p \<in> set es \<and> (\<exists>at t. member_time member = Some at \<and> member_time (se_member p) = Some t \<and> t < at) \<and>
     \<not> sm_pending (se_meta p) \<and> se_member p \<noteq> member"
proof -
  obtain at where at: "member_time member = Some at" using assms by (auto simp: previous_evaluated_def split: option.splits)
  let ?f = "\<lambda>(prev, prev_at) m. case member_time (se_member m) of
               None \<Rightarrow> (prev, prev_at)
             | Some t \<Rightarrow> (if \<not> sm_pending (se_meta m) \<and> se_member m \<noteq> member \<and> t < at \<and> prev_at < t then (Some m, t) else (prev, prev_at))"
  let ?good = "\<lambda>p. (\<exists>t. member_time (se_member p) = Some t \<and> t < at) \<and> \<not> sm_pending (se_meta p) \<and> se_member p \<noteq> member"
  have "fst (foldl ?f (a, b) xs) = Some p \<Longrightarrow> a = Some p \<or> p \<in> set xs \<and> ?good p" for a b xs p
  proof (induction xs arbitrary: a b)
    case (Cons x xs)
    obtain a' b' where s: "?f (a, b) x = (a', b')" by (cases "?f (a, b) x")
    then have "a' = Some p \<or> p \<in> set xs \<and> ?good p" using Cons by simp
    moreover have "a' = Some p \<Longrightarrow> a = Some p \<or> p = x \<and> ?good p"
      using s by (cases "member_time (se_member x)") (simp_all split: if_splits)
    ultimately show ?case by auto
  qed simp
  from this [of None 0 es p] assms show ?thesis by (auto simp: previous_evaluated_def at)
qed

lemma quiet_point_before:
  assumes "quiet_point es member = Some p"
  shows "p \<in> set es \<and> (\<exists>at. member_time member = Some at \<and> entry_time p < at) \<and> entry_event p = None \<and>
     member_time (se_member p) \<noteq> None"
proof -
  obtain at where at: "member_time member = Some at"
    "quiet_choice (filter (\<lambda>e. se_member e \<noteq> member \<and> entry_time e < at) (sorted_members es)) at = Some p"
    using assms by (auto simp: quiet_point_choice split: option.splits)
  from quiet_choice_free [OF at(2)] at(1) show ?thesis by (auto simp: ring_of_def)
qed

lemma settle_keeps_history:
  assumes es: "\<forall>x\<in>set es. says d (se_member x) (entry_event x)" and e: "says d (se_member e) (entry_event e)"
    and at: "member_time (se_member e) = Some at"
  shows "history_kept at d (settle io ak v d es e extra now)"
proof -
  define prev where "prev = previous_evaluated es (se_member e)"
  obtain d1 es1 where c: "close_older io d (entry_time e) es = (d1, es1)" by (cases "close_older io d (entry_time e) es")
  from close_older_keeps [OF c es, of at] have k1: "history_kept at d d1" and w1: "\<And>x ev. says d x ev \<Longrightarrow> says d1 x ev"
    and s1: "map (\<lambda>e. (se_member e, entry_event e)) es1 = map (\<lambda>e. (se_member e, entry_event e)) es" by blast+
  define meta where "meta = settled_meta prev (se_meta e)"
  have ev: "sm_event meta = entry_event e" by (simp add: meta_def settled_meta_def entry_event_def)
  define d2 where "d2 = (if sm_pending meta \<noteq> sm_pending (se_meta e) \<or> sm_health meta \<noteq> sm_health (se_meta e)
                then fst (write_meta io d1 (se_member e) meta) else d1)"
  have e1: "says d1 (se_member e) (sm_event meta)" using w1 e ev by simp
  have k2: "history_kept at d1 d2" unfolding d2_def using history_kept_write [OF e1, of meta at io] by simp
  have w2: "says d x ev' \<Longrightarrow> says d2 x ev'" for x ev'
    unfolding d2_def using w1 says_write [OF e1] by simp
  have s: "settle io ak v d es e extra now = (case prev of None \<Rightarrow> d2 | Some p \<Rightarrow>
       (case evaluate_sample ak v es1 p (se_member e) meta extra of None \<Rightarrow> d2 | Some (point, rs) \<Rightarrow> add_reasons io d2 point rs now))"
    unfolding settle_def Let_def prev_def [symmetric] c prod.case meta_def [symmetric] d2_def [symmetric] ..
  have land: "history_kept at d2 (add_reasons io d2 point rs now)"
    if "says d2 (se_member point) (entry_event point)" "\<exists>t. member_time (se_member point) = Some t \<and> t < at" for point rs
    using history_kept_write [OF that(1), of "(se_meta point)\<lparr>sm_event := with_reasons (entry_event point) rs now\<rparr>" at io]
      that(2) with_reasons_grows [of "entry_event point" rs now]
    by (simp add: add_reasons_def Let_def)
  have points: "says d2 (se_member point) (entry_event point) \<and> (\<exists>t. member_time (se_member point) = Some t \<and> t < at)"
    if p: "prev = Some p" and r: "evaluate_sample ak v es1 p (se_member e) meta extra = Some (point, rs)" for p point rs
  proof (cases "point = p")
    case True
    then show ?thesis using previous_evaluated_Some [of es "se_member e" p] p at es w2 by (auto simp: prev_def)
  next
    case False
    then have q: "quiet_point es1 (se_member e) = Some point" using r by (auto simp: evaluate_sample_def Let_def split: if_splits)
    from quiet_point_before [OF q] have pt: "point \<in> set es1" "entry_time point < at" "member_time (se_member point) \<noteq> None"
      using at by auto
    then have "(se_member point, entry_event point) \<in> set (map (\<lambda>e. (se_member e, entry_event e)) es1)" by force
    then have "says d (se_member point) (entry_event point)" using es unfolding s1 by auto
    then show ?thesis using w2 pt(2,3) by (auto simp: entry_time_def)
  qed
  have "history_kept at d d2" using k1 k2 by (rule history_kept_trans)
  then show ?thesis unfolding s using points land by (auto split: option.split intro: history_kept_trans)
qed

lemma replace_pending_keeps_history:
  assumes "says d member (sm_event meta)"
  shows "history_kept at d (replace_pending io ak v d member meta)"
proof -
  have "sm_event (carried_meta ak v member meta old) = sm_event meta" for old by (simp add: carried_meta_def)
  then have "history_kept at d (fst (write_meta io d member (carried_meta ak v member meta old)))" for old
    using history_kept_write [OF assms, of "carried_meta ak v member meta old" at io] by simp
  then show ?thesis
    by (auto simp: replace_pending_def Let_def history_kept_drops case_prod_beta split: option.split
        intro: history_kept_trans [OF _ history_kept_drops])
qed

lemma sampled_sidecars [simp]: "rd_sidecars (sampled io ak d member meta) = rd_sidecars d"
  by (simp add: sampled_def split: option.split)

lemma history_kept_sampled: "history_kept at d (sampled io ak d member meta)"
  by (auto simp: history_kept_def)

lemma record_keeps_history:
  assumes "member_time member = Some at" and "rd_sidecars d (snapshot_sidecar member) = Some meta"
  shows "history_kept at d (record_member io ak v d member meta)"
proof -
  define d1 where "d1 = (if sm_pending meta then replace_pending io ak v d member meta
      else (case list_members d (sm_app meta) of None \<Rightarrow> d
        | Some es \<Rightarrow> settle io ak v d es \<lparr>se_member = member, se_meta = meta, se_app = False\<rparr> [] (sm_taken_at meta)))"
  have s: "says d member (sm_event meta)" using assms(2) by (simp add: says_def)
  have "history_kept at d d1"
  proof (cases "sm_pending meta \<or> list_members d (sm_app meta) = None")
    case True
    then show ?thesis using replace_pending_keeps_history [OF s] by (auto simp: d1_def)
  next
    case False
    then obtain es where es: "list_members d (sm_app meta) = Some es" by auto
    then show ?thesis
      using False says_listed [OF es] s assms(1)
      by (auto simp: d1_def entry_event_def intro!: settle_keeps_history)
  qed
  then show ?thesis
    unfolding record_member_def Let_def d1_def [symmetric]
    by (meson history_kept_trans history_kept_sampled history_kept_prune)
qed

definition newest_pending :: "snapshot_entry list \<Rightarrow> snapshot_entry option" where
  "newest_pending es = find (\<lambda>m. sm_pending (se_meta m)) (rev es)"

text \<open>The time of the start a health verdict would be about, 0 where there is none.\<close>

definition pending_time :: "ring_disk \<Rightarrow> string \<Rightarrow> time" where
  "pending_time d app =
     (case list_members d app of None \<Rightarrow> 0
      | Some es \<Rightarrow> (case newest_pending es of None \<Rightarrow> 0 | Some p \<Rightarrow> entry_time p))"

lemma listed_time:
  assumes "list_members d app = Some es" and "e \<in> set es" and "bare_names d"
  shows "member_time (se_member e) = Some (entry_time e)"
proof -
  obtain n where "n \<in> set (rd_names d)" "member_app n = Some app" "se_member e = snapshots_dir @ n"
    using list_members_Some [OF assms(1,2)] by blast
  moreover then have "member_time (se_member e) = member_time n"
    using assms(3) bare_name_facts by (auto simp: bare_names_def list_all_iff)
  ultimately show ?thesis by (auto simp: entry_time_def member_time_def member_app_def)
qed

lemma evaluation_keeps_history:
  assumes "bare_names d"
  shows "history_kept (pending_time d app) d (evaluate_pending io ak v health d app now)"
proof (cases "list_members d app")
  case (Some es)
  show ?thesis
  proof (cases "newest_pending es")
    case None
    then show ?thesis using Some by (simp add: evaluate_pending_def newest_pending_def)
  next
    case p: (Some p)
    have pe: "p \<in> set es"
      using p find_Some_iff [of _ "rev es" p] by (metis newest_pending_def nth_mem set_rev)
    have t: "pending_time d app = entry_time p" using Some p by (simp add: pending_time_def)
    have at: "member_time (se_member p) = Some (entry_time p)" by (rule listed_time [OF Some pe assms])
    have keep: "history_kept (entry_time p) d (prune_ring io (settle io ak v d es (p\<lparr>se_meta := (se_meta p)\<lparr>sm_health := h, sm_resets := rs\<rparr>\<rparr>) ex now) app now)" for h rs ex
    proof (rule history_kept_trans [OF _ history_kept_prune])
      show "history_kept (entry_time p) d (settle io ak v d es (p\<lparr>se_meta := (se_meta p)\<lparr>sm_health := h, sm_resets := rs\<rparr>\<rparr>) ex now)"
        using says_listed [OF Some] pe at by (intro settle_keeps_history) (auto simp: entry_event_def)
    qed
    show ?thesis
      using keep by (simp add: evaluate_pending_def Some p [unfolded newest_pending_def] t Let_def)
  qed
qed (simp add: evaluate_pending_def)

text \<open>
  C6: a history only grows, and backwards in time: whatever write or delete fails on the way, after a
  sample is recorded, or a start gets its boot's verdict, every sample that is left was there before, its
  event has kept its time and its reasons, and what was added to an event stands on a sample strictly
  older than the one evaluated, so undoing to it goes back before what was found.
\<close>

theorem history_only_grows:
  assumes "member_time member = Some at" and "rd_sidecars d (snapshot_sidecar member) = Some meta" and "bare_names d"
  shows "history_kept at d (record_member io ak v d member meta) \<and>
     history_kept (pending_time d app) d (evaluate_pending io ak v health d app now)"
  using record_keeps_history [OF assms(1,2)] evaluation_keeps_history [OF assms(3)] by blast


section \<open>What replacing a start carries\<close>

lemma drop_sidecar:
  assumes "member_time x \<noteq> None" and "x \<noteq> m"
  shows "rd_sidecars (drop_member io d m) (snapshot_sidecar x) = rd_sidecars d (snapshot_sidecar x)"
  using assms sidecars_apart [of x m] by (simp add: drop_member_def remove_files_def Let_def)

lemma drops_sidecar:
  "member_time x \<noteq> None \<Longrightarrow> x \<notin> set ms \<Longrightarrow>
   rd_sidecars (foldl (drop_member io) d ms) (snapshot_sidecar x) = rd_sidecars d (snapshot_sidecar x)"
  by (induction ms arbitrary: d) (simp_all add: drop_sidecar)

lemma set_union_of: "set (union_of out ss) = set out \<union> set ss"
  by (induction out ss rule: union_of.induct) auto

lemma set_union_all: "set (union_all ls) = (\<Union>l\<in>set ls. set l)"
proof -
  have "set (foldl union_of out ls) = set out \<union> (\<Union>l\<in>set ls. set l)" for out
    by (induction ls arbitrary: out) (auto simp: set_union_of)
  then show ?thesis by (simp add: union_all_def)
qed

lemma length_union_of: "length out \<le> length (union_of out ss)"
  by (induction out ss rule: union_of.induct) (auto split: if_splits)

lemma union_of_absorb: "length (union_of out ss) \<le> length out \<Longrightarrow> set ss \<subseteq> set out"
proof (induction out ss rule: union_of.induct)
  case (2 out s ss)
  show ?case
  proof (cases "s \<in> set out")
    case False
    then have "length (union_of (out @ [s]) ss) \<le> length out" using 2(2) by simp
    then show ?thesis using length_union_of [of "out @ [s]" ss] by simp
  qed (use 2 in simp)
qed simp

lemma union_of_Nil: "distinct ss \<Longrightarrow> set ss \<inter> set out = {} \<Longrightarrow> union_of out ss = out @ ss"
  by (induction ss arbitrary: out) auto

lemma distinct_union_of: "distinct out \<Longrightarrow> distinct (union_of out ss)"
  by (induction out ss rule: union_of.induct) auto

lemma union_step:
  assumes "distinct c"
  shows "union_all [c, a, b] = union_of (union_of c a) b" "distinct (union_all [c, a, b])"
proof -
  have "union_of [] c = c" using union_of_Nil [of c "[]"] assms by simp
  then show u: "union_all [c, a, b] = union_of (union_of c a) b" by (simp add: union_all_def)
  show "distinct (union_all [c, a, b])" unfolding u by (intro distinct_union_of assms)
qed

text \<open>Nothing that is carried is lost, and where the carried list is no longer, nothing was new.\<close>

lemma carried_covers:
  assumes "distinct c"
  shows "length c \<le> length (foldl (\<lambda>c m. union_all [c, f m, g m]) c ms) \<and>
     (\<forall>m\<in>set ms. set (f m) \<subseteq> set (foldl (\<lambda>c m. union_all [c, f m, g m]) c ms)) \<and>
     set c \<subseteq> set (foldl (\<lambda>c m. union_all [c, f m, g m]) c ms) \<and>
     (length (foldl (\<lambda>c m. union_all [c, f m, g m]) c ms) \<le> length c \<longrightarrow> (\<forall>m\<in>set ms. set (f m) \<subseteq> set c))"
  using assms
proof (induction ms arbitrary: c)
  case (Cons m ms)
  let ?c = "union_all [c, f m, g m]"
  have d: "distinct ?c" "?c = union_of (union_of c (f m)) (g m)" using union_step [OF Cons.prems] by simp_all
  have sub: "set c \<subseteq> set ?c" "set (f m) \<subseteq> set ?c" by (auto simp: d(2) set_union_of)
  have len: "length (union_of c (f m)) \<le> length ?c" "length c \<le> length (union_of c (f m))"
    by (simp_all add: d(2) length_union_of)
  have absorb: "set (f m) \<subseteq> set c" "?c = c \<or> set ?c = set c" if "length ?c \<le> length c"
  proof -
    have l: "length (union_of c (f m)) \<le> length c" using that len by simp
    then show "set (f m) \<subseteq> set c" by (rule union_of_absorb)
    have "set (g m) \<subseteq> set (union_of c (f m))" using that len d(2) by (intro union_of_absorb) simp
    then show "?c = c \<or> set ?c = set c" using union_of_absorb [OF l] by (auto simp: d(2) set_union_of)
  qed
  note IH = Cons.IH [OF d(1)]
  have "set (f x) \<subseteq> set c" if le: "length (foldl (\<lambda>c m. union_all [c, f m, g m]) ?c ms) \<le> length c" and x: "x \<in> set (m # ms)" for x
  proof -
    have "length ?c \<le> length c" using IH le by linarith
    then have e: "set ?c = set c" "set (f m) \<subseteq> set c" using absorb by auto
    have "length (foldl (\<lambda>c m. union_all [c, f m, g m]) ?c ms) \<le> length ?c" using le len by linarith
    then have "\<forall>m\<in>set ms. set (f m) \<subseteq> set c" using IH e(1) by simp
    then show ?thesis using x e(2) by (cases "x = m") simp_all
  qed
  moreover have "length c \<le> length (foldl (\<lambda>c m. union_all [c, f m, g m]) ?c ms)" using IH len by linarith
  moreover have "set c \<subseteq> set (foldl (\<lambda>c m. union_all [c, f m, g m]) ?c ms)" using IH sub(1) by (meson order_trans)
  moreover have "set (f m) \<subseteq> set (foldl (\<lambda>c m. union_all [c, f m, g m]) ?c ms)" using IH sub(2) by (meson order_trans)
  ultimately show ?case using IH by simp
qed simp

lemma carried_resets_cover:
  assumes "distinct (sm_resets meta)" and "ak_hass ak (sm_manifest meta) \<noteq> None" and "m \<in> set old"
  shows "set (sm_resets (se_meta m)) \<subseteq> set (carried_resets ak v member meta old)"
  using carried_covers [OF assms(1), of "\<lambda>m. sm_resets (se_meta m)"
      "\<lambda>m. without (apps_corrupt ak v (sm_manifest meta) member) (apps_corrupt ak v (sm_manifest meta) (se_member m))" old] assms(2,3)
  by (auto simp: carried_resets_def Let_def not_less)

lemma carried_resets_own:
  assumes "distinct (sm_resets meta)"
  shows "set (sm_resets meta) \<subseteq> set (carried_resets ak v member meta old)"
  using carried_covers [OF assms, of "\<lambda>m. sm_resets (se_meta m)"
      "\<lambda>m. without (apps_corrupt ak v (sm_manifest meta) member) (apps_corrupt ak v (sm_manifest meta) (se_member m))" old]
  by (auto simp: carried_resets_def Let_def split: option.split)

lemma carried_resets_unparsed: "ak_hass ak (sm_manifest meta) = None \<Longrightarrow> carried_resets ak v member meta old = sm_resets meta"
  by (simp add: carried_resets_def)

text \<open>
  C18: a start that replaces a pending one knows what that one did, however the writes and deletes end: once the older
  start is gone from the ring, the sidecar of the new one says crash-consistent if either of the two did, and, when the
  manifest the new start runs parses, holds every reset the old one held beside those of its own, which it lists
  once each; when it does not parse the resets are not carried. A write that fails keeps the old start.
\<close>

theorem replaced_start_leaves_its_knowledge:
  assumes "list_members d (sm_app meta) = Some es" and "old \<in> set es" and "member \<in> se_member ` set es"
    and "member_time member = Some at" and "replaceable at old" and "rd_sidecars d (snapshot_sidecar member) = Some meta"
    and "distinct (sm_resets meta)"
    and "list_members (replace_pending io ak v d member meta) (sm_app meta) = Some es'" and "se_member old \<notin> se_member ` set es'"
  shows "\<exists>meta'. rd_sidecars (replace_pending io ak v d member meta) (snapshot_sidecar member) = Some meta' \<and>
     (sm_consistency (se_meta old) = Crash \<or> sm_consistency meta = Crash \<longrightarrow> sm_consistency meta' = Crash) \<and>
     (if ak_hass ak (sm_manifest meta) = None then sm_resets meta' = sm_resets meta
      else set (sm_resets (se_meta old)) \<union> set (sm_resets meta) \<subseteq> set (sm_resets meta'))"
proof -
  define olds where "olds = filter (replaceable at) es"
  define meta' where "meta' = carried_meta ak v member meta olds"
  have old: "old \<in> set olds" using assms(2,5) by (simp add: olds_def)
  have knows: "(sm_consistency (se_meta old) = Crash \<or> sm_consistency meta = Crash \<longrightarrow> sm_consistency meta' = Crash) \<and>
      (if ak_hass ak (sm_manifest meta) = None then sm_resets meta' = sm_resets meta
       else set (sm_resets (se_meta old)) \<union> set (sm_resets meta) \<subseteq> set (sm_resets meta'))"
    using old carried_resets_cover [OF assms(7) _ old] carried_resets_unparsed carried_resets_own [OF assms(7)]
    by (auto simp: meta'_def carried_meta_def list_ex_iff)
  have "olds \<noteq> []" using old by auto
  then have run: "replace_pending io ak v d member meta =
      (if meta' = meta then foldl (drop_member io) d (map se_member olds)
       else if snd (write_meta io d member meta') then foldl (drop_member io) (fst (write_meta io d member meta')) (map se_member olds)
       else fst (write_meta io d member meta'))"
    by (simp add: replace_pending_def assms(1,4) olds_def meta'_def Let_def case_prod_beta)
  have "entry_time e < at" if "e \<in> set olds" for e using that by (auto simp: olds_def replaceable_def)
  then have fresh: "member \<notin> set (map se_member olds)" using assms(4) by (fastforce simp: entry_time_def)
  have kept: "rd_sidecars (foldl (drop_member io) x (map se_member olds)) (snapshot_sidecar member) = rd_sidecars x (snapshot_sidecar member)" for x
    using assms(4) fresh by (intro drops_sidecar) simp_all
  consider "meta' = meta" | "meta' \<noteq> meta" "snd (write_meta io d member meta')" | "meta' \<noteq> meta" "\<not> snd (write_meta io d member meta')" by blast
  then show ?thesis
  proof cases
    case 1
    then have "rd_sidecars (replace_pending io ak v d member meta) (snapshot_sidecar member) = Some meta'"
      using kept [of d] assms(6) run by simp
    then show ?thesis using knows by blast
  next
    case 2
    then have "rd_sidecars (fst (write_meta io d member meta')) (snapshot_sidecar member) = Some meta'"
      by (simp add: write_meta_def Let_def split: write_outcome.splits)
    then have "rd_sidecars (replace_pending io ak v d member meta) (snapshot_sidecar member) = Some meta'"
      using 2 kept run by simp
    then show ?thesis using knows by blast
  next
    case 3
    then have "es' = map (\<lambda>e. if se_member e = member \<and> io_write io (rd_cmds d) \<noteq> NotWritten then e\<lparr>se_meta := meta'\<rparr> else e) es"
      using list_members_write [OF assms(1,3), of io meta'] assms(8) run by simp
    moreover have "se_member ` set (map (\<lambda>e. if Q e then e\<lparr>se_meta := meta'\<rparr> else e) es) = se_member ` set es" for Q
      unfolding set_map image_image by (rule image_cong) auto
    ultimately have "se_member ` set es' = se_member ` set es" by (simp only:)
    then show ?thesis using assms(2,9) by blast
  qed
qed


section \<open>A sound ring stays sound\<close>

text \<open>
  Of one app's ring: one sample a second; quiet time alone on its record; the newest evaluated sample
  without quiet time; and every pending sample without an event and newer than every evaluated sample.
\<close>

definition sound_ring :: "snapshot_entry list \<Rightarrow> bool" where
  "sound_ring es \<longleftrightarrow>
     distinct (map se_member es) \<and> in_order es \<and> list_all (\<lambda>e. member_time (se_member e) \<noteq> None \<and> 0 < entry_time e) es \<and>
     (\<forall>e\<in>set es. event_has (entry_event e) ReasonQuiet \<longrightarrow> (\<exists>at r. entry_event e = Some \<lparr>ev_at = at, ev_reasons = [r]\<rparr>)) \<and>
     (\<forall>e\<in>set es. newest_with (\<lambda>e. \<not> sm_pending (se_meta e)) (set es) e \<longrightarrow> \<not> event_has (entry_event e) ReasonQuiet) \<and>
     (\<forall>p\<in>set es. sm_pending (se_meta p) \<longrightarrow> entry_event p = None \<and>
        (\<forall>e\<in>set es. \<not> sm_pending (se_meta e) \<longrightarrow> entry_time e < entry_time p))"

lemma list_write:
  assumes "works io" and "list_members d app = Some es" and "m \<in> se_member ` set es"
  shows "list_members (fst (write_meta io d m meta)) app = Some (map (\<lambda>e. if se_member e = m then e\<lparr>se_meta := meta\<rparr> else e) es)"
  using list_members_write [OF assms(2,3), of io meta] works_simps(1) [OF assms(1)] by simp

lemma list_drops:
  assumes "works io" and "list_members d app = Some es" and "set ms \<subseteq> se_member ` set es" and "distinct ms"
  shows "list_members (foldl (drop_member io) d ms) app = Some (filter (\<lambda>e. se_member e \<notin> set ms) es)"
  using assms(2-4)
proof (induction ms arbitrary: d es)
  case (Cons m ms)
  have "list_members (drop_member io d m) app = Some (filter (\<lambda>e. se_member e \<noteq> m) es)"
    using list_members_drop [OF Cons.prems(1)] Cons.prems(2) works_simps(2) [OF assms(1)] by simp
  moreover have "set ms \<subseteq> se_member ` set (filter (\<lambda>e. se_member e \<noteq> m) es)" using Cons.prems(2,3) by fastforce
  ultimately have "list_members (foldl (drop_member io) (drop_member io d m) ms) app =
      Some (filter (\<lambda>e. se_member e \<notin> set ms) (filter (\<lambda>e. se_member e \<noteq> m) es))"
    using Cons.IH Cons.prems(3) by simp
  then show ?case by (simp add: conj_commute)
qed simp

text \<open>The pending samples before a time, closed.\<close>

definition closed_before :: "time \<Rightarrow> snapshot_entry \<Rightarrow> snapshot_entry" where
  "closed_before at e = (if sm_pending (se_meta e) \<and> entry_time e < at then e\<lparr>se_meta := (se_meta e)\<lparr>sm_pending := False\<rparr>\<rparr> else e)"

lemma closed_before_simps [simp]:
  "se_member (closed_before at e) = se_member e" "entry_time (closed_before at e) = entry_time e"
  "entry_event (closed_before at e) = entry_event e"
  by (simp_all add: closed_before_def entry_time_def entry_event_def)

lemma list_close:
  assumes "works io" and "list_members d app = Some es" and "distinct (map se_member es)"
    and "set ms \<subseteq> set es" and "distinct ms" and "\<forall>m\<in>set ms. member_time (se_member m) \<noteq> None"
    and "close_older io d at ms = (d', ms')"
  shows "list_members d' app = Some (map (\<lambda>e. if e \<in> set ms then closed_before at e else e) es) \<and> ms' = map (closed_before at) ms"
  using assms(2-)
proof (induction ms arbitrary: d es ms' d')
  case (Cons m ms)
  let ?meta = "(se_meta m)\<lparr>sm_pending := False\<rparr>"
  show ?case
  proof (cases "sm_pending (se_meta m) \<and> entry_time m < at")
    case False
    obtain ms2 where r: "close_older io d at ms = (d', ms2)" "ms' = m # ms2"
      using Cons.prems(6,5) False by (auto simp: Let_def split: prod.splits if_splits)
    have "closed_before at m = m" using False by (auto simp: closed_before_def)
    then have e: "(if e \<in> set (m # ms) then closed_before at e else e) = (if e \<in> set ms then closed_before at e else e)" for e by auto
    show ?thesis using Cons.IH [OF Cons.prems(1,2) _ _ _ r(1)] Cons.prems(3,4,5) r(2) \<open>closed_before at m = m\<close>
      unfolding e by simp
  next
    case True
    let ?up = "\<lambda>e. if se_member e = se_member m then e\<lparr>se_meta := ?meta\<rparr> else e"
    define d1 where "d1 = fst (write_meta io d (se_member m) ?meta)"
    obtain ms2 where r: "close_older io d1 at ms = (d', ms2)" "ms' = closed_before at m # ms2"
      using Cons.prems(5,6) True by (auto simp: d1_def Let_def closed_before_def split: prod.splits)
    have only: "se_member e = se_member m \<longleftrightarrow> e = m" if "e \<in> set es" for e
      using Cons.prems(2,3) that by (auto simp: distinct_map inj_on_def)
    have up: "map ?up es = map (\<lambda>e. if e = m then closed_before at m else e) es"
      using only True by (auto simp: closed_before_def)
    have l1: "list_members d1 app = Some (map (\<lambda>e. if e = m then closed_before at m else e) es)"
      unfolding d1_def up [symmetric] using Cons.prems(3) by (intro list_write [OF assms(1) Cons.prems(1)]) simp
    have names: "map se_member (map (\<lambda>e. if e = m then closed_before at m else e) es) = map se_member es" by simp
    have in1: "set ms \<subseteq> set (map (\<lambda>e. if e = m then closed_before at m else e) es)"
    proof
      fix x
      assume "x \<in> set ms"
      then have "x \<in> set es" "x \<noteq> m" using Cons.prems(3,4) by auto
      then show "x \<in> set (map (\<lambda>e. if e = m then closed_before at m else e) es)" by (auto intro!: image_eqI [of _ _ x])
    qed
    have "closed_before at m \<notin> set ms"
    proof
      assume "closed_before at m \<in> set ms"
      then have "closed_before at m \<in> set es" using Cons.prems(3) by auto
      then have "closed_before at m = m" using only [of "closed_before at m"] by simp
      then show False using \<open>closed_before at m \<in> set ms\<close> Cons.prems(4) by simp
    qed
    then have e: "(\<lambda>e. if e \<in> set ms then closed_before at e else e) \<circ> (\<lambda>e. if e = m then closed_before at m else e) =
        (\<lambda>e. if e \<in> set (m # ms) then closed_before at e else e)"
      using Cons.prems(4) by (auto simp: fun_eq_iff)
    have dn: "distinct (map se_member (map (\<lambda>e. if e = m then closed_before at m else e) es))"
      unfolding names by (rule Cons.prems(2))
    have "distinct ms" "\<forall>m\<in>set ms. member_time (se_member m) \<noteq> None" using Cons.prems(4,5) by simp_all
    from Cons.IH [OF l1 dn in1 this r(1)] show ?thesis unfolding map_map e by (simp add: r(2))
  qed
qed simp

lemma previous_evaluated_newest:
  assumes "previous_evaluated es member = Some p" and "member_time member = Some at"
    and "x \<in> set es" "\<not> sm_pending (se_meta x)" "se_member x \<noteq> member" "member_time (se_member x) \<noteq> None" "entry_time x < at"
  shows "entry_time x \<le> entry_time p"
proof -
  let ?f = "\<lambda>(prev, prev_at) m. case member_time (se_member m) of
               None \<Rightarrow> (prev, prev_at)
             | Some t \<Rightarrow> (if \<not> sm_pending (se_meta m) \<and> se_member m \<noteq> member \<and> t < at \<and> prev_at < t then (Some m, t) else (prev, prev_at))"
  let ?c = "\<lambda>x. \<not> sm_pending (se_meta x) \<and> se_member x \<noteq> member \<and> member_time (se_member x) \<noteq> None \<and> entry_time x < at"
  have step: "?f (a, b) m = (if ?c m \<and> b < entry_time m then (Some m, entry_time m) else (a, b))" for a b m
    by (cases "member_time (se_member m)") (simp_all add: entry_time_def)
  have "foldl ?f (a, b) xs = (Some p, t) \<Longrightarrow> (\<forall>q. a = Some q \<longrightarrow> b = entry_time q) \<Longrightarrow>
      b \<le> t \<and> t = entry_time p \<and> (\<forall>x\<in>set xs. ?c x \<longrightarrow> entry_time x \<le> t)" for a b xs p t
  proof (induction xs arbitrary: a b)
    case (Cons m xs)
    show ?case
    proof (cases "?c m \<and> b < entry_time m")
      case True
      then have "?f (a, b) m = (Some m, entry_time m)" by (rule trans [OF step if_P])
      then have "foldl ?f (Some m, entry_time m) xs = (Some p, t)" using Cons.prems(1) by (simp only: foldl_Cons)
      from Cons.IH [OF this] True show ?thesis by auto
    next
      case False
      then have "?f (a, b) m = (a, b)" by (rule trans [OF step if_not_P])
      then have "foldl ?f (a, b) xs = (Some p, t)" using Cons.prems(1) by (simp only: foldl_Cons)
      from Cons.IH [OF this Cons.prems(2)] False show ?thesis by auto
    qed
  qed auto
  moreover obtain t where "foldl ?f (None, 0) es = (Some p, t)"
    using assms(1,2) by (cases "foldl ?f (None, 0) es") (simp add: previous_evaluated_def)
  ultimately show ?thesis using assms(3-7) by blast
qed

text \<open>An entry of the ring given another sidecar.\<close>

definition relabel :: "string \<Rightarrow> snapshot_meta \<Rightarrow> snapshot_entry \<Rightarrow> snapshot_entry" where
  "relabel m meta x = (if se_member x = m then x\<lparr>se_meta := meta\<rparr> else x)"

lemma relabel_simps [simp]:
  "se_member (relabel m meta x) = se_member x" "entry_time (relabel m meta x) = entry_time x"
  by (simp_all add: relabel_def entry_time_def)

lemma list_relabel:
  assumes "works io" and "list_members d app = Some es" and "m \<in> se_member ` set es"
  shows "list_members (fst (write_meta io d m meta)) app = Some (map (relabel m meta) es)"
  using list_write [OF assms] by (simp add: relabel_def [abs_def])

lemma list_settle:
  assumes io: "works io" and es: "list_members d app = Some es" and dist: "distinct (map se_member es)"
    and times: "\<forall>x\<in>set es. member_time (se_member x) \<noteq> None"
    and mem: "x0 \<in> set es" "se_member x0 = se_member e" and same: "se_meta x0 = se_meta e \<or> sm_pending (se_meta e)"
    and prev: "prev = previous_evaluated es (se_member e)" and meta: "meta = settled_meta prev (se_meta e)"
    and es2: "es2 = map (relabel (se_member e) meta) (map (closed_before (entry_time e)) es)"
  shows "\<exists>es'. list_members (settle io ak v d es e extra now) app = Some es' \<and>
    (es' = es2 \<or>
     (\<exists>p point rs. prev = Some p \<and>
        evaluate_sample ak v (map (closed_before (entry_time e)) es) p (se_member e) meta extra = Some (point, rs) \<and>
        es' = map (relabel (se_member point) ((se_meta point)\<lparr>sm_event := with_reasons (entry_event point) rs now\<rparr>)) es2))"
proof -
  let ?at = "entry_time e"
  obtain d1 es1 where c: "close_older io d ?at es = (d1, es1)" by (cases "close_older io d ?at es")
  have l1: "list_members d1 app = Some (map (closed_before ?at) es)" and e1: "es1 = map (closed_before ?at) es"
    using list_close [OF io es dist subset_refl _ times c] dist by (auto simp: distinct_map cong: map_cong)
  have in1: "se_member e \<in> se_member ` set (map (closed_before ?at) es)"
    using mem by (auto simp: image_image intro: image_eqI [of _ _ x0])
  define d2 where "d2 = (if sm_pending meta \<noteq> sm_pending (se_meta e) \<or> sm_health meta \<noteq> sm_health (se_meta e)
                then fst (write_meta io d1 (se_member e) meta) else d1)"
  have l2: "list_members d2 app = Some es2"
  proof (cases "sm_pending meta \<noteq> sm_pending (se_meta e) \<or> sm_health meta \<noteq> sm_health (se_meta e)")
    case True
    then show ?thesis using list_relabel [OF io l1 in1, of meta] by (simp add: d2_def es2)
  next
    case False
    then have m: "meta = se_meta e" "\<not> sm_pending (se_meta e)" by (auto simp: meta settled_meta_def)
    have "relabel (se_member e) meta (closed_before ?at x) = closed_before ?at x" if "x \<in> set es" for x
    proof (cases "se_member x = se_member e")
      case True
      then have "x = x0" using that mem dist by (auto simp: distinct_map inj_on_def)
      then show ?thesis using same m by (simp add: relabel_def closed_before_def)
    qed (simp add: relabel_def)
    then have "es2 = map (closed_before ?at) es" by (simp add: es2)
    then show ?thesis using False l1 by (simp add: d2_def)
  qed
  have s: "settle io ak v d es e extra now = (case prev of None \<Rightarrow> d2 | Some p \<Rightarrow>
       (case evaluate_sample ak v es1 p (se_member e) meta extra of None \<Rightarrow> d2 | Some (point, rs) \<Rightarrow> add_reasons io d2 point rs now))"
    unfolding settle_def Let_def prev [symmetric] c prod.case meta [symmetric] d2_def [symmetric] ..
  show ?thesis
  proof (cases "\<exists>p point rs. prev = Some p \<and> evaluate_sample ak v es1 p (se_member e) meta extra = Some (point, rs)")
    case False
    then have "settle io ak v d es e extra now = d2" unfolding s by (auto split: option.split)
    then show ?thesis using l2 by simp
  next
    case True
    then obtain p point rs where r: "prev = Some p" "evaluate_sample ak v es1 p (se_member e) meta extra = Some (point, rs)" by blast
    have st: "settle io ak v d es e extra now = add_reasons io d2 point rs now" by (simp add: s r)
    have "point \<in> set es1 \<or> point = p"
      using r(2) quiet_point_before by (auto simp: evaluate_sample_def Let_def split: if_splits)
    moreover have "p \<in> set es" using previous_evaluated_Some [of es "se_member e" p] r(1) prev by simp
    ultimately have "se_member point \<in> se_member ` set es" by (auto simp: e1)
    then have "se_member point \<in> se_member ` set es2" by (auto simp: es2 image_image)
    from list_relabel [OF io l2 this, of "(se_meta point)\<lparr>sm_event := with_reasons (entry_event point) rs now\<rparr>"]
    have "list_members (settle io ak v d es e extra now) app = Some es2 \<or> list_members (settle io ak v d es e extra now) app =
        Some (map (relabel (se_member point) ((se_meta point)\<lparr>sm_event := with_reasons (entry_event point) rs now\<rparr>)) es2)"
      unfolding st using l2 by (simp add: add_reasons_def Let_def)
    then show ?thesis using r e1 by auto
  qed
qed

lemma evaluated_ring_sound:
  assumes "in_order es" and "distinct (map se_member es)"
    and "\<forall>x\<in>set es. member_time (se_member x) \<noteq> None \<and> 0 < entry_time x"
    and f: "\<And>x. se_member (f x) = se_member x" and "\<forall>x\<in>set es. \<not> sm_pending (se_meta (f x))"
    and "\<forall>x\<in>set es. event_has (entry_event (f x)) ReasonQuiet \<longrightarrow> (\<exists>at r. entry_event (f x) = Some \<lparr>ev_at = at, ev_reasons = [r]\<rparr>)"
    and newest: "n \<in> set es" "\<forall>x\<in>set es. entry_time x \<le> entry_time n" "\<not> event_has (entry_event (f n)) ReasonQuiet"
  shows "sound_ring (map f es)"
proof -
  have t: "entry_time (f x) = entry_time x" for x using f by (simp add: entry_time_def)
  have one: "x = n" if "x \<in> set es" "entry_time n \<le> entry_time x" for x
    using assms(1) newest that by (metis in_order_nth in_set_conv_nth leD linorder_neqE_nat)
  have "se_member \<circ> f = se_member" using f by (auto simp: fun_eq_iff)
  moreover have "in_order (map f es)" using assms(1) by (simp add: sorted_wrt_map t)
  moreover have "\<not> event_has (entry_event (f x)) ReasonQuiet" if "newest_with (\<lambda>e. \<not> sm_pending (se_meta e)) (f ` set es) (f x)" "x \<in> set es" for x
  proof -
    have "entry_time n \<le> entry_time x" using that newest(1) assms(5) t unfolding newest_with_def by (metis imageI)
    then show ?thesis using one that(2) newest(3) by blast
  qed
  ultimately show ?thesis
    unfolding sound_ring_def using assms(2,3,5,6) by (auto simp: list_all_iff f t)
qed

lemma with_reasons_loud:
  assumes "\<forall>r\<in>set rs. rs_kind r \<noteq> ReasonQuiet" and "\<not> event_has ev ReasonQuiet"
  shows "\<not> event_has (with_reasons ev rs at) ReasonQuiet"
  using assms
proof (induction rs arbitrary: ev)
  case (Cons r rs)
  have "\<not> event_has (Some (event_with ev r at)) ReasonQuiet"
    using Cons.prems by (cases ev) (auto simp: event_has_def event_with_def)
  moreover have "with_reasons ev (r # rs) at = with_reasons (Some (event_with ev r at)) rs at"
    using Cons.prems by (simp add: with_reasons_def)
  ultimately show ?case using Cons by simp
qed (simp add: with_reasons_def)

lemma evaluate_reasons_loud:
  "\<forall>r\<in>set extra. rs_kind r \<noteq> ReasonQuiet \<Longrightarrow> r \<in> set (evaluate_reasons ak v prev member meta extra) \<Longrightarrow> rs_kind r \<noteq> ReasonQuiet"
  by (auto simp: evaluate_reasons_def Let_def split: prod.splits if_splits)

lemma settle_sound:
  assumes io: "works io" and es: "list_members d app = Some es" and dist: "distinct (map se_member es)"
    and order: "in_order es" and times: "\<forall>x\<in>set es. member_time (se_member x) \<noteq> None \<and> 0 < entry_time x"
    and mem: "x0 \<in> set es" "se_member x0 = se_member e" and same: "se_meta x0 = se_meta e \<or> sm_pending (se_meta e)"
    and last: "\<forall>x\<in>set es. entry_time x \<le> entry_time e"
    and rest: "sound_ring (filter (\<lambda>x. se_member x \<noteq> se_member e) es)"
    and ev: "\<not> event_has (entry_event e) ReasonQuiet" and extra: "\<forall>r\<in>set extra. rs_kind r \<noteq> ReasonQuiet"
  shows "\<exists>es'. list_members (settle io ak v d es e extra now) app = Some es' \<and> sound_ring es' \<and>
    map se_member es' = map se_member es"
proof -
  let ?at = "entry_time e" and ?rest = "filter (\<lambda>x. se_member x \<noteq> se_member e) es"
  define prev where "prev = previous_evaluated es (se_member e)"
  define meta where "meta = settled_meta prev (se_meta e)"
  let ?up = "\<lambda>x. relabel (se_member e) meta (closed_before ?at x)"
  have "\<forall>x\<in>set es. member_time (se_member x) \<noteq> None" using times by blast
  from list_settle [OF io es dist this mem same prev_def meta_def refl, of ak v extra now]
  obtain es' where l: "list_members (settle io ak v d es e extra now) app = Some es'"
    and r: "es' = map ?up es \<or>
     (\<exists>p point rs. prev = Some p \<and> evaluate_sample ak v (map (closed_before ?at) es) p (se_member e) meta extra = Some (point, rs) \<and>
        es' = map (\<lambda>x. relabel (se_member point) ((se_meta point)\<lparr>sm_event := with_reasons (entry_event point) rs now\<rparr>) (?up x)) es)"
    unfolding map_map comp_def by blast
  have x0: "x0 = x \<longleftrightarrow> se_member x = se_member e" if "x \<in> set es" for x
    using that mem dist by (auto simp: distinct_map inj_on_def)
  have at: "entry_time x0 = ?at" using mem(2) by (simp add: entry_time_def)
  have le: "\<forall>x\<in>set es. entry_time x \<le> entry_time x0" using last at by simp
  have lt: "entry_time x < ?at" if "x \<in> set es" "se_member x \<noteq> se_member e" for x
  proof -
    have "x \<noteq> x0" using x0 [OF that(1)] that(2) by blast
    then have "entry_time x \<noteq> entry_time x0" using order that(1) mem(1) by (metis in_order_nth in_set_conv_nth less_irrefl linorder_neqE_nat)
    then show ?thesis using last that(1) at by fastforce
  qed
  have meta_np: "\<not> sm_pending meta" and meta_ev: "sm_event meta = entry_event e"
    by (simp_all add: meta_def settled_meta_def entry_event_def)
  have up: "\<not> sm_pending (se_meta (?up x))" "entry_event (?up x) = (if se_member x = se_member e then entry_event e else entry_event x)" if "x \<in> set es" for x
    using lt [OF that] meta_np meta_ev by (auto simp: relabel_def closed_before_def entry_event_def)
  have alone: "\<exists>at r. entry_event x = Some \<lparr>ev_at = at, ev_reasons = [r]\<rparr>"
    if "x \<in> set es" "se_member x \<noteq> se_member e" "event_has (entry_event x) ReasonQuiet" for x
    using rest that unfolding sound_ring_def by auto
  have x0up: "\<not> event_has (entry_event (?up x0)) ReasonQuiet" using up(2) [OF mem(1)] mem(2) ev by simp
  have base: "event_has (entry_event (?up x)) ReasonQuiet \<Longrightarrow> (\<exists>at r. entry_event (?up x) = Some \<lparr>ev_at = at, ev_reasons = [r]\<rparr>)"
    if "x \<in> set es" for x using up(2) [OF that] alone [OF that] ev by (auto split: if_splits)
  have "sound_ring es'"
    using r
  proof
    assume "es' = map ?up es"
    then show ?thesis
      using evaluated_ring_sound [OF order dist times, of ?up x0] up(1) base mem(1) le x0up by simp
  next
    assume "\<exists>p point rs. prev = Some p \<and> evaluate_sample ak v (map (closed_before ?at) es) p (se_member e) meta extra = Some (point, rs) \<and>
        es' = map (\<lambda>x. relabel (se_member point) ((se_meta point)\<lparr>sm_event := with_reasons (entry_event point) rs now\<rparr>) (?up x)) es"
    then obtain p point rs where p: "prev = Some p" "evaluate_sample ak v (map (closed_before ?at) es) p (se_member e) meta extra = Some (point, rs)"
        "es' = map (\<lambda>x. relabel (se_member point) ((se_meta point)\<lparr>sm_event := with_reasons (entry_event point) rs now\<rparr>) (?up x)) es" by blast
    let ?ev = "with_reasons (entry_event point) rs now"
    have pe: "p \<in> set es" "\<not> sm_pending (se_meta p)" "se_member p \<noteq> se_member e"
      using previous_evaluated_Some [of es "se_member e" p] p(1) by (simp_all add: prev_def)
    have point: "se_member point \<noteq> se_member e \<and> \<not> sm_pending (se_meta point) \<and>
        (event_has ?ev ReasonQuiet \<longrightarrow> (\<exists>at r. ?ev = Some \<lparr>ev_at = at, ev_reasons = [r]\<rparr>))"
    proof (cases "evaluate_reasons ak v p (se_member e) meta extra = []")
      case False
      then have "point = p" "rs = evaluate_reasons ak v p (se_member e) meta extra"
        using p(2) by (auto simp: evaluate_sample_def Let_def)
      moreover have "newest_with (\<lambda>e. \<not> sm_pending (se_meta e)) (set ?rest) p"
        unfolding newest_with_def
      proof (intro conjI ballI impI)
        fix x
        assume "x \<in> set ?rest" "\<not> sm_pending (se_meta x)"
        then show "entry_time x \<le> entry_time p"
          using previous_evaluated_newest [of es "se_member e" p ?at x] p(1) lt times mem by (auto simp: prev_def entry_time_def)
      qed (use pe in auto)
      then have "\<not> event_has (entry_event p) ReasonQuiet" using rest pe unfolding sound_ring_def by auto
      ultimately have "\<not> event_has ?ev ReasonQuiet" using evaluate_reasons_loud [OF extra] by (intro with_reasons_loud) auto
      then show ?thesis using \<open>point = p\<close> pe by simp
    next
      case True
      then have q: "quiet_point (map (closed_before ?at) es) (se_member e) = Some point" "rs = [\<lparr>rs_kind = ReasonQuiet, rs_what = []\<rparr>]"
        using p(2) by (auto simp: evaluate_sample_def Let_def split: if_splits)
      from quiet_point_before [OF q(1)] obtain y where y: "y \<in> set es" "point = closed_before ?at y" "entry_event point = None"
          "entry_time point < ?at" using mem times by (auto simp: entry_time_def)
      then have "se_member point \<noteq> se_member e" by (auto simp: entry_time_def)
      moreover have "\<not> sm_pending (se_meta point)" using y by (auto simp: closed_before_def entry_time_def split: if_splits)
      ultimately show ?thesis using y(3) q(2) by (simp add: with_reasons_def event_with_def)
    qed
    let ?f = "\<lambda>x. relabel (se_member point) ((se_meta point)\<lparr>sm_event := ?ev\<rparr>) (?up x)"
    have fev: "entry_event (?f x) = (if se_member x = se_member point then ?ev else entry_event (?up x))" for x
      by (simp add: relabel_def entry_event_def)
    have "\<not> sm_pending (se_meta (?f x))" if "x \<in> set es" for x
      using up(1) [OF that] point by (cases "se_member x = se_member point") (simp_all add: relabel_def)
    moreover have "event_has (entry_event (?f x)) ReasonQuiet \<longrightarrow> (\<exists>at r. entry_event (?f x) = Some \<lparr>ev_at = at, ev_reasons = [r]\<rparr>)"
      if "x \<in> set es" for x unfolding fev using base [OF that] point by auto
    moreover have "\<not> event_has (entry_event (?f x0)) ReasonQuiet" unfolding fev using x0up point mem(2) by (auto split: if_split)
    ultimately show ?thesis
      unfolding p(3) using evaluated_ring_sound [OF order dist times, of ?f x0] mem(1) le by simp
  qed
  moreover have "map se_member es' = map se_member es" using r by (auto simp: comp_def)
  ultimately show ?thesis using l by blast
qed

lemma newest_evaluated_exists:
  assumes "in_order es" and "x \<in> set es" and "\<not> sm_pending (se_meta x)"
  shows "\<exists>v. newest_with (\<lambda>e. \<not> sm_pending (se_meta e)) (set es) v \<and> entry_time x \<le> entry_time v"
proof -
  obtain pre v post where s: "es = pre @ v # post" "\<not> sm_pending (se_meta v)" "\<forall>e\<in>set post. sm_pending (se_meta e)"
    using assms(2,3) by (cases rule: split_at_last [of es "\<lambda>e. \<not> sm_pending (se_meta e)"]) (blast, force)
  have "entry_time e \<le> entry_time v" if "e \<in> set es" "\<not> sm_pending (se_meta e)" for e
  proof -
    have "e \<in> set pre \<or> e = v" using that s by auto
    then show ?thesis using assms(1) by (auto simp: s(1) sorted_wrt_append less_imp_le)
  qed
  then have "newest_with (\<lambda>e. \<not> sm_pending (se_meta e)) (set es) v" using s by (simp add: newest_with_def)
  then show ?thesis using assms(2,3) by (auto simp: newest_with_def)
qed

lemma sound_filter:
  assumes "sound_ring es" and keep: "\<And>v. newest_with (\<lambda>e. \<not> sm_pending (se_meta e)) (set es) v \<Longrightarrow> K v"
  shows "sound_ring (filter K es)"
proof -
  have o: "in_order es" using assms(1) by (simp add: sound_ring_def)
  have "newest_with (\<lambda>e. \<not> sm_pending (se_meta e)) (set es) e"
    if "newest_with (\<lambda>e. \<not> sm_pending (se_meta e)) (set (filter K es)) e" for e
  proof -
    have e: "e \<in> set es" "\<not> sm_pending (se_meta e)" using that by (simp_all add: newest_with_def)
    from newest_evaluated_exists [OF o this] obtain v where v: "newest_with (\<lambda>e. \<not> sm_pending (se_meta e)) (set es) v" by blast
    then have "entry_time v \<le> entry_time e" using that keep [OF v] by (simp add: newest_with_def)
    then show ?thesis using v e by (fastforce simp: newest_with_def)
  qed
  then show ?thesis using assms(1) unfolding sound_ring_def by (auto simp: distinct_map_filter in_order_filter list_all_iff)
qed

lemma sound_reader:
  assumes "sound_ring es" and f: "\<And>x. se_member (f x) = se_member x" "\<And>x. se_meta (f x) = se_meta x"
  shows "sound_ring (map f es)"
proof -
  have t: "entry_time (f x) = entry_time x" "entry_event (f x) = entry_event x" for x
    using f by (simp_all add: entry_time_def entry_event_def)
  have "se_member \<circ> f = se_member" using f by (auto simp: fun_eq_iff)
  moreover have "newest_with (\<lambda>e. \<not> sm_pending (se_meta e)) (set es) x"
    if "newest_with (\<lambda>e. \<not> sm_pending (se_meta e)) (f ` set es) (f x)" "x \<in> set es" for x
    using that by (simp add: newest_with_def t f)
  ultimately show ?thesis
    using assms(1) unfolding sound_ring_def by (auto simp: sorted_wrt_map t f list_all_iff)
qed

lemma sound_with_pending:
  assumes "sound_ring rest" and "in_order (rest @ [x])" and "member_time (se_member x) \<noteq> None" and "0 < entry_time x"
    and "sm_pending (se_meta x)" and "entry_event x = None"
  shows "sound_ring (rest @ [x])"
proof -
  have lt: "entry_time e < entry_time x" if "e \<in> set rest" for e using assms(2) that by (simp add: sorted_wrt_append)
  then have "se_member x \<notin> se_member ` set rest" by (fastforce simp: entry_time_def)
  moreover have "newest_with (\<lambda>e. \<not> sm_pending (se_meta e)) (set (rest @ [x])) e \<Longrightarrow>
      newest_with (\<lambda>e. \<not> sm_pending (se_meta e)) (set rest) e" for e
    using assms(5) by (auto simp: newest_with_def)
  ultimately show ?thesis
    using assms lt unfolding sound_ring_def by (auto simp: event_has_def)
qed

lemma sorted_members_id:
  assumes "in_order es" and "list_all (\<lambda>e. member_time (se_member e) \<noteq> None \<and> 0 < entry_time e) es"
  shows "sorted_members es = es" "one_per_second es" "ring_of es = set es"
proof -
  have f: "filter (\<lambda>e. member_time (se_member e) \<noteq> None) es = es" using assms(2) by (auto simp: filter_id_conv list_all_iff)
  have "sorted (map entry_time es)"
    using assms(1) by (simp add: sorted_map) (erule sorted_wrt_mono_rel [rotated], simp)
  then show "sorted_members es = es" unfolding sorted_members_def f by (rule sort_key_id_if_sorted)
  have "distinct (map entry_time es)"
    using assms(1) by (induction es) (simp, force)
  then show "one_per_second es" unfolding one_per_second_def f .
  show "ring_of es = set es" using assms(2) by (auto simp: ring_of_def list_all_iff)
qed

lemma prune_sound:
  assumes io: "works io" and es: "list_members d app = Some es" and s: "sound_ring es"
  shows "\<exists>es'. list_members (prune_ring io d app now) app = Some es' \<and> sound_ring es' \<and> set es' \<subseteq> set es"
proof -
  have o: "in_order es" "list_all (\<lambda>e. member_time (se_member e) \<noteq> None \<and> 0 < entry_time e) es" "distinct (map se_member es)"
    using s by (simp_all add: sound_ring_def)
  let ?gone = "filter (\<lambda>m. \<not> needed (set es) now m) es"
  have "retention_prune es now = map se_member ?gone"
    using prune_filter [OF sorted_members_id(2) [OF o(1,2)], of now] sorted_members_id [OF o(1,2)] by simp
  then have p: "prune_ring io d app now = foldl (drop_member io) d (map se_member ?gone)" by (simp add: prune_ring_def es)
  have "list_members (prune_ring io d app now) app = Some (filter (\<lambda>e. se_member e \<notin> set (map se_member ?gone)) es)"
    unfolding p using o(3) by (intro list_drops [OF io es]) (auto simp: distinct_map_filter)
  moreover have "filter (\<lambda>e. se_member e \<notin> set (map se_member ?gone)) es = filter (needed (set es) now) es"
    using o(3) by (intro filter_cong) (auto simp: distinct_map inj_on_def)
  moreover have "sound_ring (filter (needed (set es) now) es)"
    by (rule sound_filter [OF s]) (simp add: needed_def)
  ultimately show ?thesis by auto
qed

lemma sampled_reader:
  assumes "list_members d app = Some es" and "sound_ring es"
  shows "\<exists>es'. list_members (sampled io ak d member meta) app = Some es' \<and> sound_ring es' \<and>
    (\<forall>e'\<in>set es'. \<exists>e\<in>set es. se_member e' = se_member e \<and> se_meta e' = se_meta e)"
proof -
  let ?d = "sampled io ak d member meta"
  let ?f = "\<lambda>e. e\<lparr>se_app := dd_sidecar (rd_apps ?d) (app_sidecar (se_member e)) \<noteq> None\<rparr>"
  have names: "rd_names ?d = rd_names d" by (simp add: sampled_def split: option.split)
  have "entry_of ?d = (\<lambda>n. map_option ?f (entry_of d n))"
    by (rule ext) (simp add: entry_of_def Let_def option.map_comp comp_def)
  then have "list_members ?d app = Some (map ?f es)"
    using assms(1) by (auto simp: list_members_def ring_members_def names map_filter_map split: if_splits)
  moreover have "sound_ring (map ?f es)" by (rule sound_reader [OF assms(2)]) simp_all
  moreover have "\<exists>e\<in>set es. se_member e' = se_member e \<and> se_meta e' = se_meta e" if "e' \<in> set (map ?f es)" for e'
    using that by auto
  ultimately show ?thesis by blast
qed

lemma sound_last:
  assumes "sound_ring rest" and "in_order (rest @ [x])" and "member_time (se_member x) \<noteq> None" and "0 < entry_time x"
  shows "distinct (map se_member (rest @ [x]))" "\<forall>y\<in>set (rest @ [x]). member_time (se_member y) \<noteq> None \<and> 0 < entry_time y"
    "\<forall>y\<in>set (rest @ [x]). entry_time y \<le> entry_time x" "filter (\<lambda>y. se_member y \<noteq> se_member x) (rest @ [x]) = rest"
proof -
  have lt: "entry_time e < entry_time x" if "e \<in> set rest" for e using assms(2) that by (simp add: sorted_wrt_append)
  then have n: "se_member e \<noteq> se_member x" if "e \<in> set rest" for e using that by (fastforce simp: entry_time_def)
  then have "se_member x \<notin> se_member ` set rest" by (metis imageE)
  then show "distinct (map se_member (rest @ [x]))" using assms(1) by (simp add: sound_ring_def)
  show "filter (\<lambda>y. se_member y \<noteq> se_member x) (rest @ [x]) = rest" using n by (simp add: filter_id_conv)
  show "\<forall>y\<in>set (rest @ [x]). member_time (se_member y) \<noteq> None \<and> 0 < entry_time y"
    using assms(1,3,4) by (auto simp: sound_ring_def list_all_iff)
  show "\<forall>y\<in>set (rest @ [x]). entry_time y \<le> entry_time x" using lt by (auto intro: less_imp_le)
qed

lemma replace_sound:
  assumes io: "works io" and es: "list_members d (sm_app meta) = Some (rest @ [x])" and x: "se_member x = member" "se_meta x = meta"
    and s: "sound_ring rest" "in_order (rest @ [x])" "member_time member \<noteq> None" "0 < entry_time x"
    and p: "sm_pending meta" "sm_event meta = None"
  shows "\<exists>es'. list_members (replace_pending io ak v d member meta) (sm_app meta) = Some es' \<and> sound_ring es' \<and>
     (\<forall>e\<in>set es'. se_member e = member \<or> e \<in> set rest \<and> \<not> replaceable (entry_time x) e)"
proof -
  obtain at where at: "member_time member = Some at" "entry_time x = at" using s(3) x(1) by (auto simp: entry_time_def)
  note all = sound_last [OF s(1,2)]
  have dist: "distinct (map se_member (rest @ [x]))" using all(1) s(3,4) x(1) by simp
  define olds where "olds = filter (replaceable at) (rest @ [x])"
  have xr: "\<not> replaceable at x" using at(2) by (simp add: replaceable_def)
  then have olds: "olds = filter (replaceable at) rest" by (simp add: olds_def)
  define meta' where "meta' = carried_meta ak v member meta olds"
  have m': "sm_pending meta'" "sm_event meta' = None" using p by (simp_all add: meta'_def carried_meta_def)
  have sound: "sound_ring (filter K rest @ [y])" if "se_member y = member" "sm_pending (se_meta y)" "entry_event y = None"
      "\<And>v. newest_with (\<lambda>e. \<not> sm_pending (se_meta e)) (set rest) v \<Longrightarrow> K v" for y K
  proof (rule sound_with_pending)
    show "sound_ring (filter K rest)" by (rule sound_filter [OF s(1) that(4)])
    have "entry_time y = at" using that(1) at by (simp add: entry_time_def)
    then show "in_order (filter K rest @ [y])" "0 < entry_time y" using s(2,4) at(2) by (auto simp: sorted_wrt_append in_order_filter)
  qed (use that at in simp_all)
  have np: "\<not> replaceable at v" if "newest_with (\<lambda>e. \<not> sm_pending (se_meta e)) (set rest) v" for v
    using that by (simp add: newest_with_def replaceable_def)
  have drop: "list_members (foldl (drop_member io) d1 (map se_member olds)) (sm_app meta) = Some (filter (\<lambda>e. \<not> replaceable at e) rest @ [y])"
    if l: "list_members d1 (sm_app meta) = Some (rest @ [y])" and y: "se_member y = member" for d1 y
  proof -
    have "distinct (map se_member (rest @ [y]))" using dist x(1) y by simp
    then have dy: "distinct (map se_member rest)" "se_member y \<notin> se_member ` set rest" by auto
    have "list_members (foldl (drop_member io) d1 (map se_member olds)) (sm_app meta) =
        Some (filter (\<lambda>e. se_member e \<notin> set (map se_member olds)) (rest @ [y]))"
      using dy by (intro list_drops [OF io l]) (auto simp: olds distinct_map_filter)
    moreover have "filter (\<lambda>e. se_member e \<notin> set (map se_member olds)) rest = filter (\<lambda>e. \<not> replaceable at e) rest"
      using dy(1) by (intro filter_cong) (auto simp: olds distinct_map inj_on_def)
    ultimately show ?thesis using dy(2) by (auto simp: olds)
  qed
  have fin: "\<exists>es'. list_members D (sm_app meta) = Some es' \<and> sound_ring es' \<and>
      (\<forall>e\<in>set es'. se_member e = member \<or> e \<in> set rest \<and> \<not> replaceable (entry_time x) e)"
    if "list_members D (sm_app meta) = Some (filter (\<lambda>e. \<not> replaceable at e) rest @ [y])" "se_member y = member"
      "sm_pending (se_meta y)" "entry_event y = None" for D y
    using sound [OF that(2-4), of "\<lambda>e. \<not> replaceable at e"] np that at by (auto simp: entry_time_def replaceable_def)
  have run: "replace_pending io ak v d member meta = (if olds = [] then d
      else if meta' = meta then foldl (drop_member io) d (map se_member olds)
      else if snd (write_meta io d member meta')
      then foldl (drop_member io) (fst (write_meta io d member meta')) (map se_member olds) else fst (write_meta io d member meta'))"
    by (simp only: replace_pending_def es at(1) olds_def meta'_def Let_def case_prod_beta option.case prod.case fst_conv snd_conv)
  have ex: "entry_event x = None" "sm_pending (se_meta x)" using x p by (simp_all add: entry_event_def)
  show ?thesis
  proof (cases "olds = []")
    case True
    then have "replace_pending io ak v d member meta = d" unfolding run by (rule if_P)
    moreover have "rest = filter (\<lambda>e. \<not> replaceable at e) rest" using True by (auto simp: olds filter_empty_conv filter_id_conv)
    ultimately show ?thesis using es fin [of d x] x(1) ex by simp
  next
    case False
    show ?thesis
    proof (cases "meta' = meta")
      case True
      then have "replace_pending io ak v d member meta = foldl (drop_member io) d (map se_member olds)"
        using False by (simp add: run)
      then show ?thesis using fin [OF drop [OF es x(1)] x(1) ex(2,1)] by simp
    next
      case m: False
      have "snd (write_meta io d member meta')" using works_simps(1) [OF io] by (simp add: write_meta_def Let_def)
      then have r: "replace_pending io ak v d member meta = foldl (drop_member io) (fst (write_meta io d member meta')) (map se_member olds)"
        using False m by (simp add: run)
      have "map (relabel member meta') (rest @ [x]) = rest @ [x\<lparr>se_meta := meta'\<rparr>]"
      proof -
        have "relabel member meta' y = y" if "y \<in> set rest" for y
        proof -
          have "se_member y \<noteq> member" using that dist x(1) by (simp, metis image_eqI)
          then show ?thesis by (simp add: relabel_def)
        qed
        then show ?thesis using x(1) by (simp add: map_idI relabel_def)
      qed
      then have l: "list_members (fst (write_meta io d member meta')) (sm_app meta) = Some (rest @ [x\<lparr>se_meta := meta'\<rparr>])"
        using list_relabel [OF io es, of member meta'] x(1) by simp
      show ?thesis unfolding r using m' x(1) by (intro fin [OF drop [OF l]]) (simp_all add: entry_event_def)
    qed
  qed
qed

lemma record_sound:
  assumes io: "works io" and es: "list_members d (sm_app meta) = Some (rest @ [x])" and x: "se_member x = member" "se_meta x = meta"
    and s: "sound_ring rest" "in_order (rest @ [x])" "member_time member \<noteq> None" "0 < entry_time x"
    and p: "sm_pending meta \<Longrightarrow> sm_event meta = None" "\<not> event_has (sm_event meta) ReasonQuiet"
  shows "\<exists>es'. list_members (record_member io ak v d member meta) (sm_app meta) = Some es' \<and> sound_ring es'"
proof -
  define d1 where "d1 = (if sm_pending meta then replace_pending io ak v d member meta
      else settle io ak v d (rest @ [x]) \<lparr>se_member = member, se_meta = meta, se_app = False\<rparr> [] (sm_taken_at meta))"
  let ?e = "\<lparr>se_member = member, se_meta = meta, se_app = False\<rparr>"
  have te: "entry_time ?e = entry_time x" using x(1) by (simp add: entry_time_def)
  have "\<exists>es'. list_members d1 (sm_app meta) = Some es' \<and> sound_ring es'"
  proof (cases "sm_pending meta")
    case True
    then show ?thesis using replace_sound [OF io es x s True p(1), of ak v] by (auto simp: d1_def)
  next
    case False
    note all = sound_last [OF s(1,2)]
    have "member_time (se_member x) \<noteq> None" using s(3) x(1) by simp
    note all = all [OF this s(4)]
    have "filter (\<lambda>y. se_member y \<noteq> se_member ?e) (rest @ [x]) = rest" using all(4) x(1) by simp
    then have "\<exists>es'. list_members (settle io ak v d (rest @ [x]) ?e [] (sm_taken_at meta)) (sm_app meta) = Some es' \<and> sound_ring es' \<and>
        map se_member es' = map se_member (rest @ [x])"
      using all x s p(2) te by (intro settle_sound [OF io es, of x]) (simp_all add: entry_event_def)
    then show ?thesis using False by (auto simp: d1_def)
  qed
  then obtain es1 where "list_members d1 (sm_app meta) = Some es1" "sound_ring es1" by blast
  from sampled_reader [OF this, of io ak member meta] obtain es2 where
    "list_members (sampled io ak d1 member meta) (sm_app meta) = Some es2" "sound_ring es2" by blast
  from prune_sound [OF io this, of "sm_taken_at meta"] show ?thesis
    by (auto simp: record_member_def Let_def es d1_def)
qed

lemma find_of_append: "find P (xs @ ys) = (case find P xs of None \<Rightarrow> find P ys | Some x \<Rightarrow> Some x)"
  by (induction xs) auto

lemma evaluate_sound:
  assumes io: "works io" and es: "list_members d app = Some es" and s: "sound_ring es"
  shows "\<exists>es'. list_members (evaluate_pending io ak v health d app now) app = Some es' \<and> sound_ring es'"
proof (cases "newest_pending es")
  case None
  then show ?thesis using es s by (simp add: evaluate_pending_def newest_pending_def)
next
  case (Some p)
  have p: "p \<in> set es" "sm_pending (se_meta p)" using Some find_Some_iff [of _ "rev es" p] unfolding newest_pending_def by (metis nth_mem set_rev)+
  have o: "in_order es" "distinct (map se_member es)" "\<forall>x\<in>set es. member_time (se_member x) \<noteq> None \<and> 0 < entry_time x"
    using s by (simp_all add: sound_ring_def list_all_iff)
  have last: "entry_time x \<le> entry_time p" if "x \<in> set es" for x
  proof (cases "sm_pending (se_meta x)")
    case False
    then show ?thesis using s p that unfolding sound_ring_def by (auto intro: less_imp_le)
  next
    case True
    obtain pre y post where r: "es = pre @ y # post" "sm_pending (se_meta y)" "\<forall>e\<in>set post. \<not> sm_pending (se_meta e)"
      using p by (cases rule: split_at_last [of es "\<lambda>e. sm_pending (se_meta e)"]) (blast, force)
    have "find (\<lambda>m. sm_pending (se_meta m)) (rev post) = None" using r(3) by (simp add: find_None_iff)
    then have "newest_pending es = Some y" using r(1,2) by (simp add: newest_pending_def find_of_append)
    then have "p = y" using Some by simp
    moreover have "x \<in> set pre \<or> x = y" using r that True by auto
    ultimately show ?thesis using o(1) by (auto simp: r(1) sorted_wrt_append less_imp_le)
  qed
  have rest: "sound_ring (filter (\<lambda>x. se_member x \<noteq> se_member p) es)"
  proof (rule sound_filter [OF s])
    fix v
    assume "newest_with (\<lambda>e. \<not> sm_pending (se_meta e)) (set es) v"
    then have "v \<in> set es" "v \<noteq> p" using p(2) by (auto simp: newest_with_def)
    then show "se_member v \<noteq> se_member p" using o(2) p(1) by (auto simp: distinct_map inj_on_def)
  qed
  have ev: "entry_event p = None" using s p unfolding sound_ring_def by blast
  have keep: "\<exists>es'. list_members (prune_ring io (settle io ak v d es (p\<lparr>se_meta := (se_meta p)\<lparr>sm_health := h, sm_resets := rs\<rparr>\<rparr>) ex now) app now) app = Some es' \<and> sound_ring es'"
    if "\<forall>r\<in>set ex. rs_kind r \<noteq> ReasonQuiet" for h rs ex
  proof -
    let ?e = "p\<lparr>se_meta := (se_meta p)\<lparr>sm_health := h, sm_resets := rs\<rparr>\<rparr>"
    have f: "entry_time ?e = entry_time p" "entry_event ?e = None" using ev by (simp_all add: entry_time_def entry_event_def)
    have "\<exists>es'. list_members (settle io ak v d es ?e ex now) app = Some es' \<and> sound_ring es' \<and> map se_member es' = map se_member es"
      using o p last rest f that by (intro settle_sound [OF io es, of p]) (simp_all add: event_has_def)
    then show ?thesis using prune_sound [OF io] by blast
  qed
  have "\<forall>r\<in>set (if t then [\<lparr>rs_kind = ReasonUnhealthy, rs_what = w\<rparr>] else []). rs_kind r \<noteq> ReasonQuiet" for t w by simp
  from keep [OF this] show ?thesis
    using es s by (simp add: evaluate_pending_def Some [unfolded newest_pending_def] Let_def)
qed

text \<open>
  C19: where the commands work, every take and every verdict keeps the ring sound: quiet time is alone on
  its record and never on the newest evaluated sample, and a start that waits for its verdict carries no
  event and is newer than every evaluated sample. The take is of a sample newer than the ring; the prune
  at its end is part of it.
\<close>

theorem ring_stays_sound:
  assumes "works io" and "list_members d (sm_app meta) = Some (rest @ [x])" and "se_member x = member" and "se_meta x = meta"
    and "sound_ring rest" and "in_order (rest @ [x])" and "member_time member \<noteq> None" and "0 < entry_time x"
    and "sm_pending meta \<longrightarrow> sm_event meta = None" and "\<not> event_has (sm_event meta) ReasonQuiet"
  shows "\<exists>es' es''. list_members (record_member io ak v d member meta) (sm_app meta) = Some es' \<and> sound_ring es' \<and>
     list_members (evaluate_pending io ak2 v2 health (record_member io ak v d member meta) (sm_app meta) now) (sm_app meta) = Some es'' \<and>
     sound_ring es''"
  using record_sound [OF assms(1-8) _ assms(10), of ak v] evaluate_sound [OF assms(1)] assms(9) by metis

text \<open>
  at most one start waits for its verdict, however often the app starts: where the commands work and
  every sample of the ring that waits is a start, once a newer start is recorded it is the only one. So a
  crash loop, or a container that asks for a sample again and again, holds one.
\<close>

lemma one_start_waits:
  assumes "works io" and "list_members d (sm_app meta) = Some (rest @ [x])" and "se_member x = member" and "se_meta x = meta"
    and "sound_ring rest" and "in_order (rest @ [x])" and "member_time member \<noteq> None" and "0 < entry_time x"
    and "sm_pending meta" and "sm_event meta = None"
    and "\<forall>e\<in>set rest. sm_pending (se_meta e) \<longrightarrow> sm_trigger (se_meta e) = TriggerStart"
    and "list_members (record_member io ak v d member meta) (sm_app meta) = Some es'" and "e \<in> set es'" and "sm_pending (se_meta e)"
  shows "se_member e = member"
proof -
  from replace_sound [OF assms(1-10), of ak v] obtain es1 where r:
    "list_members (replace_pending io ak v d member meta) (sm_app meta) = Some es1" "sound_ring es1"
    "\<forall>e\<in>set es1. se_member e = member \<or> e \<in> set rest \<and> \<not> replaceable (entry_time x) e" by blast
  from sampled_reader [OF r(1,2), of io ak member meta] obtain es2 where m:
    "list_members (sampled io ak (replace_pending io ak v d member meta) member meta) (sm_app meta) = Some es2" "sound_ring es2"
    "\<forall>e'\<in>set es2. \<exists>e\<in>set es1. se_member e' = se_member e \<and> se_meta e' = se_meta e" by blast
  from prune_sound [OF assms(1) m(1,2), of "sm_taken_at meta"] assms(9,12) have "set es' \<subseteq> set es2"
    by (auto simp: record_member_def Let_def)
  then obtain y where y: "y \<in> set es1" "se_member e = se_member y" "se_meta e = se_meta y" using m(3) assms(13) by blast
  have False if "y \<in> set rest" "\<not> replaceable (entry_time x) y"
  proof -
    have "sm_pending (se_meta y)" using y(3) assms(14) by simp
    moreover then have "entry_event y = None" using assms(5) that(1) unfolding sound_ring_def by blast
    moreover have "member_time (se_member y) \<noteq> None" using assms(5) that(1) by (auto simp: sound_ring_def list_all_iff)
    moreover have "entry_time y < entry_time x" using assms(6) that(1) by (simp add: sorted_wrt_append)
    ultimately show False using that assms(11) by (simp add: replaceable_def)
  qed
  then show ?thesis using r(3) y by auto
qed


section \<open>Examples\<close>

lemma ex_sound: "sound_ring ex_rest" "in_order (ex_rest @ [ex_new])"
proof -
  have "snapshots_dir @ ex_clock_name \<noteq> snapshots_dir @ ex_old_start_name" by code_simp
  then show "sound_ring ex_rest" by (auto simp: sound_ring_def ex_entries event_has_def second_def)
  show "in_order (ex_rest @ [ex_new])" by (simp add: ex_entries second_def)
qed

theorem ring_stays_sound_witness:
  "\<exists>es. list_members (record_member ex_ring_io ex_knowledge ex_volume ex_ring_disk (snapshots_dir @ ex_start_name)
     (ex_meta TriggerStart True Quiesced)) ''app'' = Some es \<and> sound_ring es"
  using ring_stays_sound [of ex_ring_io ex_ring_disk "ex_meta TriggerStart True Quiesced" ex_rest ex_new "snapshots_dir @ ex_start_name"
      ex_knowledge ex_volume ex_knowledge ex_volume Healthy 0] ex_works ex_listed ex_sound
  by (simp add: ex_entries event_has_def second_def) blast

lemma not_listed: "list_all (\<lambda>e. f e \<noteq> c) es \<Longrightarrow> c \<notin> f ` set es"
  by (auto simp: list_all_iff)

theorem replaced_start_leaves_its_knowledge_witness:
  "\<exists>meta'. rd_sidecars (replace_pending ex_ring_io ex_knowledge ex_volume ex_ring_disk (snapshots_dir @ ex_start_name)
      (ex_meta TriggerStart True Quiesced)) (snapshot_sidecar (snapshots_dir @ ex_start_name)) = Some meta' \<and>
    sm_consistency meta' = Crash"
proof -
  let ?m = "snapshots_dir @ ex_start_name" and ?meta = "ex_meta TriggerStart True Quiesced"
    and ?old = "ex_entry ex_old_start_name (ex_meta TriggerStart True Crash)"
  have a: "sm_app ?meta = ''app''" by (simp add: ex_meta_def)
  obtain es' where es': "list_members (replace_pending ex_ring_io ex_knowledge ex_volume ex_ring_disk ?m ?meta) ''app'' = Some es'"
      "se_member ?old \<notin> se_member ` set es'"
  proof -
    have "map_option (\<lambda>es. list_all (\<lambda>e. se_member e \<noteq> se_member ?old) es)
        (list_members (replace_pending ex_ring_io ex_knowledge ex_volume ex_ring_disk ?m ?meta) ''app'') = Some True" by code_simp
    then obtain es where "list_members (replace_pending ex_ring_io ex_knowledge ex_volume ex_ring_disk ?m ?meta) ''app'' = Some es"
        "list_all (\<lambda>e. se_member e \<noteq> se_member ?old) es" by blast
    then show ?thesis using not_listed by (intro that)
  qed
  have "rd_sidecars ex_ring_disk (snapshot_sidecar ?m) = Some ?meta" by code_simp
  from replaced_start_leaves_its_knowledge [where d = ex_ring_disk and meta = ?meta and es = "ex_rest @ [ex_new]" and old = ?old
      and member = ?m and at = "63925599600 * second" and ak = ex_knowledge and io = ex_ring_io and v = ex_volume and es' = es'] this es' ex_listed
  show ?thesis by (auto simp: a ex_entries replaceable_def second_def ex_knowledge_def)
qed

theorem history_only_grows_witness:
  "history_kept (63925599600 * second) ex_ring_disk
     (record_member ex_ring_io ex_knowledge ex_volume ex_ring_disk (snapshots_dir @ ex_start_name) (ex_meta TriggerStart True Quiesced))"
proof -
  have "rd_sidecars ex_ring_disk (snapshot_sidecar (snapshots_dir @ ex_start_name)) = Some (ex_meta TriggerStart True Quiesced)"
    "bare_names ex_ring_disk" by code_simp+
  from history_only_grows [OF ex_times(3) this] show ?thesis by blast
qed

end
