(* ===== verification/Recorder.thy ===== *)
theory Recorder
  imports Ring
begin

text \<open>
  The guest's half of the recorder check (\<open>agent/guestagent/dbcheck.go\<close>): the background check with the
  report it hands over, and the restore of Home Assistant's database through a staged copy that is
  exchanged with the live data.

  Files are one map from paths to contents; a subvolume is the paths under its name. Every command that
  changes something is numbered as in \<open>Ring\<close>, and \<open>io_ok\<close> says whether it worked; the commands inside
  \<open>RestoreDB\<close> have outcomes of their own. What such a command leaves half-written in the staged copy is
  left out, since the copy is dropped.
\<close>


section \<open>The background check\<close>

record db_runner =
  dr_busy :: bool
  dr_report :: "db_report option"

definition start_db_check :: "db_runner \<Rightarrow> db_runner \<times> bool" where
  "start_db_check r =
     (if dr_busy r \<or> dr_report r \<noteq> None then (r, False) else (r\<lparr>dr_busy := True\<rparr>, True))"

definition db_check_finished :: "db_runner \<Rightarrow> db_report \<Rightarrow> db_runner" where
  "db_check_finished r rep = r\<lparr>dr_busy := False, dr_report := Some rep\<rparr>"

definition db_check_result :: "db_runner \<Rightarrow> db_runner \<times> bool \<times> db_report option" where
  "db_check_result r = (r\<lparr>dr_report := None\<rparr>, dr_busy r, dr_report r)"

text \<open>The restore takes the same flag: None is the refusal while a check runs.\<close>

definition begin_restore :: "db_runner \<Rightarrow> db_runner option" where
  "begin_restore r = (if dr_busy r then None else Some (r\<lparr>dr_busy := True\<rparr>))"

definition end_restore :: "db_runner \<Rightarrow> db_runner" where
  "end_restore r = r\<lparr>dr_busy := False\<rparr>"

datatype db_job = Checking | Restoring

text \<open>
  The process: verbs come in any order, and the goroutine of a check or the verb of a restore that runs
  may end at any time. \<open>rs_done\<close> is every report a check ended with, \<open>rs_read\<close> every report handed over.
\<close>

record runner_state =
  rs_runner :: db_runner
  rs_job :: "db_job list"
  rs_done :: "db_report list"
  rs_read :: "db_report list"

inductive runner_step :: "runner_state \<Rightarrow> runner_state \<Rightarrow> bool" where
  started: "start_db_check (rs_runner s) = (r, True) \<Longrightarrow>
    runner_step s (s\<lparr>rs_runner := r, rs_job := Checking # rs_job s\<rparr>)"
| not_started: "start_db_check (rs_runner s) = (r, False) \<Longrightarrow> runner_step s (s\<lparr>rs_runner := r\<rparr>)"
| finished: "rs_job s = pre @ Checking # post \<Longrightarrow>
    runner_step s (s\<lparr>rs_runner := db_check_finished (rs_runner s) rep, rs_job := pre @ post, rs_done := rs_done s @ [rep]\<rparr>)"
| asked: "db_check_result (rs_runner s) = (r, running, out) \<Longrightarrow>
    runner_step s (s\<lparr>rs_runner := r, rs_read := rs_read s @ (case out of None \<Rightarrow> [] | Some rep \<Rightarrow> [rep])\<rparr>)"
| restore_began: "begin_restore (rs_runner s) = Some r \<Longrightarrow>
    runner_step s (s\<lparr>rs_runner := r, rs_job := Restoring # rs_job s\<rparr>)"
| restore_ended: "rs_job s = pre @ Restoring # post \<Longrightarrow>
    runner_step s (s\<lparr>rs_runner := end_restore (rs_runner s), rs_job := pre @ post\<rparr>)"

inductive_cases runner_stepE: "runner_step s t"

definition fresh_runner :: runner_state where
  "fresh_runner = \<lparr>rs_runner = \<lparr>dr_busy = False, dr_report = None\<rparr>, rs_job = [], rs_done = [], rs_read = []\<rparr>"

inductive runner_reached :: "runner_state \<Rightarrow> bool" where
  fresh: "runner_reached fresh_runner"
| step: "runner_reached s \<Longrightarrow> runner_step s t \<Longrightarrow> runner_reached t"

definition runner_inv :: "runner_state \<Rightarrow> bool" where
  "runner_inv s \<longleftrightarrow>
     length (rs_job s) = (if dr_busy (rs_runner s) then 1 else 0) \<and>
     rs_done s = rs_read s @ (case dr_report (rs_runner s) of None \<Rightarrow> [] | Some rep \<Rightarrow> [rep]) \<and>
     (Checking \<in> set (rs_job s) \<longrightarrow> dr_report (rs_runner s) = None)"

lemma one_job: "length js = (if b then 1 else 0) \<Longrightarrow> js = pre @ j # post \<Longrightarrow> b \<and> pre = [] \<and> post = []"
proof -
  assume l: "length js = (if b then 1 else 0)" and e: "js = pre @ j # post"
  from e have "length js = Suc (length pre + length post)" by simp
  then show ?thesis using l by (cases b) simp_all
qed

lemma runner_step_inv: "runner_step s t \<Longrightarrow> runner_inv s \<Longrightarrow> runner_inv t"
proof (induction rule: runner_step.induct)
  case (finished s pre post rep)
  then have l: "length (rs_job s) = (if dr_busy (rs_runner s) then 1 else 0)" by (simp add: runner_inv_def)
  have "dr_busy (rs_runner s) \<and> pre = [] \<and> post = []" by (rule one_job [OF l finished(1)])
  then show ?case using finished by (auto simp: runner_inv_def db_check_finished_def)
next
  case (restore_ended s pre post)
  then have l: "length (rs_job s) = (if dr_busy (rs_runner s) then 1 else 0)" by (simp add: runner_inv_def)
  have "dr_busy (rs_runner s) \<and> pre = [] \<and> post = []" by (rule one_job [OF l restore_ended(1)])
  then show ?case using restore_ended by (auto simp: runner_inv_def end_restore_def)
qed (auto simp: runner_inv_def start_db_check_def db_check_result_def begin_restore_def split: if_splits option.splits)

text \<open>
  however the verbs and the ends of the jobs interleave, a check and a restore never run at once, and
  neither do two of a kind; and every report a check ends with is handed over once, in order, the last of
  them possibly still waiting: no check starts over a report nobody has read.
\<close>

lemma every_report_is_handed_over_once:
  assumes "runner_reached s"
  shows "length (rs_job s) \<le> 1 \<and> (dr_busy (rs_runner s) \<longleftrightarrow> rs_job s \<noteq> []) \<and>
     rs_done s = rs_read s @ (case dr_report (rs_runner s) of None \<Rightarrow> [] | Some rep \<Rightarrow> [rep])"
proof -
  have "runner_inv s"
    using assms by induction (simp add: runner_inv_def fresh_runner_def, rule runner_step_inv)
  then show ?thesis by (auto simp: runner_inv_def split: if_splits)
qed


section \<open>What the volume says of Home Assistant\<close>

text \<open>
  \<open>parse\<close> is \<open>manifest.Parse\<close> followed by \<open>hass.ConfigDir\<close> and \<open>quadlet.Render\<close>: None for a manifest that
  does not parse, then the image, the configuration directory and the container units, when there are any.
\<close>

record recorder_app =
  ra_image :: string
  ra_dir :: string
  ra_units :: "string list option"

datatype recorder_error = NoHassHere | ManifestUnread | NoConfigDir | RingUnread | CheckRunning | NoSuchMember
  | NotRestorable restore_refusal | NotRendered

definition hass_name :: string where "hass_name = ''home-assistant''"

definition recorder_on_volume :: "(string \<Rightarrow> recorder_app option option) \<Rightarrow> (string \<Rightarrow> string option) \<Rightarrow>
    recorder_error + (string \<times> recorder_app)" where
  "recorder_on_volume parse files =
     (case files (manifest_path hass_name) of
        None \<Rightarrow> Inl NoHassHere
      | Some raw \<Rightarrow>
          (case parse raw of
             None \<Rightarrow> Inl ManifestUnread
           | Some None \<Rightarrow> Inl NoConfigDir
           | Some (Some app) \<Rightarrow> Inr (raw, app)))"

definition recorder_ring :: "ring_disk \<Rightarrow> string \<Rightarrow> db_member list option" where
  "recorder_ring d dir = map_option (map (ring_member dir)) (list_members d hass_name)"

definition live_dir :: "string \<Rightarrow> string" where "live_dir dir = data_root hass_name @ ''/'' @ dir"

text \<open>\<open>rd\<close> gives the readings of an image; an error becomes the report's reason.\<close>

definition hass_db_check :: "(nat \<Rightarrow> write_outcome) \<Rightarrow> (string \<Rightarrow> recorder_app option option) \<Rightarrow> (string \<Rightarrow> readings) \<Rightarrow>
    (string \<Rightarrow> string option) \<Rightarrow> ring_disk \<Rightarrow> ring_disk \<times> (recorder_error + db_report)" where
  "hass_db_check io parse rd files d =
     (case recorder_on_volume parse files of
        Inl e \<Rightarrow> (d, Inl e)
      | Inr (_, app) \<Rightarrow>
          (case recorder_ring d (ra_dir app) of
             None \<Rightarrow> (d, Inl RingUnread)
           | Some ring \<Rightarrow>
               (let (apps, rep) = nightly io (rd (ra_image app)) (live_dir (ra_dir app)) (rd_apps d) ring
                in (d\<lparr>rd_apps := apps\<rparr>, Inr rep))))"


section \<open>The restore\<close>

datatype staged_kind = NothingThere | Subvolume | SomethingElse

record restore_world =
  rw_ring :: ring_disk
  rw_fs :: file_map
  rw_staged :: staged_kind
  rw_running :: "string \<Rightarrow> bool"

definition under :: "string \<Rightarrow> string \<Rightarrow> string option" where "under sub p = strip_prefix (sub @ ''/'') p"

definition staged_root :: string where "staged_root = data_root hass_name @ ''.dbrestore''"

definition snap :: "string \<Rightarrow> string \<Rightarrow> file_map \<Rightarrow> file_map" where
  "snap a b fs = (\<lambda>p. case under b p of Some q \<Rightarrow> fs (a @ ''/'' @ q) | None \<Rightarrow> fs p)"

definition delete_sub :: "string \<Rightarrow> file_map \<Rightarrow> file_map" where
  "delete_sub a fs = (\<lambda>p. if under a p = None then fs p else None)"

definition exchange :: "string \<Rightarrow> string \<Rightarrow> file_map \<Rightarrow> file_map" where
  "exchange a b fs =
     (\<lambda>p. case under a p of
        Some q \<Rightarrow> fs (b @ ''/'' @ q)
      | None \<Rightarrow> (case under b p of Some q \<Rightarrow> fs (a @ ''/'' @ q) | None \<Rightarrow> fs p))"

definition ran :: "ring_io \<Rightarrow> restore_world \<Rightarrow> bool" where "ran io w = io_ok io (rd_cmds (rw_ring w))"

definition after :: "restore_world \<Rightarrow> restore_world" where "after w = w\<lparr>rw_ring := next_cmd (rw_ring w)\<rparr>"

fun stop_units :: "ring_io \<Rightarrow> restore_world \<Rightarrow> string list \<Rightarrow> restore_world \<times> bool" where
  "stop_units io w [] = (w, True)"
| "stop_units io w (u # us) =
     (if ran io w then stop_units io ((after w)\<lparr>rw_running := (rw_running w)(u := False)\<rparr>) us else (after w, False))"

fun start_units :: "ring_io \<Rightarrow> restore_world \<Rightarrow> string list \<Rightarrow> restore_world \<times> bool" where
  "start_units io w [] = (w, True)"
| "start_units io w (u # us) =
     (let (w', ok) = start_units io (if ran io w then (after w)\<lparr>rw_running := (rw_running w)(u := True)\<rparr> else after w) us
      in (w', ok \<and> ran io w))"

definition drop_staged :: "ring_io \<Rightarrow> restore_world \<Rightarrow> restore_world" where
  "drop_staged io w =
     (if rw_staged w \<noteq> Subvolume then w
      else if ran io w then (after w)\<lparr>rw_staged := NothingThere, rw_fs := delete_sub staged_root (rw_fs w)\<rparr>
      else after w)"

datatype restore_what = StageCopy | PutDatabase | FlushCopy | UndoPoint | SwapIn

text \<open>The flag says whether every unit that ran was started again.\<close>

datatype restore_out = StopFailed bool | Unchanged restore_what bool | Restored bool

definition left_unchanged :: "ring_io \<Rightarrow> string list \<Rightarrow> restore_what \<Rightarrow> restore_world \<Rightarrow> restore_world \<times> restore_out" where
  "left_unchanged io active what w =
     (let (w', ok) = start_units io (drop_staged io w) active in (w', Unchanged what ok))"

definition undo_meta :: "time \<Rightarrow> consistency \<Rightarrow> string \<Rightarrow> snapshot_meta" where
  "undo_meta at cons manifest =
     \<lparr>sm_app = hass_name, sm_trigger = TriggerHassDBRestoreBefore, sm_taken_at = at, sm_consistency = cons, sm_manifest = manifest,
      sm_event = Some \<lparr>ev_at = at, ev_reasons = [\<lparr>rs_kind = ReasonDBRestore, rs_what = ''Restored corrupted database''\<rparr>]\<rparr>,
      sm_pending = False, sm_health = HealthUnknown, sm_resets = []\<rparr>"

definition undo_name :: "time \<Rightarrow> string" where
  "undo_name at = trim_prefix snapshots_dir (snapshot_member hass_name TriggerHassDBRestoreBefore at)"

text \<open>What taking the undo point leaves beside the live data.\<close>

definition undo_taken :: "string \<Rightarrow> take_error option \<Rightarrow> file_map \<Rightarrow> file_map" where
  "undo_taken n err fs =
     (if err = None \<or> err = Some (NotLabelled False) then snap (data_root hass_name) (snapshots_dir @ n) fs else fs)"

definition remove_undo :: "ring_io \<Rightarrow> string \<Rightarrow> restore_world \<Rightarrow> restore_world" where
  "remove_undo io n w =
     w\<lparr>rw_ring := drop_member io (rw_ring w) (snapshots_dir @ n),
       rw_fs := (if ran io w then delete_sub (snapshots_dir @ n) (rw_fs w) else rw_fs w)\<rparr>"

text \<open>The swap with what follows it; \<open>w\<close> holds the undo point and the finished copy.\<close>

definition swap_in :: "ring_io \<Rightarrow> string list \<Rightarrow> time \<Rightarrow> restore_world \<Rightarrow> restore_world \<times> restore_out" where
  "swap_in io active at w =
     (if \<not> ran io w then left_unchanged io active SwapIn (remove_undo io (undo_name at) (after w))
      else
        (let w1 = after ((after w)\<lparr>rw_fs := exchange staged_root (data_root hass_name) (rw_fs w)\<rparr>);
             (w2, ok) = start_units io w1 active
         in (drop_staged io w2, Restored ok)))"

text \<open>The undo point, then the swap; \<open>marker\<close> is whether the clean-stop marker is there after the stops.\<close>

definition take_undo :: "ring_io \<Rightarrow> app_knowledge \<Rightarrow> volume \<Rightarrow> bool \<Rightarrow> bool \<Rightarrow> time \<Rightarrow> string \<Rightarrow> string list \<Rightarrow>
    restore_world \<Rightarrow> restore_world \<times> restore_out" where
  "take_undo io ak v grouped marker at raw active w =
     (let cons = (if marker \<and> active \<noteq> [] then Quiesced else Crash);
          meta = undo_meta at cons raw;
          (ring, err) = take_snapshot io grouped (rw_ring w) (undo_name at) meta;
          w' = w\<lparr>rw_ring := ring, rw_fs := undo_taken (undo_name at) err (rw_fs w)\<rparr>
      in if err \<noteq> None then left_unchanged io active UndoPoint w'
         else swap_in io active at (w'\<lparr>rw_ring := record_member io ak v ring (snapshots_dir @ undo_name at) meta\<rparr>))"

text \<open>
  The staged copy and the database in it; \<open>rm_ok\<close> and \<open>cp_ok\<close> are the outcomes inside \<open>RestoreDB\<close> and
  \<open>vol\<close> what its listing of the copy shows. Its test of the -wal can be run.
\<close>

definition stage_copy :: "ring_io \<Rightarrow> app_knowledge \<Rightarrow> volume \<Rightarrow> bool \<Rightarrow> (string \<Rightarrow> bool) \<Rightarrow> (string \<Rightarrow> bool) \<Rightarrow>
    (file_map \<Rightarrow> volume) \<Rightarrow> bool \<Rightarrow> time \<Rightarrow> string \<Rightarrow> string \<Rightarrow> string list \<Rightarrow> string \<Rightarrow> restore_world \<Rightarrow> restore_world \<times> restore_out" where
  "stage_copy io ak v grouped rm_ok cp_ok vol marker at raw dir active from w =
     (if rw_staged w \<noteq> NothingThere \<or> \<not> grouped then left_unchanged io active StageCopy w
      else if \<not> ran io w then left_unchanged io active StageCopy (after w)
      else
        (let w1 = (after w)\<lparr>rw_staged := Subvolume, rw_fs := snap (data_root hass_name) staged_root (rw_fs w)\<rparr>
         in case restore_db rm_ok cp_ok (\<lambda>_. True) vol from (staged_root @ ''/'' @ dir) (rw_fs w1) of
              None \<Rightarrow> left_unchanged io active PutDatabase w1
            | Some fs \<Rightarrow>
                (let w2 = after (w1\<lparr>rw_fs := fs\<rparr>)
                 in if \<not> ran io w1 then left_unchanged io active FlushCopy w2
                    else take_undo io ak v grouped marker at raw active w2)))"

definition restore_recorder :: "ring_io \<Rightarrow> app_knowledge \<Rightarrow> volume \<Rightarrow> bool \<Rightarrow> (string \<Rightarrow> bool) \<Rightarrow> (string \<Rightarrow> bool) \<Rightarrow>
    (file_map \<Rightarrow> volume) \<Rightarrow> bool \<Rightarrow> time \<Rightarrow> string \<Rightarrow> string \<Rightarrow> string list \<Rightarrow> string \<Rightarrow> restore_world \<Rightarrow> restore_world \<times> restore_out" where
  "restore_recorder io ak v grouped rm_ok cp_ok vol marker at raw dir units from w0 =
     (let active = filter (rw_running w0) units;
          (w1, stopped) = stop_units io w0 (rev active)
      in if \<not> stopped then (let (w2, ok) = start_units io w1 active in (w2, StopFailed ok))
         else stage_copy io ak v grouped rm_ok cp_ok vol marker at raw dir active from (drop_staged io w1))"

text \<open>The verb: the member is read back from the ring, and the gate is asked again.\<close>

definition hass_db_restore :: "ring_io \<Rightarrow> app_knowledge \<Rightarrow> volume \<Rightarrow> bool \<Rightarrow> (string \<Rightarrow> bool) \<Rightarrow> (string \<Rightarrow> bool) \<Rightarrow>
    (file_map \<Rightarrow> volume) \<Rightarrow> bool \<Rightarrow> time \<Rightarrow> (string \<Rightarrow> recorder_app option option) \<Rightarrow> (string \<Rightarrow> readings) \<Rightarrow> bool \<Rightarrow> string \<Rightarrow>
    restore_world \<Rightarrow> restore_world \<times> (recorder_error + restore_out)" where
  "hass_db_restore io ak v grouped rm_ok cp_ok vol marker at parse rd busy member w =
     (if busy then (w, Inl CheckRunning)
      else
        (case recorder_on_volume parse (rw_fs w) of
           Inl e \<Rightarrow> (w, Inl e)
         | Inr (raw, app) \<Rightarrow>
             (case recorder_ring (rw_ring w) (ra_dir app) of
                None \<Rightarrow> (w, Inl RingUnread)
              | Some ring \<Rightarrow>
                  (case find (\<lambda>m. dm_path m = member) (rev ring) of
                     None \<Rightarrow> (w, Inl NoSuchMember)
                   | Some from \<Rightarrow>
                       (case restorable (rd (ra_image app)) (live_dir (ra_dir app)) (rd_apps (rw_ring w)) from of
                          Some refusal \<Rightarrow> (w, Inl (NotRestorable refusal))
                        | None \<Rightarrow>
                            (case ra_units app of
                               None \<Rightarrow> (w, Inl NotRendered)
                             | Some units \<Rightarrow>
                                 (let (w', out) = restore_recorder io ak v grouped rm_ok cp_ok vol marker at raw (ra_dir app) units (dm_dir from) w
                                  in (w', Inr out))))))))"


section \<open>The parts of the volume\<close>

definition part :: "string \<Rightarrow> file_map \<Rightarrow> string \<Rightarrow> string option" where
  "part sub fs q = fs (sub @ ''/'' @ q)"

lemma under_same [simp]: "under sub (sub @ CHR ''/'' # q) = Some q" "under (a @ b) (a @ b @ CHR ''/'' # q) = Some q"
  by (simp_all add: under_def strip_prefix_def)

lemma under_apart [simp]:
  "under staged_root (data_root hass_name @ CHR ''/'' # q) = None"
  "under (data_root hass_name) (staged_root @ CHR ''/'' # q) = None"
  "under staged_root (snapshots_dir @ n @ CHR ''/'' # q) = None"
  "under (data_root hass_name) (snapshots_dir @ n @ CHR ''/'' # q) = None"
  "under (snapshots_dir @ n) (data_root hass_name @ CHR ''/'' # q) = None"
  "under (snapshots_dir @ n) (staged_root @ CHR ''/'' # q) = None"
  by (simp_all add: under_def strip_prefix_def staged_root_def data_root_def hass_name_def snapshots_dir_def)

lemma part_moves [simp]:
  "part (data_root hass_name) (delete_sub staged_root fs) = part (data_root hass_name) fs"
  "part (data_root hass_name) (delete_sub (snapshots_dir @ n) fs) = part (data_root hass_name) fs"
  "part (data_root hass_name) (snap a staged_root fs) = part (data_root hass_name) fs"
  "part (data_root hass_name) (snap a (snapshots_dir @ n) fs) = part (data_root hass_name) fs"
  "part (data_root hass_name) (exchange staged_root (data_root hass_name) fs) = part staged_root fs"
  "part staged_root (snap (data_root hass_name) staged_root fs) = part (data_root hass_name) fs"
  "part staged_root (snap a (snapshots_dir @ n) fs) = part staged_root fs"
  "part (snapshots_dir @ n) (snap a (snapshots_dir @ n) fs) = part a fs"
  "part (snapshots_dir @ n) (snap a staged_root fs) = part (snapshots_dir @ n) fs"
  "part (snapshots_dir @ n) (delete_sub staged_root fs) = part (snapshots_dir @ n) fs"
  "part (snapshots_dir @ n) (exchange staged_root (data_root hass_name) fs) = part (snapshots_dir @ n) fs"
  by (auto simp: fun_eq_iff part_def delete_sub_def snap_def exchange_def)

lemma part_undo_taken [simp]:
  "part (data_root hass_name) (undo_taken n err fs) = part (data_root hass_name) fs"
  "part staged_root (undo_taken n err fs) = part staged_root fs"
  "part (snapshots_dir @ n) (undo_taken n None fs) = part (data_root hass_name) fs"
  by (simp_all add: undo_taken_def)


section \<open>Stopping and starting\<close>

lemma after_simps [simp]:
  "rw_fs (after w) = rw_fs w" "rw_staged (after w) = rw_staged w" "rw_running (after w) = rw_running w"
  by (simp_all add: after_def)

lemma stop_units_frame:
  "stop_units io w us = (w', ok) \<Longrightarrow>
   rw_fs w' = rw_fs w \<and> rw_staged w' = rw_staged w \<and>
   (\<forall>u. u \<notin> set us \<longrightarrow> rw_running w' u = rw_running w u) \<and> (\<forall>u. rw_running w' u \<longrightarrow> rw_running w u)"
  by (induction io w us rule: stop_units.induct) (auto split: if_splits)

lemma start_units_frame:
  "start_units io w us = (w', ok) \<Longrightarrow>
   rw_fs w' = rw_fs w \<and> rw_staged w' = rw_staged w \<and>
   (\<forall>u. u \<notin> set us \<longrightarrow> rw_running w' u = rw_running w u) \<and> (\<forall>u. rw_running w u \<longrightarrow> rw_running w' u) \<and>
   (ok \<longrightarrow> (\<forall>u\<in>set us. rw_running w' u))"
proof (induction us arbitrary: w w' ok)
  case (Cons u us)
  define v where "v = (if ran io w then (after w)\<lparr>rw_running := (rw_running w)(u := True)\<rparr> else after w)"
  obtain v' ok' where run: "start_units io v us = (v', ok')" by (metis prod.exhaust)
  have out: "w' = v'" "ok \<longleftrightarrow> ok' \<and> ran io w" using Cons.prems run by (simp_all add: v_def [symmetric])
  have v: "rw_fs v = rw_fs w" "rw_staged v = rw_staged w" "\<And>x. x \<noteq> u \<Longrightarrow> rw_running v x = rw_running w x"
    "\<And>x. rw_running w x \<Longrightarrow> rw_running v x" "ran io w \<Longrightarrow> rw_running v u"
    by (auto simp: v_def)
  show ?case using Cons.IH [OF run] v out by auto
qed simp

lemma drop_staged_frame [simp]:
  "rw_running (drop_staged io w) = rw_running w"
  "part (data_root hass_name) (rw_fs (drop_staged io w)) = part (data_root hass_name) (rw_fs w)"
  "part (snapshots_dir @ n) (rw_fs (drop_staged io w)) = part (snapshots_dir @ n) (rw_fs w)"
  by (simp_all add: drop_staged_def)

text \<open>What ran before the stop runs after the start.\<close>

lemma started_again:
  assumes "stop_units io w0 (rev (filter (rw_running w0) units)) = (w1, stopped)"
    and "rw_running w = rw_running w1"
    and "start_units io w (filter (rw_running w0) units) = (w', True)"
  shows "rw_running w' = rw_running w0"
proof (rule ext)
  fix u
  note stop = stop_units_frame [OF assms(1)] and start = start_units_frame [OF assms(3)]
  show "rw_running w' u = rw_running w0 u"
  proof (cases "u \<in> set (filter (rw_running w0) units)")
    case True
    then have "rw_running w' u" using start by simp
    then show ?thesis using True by simp
  next
    case False
    then have "rw_running w' u = rw_running w1 u" using start assms(2) by simp
    moreover have "rw_running w1 u = rw_running w0 u"
      using stop [THEN conjunct2, THEN conjunct2, THEN conjunct1, rule_format, of u] False by auto
    ultimately show ?thesis by simp
  qed
qed


section \<open>All or nothing\<close>

abbreviation live :: "string" where "live \<equiv> data_root hass_name"

lemma unchanged_spec:
  assumes "left_unchanged io active what w = (w', out)"
  shows "\<exists>ok. out = Unchanged what ok \<and> part live (rw_fs w') = part live (rw_fs w) \<and>
     start_units io (drop_staged io w) active = (w', ok)"
proof -
  obtain v ok where run: "start_units io (drop_staged io w) active = (v, ok)" by (metis prod.exhaust)
  then show ?thesis using assms start_units_frame [OF run] by (auto simp: left_unchanged_def)
qed

lemma remove_undo_frame [simp]:
  "rw_running (remove_undo io n w) = rw_running w"
  "part live (rw_fs (remove_undo io n w)) = part live (rw_fs w)"
  by (simp_all add: remove_undo_def)

text \<open>
  How a run ends: the live data is what the outcome says, and with the flag up whoever ran runs.
\<close>

fun ends_started :: "restore_out \<Rightarrow> bool" where
  "ends_started (StopFailed ok) = ok"
| "ends_started (Unchanged _ ok) = ok"
| "ends_started (Restored ok) = ok"

definition starts_from :: "ring_io \<Rightarrow> string list \<Rightarrow> restore_world \<Rightarrow> restore_world \<Rightarrow> bool \<Rightarrow> bool" where
  "starts_from io active w w' ok \<longleftrightarrow>
     (\<exists>v x. rw_running v = rw_running w \<and> start_units io v active = (x, ok) \<and> rw_running w' = rw_running x)"

lemma starts_fromI:
  "start_units io v active = (x, ok) \<Longrightarrow> rw_running v = rw_running w \<Longrightarrow> rw_running w' = rw_running x \<Longrightarrow>
   starts_from io active w w' ok"
  unfolding starts_from_def by blast

lemma starts_from_cong: "rw_running v = rw_running w \<Longrightarrow> starts_from io active v w' ok = starts_from io active w w' ok"
  by (simp add: starts_from_def)

lemma unchanged_starts:
  assumes "left_unchanged io active what w = (w', out)"
  shows "starts_from io active w w' (ends_started out)"
proof -
  obtain ok where "out = Unchanged what ok" "start_units io (drop_staged io w) active = (w', ok)"
    using unchanged_spec [OF assms] by blast
  then show ?thesis using starts_fromI [OF _ drop_staged_frame(1) refl] by simp
qed

lemma swap_in_spec:
  assumes "swap_in io active at w = (w', out)"
  shows "starts_from io active w w' (ends_started out)"
    and "case out of
        Restored ok \<Rightarrow> part live (rw_fs w') = part staged_root (rw_fs w) \<and>
          part (snapshots_dir @ undo_name at) (rw_fs w') = part (snapshots_dir @ undo_name at) (rw_fs w)
      | Unchanged what ok \<Rightarrow> part live (rw_fs w') = part live (rw_fs w)
      | StopFailed ok \<Rightarrow> False"
proof -
  define w1 where "w1 = after ((after w)\<lparr>rw_fs := exchange staged_root live (rw_fs w)\<rparr>)"
  obtain w2 ok where run: "start_units io w1 active = (w2, ok)" by (metis prod.exhaust)
  have w1: "rw_running w1 = rw_running w" "rw_fs w1 = exchange staged_root live (rw_fs w)" by (simp_all add: w1_def)
  have both: "starts_from io active w w' (ends_started out) \<and> (case out of
        Restored ok \<Rightarrow> part live (rw_fs w') = part staged_root (rw_fs w) \<and>
          part (snapshots_dir @ undo_name at) (rw_fs w') = part (snapshots_dir @ undo_name at) (rw_fs w)
      | Unchanged what ok \<Rightarrow> part live (rw_fs w') = part live (rw_fs w)
      | StopFailed ok \<Rightarrow> False)"
  proof (cases "ran io w")
    case True
    then have "w' = drop_staged io w2" "out = Restored ok"
      using assms run by (simp_all add: swap_in_def w1_def [symmetric])
    then show ?thesis
      using w1 start_units_frame [OF run] starts_fromI [OF run w1(1), of w'] by simp
  next
    case False
    then have un: "left_unchanged io active SwapIn (remove_undo io (undo_name at) (after w)) = (w', out)"
      using assms by (simp add: swap_in_def)
    obtain ok' where "out = Unchanged SwapIn ok'" "part live (rw_fs w') = part live (rw_fs w)"
      using unchanged_spec [OF un] by auto
    then show ?thesis using unchanged_starts [OF un] by (simp add: starts_from_def)
  qed
  show "starts_from io active w w' (ends_started out)" using both by (rule conjunct1)
  show "case out of
        Restored ok \<Rightarrow> part live (rw_fs w') = part staged_root (rw_fs w) \<and>
          part (snapshots_dir @ undo_name at) (rw_fs w') = part (snapshots_dir @ undo_name at) (rw_fs w)
      | Unchanged what ok \<Rightarrow> part live (rw_fs w') = part live (rw_fs w)
      | StopFailed ok \<Rightarrow> False" using both by (rule conjunct2)
qed

text \<open>
  What the volume may look like afterwards: as before, or with the member's database and the undo point
  holding what was there.
\<close>

definition live_after :: "time \<Rightarrow> string \<Rightarrow> string \<Rightarrow> file_map \<Rightarrow> file_map \<Rightarrow> restore_out \<Rightarrow> bool" where
  "live_after at dir from fs fs' out =
     (case out of
        Restored ok \<Rightarrow>
          part live fs' (dir @ ''/'' @ db_name) = fs (from @ ''/'' @ db_name) \<and> fs (from @ ''/'' @ db_name) \<noteq> None \<and>
          part live fs' (dir @ ''/'' @ db_name @ ''-wal'') =
            (if with_frames (fs (from @ ''/'' @ db_name @ ''-wal'')) then fs (from @ ''/'' @ db_name @ ''-wal'') else None) \<and>
          part live fs' (dir @ ''/'' @ db_name @ ''-shm'') = None \<and>
          (\<forall>q. (\<exists>rel. prefix db_name rel \<and> q = dir @ ''/'' @ rel) \<or> part live fs' q = part live fs q) \<and>
          part (snapshots_dir @ undo_name at) fs' = part live fs
      | _ \<Rightarrow> part live fs' = part live fs)"

lemma take_undo_spec:
  assumes "take_undo io ak v grouped marker at raw active w = (w', out)"
  shows "starts_from io active w w' (ends_started out) \<and>
     (case out of
        Restored ok \<Rightarrow> part live (rw_fs w') = part staged_root (rw_fs w) \<and>
          part (snapshots_dir @ undo_name at) (rw_fs w') = part live (rw_fs w)
      | Unchanged what ok \<Rightarrow> part live (rw_fs w') = part live (rw_fs w)
      | StopFailed ok \<Rightarrow> False)"
proof -
  let ?meta = "undo_meta at (if marker \<and> active \<noteq> [] then Quiesced else Crash) raw"
  obtain ring err where taken: "take_snapshot io grouped (rw_ring w) (undo_name at) ?meta = (ring, err)"
    by (metis prod.exhaust)
  let ?w = "w\<lparr>rw_ring := ring, rw_fs := undo_taken (undo_name at) err (rw_fs w)\<rparr>"
  show ?thesis
  proof (cases err)
    case (Some e)
    then have un: "left_unchanged io active UndoPoint ?w = (w', out)" using assms taken by (simp add: take_undo_def)
    obtain ok where "out = Unchanged UndoPoint ok" "part live (rw_fs w') = part live (rw_fs w)"
      using unchanged_spec [OF un] by auto
    then show ?thesis using unchanged_starts [OF un] by (simp add: starts_from_def)
  next
    case None
    then have sw: "swap_in io active at (?w\<lparr>rw_ring := record_member io ak v ring (snapshots_dir @ undo_name at) ?meta\<rparr>) = (w', out)"
      using assms taken by (simp add: take_undo_def Let_def)
    from swap_in_spec [OF sw] None show ?thesis
      by (cases out) (simp_all add: starts_from_def)
  qed
qed

lemma snapped_member:
  "snap a staged_root fs ((snapshots_dir @ n @ ''/'' @ dir) @ ''/'' @ x) = fs ((snapshots_dir @ n @ ''/'' @ dir) @ ''/'' @ x)"
  using under_apart(3) [of n "dir @ ''/'' @ x"] by (simp add: snap_def)

lemma member_not_staged: "snapshots_dir @ n @ ''/'' @ dir \<noteq> staged_root @ ''/'' @ dir'"
  by (simp add: staged_root_def data_root_def hass_name_def snapshots_dir_def)

lemma restored_copy:
  assumes "restore_db rm_ok cp_ok (\<lambda>_. True) vol from (staged_root @ ''/'' @ dir) (snap live staged_root fs) = Some fs'"
    and "from = snapshots_dir @ n @ ''/'' @ dir"
  shows "part live fs' = part live fs"
    and "part staged_root fs' (dir @ ''/'' @ db_name) = fs (from @ ''/'' @ db_name)" "fs (from @ ''/'' @ db_name) \<noteq> None"
    and "part staged_root fs' (dir @ ''/'' @ db_name @ ''-wal'') =
       (if with_frames (fs (from @ ''/'' @ db_name @ ''-wal'')) then fs (from @ ''/'' @ db_name @ ''-wal'') else None)"
    and "part staged_root fs' (dir @ ''/'' @ db_name @ ''-shm'') = None"
    and "(\<exists>rel. prefix db_name rel \<and> q = dir @ ''/'' @ rel) \<or> part staged_root fs' q = part live fs q"
proof -
  have same: "snap live staged_root fs (from @ ''/'' @ x) = fs (from @ ''/'' @ x)" for x
    unfolding assms(2) by (rule snapped_member)
  have ne: "from \<noteq> staged_root @ ''/'' @ dir" unfolding assms(2) by (rule member_not_staged)
  note res = restore_db_result(1) [OF assms(1) ne, unfolded same]
  note frame = restore_db_frame [OF assms(1) refl]
  show "fs (from @ ''/'' @ db_name) \<noteq> None" using res by blast
  show "part staged_root fs' (dir @ ''/'' @ db_name) = fs (from @ ''/'' @ db_name)"
    using res by (simp add: part_def)
  show "part staged_root fs' (dir @ ''/'' @ db_name @ ''-wal'') =
       (if with_frames (fs (from @ ''/'' @ db_name @ ''-wal'')) then fs (from @ ''/'' @ db_name @ ''-wal'') else None)"
    using res by (simp add: part_def)
  show "part staged_root fs' (dir @ ''/'' @ db_name @ ''-shm'') = None"
    using res by (simp add: part_def)
  show "part live fs' = part live fs"
  proof (rule ext)
    fix q
    have "live @ ''/'' @ q \<noteq> (staged_root @ ''/'' @ dir) @ ''/'' @ rel" for rel
      by (simp add: staged_root_def data_root_def)
    then have "fs' (live @ ''/'' @ q) = snap live staged_root fs (live @ ''/'' @ q)" by (intro frame) blast
    then show "part live fs' q = part live fs q"
      using part_moves(3) [of live fs] unfolding part_def fun_eq_iff by simp
  qed
  show "(\<exists>rel. prefix db_name rel \<and> q = dir @ ''/'' @ rel) \<or> part staged_root fs' q = part live fs q"
  proof (cases "\<exists>rel. prefix db_name rel \<and> q = dir @ ''/'' @ rel")
    case False
    then have "fs' (staged_root @ ''/'' @ q) = snap live staged_root fs (staged_root @ ''/'' @ q)"
      by (intro frame) auto
    then show ?thesis using part_moves(6) [of fs] unfolding part_def fun_eq_iff by simp
  qed blast
qed

lemma stage_copy_spec:
  assumes "stage_copy io ak v grouped rm_ok cp_ok vol marker at raw dir active from w = (w', out)"
    and "from = snapshots_dir @ n @ ''/'' @ dir"
  shows "starts_from io active w w' (ends_started out) \<and> live_after at dir from (rw_fs w) (rw_fs w') out"
proof -
  define w1 where "w1 = (after w)\<lparr>rw_staged := Subvolume, rw_fs := snap live staged_root (rw_fs w)\<rparr>"
  have w1: "rw_running w1 = rw_running w" "rw_fs w1 = snap live staged_root (rw_fs w)" by (simp_all add: w1_def)
  have un: "starts_from io active w w' (ends_started out) \<and> live_after at dir from (rw_fs w) (rw_fs w') out"
    if "left_unchanged io active what x = (w', out)" "rw_running x = rw_running w" "part live (rw_fs x) = part live (rw_fs w)" for what x
  proof -
    note run = that(1)
    obtain ok where "out = Unchanged what ok" "part live (rw_fs w') = part live (rw_fs x)"
      using unchanged_spec [OF run] by auto
    then show ?thesis using unchanged_starts [OF run] that(2,3) by (simp add: starts_from_def live_after_def)
  qed
  consider (early) what x where "left_unchanged io active what x = (w', out)" "rw_running x = rw_running w" "rw_fs x = rw_fs w"
    | (no_db) "left_unchanged io active PutDatabase w1 = (w', out)"
    | (db) fs where "restore_db rm_ok cp_ok (\<lambda>_. True) vol from (staged_root @ ''/'' @ dir) (rw_fs w1) = Some fs"
        "(if \<not> ran io w1 then left_unchanged io active FlushCopy (after (w1\<lparr>rw_fs := fs\<rparr>))
          else take_undo io ak v grouped marker at raw active (after (w1\<lparr>rw_fs := fs\<rparr>))) = (w', out)"
    using assms(1) unfolding stage_copy_def w1_def [symmetric] Let_def
    by (auto split: if_splits option.splits)
  then show ?thesis
  proof cases
    case early
    show ?thesis by (rule un [OF early(1,2)]) (simp add: early(3))
  next
    case no_db
    show ?thesis by (rule un [OF no_db w1(1)]) (simp add: w1(2))
  next
    case db
    note copy = restored_copy [OF db(1) [unfolded w1(2)] assms(2)]
    let ?w2 = "after (w1\<lparr>rw_fs := fs\<rparr>)"
    have w2: "rw_running ?w2 = rw_running w" "rw_fs ?w2 = fs" using w1 by simp_all
    show ?thesis
    proof (cases "ran io w1")
      case False
      then have "left_unchanged io active FlushCopy ?w2 = (w', out)" using db(2) by simp
      then show ?thesis by (rule un) (simp_all add: w1(1) copy(1))
    next
      case True
      then have "take_undo io ak v grouped marker at raw active ?w2 = (w', out)" using db(2) by simp
      note undo = take_undo_spec [OF this]
      from undo have "starts_from io active w w' (ends_started out)" using w2 by (simp add: starts_from_def)
      moreover have "live_after at dir from (rw_fs w) (rw_fs w') out"
        using undo [THEN conjunct2] copy w2 by (cases out) (simp_all add: live_after_def)
      ultimately show ?thesis by blast
    qed
  qed
qed

lemma restore_recorder_spec:
  assumes "restore_recorder io ak v grouped rm_ok cp_ok vol marker at raw dir units from w = (w', out)"
    and "from = snapshots_dir @ n @ ''/'' @ dir"
  shows "live_after at dir from (rw_fs w) (rw_fs w') out \<and>
     (ends_started out \<longrightarrow> rw_running w' = rw_running w)"
proof -
  let ?active = "filter (rw_running w) units"
  obtain w1 stopped where stop: "stop_units io w (rev ?active) = (w1, stopped)" by (metis prod.exhaust)
  have fs: "rw_fs w1 = rw_fs w" using stop_units_frame [OF stop] by blast
  show ?thesis
  proof (cases stopped)
    case True
    then have "stage_copy io ak v grouped rm_ok cp_ok vol marker at raw dir ?active from (drop_staged io w1) = (w', out)"
      using assms(1) stop by (simp add: restore_recorder_def)
    note staged = stage_copy_spec [OF this assms(2)]
    have "part live (rw_fs (drop_staged io w1)) = part live (rw_fs w)" by (simp add: fs)
    moreover have "rw_fs (drop_staged io w1) (from @ ''/'' @ x) = rw_fs w (from @ ''/'' @ x)" for x
      using under_apart(3) [of n "dir @ ''/'' @ x"] by (simp add: fs drop_staged_def delete_sub_def assms(2))
    ultimately have "live_after at dir from (rw_fs w) (rw_fs w') out"
      using staged by (auto simp: live_after_def split: restore_out.splits)
    moreover have "rw_running w' = rw_running w" if "ends_started out"
    proof -
      note up = that
      obtain u x where "rw_running u = rw_running w1" "start_units io u ?active = (x, True)" "rw_running w' = rw_running x"
        using staged up by (auto simp: starts_from_def)
      then show ?thesis using started_again [OF stop] by metis
    qed
    ultimately show ?thesis by blast
  next
    case False
    obtain w2 ok where start: "start_units io w1 ?active = (w2, ok)" by (metis prod.exhaust)
    then have "w' = w2" "out = StopFailed ok" using assms(1) stop False by (simp_all add: restore_recorder_def)
    moreover have "rw_fs w2 = rw_fs w" using start_units_frame [OF start] fs by simp
    ultimately show ?thesis using started_again [OF stop refl] start by (simp add: live_after_def)
  qed
qed

lemma recorder_ring_dirs:
  assumes "recorder_ring d dir = Some ring" and "m \<in> set ring"
  shows "\<exists>n. dm_dir m = snapshots_dir @ n @ ''/'' @ dir"
proof -
  obtain es e where "list_members d hass_name = Some es" "e \<in> set es" "m = ring_member dir e"
    using assms by (auto simp: recorder_ring_def)
  moreover have "\<exists>n. se_member e = snapshots_dir @ n"
    using list_members_Some [OF calculation(1,2)] by auto
  ultimately show ?thesis by (auto simp: ring_member_def)
qed



section \<open>Examples\<close>

definition ex_member_name :: string where "ex_member_name = ''home-assistant-clock-20260921T090000Z''"

definition ex_recorder_app :: recorder_app where
  "ex_recorder_app = \<lparr>ra_image = ''ha'', ra_dir = ''config'', ra_units = Some [''ha.service'', ''mqtt.service'']\<rparr>"

definition ex_restore_world :: restore_world where
  "ex_restore_world =
     \<lparr>rw_ring =
        \<lparr>rd_names = [ex_member_name],
         rd_sidecars = [snapshot_sidecar (snapshots_dir @ ex_member_name) \<mapsto>
           \<lparr>sm_app = hass_name, sm_trigger = TriggerClock, sm_taken_at = 0, sm_consistency = Quiesced, sm_manifest = ''m'', sm_event = None,
            sm_pending = False, sm_health = HealthUnknown, sm_resets = []\<rparr>],
         rd_apps = \<lparr>dd_sidecar = [app_sidecar (snapshots_dir @ ex_member_name) \<mapsto> [(db_key, DBRecord DBClean)]], dd_writes = []\<rparr>,
         rd_clean = (\<lambda>_. True), rd_cmds = 0\<rparr>,
      rw_fs = [manifest_path hass_name \<mapsto> ''m'', live @ ''/config/'' @ db_name \<mapsto> ''bad'',
        snapshots_dir @ ex_member_name @ ''/config/'' @ db_name \<mapsto> ''good''],
      rw_staged = NothingThere, rw_running = (\<lambda>u. u = ''ha.service'')\<rparr>"

definition ex_restore :: "restore_world \<times> (recorder_error + restore_out)" where
  "ex_restore =
     hass_db_restore ex_ring_io ex_knowledge ex_volume True (\<lambda>_. True) (\<lambda>_. True) example_view True (60 * hour)
       (\<lambda>_. Some (Some ex_recorder_app)) (\<lambda>_. example_readings) False (snapshots_dir @ ex_member_name) ex_restore_world"

text \<open>\<open>ex_copied\<close> is what the copying leaves; the rest is decided by the outcomes of the commands.\<close>

lemma ex_restore_reads:
  "recorder_on_volume (\<lambda>_. Some (Some ex_recorder_app)) (rw_fs ex_restore_world) = Inr (''m'', ex_recorder_app)"
  by (simp add: recorder_on_volume_def ex_restore_world_def manifest_path_def manifest_dir_def hass_name_def data_root_def
      snapshots_dir_def)

lemma ex_restore_ring:
  "recorder_ring (rw_ring ex_restore_world) ''config'' =
     Some [\<lparr>dm_path = snapshots_dir @ ex_member_name, dm_dir = snapshots_dir @ ex_member_name @ ''/config'',
       dm_app = app_sidecar (snapshots_dir @ ex_member_name), dm_at = 63925578000 * second, dm_quiesced = True\<rparr>]"
  by code_simp

lemma ex_restore_gate:
  "restorable example_readings (live_dir ''config'') (rd_apps (rw_ring ex_restore_world))
     \<lparr>dm_path = snapshots_dir @ ex_member_name, dm_dir = snapshots_dir @ ex_member_name @ ''/config'',
       dm_app = app_sidecar (snapshots_dir @ ex_member_name), dm_at = 63925578000 * second, dm_quiesced = True\<rparr> = None"
  by code_simp

lemma ex_restore_copy:
  "restore_db (\<lambda>_. True) (\<lambda>_. True) (\<lambda>_. True) example_view (snapshots_dir @ ex_member_name @ ''/config'') (staged_root @ ''/config'')
     (snap live staged_root (rw_fs ex_restore_world)) \<noteq> None"
  by code_simp
definition ex_restore_run :: "restore_world \<times> restore_out" where
  "ex_restore_run =
     restore_recorder ex_ring_io ex_knowledge ex_volume True (\<lambda>_. True) (\<lambda>_. True) example_view True (60 * hour) ''m'' ''config''
       [''ha.service'', ''mqtt.service''] (snapshots_dir @ ex_member_name @ ''/config'') ex_restore_world"

lemma ex_names: "undo_name (60 * hour) \<noteq> ex_member_name"
  by code_simp

lemma start_units_works: "\<forall>n. io_ok io n \<Longrightarrow> snd (start_units io w us)"
  by (induction us arbitrary: w) (simp_all add: ran_def case_prod_beta)

lemma take_undo_works:
  assumes "\<forall>n. io_ok io n" and "\<forall>n. io_write io n = Written" and "undo_name at \<notin> set (rd_names (rw_ring w))"
  shows "snd (take_undo io ak v True marker at raw active w) = Restored True"
  using assms start_units_works [OF assms(1)]
  by (simp add: take_undo_def take_snapshot_def Let_def swap_in_def ran_def case_prod_beta)

lemma ex_restore_out: "snd ex_restore_run = Restored True"
proof -
  obtain fs where copied: "restore_db (\<lambda>_. True) (\<lambda>_. True) (\<lambda>_. True) example_view (snapshots_dir @ ex_member_name @ ''/config'') (staged_root @ ''/config'')
     (snap live staged_root (rw_fs ex_restore_world)) = Some fs" using ex_restore_copy by blast
  have w: "rw_staged ex_restore_world = NothingThere" "rw_running ex_restore_world = (\<lambda>u. u = ''ha.service'')"
    "rd_names (rw_ring ex_restore_world) = [ex_member_name]" by (simp_all add: ex_restore_world_def)
  have io: "\<forall>n. io_ok ex_ring_io n" "\<forall>n. io_write ex_ring_io n = Written" by (simp_all add: ex_ring_io_def)
  have stop: "stop_units ex_ring_io ex_restore_world (rev (filter (rw_running ex_restore_world) [''ha.service'', ''mqtt.service''])) =
      ((after ex_restore_world)\<lparr>rw_running := (\<lambda>u. u = ''ha.service'')(''ha.service'' := False)\<rparr>, True)"
    by (simp add: w ran_def io)
  show ?thesis
    unfolding ex_restore_run_def restore_recorder_def Let_def stop
    by (simp add: w drop_staged_def stage_copy_def ran_def io copied Let_def take_undo_works ex_names after_def)
qed


definition ex_report :: db_report where
  "ex_report = \<lparr>rp_checked = None, rp_verdict = None, rp_candidate = None, rp_why = Some NoQuiescedMember\<rparr>"

definition ex_waiting :: runner_state where
  "ex_waiting = \<lparr>rs_runner = \<lparr>dr_busy = False, dr_report = Some ex_report\<rparr>, rs_job = [], rs_done = [ex_report], rs_read = []\<rparr>"

end
