(* ===== verification/ClockSample.thy ===== *)
theory ClockSample
  imports DbCheck AlertStore
begin

text \<open>
  What the host's observe loop does by the clock (\<open>agent/host/clocksample.go\<close>): the hourly sample of an
  app that runs, the nightly check of Home Assistant's database with the restore it may ask for, and the
  tick of the files tier.

  The answers of the guest to one cycle are a record; what the host asks of the guest and tells the
  household is a list of acts. The time is read once for a cycle, and again for the name of each sample.
  The household's zone is a function from a time to its offset, as Go's \<open>Location\<close> is.
\<close>


section \<open>Cycles\<close>

text \<open>A loop that keeps a state: the last state, and what the steps did.\<close>

fun series :: "('s \<Rightarrow> 'i \<Rightarrow> 's \<times> 'a list) \<Rightarrow> 's \<Rightarrow> 'i list \<Rightarrow> 's \<times> 'a list" where
  "series step s [] = (s, [])"
| "series step s (i # is) =
     (let (s1, acts) = step s i; (s2, more) = series step s1 is in (s2, acts @ more))"

text \<open>
  The contract of a job that is paced: a step acts for a key only when the time it remembers for that key is
  \<open>every\<close> old, and remembers the act.
\<close>

abbreviation apart :: "('a \<Rightarrow> 'k) \<Rightarrow> ('a \<Rightarrow> int) \<Rightarrow> int \<Rightarrow> 'a \<Rightarrow> 'a \<Rightarrow> bool" where
  "apart key at every a b \<equiv> key a = key b \<longrightarrow> at a + every \<le> at b"

locale paced =
  fixes step :: "'s \<Rightarrow> 'i \<Rightarrow> 's \<times> 'a list"
    and key :: "'a \<Rightarrow> 'k"
    and at :: "'a \<Rightarrow> int"
    and remembered :: "'s \<Rightarrow> 'k \<Rightarrow> int"
    and every :: int
    and fit :: "'i \<Rightarrow> bool"
  assumes grows: "fit i \<Longrightarrow> remembered s k \<le> remembered (fst (step s i)) k"
    and due: "fit i \<Longrightarrow> a \<in> set (snd (step s i)) \<Longrightarrow> remembered s (key a) + every \<le> at a"
    and noted: "fit i \<Longrightarrow> a \<in> set (snd (step s i)) \<Longrightarrow> at a \<le> remembered (fst (step s i)) (key a)"
    and within: "fit i \<Longrightarrow> sorted_wrt (apart key at every) (snd (step s i))"
begin

lemma series_paced:
  assumes "\<forall>i\<in>set is. fit i"
  shows "(\<forall>k. remembered s k \<le> remembered (fst (series step s is)) k) \<and>
     (\<forall>a\<in>set (snd (series step s is)). remembered s (key a) + every \<le> at a \<and> at a \<le> remembered (fst (series step s is)) (key a)) \<and>
     sorted_wrt (apart key at every) (snd (series step s is))"
  using assms
proof (induction "is" arbitrary: s)
  case (Cons i "is")
  obtain s1 acts where step: "step s i = (s1, acts)" by (metis prod.exhaust)
  obtain s2 more where rest: "series step s1 is = (s2, more)" by (metis prod.exhaust)
  have fit: "fit i" and tl: "\<forall>i\<in>set is. fit i" using Cons.prems by auto
  have one: "\<And>k. remembered s k \<le> remembered s1 k" "\<And>a. a \<in> set acts \<Longrightarrow> remembered s (key a) + every \<le> at a"
    "\<And>a. a \<in> set acts \<Longrightarrow> at a \<le> remembered s1 (key a)" "sorted_wrt (apart key at every) acts"
    using grows [OF fit, of s] due [OF fit, of _ s] noted [OF fit, of _ s] within [OF fit, of s] step by simp_all
  have all: "\<And>k. remembered s1 k \<le> remembered s2 k" "\<And>a. a \<in> set more \<Longrightarrow> remembered s1 (key a) + every \<le> at a"
    "\<And>a. a \<in> set more \<Longrightarrow> at a \<le> remembered s2 (key a)" "sorted_wrt (apart key at every) more"
    using Cons.IH [OF tl, of s1] rest by simp_all
  have "remembered s k \<le> remembered s2 k" for k using one(1) [of k] all(1) [of k] by simp
  moreover have "remembered s (key a) + every \<le> at a \<and> at a \<le> remembered s2 (key a)" if "a \<in> set (acts @ more)" for a
    using that one(1) [of "key a"] one(2,3) [of a] all(1) [of "key a"] all(2,3) [of a] by auto
  moreover have "apart key at every a b" if "a \<in> set acts" "b \<in> set more" for a b
    using one(3) [OF that(1)] all(2) [OF that(2)] by auto
  ultimately show ?case
    using step rest one(4) all(4) by (simp add: sorted_wrt_append)
qed simp

end


section \<open>The hourly sample\<close>

definition clock_interval :: duration where "clock_interval = hour"

record sample_guest =
  sg_takes :: bool
  sg_holds :: bool
  sg_lists :: bool
  sg_members :: "string \<Rightarrow> string list option"
  sg_manifest :: "string \<Rightarrow> string option"
  sg_take_ok :: "string \<Rightarrow> bool"

datatype clock_act =
    PlainTake string snapshot_meta
  | HeldTake string snapshot_meta

fun act_meta :: "clock_act \<Rightarrow> snapshot_meta" where
  "act_meta (PlainTake _ m) = m"
| "act_meta (HeldTake _ m) = m"

type_synonym clock_sampler = "string \<Rightarrow> time"

definition new_clock_sampler :: clock_sampler where "new_clock_sampler = (\<lambda>_. 0)"

definition newest_member :: "sample_guest \<Rightarrow> string \<Rightarrow> time option" where
  "newest_member g app =
     (if \<not> sg_lists g then None
      else
        (case sg_members g app of
           None \<Rightarrow> None
         | Some ms \<Rightarrow>
             (let newest = foldl (\<lambda>newest m. case member_time m of None \<Rightarrow> newest | Some at \<Rightarrow> if newest < at then at else newest) 0 ms
              in if newest = 0 then None else Some newest)))"

definition member_meta :: "string \<Rightarrow> trigger \<Rightarrow> consistency \<Rightarrow> ring_event option \<Rightarrow> string \<Rightarrow> time \<Rightarrow> snapshot_meta" where
  "member_meta app tr cons ev raw at =
     \<lparr>sm_app = app, sm_trigger = tr, sm_taken_at = at, sm_consistency = cons, sm_manifest = raw, sm_event = ev,
      sm_pending = False, sm_health = HealthUnknown, sm_resets = []\<rparr>"

text \<open>\<open>takeMember\<close> and \<open>takeRunning\<close>: what is asked of the guest, and whether it worked.\<close>

definition take_member :: "sample_guest \<Rightarrow> string \<Rightarrow> string \<Rightarrow> trigger \<Rightarrow> consistency \<Rightarrow> ring_event option \<Rightarrow> time \<Rightarrow>
    clock_act list \<times> bool" where
  "take_member g app member tr cons ev at =
     (case sg_manifest g app of
        None \<Rightarrow> ([], False)
      | Some raw \<Rightarrow> ([PlainTake member (member_meta app tr cons ev raw at)], sg_take_ok g app))"

definition take_running :: "sample_guest \<Rightarrow> string \<Rightarrow> string \<Rightarrow> trigger \<Rightarrow> time \<Rightarrow> clock_act list \<times> bool" where
  "take_running g app member tr at =
     (if \<not> sg_holds g then take_member g app member tr Crash None at
      else
        (case sg_manifest g app of
           None \<Rightarrow> ([], False)
         | Some raw \<Rightarrow> ([HeldTake member (member_meta app tr Crash None raw at)], sg_take_ok g app)))"

text \<open>One app, with the reading of the clock its sample would be named for.\<close>

definition consider_app :: "sample_guest \<Rightarrow> time \<Rightarrow> clock_sampler \<Rightarrow> string \<Rightarrow> time \<Rightarrow> clock_sampler \<times> clock_act list" where
  "consider_app g now c app at =
     (if time_sub now (c app) < clock_interval then (c, [])
      else
        (case newest_member g app of
           Some t \<Rightarrow>
             (if time_sub now t < clock_interval then (c(app := t), [])
              else (c(app := at), fst (take_running g app (snapshot_member app TriggerClock at) TriggerClock at)))
         | None \<Rightarrow> (c(app := at), fst (take_running g app (snapshot_member app TriggerClock at) TriggerClock at))))"

definition consider_apps :: "sample_guest \<Rightarrow> time \<Rightarrow> clock_sampler \<Rightarrow> (string \<times> time) list \<Rightarrow> clock_sampler \<times> clock_act list" where
  "consider_apps g now = series (\<lambda>c (app, at). consider_app g now c app at)"

record sample_cycle =
  sc_guest :: sample_guest
  sc_serving :: bool
  sc_now :: time
  sc_apps :: "(string \<times> time) list"

definition consider_samples :: "clock_sampler \<Rightarrow> sample_cycle \<Rightarrow> clock_sampler \<times> clock_act list" where
  "consider_samples c cy =
     (if \<not> sc_serving cy \<or> \<not> sg_takes (sc_guest cy) then (c, [])
      else consider_apps (sc_guest cy) (sc_now cy) c (sc_apps cy))"


section \<open>The nightly check\<close>

definition db_check_at :: int where "db_check_at = 5 * 60 + 30"
definition db_check_window :: int where "db_check_window = 60"

type_synonym zone = "time \<Rightarrow> duration"

definition local_day :: "zone \<Rightarrow> time \<Rightarrow> int" where
  "local_day loc t = (t + loc t) div (24 * hour)"

definition local_minutes :: "zone \<Rightarrow> time \<Rightarrow> int" where
  "local_minutes loc t = (t + loc t) mod (24 * hour) div minute"

record db_checker =
  dc_done :: "int option"
  dc_waiting :: time

definition new_db_checker :: db_checker where
  "new_db_checker = \<lparr>dc_done = None, dc_waiting = 0\<rparr>"

text \<open>
  The guest's answers: to the start whether it started, to the question whether it runs and the report,
  to the restore whether it worked. None is an error of the call.
\<close>

record check_guest =
  cg_start :: "bool option"
  cg_result :: "(bool \<times> db_report option) option"
  cg_restore :: "string \<Rightarrow> bool"

datatype check_act = AskStart | AskResult | AskRestore string | Tell alert

definition recorder_key :: string where "recorder_key = ''recorder-damaged''"

definition recorder_intact :: alert where
  "recorder_intact =
     \<lparr>al_key = recorder_key, al_kind = Resolved, al_severity = NoSeverity,
      al_title = ''Briard: Home Assistant's history is intact again''\<rparr>"

definition recorder_damaged :: alert where
  "recorder_damaged =
     \<lparr>al_key = recorder_key, al_kind = Open, al_severity = Warning, al_title = ''Briard: Home Assistant's history is damaged''\<rparr>"

definition recorder_repaired :: alert where
  "recorder_repaired =
     \<lparr>al_key = ''recorder-repaired'', al_kind = Event, al_severity = Info,
      al_title = ''Briard: Home Assistant's history was repaired''\<rparr>"

text \<open>\<open>recorderAlert\<close>: with no time of a copy the damage, with one the repair; the time zero is no time.\<close>

definition recorder_alert :: "time \<Rightarrow> alert" where
  "recorder_alert at = (if at = 0 then recorder_damaged else recorder_repaired)"

definition candidate_path :: "db_report \<Rightarrow> string" where
  "candidate_path rep = (case rp_candidate rep of None \<Rightarrow> [] | Some m \<Rightarrow> dm_path m)"

definition candidate_at :: "db_report \<Rightarrow> time" where
  "candidate_at rep = (case rp_candidate rep of None \<Rightarrow> 0 | Some m \<Rightarrow> dm_at m)"

definition collect_recorder :: "check_guest \<Rightarrow> db_checker \<Rightarrow> db_checker \<times> check_act list" where
  "collect_recorder g d =
     (case cg_result g of
        None \<Rightarrow> (d, [AskResult])
      | Some (running, None) \<Rightarrow> (if running then (d, [AskResult]) else (d\<lparr>dc_waiting := 0\<rparr>, [AskResult]))
      | Some (_, Some rep) \<Rightarrow>
          (d\<lparr>dc_waiting := 0\<rparr>,
           AskResult #
             (if rp_verdict rep \<noteq> Some VerdictCorrupt then [Tell recorder_intact]
              else if candidate_path rep = [] then [Tell (recorder_alert 0)]
              else AskRestore (candidate_path rep) #
                (if \<not> cg_restore g (candidate_path rep) then [Tell (recorder_alert 0)]
                 else [Tell (recorder_alert (candidate_at rep)), Tell recorder_intact]))))"

definition check_recorder :: "zone \<Rightarrow> check_guest \<Rightarrow> db_checker \<Rightarrow> string list \<Rightarrow> bool \<Rightarrow> time \<Rightarrow> db_checker \<times> check_act list" where
  "check_recorder loc g d apps serves now =
     (if \<not> serves \<or> ''home-assistant'' \<notin> set apps then (d, [])
      else if dc_waiting d \<noteq> 0 then collect_recorder g d
      else if dc_done d = Some (local_day loc now) \<or> local_minutes loc now < db_check_at
              \<or> db_check_at + db_check_window \<le> local_minutes loc now then (d, [])
      else
        (let d1 = d\<lparr>dc_done := Some (local_day loc now)\<rparr>
         in case cg_start g of
              None \<Rightarrow> (d1, [AskStart])
            | Some _ \<Rightarrow> (d1\<lparr>dc_waiting := now\<rparr>, [AskStart])))"

text \<open>
  A run of cycles; the acts with the time of their cycle. The checker is a local of the observe loop, so a
  dropped channel forgets it like a restart of the agent does: \<open>host_checks\<close> are the sessions of the loop one
  after the other, each with a new checker.
\<close>

record check_cycle =
  cc_guest :: check_guest
  cc_apps :: "string list"
  cc_serving :: bool
  cc_now :: time

definition check_cycle_step :: "zone \<Rightarrow> db_checker \<Rightarrow> check_cycle \<Rightarrow> db_checker \<times> check_act list" where
  "check_cycle_step loc d cy = check_recorder loc (cc_guest cy) d (cc_apps cy) (cc_serving cy) (cc_now cy)"

definition stamped :: "zone \<Rightarrow> db_checker \<Rightarrow> check_cycle \<Rightarrow> db_checker \<times> (time \<times> check_act) list" where
  "stamped loc d cy = (let (d', acts) = check_cycle_step loc d cy in (d', map (Pair (cc_now cy)) acts))"

definition session_checks :: "zone \<Rightarrow> check_cycle list \<Rightarrow> db_checker \<times> (time \<times> check_act) list" where
  "session_checks loc cys = series (stamped loc) new_db_checker cys"

definition host_checks :: "zone \<Rightarrow> check_cycle list list \<Rightarrow> (time \<times> check_act) list" where
  "host_checks loc sessions = concat (map (\<lambda>cys. snd (session_checks loc cys)) sessions)"


section \<open>The files tier's tick\<close>

definition files_tick_every :: duration where "files_tick_every = 5 * minute"

record files_report =
  fr_volume :: int
  fr_short :: bool

record files_guest =
  fg_supports :: bool
  fg_start :: "bool option"
  fg_result :: "(bool \<times> files_report option) option"

record files_ticker =
  ft_last :: time
  ft_waiting :: bool

definition new_files_ticker :: files_ticker where "new_files_ticker = \<lparr>ft_last = 0, ft_waiting = False\<rparr>"

datatype files_act = AskTick | AskTickResult | TellFiles alert

definition files_storage_alert :: "files_report \<Rightarrow> alert" where
  "files_storage_alert rep =
     (if \<not> fr_short rep
      then \<lparr>al_key = ''files-storage-short'', al_kind = Resolved, al_severity = NoSeverity,
            al_title = ''Briard: there is room for your files again''\<rparr>
      else \<lparr>al_key = ''files-storage-short'', al_kind = Open, al_severity = Warning,
            al_title = ''Briard: storage for your files is running out''\<rparr>)"

definition collect_files_tick :: "files_guest \<Rightarrow> files_ticker \<Rightarrow> files_ticker \<times> files_act list" where
  "collect_files_tick g u =
     (case fg_result g of
        None \<Rightarrow> (u, [AskTickResult])
      | Some (running, None) \<Rightarrow> (if running then (u, [AskTickResult]) else (u\<lparr>ft_waiting := False\<rparr>, [AskTickResult]))
      | Some (_, Some rep) \<Rightarrow>
          (u\<lparr>ft_waiting := False\<rparr>,
           if fr_volume rep = 0 then [AskTickResult] else [AskTickResult, TellFiles (files_storage_alert rep)]))"

definition tick_files :: "files_guest \<Rightarrow> files_ticker \<Rightarrow> bool \<Rightarrow> time \<Rightarrow> files_ticker \<times> files_act list" where
  "tick_files g u serves now =
     (if \<not> serves \<or> \<not> fg_supports g then (u, [])
      else if ft_waiting u then collect_files_tick g u
      else if time_sub now (ft_last u) < files_tick_every then (u, [])
      else
        (case fg_start g of
           None \<Rightarrow> (u\<lparr>ft_last := now\<rparr>, [AskTick])
         | Some _ \<Rightarrow> (u\<lparr>ft_last := now, ft_waiting := True\<rparr>, [AskTick])))"

record files_cycle =
  fc_guest :: files_guest
  fc_serving :: bool
  fc_now :: time

definition files_step :: "files_ticker \<Rightarrow> files_cycle \<Rightarrow> files_ticker \<times> time list" where
  "files_step u cy =
     (let (u', acts) = tick_files (fc_guest cy) u (fc_serving cy) (fc_now cy)
      in (u', if AskTick \<in> set acts then [fc_now cy] else []))"


section \<open>Samples of one app are an hour apart\<close>

lemma hour_simps:
  "time_sub t u < clock_interval \<longleftrightarrow> t - u < clock_interval" "time_sub t u < files_tick_every \<longleftrightarrow> t - u < files_tick_every"
  by (simp_all add: time_sub_less_iff clock_interval_def files_tick_every_def duration_defs)

lemma take_running_acts:
  "a \<in> set (fst (take_running g app member tr at)) \<Longrightarrow>
   a \<in> {PlainTake member (act_meta a), HeldTake member (act_meta a)} \<and>
   (\<exists>raw. sg_manifest g app = Some raw \<and> act_meta a = member_meta app tr Crash None raw at)"
  by (auto simp: take_running_def take_member_def split: if_splits option.splits)

lemma take_running_one: "length (fst (take_running g app member tr at)) \<le> 1"
  by (auto simp: take_running_def take_member_def split: option.splits)

lemma consider_app_cases:
  obtains (quiet) "consider_app g now c app at = (c, [])" "now - c app < clock_interval"
  | (seen) t where "consider_app g now c app at = (c(app := t), [])" "clock_interval \<le> now - c app" "now - t < clock_interval"
      "newest_member g app = Some t"
  | (took) "consider_app g now c app at =
        (c(app := at), fst (take_running g app (snapshot_member app TriggerClock at) TriggerClock at))" "clock_interval \<le> now - c app"
      "\<And>t. newest_member g app = Some t \<Longrightarrow> clock_interval \<le> now - t"
proof (cases "now - c app < clock_interval")
  case True
  then show ?thesis by (intro quiet) (simp_all add: consider_app_def hour_simps)
next
  case False
  show ?thesis
  proof (cases "\<exists>t. newest_member g app = Some t \<and> now - t < clock_interval")
    case True
    then obtain t where "newest_member g app = Some t" "now - t < clock_interval" by blast
    then show ?thesis using False by (intro seen [of t]) (simp_all add: consider_app_def hour_simps)
  next
    case old: False
    then show ?thesis using False
      by (intro took) (auto simp: consider_app_def hour_simps not_less split: option.split)
  qed
qed

definition act_app :: "clock_act \<Rightarrow> string" where "act_app a = sm_app (act_meta a)"
definition act_at :: "clock_act \<Rightarrow> time" where "act_at a = sm_taken_at (act_meta a)"

lemma acts_simps: "a \<in> set (fst (take_running g app member tr at)) \<Longrightarrow> act_app a = app \<and> act_at a = at"
  using take_running_acts [of a g app member tr at] by (auto simp: act_app_def act_at_def member_meta_def)

lemma hour_pos: "0 < clock_interval"
  by (simp add: clock_interval_def duration_defs)

interpretation one_app: paced "\<lambda>c (app, at). consider_app g now c app at" act_app act_at "\<lambda>c. c" clock_interval "\<lambda>(app, at). now \<le> at"
  for g now
proof
  fix i :: "string \<times> time" and c :: clock_sampler and k a
  obtain app at where i: "i = (app, at)" by (metis prod.exhaust)
  assume "case i of (app, at) \<Rightarrow> now \<le> at"
  then have now: "now \<le> at" using i by simp
  note cases = consider_app_cases [of g now c app at]
  show "c k \<le> fst (case i of (app, at) \<Rightarrow> consider_app g now c app at) k"
    by (rule cases) (use i now hour_pos in auto)
  show "sorted_wrt (apart act_app act_at clock_interval) (snd (case i of (app, at) \<Rightarrow> consider_app g now c app at))"
  proof -
    have "length (snd (consider_app g now c app at)) \<le> 1" by (rule cases) (use take_running_one in auto)
    then show ?thesis using i by (cases "snd (consider_app g now c app at)") auto
  qed
  assume "a \<in> set (snd (case i of (app, at) \<Rightarrow> consider_app g now c app at))"
  then have a: "a \<in> set (snd (consider_app g now c app at))" using i by simp
  show "c (act_app a) + clock_interval \<le> act_at a"
    by (rule cases) (use a now acts_simps in auto)
  show "act_at a \<le> fst (case i of (app, at) \<Rightarrow> consider_app g now c app at) (act_app a)"
    by (rule cases) (use i a acts_simps in auto)
qed

interpretation samples: paced consider_samples act_app act_at "\<lambda>c. c" clock_interval "\<lambda>cy. \<forall>(app, at)\<in>set (sc_apps cy). sc_now cy \<le> at"
proof
  fix cy :: sample_cycle and c k a
  assume fit: "\<forall>(app, at)\<in>set (sc_apps cy). sc_now cy \<le> at"
  have all: "\<forall>i\<in>set (sc_apps cy). case i of (app, at) \<Rightarrow> sc_now cy \<le> at" using fit by auto
  note run = one_app.series_paced [OF all, of c "sc_guest cy"]
  show "c k \<le> fst (consider_samples c cy) k" using run by (simp add: consider_samples_def consider_apps_def)
  show "sorted_wrt (apart act_app act_at clock_interval) (snd (consider_samples c cy))"
    using run by (simp add: consider_samples_def consider_apps_def)
  assume "a \<in> set (snd (consider_samples c cy))"
  then show "c (act_app a) + clock_interval \<le> act_at a" "act_at a \<le> fst (consider_samples c cy) (act_app a)"
    using run by (auto simp: consider_samples_def consider_apps_def split: if_splits)
qed

text \<open>Every app a cycle considers has a record less than an hour old after it.\<close>

lemma considered_recent:
  assumes "\<forall>(app, at)\<in>set apps. now \<le> at" and "(app, at) \<in> set apps"
  shows "now - fst (consider_apps g now c apps) app < clock_interval"
  using assms
proof (induction apps arbitrary: c)
  case (Cons x apps)
  obtain app' at' where x: "x = (app', at')" by (metis prod.exhaust)
  obtain c1 acts where one: "consider_app g now c app' at' = (c1, acts)" by (metis prod.exhaust)
  have split: "fst (consider_apps g now c (x # apps)) = fst (consider_apps g now c1 apps)"
    using one by (simp add: consider_apps_def x case_prod_beta)
  have fit: "\<forall>i\<in>set apps. case i of (app, at) \<Rightarrow> now \<le> at" using Cons.prems(1) by auto
  show ?case
  proof (cases "(app, at) \<in> set apps")
    case True
    then show ?thesis using Cons.IH [of c1] Cons.prems(1) split by simp
  next
    case False
    then have "app' = app" "now \<le> at'" using Cons.prems x by auto
    then have "now - c1 app < clock_interval"
      using consider_app_cases [of g now c app' at'] one hour_pos by (cases rule: consider_app_cases [of g now c app' at']) auto
    moreover have "c1 app \<le> fst (consider_apps g now c1 apps) app"
      using one_app.series_paced [OF fit, of c1 g] by (simp add: consider_apps_def)
    ultimately show ?thesis using split by simp
  qed
qed simp

lemma series_acts: "a \<in> set (snd (series step s is)) \<Longrightarrow> \<exists>s' i. i \<in> set is \<and> a \<in> set (snd (step s' i))"
proof (induction "is" arbitrary: s)
  case (Cons i "is")
  then show ?case by (cases "a \<in> set (snd (step s i))") (fastforce simp: case_prod_beta)+
qed simp

definition clock_sample :: "clock_act \<Rightarrow> bool" where
  "clock_sample a \<longleftrightarrow> (\<exists>app raw at. act_meta a = member_meta app TriggerClock Crash None raw at \<and>
     (a = PlainTake (snapshot_member app TriggerClock at) (act_meta a) \<or> a = HeldTake (snapshot_member app TriggerClock at) (act_meta a)))"

lemma consider_app_acts: "a \<in> set (snd (consider_app g now c app at)) \<Longrightarrow> clock_sample a"
  using consider_app_cases [of g now c app at] take_running_acts [of a g app "snapshot_member app TriggerClock at" TriggerClock at]
  by (auto simp: clock_sample_def consider_app_def split: if_splits option.splits)

lemma consider_apps_acts: "a \<in> set (snd (consider_apps g now c apps)) \<Longrightarrow> clock_sample a"
  unfolding consider_apps_def by (drule series_acts) (auto dest: consider_app_acts)

lemma consider_samples_acts: "a \<in> set (snd (series consider_samples c cys)) \<Longrightarrow> clock_sample a"
  by (drule series_acts) (auto simp: consider_samples_def dest: consider_apps_acts split: if_splits)

text \<open>
  however long the agent runs and whatever the guest answers, the samples it asks for of one app are named
  for times an hour apart or more, in every interleaving of apps; each says crash-consistent, which only the
  guest may upgrade, and names the app and the second it was asked at. After a cycle on a node that serves, every
  app of the node has a sample, asked for or seen in its ring, less than an hour old.
\<close>

lemma clock_samples_an_hour_apart:
  assumes "\<forall>cy\<in>set cys. \<forall>(app, at)\<in>set (sc_apps cy). sc_now cy \<le> at"
  shows "sorted_wrt (\<lambda>a b. act_app a = act_app b \<longrightarrow> act_at a + hour \<le> act_at b) (snd (series consider_samples c cys)) \<and>
     (\<forall>a\<in>set (snd (series consider_samples c cys)). sm_consistency (act_meta a) = Crash \<and>
        (\<exists>raw. a \<in> {PlainTake (snapshot_member (act_app a) TriggerClock (act_at a)) raw,
                     HeldTake (snapshot_member (act_app a) TriggerClock (act_at a)) raw})) \<and>
     (\<forall>cy\<in>set cys. \<forall>(app, at)\<in>set (sc_apps cy). \<forall>c'. sc_serving cy \<and> sg_takes (sc_guest cy) \<longrightarrow>
        sc_now cy - fst (consider_samples c' cy) app < hour)"
proof (intro conjI)
  show "sorted_wrt (\<lambda>a b. act_app a = act_app b \<longrightarrow> act_at a + hour \<le> act_at b) (snd (series consider_samples c cys))"
    using samples.series_paced [OF assms, of c] by (simp add: clock_interval_def)
  show "\<forall>a\<in>set (snd (series consider_samples c cys)). sm_consistency (act_meta a) = Crash \<and>
        (\<exists>raw. a \<in> {PlainTake (snapshot_member (act_app a) TriggerClock (act_at a)) raw,
                     HeldTake (snapshot_member (act_app a) TriggerClock (act_at a)) raw})"
    by (auto dest!: consider_samples_acts simp: clock_sample_def act_app_def act_at_def member_meta_def)
  show "\<forall>cy\<in>set cys. \<forall>(app, at)\<in>set (sc_apps cy). \<forall>c'. sc_serving cy \<and> sg_takes (sc_guest cy) \<longrightarrow>
        sc_now cy - fst (consider_samples c' cy) app < hour"
    using assms considered_recent by (fastforce simp: consider_samples_def clock_interval_def)
qed


section \<open>One start a night\<close>

definition starts_of :: "(time \<times> check_act) list \<Rightarrow> time list" where
  "starts_of acts = map fst (filter (\<lambda>(t, a). a = AskStart) acts)"

lemma collect_never_starts: "AskStart \<notin> set (snd (collect_recorder g d))" "dc_done (fst (collect_recorder g d)) = dc_done d"
  by (auto simp: collect_recorder_def split: option.splits)

lemma check_start:
  assumes "check_cycle_step loc d cy = (d', acts)"
  shows "if AskStart \<in> set acts
     then acts = [AskStart] \<and> dc_done d \<noteq> Some (local_day loc (cc_now cy)) \<and> dc_done d' = Some (local_day loc (cc_now cy)) \<and>
       db_check_at \<le> local_minutes loc (cc_now cy) \<and> local_minutes loc (cc_now cy) < db_check_at + db_check_window
     else dc_done d' = dc_done d"
proof (cases "dc_waiting d \<noteq> 0 \<and> cc_serving cy \<and> ''home-assistant'' \<in> set (cc_apps cy)")
  case True
  then have "check_cycle_step loc d cy = collect_recorder (cc_guest cy) d" by (simp add: check_cycle_step_def check_recorder_def)
  then have "collect_recorder (cc_guest cy) d = (d', acts)" using assms by simp
  then show ?thesis using collect_never_starts [where g = "cc_guest cy" and d = d] by simp
next
  case False
  then show ?thesis using assms
    by (auto simp: check_cycle_step_def check_recorder_def Let_def split: if_splits option.splits)
qed

lemma starts_simps: "starts_of [] = []" "starts_of (xs @ ys) = starts_of xs @ starts_of ys"
  "starts_of (map (Pair t) acts) = replicate (count_list acts AskStart) t"
proof -
  show "starts_of (map (Pair t) acts) = replicate (count_list acts AskStart) t"
    by (induction acts) (auto simp: starts_of_def)
qed (simp_all add: starts_of_def)

lemma check_series:
  assumes "sorted (map (\<lambda>cy. local_day loc (cc_now cy)) cys)"
    and "\<forall>k. dc_done d = Some k \<longrightarrow> (\<forall>cy\<in>set cys. k \<le> local_day loc (cc_now cy))"
  shows "sorted_wrt (<) (map (local_day loc) (starts_of (snd (series (stamped loc) d cys)))) \<and>
     (\<forall>t\<in>set (starts_of (snd (series (stamped loc) d cys))).
        db_check_at \<le> local_minutes loc t \<and> local_minutes loc t < db_check_at + db_check_window \<and>
        t \<in> cc_now ` set cys \<and> (\<forall>k. dc_done d = Some k \<longrightarrow> k < local_day loc t))"
  using assms
proof (induction cys arbitrary: d)
  case (Cons cy cys)
  obtain d1 acts where step: "check_cycle_step loc d cy = (d1, acts)" by (metis prod.exhaust)
  let ?day = "local_day loc (cc_now cy)"
  have series: "starts_of (snd (series (stamped loc) d (cy # cys))) =
      replicate (count_list acts AskStart) (cc_now cy) @ starts_of (snd (series (stamped loc) d1 cys))"
    by (simp add: stamped_def step case_prod_beta starts_simps)
  have later: "\<forall>cy'\<in>set cys. ?day \<le> local_day loc (cc_now cy')" and sorted: "sorted (map (\<lambda>cy. local_day loc (cc_now cy)) cys)"
    using Cons.prems(1) by auto
  note one = check_start [OF step]
  show ?case
  proof (cases "AskStart \<in> set acts")
    case True
    then have now: "acts = [AskStart]" "dc_done d \<noteq> Some ?day" "dc_done d1 = Some ?day"
      "db_check_at \<le> local_minutes loc (cc_now cy)" "local_minutes loc (cc_now cy) < db_check_at + db_check_window"
      using one by auto
    have "\<forall>k. dc_done d1 = Some k \<longrightarrow> (\<forall>cy\<in>set cys. k \<le> local_day loc (cc_now cy))" using now(3) later by simp
    note IH = Cons.IH [OF sorted this]
    have before: "k < ?day" if "dc_done d = Some k" for k
      using that now(2) Cons.prems(2) by (metis le_less list.set_intros(1))
    let ?more = "starts_of (snd (series (stamped loc) d1 cys))"
    have rest: "sorted_wrt (<) (map (local_day loc) ?more)"
      and each: "\<And>t. t \<in> set ?more \<Longrightarrow> db_check_at \<le> local_minutes loc t \<and> local_minutes loc t < db_check_at + db_check_window \<and>
        t \<in> cc_now ` set cys \<and> ?day < local_day loc t"
      using IH now(3) by auto
    have series1: "starts_of (snd (series (stamped loc) d (cy # cys))) = cc_now cy # ?more" using series now(1) by simp
    have "db_check_at \<le> local_minutes loc t \<and> local_minutes loc t < db_check_at + db_check_window \<and>
        t \<in> cc_now ` set (cy # cys) \<and> (\<forall>k. dc_done d = Some k \<longrightarrow> k < local_day loc t)" if "t \<in> set (cc_now cy # ?more)" for t
    proof (cases "t \<in> set ?more")
      case True
      then have "?day < local_day loc t" using each by blast
      then have "\<forall>k. dc_done d = Some k \<longrightarrow> k < local_day loc t" using before by fastforce
      then show ?thesis using each [OF True] by simp
    next
      case False
      then have "t = cc_now cy" using that by simp
      then show ?thesis using now(4,5) before by simp
    qed
    then show ?thesis unfolding series1 using rest each by simp
  next
    case False
    then have "dc_done d1 = dc_done d" "count_list acts AskStart = 0" using one by (simp_all add: count_list_0_iff)
    then show ?thesis unfolding series using Cons.IH [OF sorted, of d1] Cons.prems(2) by auto
  qed
qed (simp add: starts_simps)

lemma session_starts:
  assumes "sorted (map (\<lambda>cy. local_day loc (cc_now cy)) cys)"
  shows "sorted_wrt (<) (map (local_day loc) (starts_of (snd (session_checks loc cys))))"
    and "\<forall>t\<in>set (starts_of (snd (session_checks loc cys))).
      db_check_at \<le> local_minutes loc t \<and> local_minutes loc t < db_check_at + db_check_window \<and> t \<in> cc_now ` set cys"
  using check_series [OF assms, of new_db_checker] by (auto simp: new_db_checker_def session_checks_def)

text \<open>The night a checker holds as done is one it started a check in.\<close>

lemma series_snoc: "series step s (is @ [i]) =
   (fst (step (fst (series step s is)) i), snd (series step s is) @ snd (step (fst (series step s is)) i))"
  by (induction "is" arbitrary: s) (simp_all add: case_prod_beta)

lemma done_was_started:
  "dc_done (fst (session_checks loc cys)) = Some k \<Longrightarrow> k \<in> local_day loc ` set (starts_of (snd (session_checks loc cys)))"
proof (induction cys rule: rev_induct)
  case Nil then show ?case by (simp add: session_checks_def new_db_checker_def)
next
  case (snoc cy cys)
  let ?d = "fst (session_checks loc cys)"
  obtain d' acts where step: "check_cycle_step loc ?d cy = (d', acts)" by (metis prod.exhaust)
  have both: "session_checks loc (cys @ [cy]) = (d', snd (session_checks loc cys) @ map (Pair (cc_now cy)) acts)"
    using step by (simp add: session_checks_def series_snoc stamped_def)
  show ?case
  proof (cases "AskStart \<in> set acts")
    case True
    then have "acts = [AskStart]" "dc_done d' = Some (local_day loc (cc_now cy))" using check_start [OF step] by auto
    then show ?thesis using snoc.prems both by (simp add: starts_simps starts_of_def [of "[_]"])
  next
    case False
    then have "dc_done ?d = Some k" using check_start [OF step] snoc.prems both by simp
    then show ?thesis using snoc.IH both by (auto simp: starts_simps)
  qed
qed

lemma due_cycle_starts:
  assumes "cc_serving cy" "''home-assistant'' \<in> set (cc_apps cy)" "dc_waiting (fst (session_checks loc cys)) = 0"
    and "db_check_at \<le> local_minutes loc (cc_now cy)" "local_minutes loc (cc_now cy) < db_check_at + db_check_window"
  shows "local_day loc (cc_now cy) \<in> local_day loc ` set (starts_of (snd (session_checks loc (cys @ [cy]))))"
proof -
  let ?d = "fst (session_checks loc cys)"
  obtain d' acts where step: "check_cycle_step loc ?d cy = (d', acts)" by (metis prod.exhaust)
  have both: "session_checks loc (cys @ [cy]) = (d', snd (session_checks loc cys) @ map (Pair (cc_now cy)) acts)"
    using step by (simp add: session_checks_def series_snoc stamped_def)
  have "dc_done d' = Some (local_day loc (cc_now cy))"
    using step assms by (auto simp: check_cycle_step_def check_recorder_def Let_def split: if_splits option.splits)
  then show ?thesis using done_was_started [of loc "cys @ [cy]"] both by simp
qed

lemma one_of_a_day:
  assumes "sorted_wrt (<) (map f ts)"
  shows "length (filter (\<lambda>t. f t = (k :: int)) ts) \<le> (if \<exists>t\<in>set ts. f t = k then 1 else 0)"
proof -
  have "distinct (map f ts)" using assms by (simp add: strict_sorted_iff)
  then have "length (filter (\<lambda>t. f t = k) ts) \<le> 1" by (induction ts) (auto simp: filter_empty_conv image_iff)
  then show ?thesis by (auto simp: filter_empty_conv)
qed

lemma starts_per_day:
  assumes "\<forall>cys\<in>set sessions. sorted (map (\<lambda>cy. local_day loc (cc_now cy)) cys)"
  shows "length (filter (\<lambda>t. local_day loc t = k) (starts_of (host_checks loc sessions)))
    \<le> length (filter (\<lambda>cys. \<exists>cy\<in>set cys. local_day loc (cc_now cy) = k) sessions)"
  using assms
proof (induction sessions)
  case Nil then show ?case by (simp add: host_checks_def starts_simps)
next
  case (Cons cys sessions)
  let ?ts = "starts_of (snd (session_checks loc cys))"
  have s: "sorted (map (\<lambda>cy. local_day loc (cc_now cy)) cys)" using Cons.prems by simp
  have "length (filter (\<lambda>t. local_day loc t = k) ?ts) \<le> (if \<exists>t\<in>set ?ts. local_day loc t = k then 1 else 0)"
    by (rule one_of_a_day [OF session_starts(1) [OF s]])
  moreover have "(\<exists>t\<in>set ?ts. local_day loc t = k) \<longrightarrow> (\<exists>cy\<in>set cys. local_day loc (cc_now cy) = k)"
    using session_starts(2) [OF s] by auto
  ultimately show ?case using Cons by (auto simp: host_checks_def starts_simps split: if_splits)
qed

text \<open>
  C33: one check a night for as long as the channel to the guest lasts. The host's observe loop runs in sessions, a
  new one, with a new checker, for every dial of the guest. While the household's calendar does not run
  backwards, a session starts at most one check on each local day, and it does start that day's in the first cycle
  of the hour after 05:30 local time in which the node serves, runs Home Assistant and waits for no report,
  if it had not before. No check is started at another time, and there are at most as many
  starts on one day as sessions that saw it, whatever the guest answers and however often the node stops serving.
\<close>

theorem one_check_a_night:
  assumes "\<forall>cys\<in>set sessions. sorted (map (\<lambda>cy. local_day loc (cc_now cy)) cys)"
  shows "(\<forall>cys\<in>set sessions. sorted_wrt (<) (map (local_day loc) (starts_of (snd (session_checks loc cys)))) \<and>
        (\<forall>before cy after. cys = before @ cy # after \<and> cc_serving cy \<and> ''home-assistant'' \<in> set (cc_apps cy) \<and>
            dc_waiting (fst (session_checks loc before)) = 0 \<and> 330 \<le> local_minutes loc (cc_now cy) \<and> local_minutes loc (cc_now cy) < 390 \<longrightarrow>
          local_day loc (cc_now cy) \<in> local_day loc ` set (starts_of (snd (session_checks loc (before @ [cy])))))) \<and>
     (\<forall>t\<in>set (starts_of (host_checks loc sessions)). 330 \<le> local_minutes loc t \<and> local_minutes loc t < 390) \<and>
     (\<forall>day. length (filter (\<lambda>t. local_day loc t = day) (starts_of (host_checks loc sessions)))
        \<le> length (filter (\<lambda>cys. \<exists>cy\<in>set cys. local_day loc (cc_now cy) = day) sessions))"
proof (intro conjI ballI allI impI)
  note w = db_check_at_def db_check_window_def
  fix cys assume cys: "cys \<in> set sessions"
  show "sorted_wrt (<) (map (local_day loc) (starts_of (snd (session_checks loc cys))))"
    using assms cys by (intro session_starts) blast
  fix before cy after
  assume c: "cys = before @ cy # after \<and> cc_serving cy \<and> ''home-assistant'' \<in> set (cc_apps cy) \<and>
      dc_waiting (fst (session_checks loc before)) = 0 \<and> 330 \<le> local_minutes loc (cc_now cy) \<and> local_minutes loc (cc_now cy) < 390"
  show "local_day loc (cc_now cy) \<in> local_day loc ` set (starts_of (snd (session_checks loc (before @ [cy]))))"
    by (rule due_cycle_starts) (use c in \<open>simp_all add: w\<close>)
next
  fix t assume "t \<in> set (starts_of (host_checks loc sessions))"
  then obtain cys where "cys \<in> set sessions" "t \<in> set (starts_of (snd (session_checks loc cys)))"
    by (auto simp: host_checks_def starts_of_def)
  then show "330 \<le> local_minutes loc t" "local_minutes loc t < 390"
    using assms session_starts(2) [of loc cys] by (auto simp: db_check_at_def db_check_window_def)
next
  fix day show "length (filter (\<lambda>t. local_day loc t = day) (starts_of (host_checks loc sessions)))
      \<le> length (filter (\<lambda>cys. \<exists>cy\<in>set cys. local_day loc (cc_now cy) = day) sessions)"
    by (rule starts_per_day [OF assms])
qed


section \<open>What the household is told\<close>

definition told :: "time \<Rightarrow> check_act list \<Rightarrow> (alert \<times> time) list" where
  "told now acts = List.map_filter (\<lambda>a. case a of Tell al \<Rightarrow> Some (al, now) | _ \<Rightarrow> None) acts"

definition titles :: "alert_store \<Rightarrow> open_titles" where "titles s = titles_of (view s)"

fun transitions :: "alert list \<Rightarrow> open_titles \<Rightarrow> open_titles \<times> alert list" where
  "transitions [] \<sigma> = (\<sigma>, [])"
| "transitions (a # as) \<sigma> =
     (let (\<sigma>1, out) = transition a \<sigma>; (\<sigma>2, outs) = transitions as \<sigma>1
      in (\<sigma>2, (case out of None \<Rightarrow> outs | Some x \<Rightarrow> x # outs)))"

lemma notify_all_transitions:
  "notify_all as s = (s', out) \<Longrightarrow> titles s' = fst (transitions (map fst as) (titles s)) \<and> out = snd (transitions (map fst as) (titles s))"
proof (induction as arbitrary: s s' out)
  case (Cons x as)
  obtain a now where x: "x = (a, now)" by (metis prod.exhaust)
  obtain s1 o1 where one: "notify True now a s = (s1, o1)" by (metis prod.exhaust)
  obtain s2 o2 where rest: "notify_all as s1 = (s2, o2)" by (metis prod.exhaust)
  have "titles s1 = fst (transition a (titles s))" "o1 = snd (transition a (titles s))"
    using notify_transition [of True now a s] one by (simp_all add: titles_def)
  then show ?case using Cons.IH [OF rest] Cons.prems x one rest by (simp add: case_prod_beta split: option.splits)
qed simp

lemma recorder_alert_facts:
  "al_key recorder_intact = recorder_key" "al_key recorder_damaged = recorder_key" "al_key recorder_repaired \<noteq> recorder_key"
  "al_key recorder_repaired = ''recorder-repaired''"
  "al_kind recorder_intact = Resolved" "al_kind recorder_damaged = Open" "al_kind recorder_repaired = Event"
  "recorder_repaired \<noteq> recorder_intact" "recorder_repaired \<noteq> recorder_damaged" "''recorder-repaired'' \<noteq> recorder_key"
  "recorder_alert 0 = recorder_damaged" "at \<noteq> 0 \<Longrightarrow> recorder_alert at = recorder_repaired"
  by (simp_all add: recorder_intact_def recorder_damaged_def recorder_repaired_def recorder_alert_def recorder_key_def)

lemma told_simps:
  "told now [] = []" "told now (AskStart # as) = told now as" "told now (AskResult # as) = told now as"
  "told now (AskRestore p # as) = told now as" "told now (Tell a # as) = (a, now) # told now as"
  by (simp_all add: told_def map_filter_simps)

lemma collecting:
  assumes "dc_waiting d \<noteq> 0" and "cc_serving cy" and "''home-assistant'' \<in> set (cc_apps cy)" and "cg_result (cc_guest cy) = Some (running, Some rep)"
  shows "check_cycle_step loc d cy =
     (d\<lparr>dc_waiting := 0\<rparr>,
      AskResult #
        (if rp_verdict rep \<noteq> Some VerdictCorrupt then [Tell recorder_intact]
         else if candidate_path rep = [] then [Tell (recorder_alert 0)]
         else AskRestore (candidate_path rep) #
           (if \<not> cg_restore (cc_guest cy) (candidate_path rep) then [Tell (recorder_alert 0)]
            else [Tell (recorder_alert (candidate_at rep)), Tell recorder_intact])))"
  using assms by (simp add: check_cycle_step_def check_recorder_def collect_recorder_def)

text \<open>
  C34: when the report of a check that reached a verdict comes in, a restore is asked of the guest exactly when the
  database is damaged and the check named a copy (which it names with its time). The store of the node then has
  the damage open exactly when the check found damage and no restore of the named copy worked; no other
  condition of the store changes; and the household is told of a repair exactly when a restore worked. Told
  twice in a row, an unrepaired damage is one message. A report without a verdict is not covered: what it does is a
  finding.
\<close>

theorem damage_is_open_exactly_while_unrepaired:
  assumes "dc_waiting d \<noteq> 0" and "cc_serving cy" and "''home-assistant'' \<in> set (cc_apps cy)"
    and "cg_result (cc_guest cy) = Some (running, Some rep)" and "rp_verdict rep = Some v"
    and "check_cycle_step loc d cy = (d', acts)"
    and "notify_all (told now acts) s = (s', out)" and "candidate_path rep \<noteq> [] \<Longrightarrow> candidate_at rep \<noteq> 0"
  shows "let damaged = (v = VerdictCorrupt);
             asked = damaged \<and> candidate_path rep \<noteq> [];
             repaired = asked \<and> cg_restore (cc_guest cy) (candidate_path rep)
         in (\<forall>p. AskRestore p \<in> set acts \<longleftrightarrow> asked \<and> p = candidate_path rep) \<and>
            (titles s' recorder_key \<noteq> None \<longleftrightarrow> damaged \<and> \<not> repaired) \<and>
            (\<forall>key. key \<noteq> recorder_key \<and> key \<noteq> ''recorder-repaired'' \<longrightarrow> titles s' key = titles s key) \<and>
            (recorder_repaired \<in> set out \<longleftrightarrow> repaired) \<and>
            (titles s recorder_key = Some (al_title recorder_damaged) \<and> damaged \<and> \<not> repaired \<longrightarrow> out = []) \<and>
            dc_waiting d' = 0"
proof -
  have acts: "d' = d\<lparr>dc_waiting := 0\<rparr>" "acts = AskResult #
        (if rp_verdict rep \<noteq> Some VerdictCorrupt then [Tell recorder_intact]
         else if candidate_path rep = [] then [Tell (recorder_alert 0)]
         else AskRestore (candidate_path rep) #
           (if \<not> cg_restore (cc_guest cy) (candidate_path rep) then [Tell (recorder_alert 0)]
            else [Tell (recorder_alert (candidate_at rep)), Tell recorder_intact]))"
    using collecting [OF assms(1-4), of loc] assms(6) by simp_all
  note s' = notify_all_transitions [OF assms(7)]
  note facts = told_simps transition_def recorder_alert_facts recorder_alert_facts(8,9,10) [symmetric]
  show ?thesis
  proof (cases "v = VerdictCorrupt")
    case False
    then show ?thesis using acts s' assms(5) by (simp add: facts)
  next
    case damaged: True
    show ?thesis
    proof (cases "candidate_path rep \<noteq> [] \<and> cg_restore (cc_guest cy) (candidate_path rep)")
      case True
      then show ?thesis using acts damaged assms(5,8) s' by (simp add: facts)
    next
      case False
      then show ?thesis using acts damaged assms(5) s' by (cases "candidate_path rep = []") (simp_all add: facts)
    qed
  qed
qed

text \<open>
  What the rule does not look at: a check that could not run has no verdict, and it ends an open damage all the
  same, with the words of a check that passed.
\<close>

lemma check_without_a_verdict_ends_the_damage:
  assumes "dc_waiting d \<noteq> 0" and "cc_serving cy" and "''home-assistant'' \<in> set (cc_apps cy)"
    and "cg_result (cc_guest cy) = Some (False, Some \<lparr>rp_checked = None, rp_verdict = None, rp_candidate = None, rp_why = Some CheckCouldNotRun\<rparr>)"
    and "titles s recorder_key \<noteq> None"
  shows "snd (notify_all (told now (snd (check_cycle_step loc d cy))) s) = [recorder_intact] \<and>
     titles (fst (notify_all (told now (snd (check_cycle_step loc d cy))) s)) recorder_key = None"
proof -
  have "told now (snd (check_cycle_step loc d cy)) = [(recorder_intact, now)]"
    by (simp add: collecting [OF assms(1-4)] told_simps)
  then show ?thesis
    using notify_all_transitions [OF prod.collapse [symmetric], of "[(recorder_intact, now)]" s] assms(5)
    by (simp add: transition_def recorder_alert_facts)
qed


section \<open>The files tier\<close>

interpretation files: paced files_step "\<lambda>_. ()" "\<lambda>t. t" "\<lambda>u _. ft_last u" files_tick_every "\<lambda>_. True"
proof
  fix u :: files_ticker and cy :: files_cycle and k :: unit and t :: time
  have pos: "0 < files_tick_every" by (simp add: files_tick_every_def duration_defs)
  have collect: "AskTick \<notin> set (snd (collect_files_tick g u))" "ft_last (fst (collect_files_tick g u)) = ft_last u" for g
    by (auto simp: collect_files_tick_def split: option.splits)
  have step: "snd (files_step u cy) = [] \<and> ft_last (fst (files_step u cy)) = ft_last u \<or>
      snd (files_step u cy) = [fc_now cy] \<and> ft_last (fst (files_step u cy)) = fc_now cy \<and> files_tick_every \<le> fc_now cy - ft_last u"
    using collect [of "fc_guest cy"]
    by (auto simp: files_step_def tick_files_def case_prod_beta Let_def hour_simps split: option.splits)
  show "ft_last u \<le> ft_last (fst (files_step u cy))" using step pos by auto
  show "sorted_wrt (apart (\<lambda>_. ()) (\<lambda>t. t) files_tick_every) (snd (files_step u cy))" using step by auto
  assume "t \<in> set (snd (files_step u cy))"
  then show "ft_last u + files_tick_every \<le> t" "t \<le> ft_last (fst (files_step u cy))" using step by auto
qed

lemma files_ticks_are_spaced:
  "sorted_wrt (\<lambda>t t'. t + 5 * minute \<le> t') (snd (series files_step u cys))"
  using files.series_paced [of cys u] by (simp add: files_tick_every_def)


section \<open>Examples\<close>

definition ex_sample_guest :: sample_guest where
  "ex_sample_guest = \<lparr>sg_takes = True, sg_holds = True, sg_lists = True, sg_members = (\<lambda>_. Some []),
     sg_manifest = (\<lambda>_. Some ''m''), sg_take_ok = (\<lambda>_. True)\<rparr>"

definition ex_sample_cycles :: "sample_cycle list" where
  "ex_sample_cycles = map (\<lambda>n. \<lparr>sc_guest = ex_sample_guest, sc_serving = True, sc_now = 1000 * hour + n * 30 * minute,
     sc_apps = [(''a'', 1000 * hour + n * 30 * minute), (''b'', 1000 * hour + n * 30 * minute)]\<rparr>) [0, 1, 2]"

definition ex_check_guest :: check_guest where
  "ex_check_guest = \<lparr>cg_start = Some True,
     cg_result = Some (False, Some \<lparr>rp_checked = None, rp_verdict = Some VerdictCorrupt, rp_candidate = Some (example_copy 7), rp_why = None\<rparr>),
     cg_restore = (\<lambda>_. True)\<rparr>"

definition ex_check_cycle :: "int \<Rightarrow> check_cycle" where
  "ex_check_cycle m = \<lparr>cc_guest = ex_check_guest, cc_apps = [''home-assistant''], cc_serving = True, cc_now = 240 * hour + m * minute\<rparr>"

theorem one_check_a_night_witness:
  "starts_of (host_checks (\<lambda>_. hour) [map ex_check_cycle [100, 270, 271, 272], map ex_check_cycle [280, 281, 1711]]) =
     [240 * hour + 270 * minute, 240 * hour + 280 * minute, 240 * hour + 1711 * minute] \<and>
   length (filter (\<lambda>t. local_day (\<lambda>_. hour) t = 10)
     (starts_of (host_checks (\<lambda>_. hour) [map ex_check_cycle [100, 270, 271, 272], map ex_check_cycle [280, 281, 1711]]))) \<le> 2"
proof -
  let ?ss = "[map ex_check_cycle [100, 270, 271, 272], map ex_check_cycle [280, 281, 1711]]"
  have "\<forall>cys\<in>set ?ss. sorted (map (\<lambda>cy. local_day (\<lambda>_. hour) (cc_now cy)) cys)" by code_simp
  note ok = one_check_a_night [OF this, THEN conjunct2, THEN conjunct2, rule_format, of 10]
  have "length (filter (\<lambda>cys. \<exists>cy\<in>set cys. local_day (\<lambda>_. hour) (cc_now cy) = 10) ?ss) = 2" by code_simp
  moreover have "starts_of (host_checks (\<lambda>_. hour) ?ss) = [240 * hour + 270 * minute, 240 * hour + 280 * minute, 240 * hour + 1711 * minute]"
    by code_simp
  ultimately show ?thesis using ok by simp
qed

theorem damage_is_open_exactly_while_unrepaired_witness:
  "recorder_repaired \<in> set (snd (notify_all (told 7 (snd (check_cycle_step (\<lambda>_. 0) \<lparr>dc_done = Some 0, dc_waiting = 5\<rparr> (ex_check_cycle 0))))
     (new_alert_store None)))"
proof -
  let ?d = "\<lparr>dc_done = Some 0, dc_waiting = 5\<rparr> :: db_checker"
  have run: "check_cycle_step (\<lambda>_. 0) ?d (ex_check_cycle 0) = (fst (check_cycle_step (\<lambda>_. 0) ?d (ex_check_cycle 0)), snd (check_cycle_step (\<lambda>_. 0) ?d (ex_check_cycle 0)))"
    by simp
  show ?thesis
    using damage_is_open_exactly_while_unrepaired [OF _ _ _ _ _ run prod.collapse [symmetric], of False
        "\<lparr>rp_checked = None, rp_verdict = Some VerdictCorrupt, rp_candidate = Some (example_copy 7), rp_why = None\<rparr>" VerdictCorrupt 7 "new_alert_store None"]
    by (simp add: ex_check_cycle_def ex_check_guest_def candidate_path_def candidate_at_def example_copy_def Let_def duration_defs)
qed

end
