(* ===== verification/AppManifest.thy ===== *)
theory AppManifest
  imports Prelude
begin

text \<open>
  The manifest of an app (\<open>shared/manifest/manifest.go\<close>): the document a catalog publishes and a node renders
  units from, with the validation that is the security boundary between the two.

  A manifest is what \<open>encoding/json\<close> leaves in the fields the code declares; the decoder, which refuses
  unknown fields, and SHA-256 are parameters of \<open>parse_manifest\<close>. The environment of a container is a Go
  map: an association list with its keys once each, in the order of one iteration, which Go does not fix.
  The regular expressions are recognisers of the same languages.
\<close>


section \<open>The document\<close>

record mount =
  mt_tier :: string
  mt_dir :: string
  mt_path :: string

record container =
  co_name :: string
  co_image :: string
  co_mounts :: "mount list"
  co_env :: "(string \<times> string) list"
  co_primary :: bool
  co_port :: int
  co_health :: string

record app_manifest =
  mf_name :: string
  mf_version :: string
  mf_containers :: "container list"
  mf_size :: int
  mf_installed :: int
  mf_memory :: int
  mf_network :: string
  mf_ports :: "int list"

definition tier_data :: string where "tier_data = ''data''"
definition tier_files :: string where "tier_files = ''files''"
definition tier_cache :: string where "tier_cache = ''cache''"
definition tier_unversioned :: string where "tier_unversioned = ''unversioned''"
definition tiers :: "string list" where "tiers = [tier_data, tier_files, tier_cache, tier_unversioned]"
definition network_host :: string where "network_host = ''host''"
definition network_private :: string where "network_private = ''private''"

definition host_network :: "app_manifest \<Rightarrow> bool" where "host_network m \<longleftrightarrow> mf_network m = network_host"

definition container_uses_tier :: "container \<Rightarrow> string \<Rightarrow> bool" where
  "container_uses_tier c tier \<longleftrightarrow> list_ex (\<lambda>mt. mt_tier mt = tier) (co_mounts c)"

definition uses_tier :: "app_manifest \<Rightarrow> string \<Rightarrow> bool" where
  "uses_tier m tier \<longleftrightarrow> list_ex (\<lambda>c. container_uses_tier c tier) (mf_containers m)"

definition primary_of :: "app_manifest \<Rightarrow> container option" where
  "primary_of m = find co_primary (mf_containers m)"


section \<open>Words\<close>

definition lower_alnum :: "char \<Rightarrow> bool" where
  "lower_alnum c \<longleftrightarrow> is_digit c \<or> (97 \<le> (of_char c :: nat) \<and> (of_char c :: nat) \<le> 122)"

definition alnum :: "char \<Rightarrow> bool" where
  "alnum c \<longleftrightarrow> lower_alnum c \<or> (65 \<le> (of_char c :: nat) \<and> (of_char c :: nat) \<le> 90)"

definition slug_char :: "char \<Rightarrow> bool" where "slug_char c \<longleftrightarrow> lower_alnum c \<or> c = CHR ''-''"

text \<open>\<open>^[a-z0-9]([a-z0-9-]{0,30}[a-z0-9])?$\<close>\<close>

definition slug :: "string \<Rightarrow> bool" where
  "slug s \<longleftrightarrow> s \<noteq> [] \<and> length s \<le> 32 \<and> lower_alnum (hd s) \<and> lower_alnum (last s) \<and> list_all slug_char s"

definition valid_name :: "string \<Rightarrow> bool" where "valid_name = slug"

text \<open>\<open>^[A-Za-z_][A-Za-z0-9_]*$\<close>\<close>

definition env_char :: "char \<Rightarrow> bool" where "env_char c \<longleftrightarrow> alnum c \<or> c = CHR ''_''"

definition env_key :: "string \<Rightarrow> bool" where
  "env_key s \<longleftrightarrow> s \<noteq> [] \<and> list_all env_char s \<and> \<not> is_digit (hd s)"

text \<open>
  \<open>^[a-zA-Z0-9][a-zA-Z0-9._-]*(:[0-9]{1,5})?(/[a-zA-Z0-9._-]+)*@sha256:[a-f0-9]{64}$\<close>. No character of the
  part before the at sign is one, and no component holds a slash or a colon, so each cut is the only one.
\<close>

definition ref_char :: "char \<Rightarrow> bool" where "ref_char c \<longleftrightarrow> alnum c \<or> c = CHR ''.'' \<or> c = CHR ''_'' \<or> c = CHR ''-''"

definition hex_lower :: "char \<Rightarrow> bool" where
  "hex_lower c \<longleftrightarrow> is_digit c \<or> (97 \<le> (of_char c :: nat) \<and> (of_char c :: nat) \<le> 102)"

definition ref_host :: "string \<Rightarrow> bool" where
  "ref_host s \<longleftrightarrow>
     (case cut CHR '':'' s of
        None \<Rightarrow> s \<noteq> [] \<and> alnum (hd s) \<and> list_all ref_char s
      | Some (h, port) \<Rightarrow> h \<noteq> [] \<and> alnum (hd h) \<and> list_all ref_char h \<and> port \<noteq> [] \<and> length port \<le> 5 \<and> list_all is_digit port)"

definition digest_ref :: "string \<Rightarrow> bool" where
  "digest_ref s \<longleftrightarrow>
     (case cut CHR ''@'' s of
        None \<Rightarrow> False
      | Some (repo, digest) \<Rightarrow>
          (case split_on CHR ''/'' repo of
             [] \<Rightarrow> False
           | host # comps \<Rightarrow> ref_host host \<and> list_all (\<lambda>c. c \<noteq> [] \<and> list_all ref_char c) comps) \<and>
          prefix ''sha256:'' digest \<and> length digest = 71 \<and> list_all hex_lower (drop 7 digest))"

text \<open>\<open>strings.Contains\<close>, \<open>path.IsAbs\<close> and \<open>path.Clean\<close>, the last for a path that starts with a slash.\<close>

definition contains :: "string \<Rightarrow> string \<Rightarrow> bool" where "contains s w \<longleftrightarrow> list_ex (\<lambda>i. prefix w (drop i s)) [0..<Suc (length s)]"

definition path_is_abs :: "string \<Rightarrow> bool" where "path_is_abs p \<longleftrightarrow> prefix ''/'' p"

fun clean_onto :: "string list \<Rightarrow> string list \<Rightarrow> string list" where
  "clean_onto out [] = rev out"
| "clean_onto out (c # cs) =
     (if c = [] \<or> c = ''.'' then clean_onto out cs
      else if c = ''..'' then clean_onto (case out of [] \<Rightarrow> [] | _ # o' \<Rightarrow> o') cs
      else clean_onto (c # out) cs)"

definition path_clean_abs :: "string \<Rightarrow> string" where
  "path_clean_abs p = ''/'' @ join_with ''/'' (clean_onto [] (split_on CHR ''/'' p))"


section \<open>Validation\<close>

datatype manifest_error =
    NameNotSlug
  | UnsafeVersion
  | UnknownNetwork
  | PortOutOfRange int
  | PortTwice int
  | PortsOnHost
  | NoContainers
  | NegativeMemory
  | NegativeSize
  | HalfSized
  | SizesSwapped
  | ContainerNotSlug string
  | DuplicateContainer string
  | ImageNotPinned string
  | ImageDots string
  | UnknownTier string
  | DirNotSlug string
  | PathNotClean string
  | UnsafePath
  | PathTwice string
  | EnvKeyBad string
  | UnsafeEnv
  | PrimaryPort int
  | HealthNotAbs string
  | UnsafeHealth
  | PrimaryCount nat
  | NotDecoded

definition unsafe_char :: "char \<Rightarrow> bool" where
  "unsafe_char c \<longleftrightarrow> c = CHR 0x0A \<or> c = CHR 0x0D \<or> c = CHR 0x00"

definition safe_value :: "string \<Rightarrow> bool" where "safe_value v \<longleftrightarrow> \<not> list_ex unsafe_char v"

text \<open>The first check that fails.\<close>

definition refuse :: "bool \<Rightarrow> 'e \<Rightarrow> 'e option" where "refuse b e = (if b then Some e else None)"

fun first_error :: "'e option list \<Rightarrow> 'e option" where
  "first_error [] = None"
| "first_error (None # es) = first_error es"
| "first_error (Some e # es) = Some e"

fun check_ports :: "int list \<Rightarrow> int list \<Rightarrow> manifest_error option" where
  "check_ports seen [] = None"
| "check_ports seen (p # ps) =
     (if p < 1 \<or> 65535 < p then Some (PortOutOfRange p)
      else if p \<in> set seen then Some (PortTwice p)
      else check_ports (p # seen) ps)"

fun check_mounts :: "string list \<Rightarrow> mount list \<Rightarrow> manifest_error option" where
  "check_mounts paths [] = None"
| "check_mounts paths (mt # mts) =
     (case first_error
        [refuse (mt_tier mt \<notin> set tiers) (UnknownTier (mt_tier mt)),
         refuse (\<not> slug (mt_dir mt)) (DirNotSlug (mt_dir mt)),
         refuse (\<not> path_is_abs (mt_path mt) \<or> path_clean_abs (mt_path mt) \<noteq> mt_path mt \<or> contains (mt_path mt) ''..'') (PathNotClean (mt_path mt)),
         refuse (\<not> safe_value (mt_path mt)) UnsafePath,
         refuse (mt_path mt \<in> set paths) (PathTwice (mt_path mt))] of
        Some e \<Rightarrow> Some e
      | None \<Rightarrow> check_mounts (mt_path mt # paths) mts)"

fun check_env :: "(string \<times> string) list \<Rightarrow> manifest_error option" where
  "check_env [] = None"
| "check_env ((k, v) # kvs) =
     (if \<not> env_key k then Some (EnvKeyBad k) else if \<not> safe_value v then Some UnsafeEnv else check_env kvs)"

definition check_primary :: "container \<Rightarrow> manifest_error option" where
  "check_primary c =
     (if \<not> co_primary c then None
      else first_error
        [refuse (co_port c < 1 \<or> 65535 < co_port c) (PrimaryPort (co_port c)),
         refuse (\<not> prefix ''/'' (co_health c) \<or> contains (co_health c) ''..'') (HealthNotAbs (co_health c)),
         refuse (\<not> safe_value (co_health c)) UnsafeHealth])"

definition check_container :: "string list \<Rightarrow> container \<Rightarrow> manifest_error option" where
  "check_container seen c =
     first_error
       [refuse (\<not> slug (co_name c)) (ContainerNotSlug (co_name c)),
        refuse (co_name c \<in> set seen) (DuplicateContainer (co_name c)),
        refuse (\<not> digest_ref (co_image c)) (ImageNotPinned (co_image c)),
        refuse (contains (co_image c) ''..'') (ImageDots (co_image c)),
        check_mounts [] (co_mounts c),
        check_env (co_env c),
        check_primary c]"

text \<open>The loop over the containers: an error, or how many are primary.\<close>

fun check_containers :: "string list \<Rightarrow> nat \<Rightarrow> container list \<Rightarrow> manifest_error + nat" where
  "check_containers seen n [] = Inr n"
| "check_containers seen n (c # cs) =
     (case check_container seen c of
        Some e \<Rightarrow> Inl e
      | None \<Rightarrow> check_containers (co_name c # seen) (if co_primary c then n + 1 else n) cs)"

definition validate_manifest :: "app_manifest \<Rightarrow> manifest_error option" where
  "validate_manifest m =
     (case first_error
        [refuse (\<not> slug (mf_name m)) NameNotSlug,
         refuse (\<not> safe_value (mf_version m)) UnsafeVersion,
         refuse (mf_network m \<notin> {[], network_private, network_host}) UnknownNetwork,
         check_ports [] (mf_ports m),
         refuse (mf_ports m \<noteq> [] \<and> host_network m) PortsOnHost,
         refuse (mf_containers m = []) NoContainers,
         refuse (mf_memory m < 0) NegativeMemory,
         refuse (mf_size m < 0 \<or> mf_installed m < 0) NegativeSize,
         refuse ((mf_size m = 0) \<noteq> (mf_installed m = 0)) HalfSized,
         refuse (mf_installed m < mf_size m) SizesSwapped] of
        Some e \<Rightarrow> Some e
      | None \<Rightarrow>
          (case check_containers [] 0 (mf_containers m) of
             Inl e \<Rightarrow> Some e
           | Inr n \<Rightarrow> refuse (n \<noteq> 1) (PrimaryCount n)))"

definition parse_manifest :: "(string \<Rightarrow> app_manifest option) \<Rightarrow> (string \<Rightarrow> string) \<Rightarrow> string \<Rightarrow>
    manifest_error + (app_manifest \<times> string)" where
  "parse_manifest decode sha256_hex raw =
     (case decode raw of
        None \<Rightarrow> Inl NotDecoded
      | Some m \<Rightarrow>
          (case validate_manifest m of
             Some e \<Rightarrow> Inl e
           | None \<Rightarrow> Inr (m, ''sha256:'' @ sha256_hex raw)))"


section \<open>What a valid manifest is\<close>

lemma refuse_None [simp]: "refuse b e = None \<longleftrightarrow> \<not> b"
  by (simp add: refuse_def)

lemma first_error_None: "first_error es = None \<longleftrightarrow> list_all (\<lambda>e. e = None) es"
  by (induction es rule: first_error.induct) auto

lemma else_None: "(case x of None \<Rightarrow> y | Some e \<Rightarrow> Some e) = None \<longleftrightarrow> x = None \<and> y = None"
  and else_Inr: "(case x of None \<Rightarrow> z | Some e \<Rightarrow> Inl e) = Inr k \<longleftrightarrow> x = None \<and> z = Inr k"
  by (auto split: option.split)

text \<open>The schema, without an order of checks.\<close>

definition good_mount :: "mount \<Rightarrow> bool" where
  "good_mount mt \<longleftrightarrow> mt_tier mt \<in> set tiers \<and> slug (mt_dir mt) \<and> path_is_abs (mt_path mt) \<and> path_clean_abs (mt_path mt) = mt_path mt \<and>
     \<not> contains (mt_path mt) ''..'' \<and> safe_value (mt_path mt)"

definition good_container :: "container \<Rightarrow> bool" where
  "good_container c \<longleftrightarrow> slug (co_name c) \<and> digest_ref (co_image c) \<and> \<not> contains (co_image c) ''..'' \<and>
     (\<forall>mt\<in>set (co_mounts c). good_mount mt) \<and> distinct (map mt_path (co_mounts c)) \<and>
     (\<forall>(k, v)\<in>set (co_env c). env_key k \<and> safe_value v) \<and>
     (co_primary c \<longrightarrow> 1 \<le> co_port c \<and> co_port c \<le> 65535 \<and> prefix ''/'' (co_health c) \<and> \<not> contains (co_health c) ''..'' \<and>
        safe_value (co_health c))"

definition good_manifest :: "app_manifest \<Rightarrow> bool" where
  "good_manifest m \<longleftrightarrow>
     slug (mf_name m) \<and> safe_value (mf_version m) \<and> mf_network m \<in> {[], network_private, network_host} \<and>
     (\<forall>p\<in>set (mf_ports m). 1 \<le> p \<and> p \<le> 65535) \<and> distinct (mf_ports m) \<and> (mf_ports m = [] \<or> \<not> host_network m) \<and>
     0 \<le> mf_memory m \<and> 0 \<le> mf_size m \<and> (mf_size m = 0 \<longleftrightarrow> mf_installed m = 0) \<and> mf_size m \<le> mf_installed m \<and>
     (\<forall>c\<in>set (mf_containers m). good_container c) \<and> distinct (map co_name (mf_containers m)) \<and>
     length (filter co_primary (mf_containers m)) = 1"

lemma check_ports_None:
  "check_ports seen ps = None \<longleftrightarrow> (\<forall>p\<in>set ps. 1 \<le> p \<and> p \<le> 65535) \<and> distinct ps \<and> set ps \<inter> set seen = {}"
  by (induction seen ps rule: check_ports.induct) auto

lemma check_mounts_None:
  "check_mounts paths mts = None \<longleftrightarrow>
   (\<forall>mt\<in>set mts. good_mount mt) \<and> distinct (map mt_path mts) \<and> set (map mt_path mts) \<inter> set paths = {}"
proof (induction mts arbitrary: paths)
  case (Cons mt mts)
  have "check_mounts paths (mt # mts) = None \<longleftrightarrow> good_mount mt \<and> mt_path mt \<notin> set paths \<and> check_mounts (mt_path mt # paths) mts = None"
    by (auto simp: else_None first_error_None good_mount_def)
  then show ?case using Cons.IH by auto
qed simp

lemma check_env_None: "check_env kvs = None \<longleftrightarrow> (\<forall>(k, v)\<in>set kvs. env_key k \<and> safe_value v)"
  by (induction kvs rule: check_env.induct) auto

lemma check_container_None: "check_container seen c = None \<longleftrightarrow> good_container c \<and> co_name c \<notin> set seen"
  by (auto simp: check_container_def first_error_None good_container_def check_mounts_None check_env_None check_primary_def)

lemma check_containers_Inr:
  "check_containers seen n cs = Inr k \<longleftrightarrow>
   (\<forall>c\<in>set cs. good_container c) \<and> distinct (map co_name cs) \<and> set (map co_name cs) \<inter> set seen = {} \<and>
   k = n + length (filter co_primary cs)"
proof (induction cs arbitrary: seen n)
  case (Cons c cs)
  have "check_containers seen n (c # cs) = Inr k \<longleftrightarrow> good_container c \<and> co_name c \<notin> set seen \<and>
      check_containers (co_name c # seen) (if co_primary c then n + 1 else n) cs = Inr k"
    by (simp add: else_Inr check_container_None conj_assoc)
  then show ?case using Cons.IH by auto
qed auto

lemma validate_iff: "validate_manifest m = None \<longleftrightarrow> good_manifest m"
proof -
  let ?first = "first_error
        [refuse (\<not> slug (mf_name m)) NameNotSlug, refuse (\<not> safe_value (mf_version m)) UnsafeVersion,
         refuse (mf_network m \<notin> {[], network_private, network_host}) UnknownNetwork, check_ports [] (mf_ports m),
         refuse (mf_ports m \<noteq> [] \<and> host_network m) PortsOnHost, refuse (mf_containers m = []) NoContainers,
         refuse (mf_memory m < 0) NegativeMemory, refuse (mf_size m < 0 \<or> mf_installed m < 0) NegativeSize,
         refuse ((mf_size m = 0) \<noteq> (mf_installed m = 0)) HalfSized, refuse (mf_installed m < mf_size m) SizesSwapped]"
  have "(case check_containers [] 0 (mf_containers m) of Inl e \<Rightarrow> Some e | Inr n \<Rightarrow> refuse (n \<noteq> 1) (PrimaryCount n)) = None \<longleftrightarrow>
      check_containers [] 0 (mf_containers m) = Inr 1"
    by (auto split: sum.split)
  then have "validate_manifest m = None \<longleftrightarrow> ?first = None \<and> check_containers [] 0 (mf_containers m) = Inr 1"
    by (simp only: validate_manifest_def else_None)
  also have "\<dots> \<longleftrightarrow> good_manifest m"
    unfolding first_error_None check_containers_Inr good_manifest_def
    by (cases "mf_containers m = []"; cases "mf_ports m = []") (auto simp: check_ports_None)
  finally show ?thesis .
qed

text \<open>
  C28: validation accepts exactly the manifests of the schema, stated without an order: slugs for every name that
  becomes a unit or a directory, pinned images, mounts in the closed set of tiers at clean absolute paths that
  occur once, values without line breaks, ports in range and once each and none with host networking, sizes
  that agree, and exactly one primary container. What is parsed has the hash of the bytes that were read.
\<close>

theorem parse_accepts_exactly_the_schema:
  "(validate_manifest m = None \<longleftrightarrow> good_manifest m) \<and>
   (parse_manifest decode sha256_hex raw = Inr (m, ident) \<longleftrightarrow>
      decode raw = Some m \<and> good_manifest m \<and> ident = ''sha256:'' @ sha256_hex raw)"
  by (auto simp: parse_manifest_def validate_iff [symmetric] split: option.splits)

end
