(* ===== verification/Quadlet.thy ===== *)
theory Quadlet
  imports AppManifest "HOL-Library.Multiset"
begin

text \<open>
  The renderer (\<open>agent/quadlet/render.go\<close>) with the binds and the user the product adds for its own apps
  (\<open>agent/apps/apps.go\<close> with \<open>agent/hass\<close>, \<open>agent/mosquitto\<close> and \<open>agent/files\<close>): from a manifest to the source
  files of systemd units.

  A set of files is an association list with each name once, as in a Go map. The directory of the run-time
  files and the one of the agent's binary, which the environment of the process may move, are a record.
  Numbers keep their 64 bits.
\<close>


section \<open>The product's own knowledge\<close>

record node_paths =
  np_run :: string
  np_bin :: string

definition default_paths :: node_paths where
  "default_paths = \<lparr>np_run = ''/run/briard'', np_bin = ''/var/lib/briard-bin''\<rparr>"

definition hass_app :: string where "hass_app = ''home-assistant''"
definition mosquitto_app :: string where "mosquitto_app = ''mosquitto''"
definition files_app :: string where "files_app = ''files''"

definition hass_volumes :: "app_manifest \<Rightarrow> container \<Rightarrow> string list" where
  "hass_volumes m c =
     (if mf_name m \<noteq> hass_app \<or> \<not> co_primary c then []
      else [''/run/briard/home-assistant/run:/etc/services.d/home-assistant/run:ro'', ''/run/briard/alerts:/briard-alerts:ro''])"

definition mosquitto_volumes :: "app_manifest \<Rightarrow> container \<Rightarrow> string list" where
  "mosquitto_volumes m c =
     (if mf_name m \<noteq> mosquitto_app \<or> \<not> co_primary c then []
      else [''/run/briard/mosquitto/mosquitto.conf:/mosquitto/config/mosquitto.conf:ro''])"

definition files_volumes :: "app_manifest \<Rightarrow> container \<Rightarrow> string list" where
  "files_volumes m c =
     (if mf_name m \<noteq> files_app \<or> \<not> co_primary c then [] else [''/run/briard/files-view:/srv:rslave''])"

definition wants_inbound :: "app_manifest \<Rightarrow> container \<Rightarrow> bool" where
  "wants_inbound m c \<longleftrightarrow> mf_name m = hass_app \<and> co_primary c"

definition needs_app_dir :: "app_manifest \<Rightarrow> container \<Rightarrow> bool" where
  "needs_app_dir m c \<longleftrightarrow> ((mf_name m = hass_app \<or> mf_name m = files_app) \<and> co_primary c) \<or> wants_inbound m c"

definition app_dir :: "node_paths \<Rightarrow> string \<Rightarrow> string" where "app_dir np app = np_run np @ ''/'' @ app"
definition inbound_socket :: "node_paths \<Rightarrow> string" where "inbound_socket np = np_run np @ ''/agent.sock''"

definition apps_volumes :: "node_paths \<Rightarrow> app_manifest \<Rightarrow> container \<Rightarrow> string list" where
  "apps_volumes np m c =
     (if mf_name m = hass_app then hass_volumes m c
      else if mf_name m = mosquitto_app then mosquitto_volumes m c
      else if mf_name m = files_app then files_volumes m c else []) @
     (if needs_app_dir m c then [app_dir np (mf_name m) @ '':/briard:ro''] else []) @
     (if wants_inbound m c then [inbound_socket np @ '':/briard-agent.sock:rw''] else [])"

definition apps_user :: "app_manifest \<Rightarrow> container \<Rightarrow> string" where
  "apps_user m c = (if mf_name m = files_app \<and> co_primary c then ''0'' else [])"


section \<open>The timeout of a pull\<close>

definition image_pull_timeout :: duration where "image_pull_timeout = 45 * minute"
definition pull_allowance :: duration where "pull_allowance = 5 * minute"
definition pull_bitrate :: int where "pull_bitrate = 5000000"
definition memory_limit_factor :: int where "memory_limit_factor = 4"

text \<open>Go's division rounds toward zero.\<close>

definition quot_pos :: "int \<Rightarrow> int \<Rightarrow> int" where "quot_pos a b = sgn a * (\<bar>a\<bar> div b)"

definition pull_timeout :: "int \<Rightarrow> duration" where
  "pull_timeout bytes =
     (if bytes \<le> 0 then image_pull_timeout
      else int64 (pull_allowance + int64 (quot_pos (int64 (bytes * 8)) pull_bitrate * second)))"


section \<open>Rendering\<close>

record rendered =
  re_files :: "(string \<times> string) list"
  re_units :: "string list"
  re_container_units :: "string list"
  re_image_units :: "string list"
  re_refs :: "(string \<times> string) list"
  re_addr :: string

definition put :: "string \<Rightarrow> 'a \<Rightarrow> (string \<times> 'a) list \<Rightarrow> (string \<times> 'a) list" where
  "put k v kvs = filter (\<lambda>(k', _). k' \<noteq> k) kvs @ [(k, v)]"

definition unit_prefix :: string where "unit_prefix = ''briard-''"
definition pod_network :: string where "pod_network = ''briard''"
definition container_name :: "string \<Rightarrow> string \<Rightarrow> string" where "container_name app c = unit_prefix @ app @ ''-'' @ c"

definition area :: "string \<Rightarrow> string \<Rightarrow> string" where "area tier app = ''/var/lib/briard/'' @ tier @ ''/'' @ app"

definition join_lines :: "string list \<Rightarrow> string" where "join_lines ls = join_with [CHR 0x0A] ls @ [CHR 0x0A]"

definition escape_value :: "string \<Rightarrow> string" where
  "escape_value v = concat (map (\<lambda>c. if c = CHR ''%'' then ''%%'' else [c]) v)"

definition agent_bin :: "node_paths \<Rightarrow> string" where "agent_bin np = np_bin np @ ''/briard-guest-agent''"

definition pod_lines :: "app_manifest \<Rightarrow> string \<Rightarrow> string list" where
  "pod_lines m addr =
     [''[Pod]'', ''PodName='' @ unit_prefix @ mf_name m, ''ExitPolicy=continue''] @
     (if host_network m then [''Network=host'']
      else if addr \<noteq> [] then
        [''Network='' @ pod_network, ''IP='' @ addr] @
        map (\<lambda>p. ''PublishPort='' @ dec_of_int p @ '':'' @ dec_of_int p) (mf_ports m)
      else [''Network='' @ pod_network])"

definition mount_volume :: "app_manifest \<Rightarrow> mount \<Rightarrow> string" where
  "mount_volume m mt = area (mt_tier mt) (mf_name m) @ ''/'' @ mt_dir mt @ '':'' @ mt_path mt"

definition container_lines :: "node_paths \<Rightarrow> app_manifest \<Rightarrow> container \<Rightarrow> string list" where
  "container_lines np m c =
     [''[Container]'', ''ContainerName='' @ container_name (mf_name m) (co_name c), ''Image='' @ co_image c,
      ''Pod='' @ unit_prefix @ mf_name m @ ''.pod'', ''Pull=never''] @
     map (\<lambda>mt. ''Volume='' @ mount_volume m mt) (sort_key mt_path (co_mounts c)) @
     map (\<lambda>v. ''Volume='' @ v) (apps_volumes np m c) @
     (if apps_user m c \<noteq> [] then [''User='' @ apps_user m c] else []) @
     map (\<lambda>(k, v). ''Environment='' @ k @ ''='' @ escape_value v) (sort_key fst (co_env c)) @
     [[], ''[Service]'', ''Restart=always'', ''RestartSec=5''] @
     (if 0 < mf_memory m
      then [''MemoryMax='' @ dec_of_int (int64 (memory_limit_factor * mf_memory m)) @ ''M'', ''MemorySwapMax='' @ dec_of_int (mf_memory m) @ ''M'']
      else []) @
     (if container_uses_tier c tier_data
      then [''ExecStartPre=-'' @ agent_bin np @ '' --app-starting='' @ mf_name m, ''ExecStopPost=-'' @ agent_bin np @ '' --app-stopped='' @ mf_name m]
      else [])"

definition image_lines :: "app_manifest \<Rightarrow> container \<Rightarrow> string list" where
  "image_lines m c =
     [''[Image]'', ''Image='' @ co_image c, [], ''[Service]'',
      ''TimeoutStartSec='' @ dec_of_int (quot_pos (pull_timeout (mf_size m)) second), ''PrivateTmp=true'']"

definition render_container :: "node_paths \<Rightarrow> app_manifest \<Rightarrow> container \<Rightarrow> rendered \<Rightarrow> rendered" where
  "render_container np m c r =
     (let u = container_name (mf_name m) (co_name c)
      in r\<lparr>re_files := put (u @ ''.image'') (join_lines (image_lines m c)) (put (u @ ''.container'') (join_lines (container_lines np m c)) (re_files r)),
           re_units := re_units r @ [u @ ''.service''],
           re_container_units := re_container_units r @ [u @ ''.service''],
           re_image_units := re_image_units r @ [u @ ''-image.service''],
           re_refs := put (u @ ''-image.service'') (co_image c) (re_refs r)\<rparr>)"

definition render_app :: "node_paths \<Rightarrow> app_manifest \<Rightarrow> string \<Rightarrow> manifest_error + rendered" where
  "render_app np m addr =
     (case validate_manifest m of
        Some e \<Rightarrow> Inl e
      | None \<Rightarrow>
          (let base = unit_prefix @ mf_name m;
               start = \<lparr>re_files = [(base @ ''.pod'', join_lines (pod_lines m addr))], re_units = [base @ ''-pod.service''],
                        re_container_units = [], re_image_units = [], re_refs = [], re_addr = []\<rparr>;
               r = foldl (\<lambda>r c. render_container np m c r) start (mf_containers m)
           in Inr (r\<lparr>re_addr := addr\<rparr>)))"

text \<open>Only the units that warm the images, for a node that does not serve.\<close>

definition render_images :: "app_manifest \<Rightarrow> manifest_error + rendered" where
  "render_images m =
     (case validate_manifest m of
        Some e \<Rightarrow> Inl e
      | None \<Rightarrow>
          Inr (foldl (\<lambda>r c.
              (let u = container_name (mf_name m) (co_name c)
               in r\<lparr>re_files := put (u @ ''.image'') (join_lines [''[Image]'', ''Image='' @ co_image c]) (re_files r),
                    re_image_units := re_image_units r @ [u @ ''-image.service''],
                    re_refs := put (u @ ''-image.service'') (co_image c) (re_refs r)\<rparr>))
            \<lparr>re_files = [], re_units = [], re_container_units = [], re_image_units = [], re_refs = [], re_addr = []\<rparr>
            (mf_containers m)))"

text \<open>The directories an install creates.\<close>

definition subdirs :: "app_manifest \<Rightarrow> string list" where
  "subdirs m = remdups_adj (sort (concat (map (\<lambda>c. map (\<lambda>mt. mt_tier mt @ ''/'' @ mt_dir mt) (co_mounts c)) (mf_containers m))))"


section \<open>Lines\<close>

definition line :: "string \<Rightarrow> bool" where "line s \<longleftrightarrow> CHR 0x0A \<notin> set s"

lemma split_join_lines:
  "ls \<noteq> [] \<Longrightarrow> list_all line ls \<Longrightarrow> split_on CHR 0x0A (join_lines ls) = ls @ [[]]"
proof (induction ls rule: induct_list012)
  case (2 x)
  then show ?case by (simp add: join_lines_def line_def split_on_line)
next
  case (3 x y zs)
  have "split_on CHR 0x0A (join_lines (x # y # zs)) = x # split_on CHR 0x0A (join_lines (y # zs))"
    using 3(4) split_on_line [of "CHR 0x0A" x] by (simp add: join_lines_def line_def)
  then show ?case using 3 by simp
qed simp

lemma line_append [simp]: "line (a @ b) \<longleftrightarrow> line a \<and> line b" "line (c # s) \<longleftrightarrow> c \<noteq> CHR 0x0A \<and> line s" "line []"
  by (auto simp: line_def)

lemma word_lines:
  "list_all P s \<Longrightarrow> \<not> P CHR 0x0A \<Longrightarrow> line s"
  by (auto simp: line_def list_all_iff)

lemma slug_char_codes: "\<not> slug_char CHR 0x0A" "\<not> slug_char CHR '':''" "\<not> slug_char CHR ''/''" "\<not> slug_char CHR ''.''"
  by (simp_all add: slug_char_def lower_alnum_def is_digit_def)

lemma slug_all: "slug s \<Longrightarrow> list_all slug_char s"
  by (simp add: slug_def)

lemma slug_line: "slug s \<Longrightarrow> line s"
  using word_lines [OF slug_all slug_char_codes(1)] .

lemma safe_line: "safe_value s \<Longrightarrow> line s"
  by (auto simp: safe_value_def list_ex_iff unsafe_char_def line_def)

lemma env_line: "env_key s \<Longrightarrow> line s"
  using word_lines [of env_char s] by (simp add: env_key_def env_char_def alnum_def lower_alnum_def is_digit_def)

lemma escape_line: "line s \<Longrightarrow> line (escape_value s)"
  by (induction s) (auto simp: escape_value_def)

lemma dec_line: "line (dec_of_int i)"
proof -
  have "line (dec_of_nat n)" for n using word_lines [OF dec_of_nat_digits, of n] by (simp add: is_digit_def)
  then show ?thesis by (auto simp: dec_of_int_def)
qed

lemma cut_Some: "cut sep s = Some (a, b) \<Longrightarrow> s = a @ sep # b \<and> sep \<notin> set a"
proof (induction s arbitrary: a)
  case (Cons x s)
  show ?case
  proof (cases "x = sep")
    case False
    then obtain a' where "cut sep s = Some (a', b)" "a = x # a'"
      using Cons.prems by (auto simp: cut_def Let_def split: list.splits)
    then show ?thesis using Cons.IH False by auto
  qed (use Cons.prems in \<open>auto simp: cut_def Let_def\<close>)
qed (simp add: cut_def)

lemma split_on_covers: "c \<in> set s \<Longrightarrow> c = sep \<or> (\<exists>w\<in>set (split_on sep s). c \<in> set w)"
proof (induction s)
  case (Cons x s)
  obtain w ws where "split_on sep s = w # ws" using split_on_not_Nil [of sep s] by (cases "split_on sep s") auto
  then show ?case using Cons by auto
qed simp

lemma ref_line: "digest_ref s \<Longrightarrow> line s"
proof -
  assume "digest_ref s"
  then obtain repo digest host comps where parts: "cut CHR ''@'' s = Some (repo, digest)" "split_on CHR ''/'' repo = host # comps"
      "ref_host host" "list_all (\<lambda>c. c \<noteq> [] \<and> list_all ref_char c) comps" "prefix ''sha256:'' digest" "list_all hex_lower (drop 7 digest)"
    by (auto simp: digest_ref_def split: option.splits list.splits)
  have chars: "\<not> ref_char CHR 0x0A" "\<not> hex_lower CHR 0x0A" "\<not> is_digit CHR 0x0A"
    by (simp_all add: ref_char_def alnum_def lower_alnum_def hex_lower_def is_digit_def)
  have host: "line host"
  proof (cases "cut CHR '':'' host")
    case None
    then show ?thesis using parts(3) word_lines [of ref_char host] chars by (simp add: ref_host_def)
  next
    case (Some hp)
    obtain h p where hp: "hp = (h, p)" by (metis prod.exhaust)
    then have "host = h @ CHR '':'' # p" using cut_Some Some by blast
    then show ?thesis using parts(3) Some hp word_lines [of ref_char h] word_lines [of is_digit p] chars by (simp add: ref_host_def)
  qed
  have "line w" if "w \<in> set (split_on CHR ''/'' repo)" for w
    using that host parts(2,4) word_lines [of ref_char w] chars by (auto simp: list_all_iff)
  then have repo: "line repo" using split_on_covers [of "CHR 0x0A" repo "CHR ''/''"] by (auto simp: line_def)
  have "digest = ''sha256:'' @ drop 7 digest" using parts(5) by (auto simp: prefix_def)
  moreover have "line (''sha256:'' @ drop 7 digest)" using word_lines [OF parts(6) chars(2)] by simp
  ultimately have "line digest" by simp
  then show ?thesis using repo cut_Some [OF parts(1)] by simp
qed


section \<open>The files of an app\<close>

lemma put_set: "set (put k v kvs) = {(k', w) \<in> set kvs. k' \<noteq> k} \<union> {(k, v)}"
  by (auto simp: put_def)

text \<open>Each file holds the lines the renderer chose for the pod or for one container.\<close>

definition rendered_lines :: "node_paths \<Rightarrow> app_manifest \<Rightarrow> string \<Rightarrow> string list set" where
  "rendered_lines np m addr = {pod_lines m addr} \<union> container_lines np m ` set (mf_containers m) \<union> image_lines m ` set (mf_containers m)"

lemma render_fold_files:
  assumes "(f, body) \<in> set (re_files (foldl (\<lambda>r c. render_container np m c r) r cs))"
  shows "(f, body) \<in> set (re_files r) \<or> (\<exists>c\<in>set cs. body = join_lines (container_lines np m c) \<or> body = join_lines (image_lines m c))"
  using assms
proof (induction cs arbitrary: r)
  case (Cons c cs)
  from Cons.IH [of "render_container np m c r"] Cons.prems
  show ?case by (auto simp: render_container_def Let_def put_set)
qed simp

lemma render_files:
  assumes "render_app np m addr = Inr r" and "(f, body) \<in> set (re_files r)"
  shows "good_manifest m \<and> (\<exists>ls\<in>rendered_lines np m addr. body = join_lines ls)"
proof -
  have good: "validate_manifest m = None"
    using assms(1) by (cases "validate_manifest m") (auto simp: render_app_def)
  then have r: "r = (foldl (\<lambda>r c. render_container np m c r)
        \<lparr>re_files = [(unit_prefix @ mf_name m @ ''.pod'', join_lines (pod_lines m addr))], re_units = [unit_prefix @ mf_name m @ ''-pod.service''],
         re_container_units = [], re_image_units = [], re_refs = [], re_addr = []\<rparr> (mf_containers m))\<lparr>re_addr := addr\<rparr>"
    using assms(1) by (simp add: render_app_def Let_def)
  have "(f, body) \<in> set (re_files (foldl (\<lambda>r c. render_container np m c r)
        \<lparr>re_files = [(unit_prefix @ mf_name m @ ''.pod'', join_lines (pod_lines m addr))], re_units = [unit_prefix @ mf_name m @ ''-pod.service''],
         re_container_units = [], re_image_units = [], re_refs = [], re_addr = []\<rparr> (mf_containers m)))"
    using assms(2) unfolding r by simp
  from render_fold_files [OF this] good show ?thesis
    by (auto simp: rendered_lines_def validate_iff)
qed

definition directives :: "string list" where
  "directives = [''PodName'', ''ExitPolicy'', ''Network'', ''IP'', ''PublishPort'', ''ContainerName'', ''Image'', ''Pod'', ''Pull'', ''Volume'',
     ''User'', ''Environment'', ''Restart'', ''RestartSec'', ''MemoryMax'', ''MemorySwapMax'', ''ExecStartPre'', ''ExecStopPost'',
     ''TimeoutStartSec'', ''PrivateTmp'']"

definition plain_line :: "string \<Rightarrow> bool" where
  "plain_line l \<longleftrightarrow> l \<in> {[], ''[Pod]'', ''[Container]'', ''[Image]'', ''[Service]''} \<or> (case cut CHR ''='' l of None \<Rightarrow> False | Some (k, _) \<Rightarrow> k \<in> set directives)"

lemma plain_directive: "k \<in> set directives \<Longrightarrow> CHR ''='' \<notin> set k \<Longrightarrow> plain_line (k @ CHR ''='' # v)"
  by (simp add: plain_line_def cut_app)

lemma plain_raw:
  "plain_line (''PodName'' @ CHR ''='' # v)"
  "plain_line (''ExitPolicy'' @ CHR ''='' # v)"
  "plain_line (''Network'' @ CHR ''='' # v)"
  "plain_line (''IP'' @ CHR ''='' # v)"
  "plain_line (''PublishPort'' @ CHR ''='' # v)"
  "plain_line (''ContainerName'' @ CHR ''='' # v)"
  "plain_line (''Image'' @ CHR ''='' # v)"
  "plain_line (''Pod'' @ CHR ''='' # v)"
  "plain_line (''Pull'' @ CHR ''='' # v)"
  "plain_line (''Volume'' @ CHR ''='' # v)"
  "plain_line (''User'' @ CHR ''='' # v)"
  "plain_line (''Environment'' @ CHR ''='' # v)"
  "plain_line (''Restart'' @ CHR ''='' # v)"
  "plain_line (''RestartSec'' @ CHR ''='' # v)"
  "plain_line (''MemoryMax'' @ CHR ''='' # v)"
  "plain_line (''MemorySwapMax'' @ CHR ''='' # v)"
  "plain_line (''ExecStartPre'' @ CHR ''='' # v)"
  "plain_line (''ExecStopPost'' @ CHR ''='' # v)"
  "plain_line (''TimeoutStartSec'' @ CHR ''='' # v)"
  "plain_line (''PrivateTmp'' @ CHR ''='' # v)"
  by (rule plain_directive; simp add: directives_def)+

lemmas plain_simps = plain_raw [unfolded append_Cons append_Nil]

lemma plain_others: "plain_line []" "plain_line ''[Pod]''" "plain_line ''[Container]''" "plain_line ''[Image]''" "plain_line ''[Service]''"
  by (simp_all add: plain_line_def)

lemma plain_lines:
  "ls \<in> rendered_lines np m addr \<Longrightarrow> list_all plain_line ls"
  unfolding rendered_lines_def pod_lines_def container_lines_def image_lines_def list_all_iff
  by (auto simp: plain_simps plain_others split: if_splits)

lemma product_lines: "line (np_run np) \<Longrightarrow> slug (mf_name m) \<Longrightarrow> v \<in> set (apps_volumes np m c) \<Longrightarrow> line v"
  by (auto simp: apps_volumes_def hass_volumes_def mosquitto_volumes_def files_volumes_def app_dir_def inbound_socket_def dest: slug_line
      split: if_splits)

lemma tier_line: "t \<in> set tiers \<Longrightarrow> line t"
  by (auto simp: tiers_def tier_data_def tier_files_def tier_cache_def tier_unversioned_def)

lemma mount_line: "slug (mf_name m) \<Longrightarrow> good_mount mt \<Longrightarrow> line (mount_volume m mt)"
  using tier_line [of "mt_tier mt"] slug_line [of "mf_name m"] slug_line [of "mt_dir mt"] safe_line [of "mt_path mt"]
  by (simp add: mount_volume_def area_def good_mount_def)

lemma rendered_are_lines:
  assumes "good_manifest m" and "line addr" and "line (np_run np)" and "line (np_bin np)" and "ls \<in> rendered_lines np m addr"
  shows "list_all line ls"
proof -
  have name: "slug (mf_name m)" "line (mf_name m)" using assms(1) slug_line by (simp_all add: good_manifest_def)
  have pod: "list_all line (pod_lines m addr)"
    using name assms(2) dec_line by (auto simp: pod_lines_def unit_prefix_def pod_network_def list_all_iff)
  have "list_all line (container_lines np m c) \<and> list_all line (image_lines m c)" if "c \<in> set (mf_containers m)" for c
  proof -
    have c: "good_container c" using assms(1) that by (simp add: good_manifest_def)
    have own: "line (co_name c)" "line (co_image c)" using c slug_line ref_line by (simp_all add: good_container_def)
    have mounts: "line (mount_volume m mt)" if "mt \<in> set (co_mounts c)" for mt
      using c that mount_line [OF name(1)] by (simp add: good_container_def)
    have env: "line k \<and> line v" if "(k, v) \<in> set (co_env c)" for k v
      using c that env_line safe_line by (auto simp: good_container_def)
    have vols: "line v" if "v \<in> set (apps_volumes np m c)" for v
      using product_lines [OF assms(3) name(1) that] .
    have user: "line (apps_user m c)" by (simp add: apps_user_def)
    show ?thesis
      using name own mounts env vols user dec_line escape_line assms(4)
      by (auto simp: container_lines_def image_lines_def container_name_def unit_prefix_def agent_bin_def list_all_iff)
  qed
  then show ?thesis using assms(5) pod by (auto simp: rendered_lines_def)
qed

lemma rendered_nonempty: "ls \<in> rendered_lines np m addr \<Longrightarrow> ls \<noteq> []"
  by (auto simp: rendered_lines_def pod_lines_def container_lines_def image_lines_def)

text \<open>
  C29: whatever a catalog publishes, each line of each file that is rendered from it is a section header, blank,
  or one of the directives the renderer writes: split at its line breaks a file is the list of lines the
  renderer chose, so no value of a manifest starts a directive of its own.
\<close>

theorem no_line_is_smuggled:
  assumes "render_app np m addr = Inr r" and "(f, body) \<in> set (re_files r)"
    and "line addr" and "line (np_run np)" and "line (np_bin np)"
  shows "\<exists>ls\<in>rendered_lines np m addr. split_on CHR 0x0A body = ls @ [[]] \<and> list_all plain_line ls"
proof -
  obtain ls where ls: "good_manifest m" "ls \<in> rendered_lines np m addr" "body = join_lines ls"
    using render_files [OF assms(1,2)] by blast
  have "split_on CHR 0x0A body = ls @ [[]]"
    unfolding ls(3) by (rule split_join_lines [OF rendered_nonempty [OF ls(2)] rendered_are_lines [OF ls(1) assms(3,4,5) ls(2)]])
  then show ?thesis using ls(2) plain_lines by blast
qed


section \<open>What a container sees of the node\<close>

definition with_key :: "string \<Rightarrow> string list \<Rightarrow> string list" where
  "with_key key ls = filter (prefix (key @ ''='')) ls"

lemma with_key_app: "with_key key (as @ bs) = with_key key as @ with_key key bs"
  by (simp add: with_key_def)

lemma container_volumes:
  "with_key ''Volume'' (container_lines np m c) =
     map (\<lambda>mt. ''Volume='' @ mount_volume m mt) (sort_key mt_path (co_mounts c)) @ map (\<lambda>v. ''Volume='' @ v) (apps_volumes np m c)"
  unfolding container_lines_def with_key_app by (simp add: with_key_def filter_map comp_def case_prod_beta)

lemma container_users:
  "with_key ''User'' (container_lines np m c) = (if apps_user m c \<noteq> [] then [''User='' @ apps_user m c] else [])"
  unfolding container_lines_def with_key_app by (simp add: with_key_def filter_map comp_def case_prod_beta)

lemma product_binds:
  "v \<in> set (apps_volumes np m c) \<Longrightarrow>
     co_primary c \<and> mf_name m \<in> {hass_app, mosquitto_app, files_app} \<and>
     (prefix ''/run/briard/'' v \<or> prefix (np_run np @ ''/'') v)"
  by (auto simp: apps_volumes_def hass_volumes_def mosquitto_volumes_def files_volumes_def needs_app_dir_def
      wants_inbound_def app_dir_def inbound_socket_def split: if_splits)

lemma tier_colon: "t \<in> set tiers \<Longrightarrow> CHR '':'' \<notin> set t"
  by (auto simp: tiers_def tier_data_def tier_files_def tier_cache_def tier_unversioned_def)

lemma slug_chars: "slug s \<Longrightarrow> CHR '':'' \<notin> set s \<and> CHR ''/'' \<notin> set s \<and> CHR ''.'' \<notin> set s"
  using slug_all [of s] slug_char_codes by (auto simp: list_all_iff)

text \<open>
  C30: of the node a container sees only plain directories of its own app's areas, one of them per mount of the
  manifest, and what the product itself binds for its own apps. The volumes of a container's file are one per
  mount, in the order of their paths, then the product's; the part of a mount's volume before the first
  colon is the area of a storage tier for this app followed by one plain name, so no manifest reaches
  another app's data, the node's files or a parent directory; what the product binds lies in the run-time
  directory and goes to the primary container of its three own apps alone. The user is the image's own: the
  file names one, and it is 0, only for the primary container of the app named files.
\<close>

theorem volumes_stay_in_the_apps_areas:
  assumes "good_manifest m" and "c \<in> set (mf_containers m)"
  shows "with_key ''Volume'' (container_lines np m c) =
      map (\<lambda>mt. ''Volume='' @ mount_volume m mt) (sort_key mt_path (co_mounts c)) @ map (\<lambda>v. ''Volume='' @ v) (apps_volumes np m c) \<and>
    (\<forall>mt\<in>set (co_mounts c).
      cut CHR '':'' (mount_volume m mt) = Some (''/var/lib/briard/'' @ mt_tier mt @ ''/'' @ mf_name m @ ''/'' @ mt_dir mt, mt_path mt) \<and>
      mt_tier mt \<in> set tiers \<and> CHR ''/'' \<notin> set (mf_name m) \<and> CHR ''/'' \<notin> set (mt_dir mt) \<and>
      mf_name m \<notin> {[], ''.'', ''..''} \<and> mt_dir mt \<notin> {[], ''.'', ''..''}) \<and>
    (\<forall>v\<in>set (apps_volumes np m c). co_primary c \<and> mf_name m \<in> {''home-assistant'', ''mosquitto'', ''files''} \<and>
      (prefix ''/run/briard/'' v \<or> prefix (np_run np @ ''/'') v)) \<and>
    with_key ''User'' (container_lines np m c) = (if mf_name m = ''files'' \<and> co_primary c then [''User=0''] else [])"
proof (intro conjI ballI)
  fix mt assume mt: "mt \<in> set (co_mounts c)"
  have good: "slug (mf_name m)" "good_mount mt"
    using assms mt by (auto simp: good_manifest_def good_container_def)
  have words: "slug (mt_dir mt)" "mt_tier mt \<in> set tiers" using good(2) by (simp_all add: good_mount_def)
  have "CHR '':'' \<notin> set (area (mt_tier mt) (mf_name m) @ ''/'' @ mt_dir mt)"
    using slug_chars [OF good(1)] slug_chars [OF words(1)] tier_colon [OF words(2)] by (simp add: area_def)
  from cut_app [OF this, of "mt_path mt"]
  show "cut CHR '':'' (mount_volume m mt) = Some (''/var/lib/briard/'' @ mt_tier mt @ ''/'' @ mf_name m @ ''/'' @ mt_dir mt, mt_path mt)"
    by (simp add: mount_volume_def area_def)
  show "mt_tier mt \<in> set tiers" "CHR ''/'' \<notin> set (mf_name m)" "CHR ''/'' \<notin> set (mt_dir mt)"
    using words(2) slug_chars [OF good(1)] slug_chars [OF words(1)] by blast+
  show "mf_name m \<notin> {[], ''.'', ''..''}" "mt_dir mt \<notin> {[], ''.'', ''..''}"
    using good(1) words(1) by (auto simp: slug_def lower_alnum_def is_digit_def)
next
  fix v assume "v \<in> set (apps_volumes np m c)"
  from product_binds [OF this] show "co_primary c" "mf_name m \<in> {''home-assistant'', ''mosquitto'', ''files''}"
    "prefix ''/run/briard/'' v \<or> prefix (np_run np @ ''/'') v"
    by (simp_all only: hass_app_def mosquitto_app_def files_app_def)
qed (simp_all add: container_volumes container_users apps_user_def files_app_def)

text \<open>
  The colon that the schema lets through: a mount path may hold one, and what follows it in the volume is where
  podman reads mount options.
\<close>

definition example_image :: string where
  "example_image = ''registry.example.com:5000/app@sha256:'' @ replicate 64 CHR ''a''"

definition example_container :: "string \<Rightarrow> container" where
  "example_container n =
     \<lparr>co_name = n, co_image = example_image, co_mounts = [], co_env = [], co_primary = True, co_port = 80, co_health = ''/''\<rparr>"

definition example_manifest :: "string \<Rightarrow> string \<Rightarrow> app_manifest" where
  "example_manifest app n =
     \<lparr>mf_name = app, mf_version = ''1'', mf_containers = [example_container n], mf_size = 0, mf_installed = 0, mf_memory = 0,
      mf_network = [], mf_ports = []\<rparr>"

lemma mount_path_carries_options:
  "good_mount \<lparr>mt_tier = tier_data, mt_dir = ''d'', mt_path = ''/x:dev,suid,exec''\<rparr>"
  by code_simp


section \<open>Units\<close>

lemma render_fold_units:
  "re_units (foldl (\<lambda>r c. render_container np m c r) r cs) = re_units r @ map (\<lambda>c. container_name (mf_name m) (co_name c) @ ''.service'') cs"
  "re_container_units (foldl (\<lambda>r c. render_container np m c r) r cs) =
     re_container_units r @ map (\<lambda>c. container_name (mf_name m) (co_name c) @ ''.service'') cs"
  "re_image_units (foldl (\<lambda>r c. render_container np m c r) r cs) =
     re_image_units r @ map (\<lambda>c. container_name (mf_name m) (co_name c) @ ''-image.service'') cs"
  by (induction cs arbitrary: r) (simp_all add: render_container_def Let_def)

lemma render_units:
  assumes "render_app np m addr = Inr r"
  shows "re_units r = (unit_prefix @ mf_name m @ ''-pod.service'') # re_container_units r"
    and "re_container_units r = map (\<lambda>c. container_name (mf_name m) (co_name c) @ ''.service'') (mf_containers m)"
    and "re_image_units r = map (\<lambda>c. container_name (mf_name m) (co_name c) @ ''-image.service'') (mf_containers m)"
    and "re_addr r = addr" and "good_manifest m"
  using assms by (auto simp: render_app_def Let_def render_fold_units validate_iff [symmetric] split: option.splits)

lemma service_names:
  "a @ ''-pod.service'' = a @ ''-'' @ n @ ''.service'' \<longleftrightarrow> n = ''pod''"
  "a @ ''-'' @ n @ ''.service'' = a @ ''-'' @ n' @ ''-image.service'' \<longleftrightarrow> n = n' @ ''-image''"
  "a @ ''-pod.service'' \<noteq> a @ ''-'' @ n' @ ''-image.service''"
proof -
  show "a @ ''-pod.service'' = a @ ''-'' @ n @ ''.service'' \<longleftrightarrow> n = ''pod''"
    using append_same_eq [of "''pod''" "''.service''" n] by auto
  show "a @ ''-'' @ n @ ''.service'' = a @ ''-'' @ n' @ ''-image.service'' \<longleftrightarrow> n = n' @ ''-image''"
    using append_same_eq [of n "''.service''" "n' @ ''-image''"] by auto
  have "''pod'' \<noteq> n' @ ''-image''" by (auto dest!: arg_cong [of _ _ length])
  then have "''pod.service'' \<noteq> n' @ ''-image.service''" using append_same_eq [of "''pod''" "''.service''" "n' @ ''-image''"] by auto
  then show "a @ ''-pod.service'' \<noteq> a @ ''-'' @ n' @ ''-image.service''" by simp
qed

lemma distinct_three:
  assumes "distinct (map f cs)" and "distinct (map g cs)"
  shows "(\<forall>c\<in>set cs. p \<noteq> g c) \<Longrightarrow> distinct ((p # map f cs) @ map g cs) \<longleftrightarrow>
     (\<forall>c\<in>set cs. p \<noteq> f c) \<and> (\<forall>c\<in>set cs. \<forall>d\<in>set cs. f c \<noteq> g d)"
  using assms by (auto simp: distinct_append)

text \<open>
  C31: the units of an app have names of their own exactly when no container is called pod and none is called as
  another followed by -image. Validation refuses neither name: the pod of an app and a container called pod
  are then one systemd unit.
\<close>

theorem units_are_distinct_iff:
  assumes "render_app np m addr = Inr r"
  shows "distinct (re_units r @ re_image_units r) \<longleftrightarrow>
     ''pod'' \<notin> co_name ` set (mf_containers m) \<and> (\<forall>c\<in>set (mf_containers m). co_name c @ ''-image'' \<notin> co_name ` set (mf_containers m))"
proof -
  let ?cs = "mf_containers m" and ?base = "unit_prefix @ mf_name m"
  have names: "distinct (map co_name ?cs)" using render_units(5) [OF assms] by (simp add: good_manifest_def)
  have s: "distinct (map (\<lambda>c. ?base @ ''-'' @ co_name c @ ''.service'') ?cs)" "distinct (map (\<lambda>c. ?base @ ''-'' @ co_name c @ ''-image.service'') ?cs)"
    using names by (auto simp: distinct_map inj_on_def)
  have eqs: "(?base @ ''-pod.service'' = ?base @ ''-'' @ co_name c @ ''.service'') = (co_name c = ''pod'')"
    "(?base @ ''-'' @ co_name c @ ''.service'' = ?base @ ''-'' @ co_name d @ ''-image.service'') = (co_name c = co_name d @ ''-image'')"
    "?base @ ''-pod.service'' \<noteq> ?base @ ''-'' @ co_name c @ ''-image.service''" for c d
    by (rule service_names)+
  have "distinct (re_units r @ re_image_units r) \<longleftrightarrow>
     (\<forall>c\<in>set ?cs. ?base @ ''-pod.service'' \<noteq> ?base @ ''-'' @ co_name c @ ''.service'') \<and>
     (\<forall>c\<in>set ?cs. \<forall>d\<in>set ?cs. ?base @ ''-'' @ co_name c @ ''.service'' \<noteq> ?base @ ''-'' @ co_name d @ ''-image.service'')"
    using distinct_three [OF s, of "?base @ ''-pod.service''"] eqs(3) render_units(1-3) [OF assms]
    by (simp add: container_name_def)
  also have "\<dots> \<longleftrightarrow> ''pod'' \<notin> co_name ` set ?cs \<and> (\<forall>c\<in>set ?cs. co_name c @ ''-image'' \<notin> co_name ` set ?cs)"
    unfolding eqs by (auto simp: image_iff eq_commute)
  finally show ?thesis .
qed


section \<open>The same manifest renders the same bytes\<close>

lemma filter_key: "distinct (map f zs) \<Longrightarrow> k \<in> set zs \<Longrightarrow> filter (\<lambda>x. f k = f x) zs = [k]"
proof (induction zs)
  case (Cons z zs)
  show ?case
  proof (cases "k = z")
    case True
    then have "filter (\<lambda>x. f k = f x) zs = []" using Cons.prems by (auto simp: filter_empty_conv)
    then show ?thesis using True by simp
  next
    case False
    then have k: "k \<in> set zs" using Cons.prems by simp
    then have "f k \<in> f ` set zs" by (rule imageI)
    then have "f k \<noteq> f z" using Cons.prems by auto
    then show ?thesis using Cons k by simp
  qed
qed simp

lemma sort_key_unique:
  assumes "mset xs = mset ys" and "distinct (map f xs)"
  shows "sort_key f xs = sort_key f ys"
proof (rule properties_for_sort_key)
  have "mset (map f (sort_key f ys)) = mset (map f xs)" using assms(1) by (simp add: multiset.map_comp)
  then have dy: "distinct (map f (sort_key f ys))" using assms(2) mset_eq_imp_distinct_iff by blast
  have sets: "set (sort_key f ys) = set xs" using assms(1) by (metis mset_eq_setD set_sort)
  show "mset (sort_key f ys) = mset xs" using assms(1) by simp
  show "sorted (map f (sort_key f ys))" by simp
  fix k assume "k \<in> set (sort_key f ys)"
  then show "filter (\<lambda>x. f k = f x) (sort_key f ys) = filter (\<lambda>x. f k = f x) xs"
    using filter_key [OF dy] filter_key [OF assms(2)] sets by simp
qed

text \<open>\<open>same_document\<close>: the environments are read in another order.\<close>

definition same_container :: "container \<Rightarrow> container \<Rightarrow> bool" where
  "same_container c d \<longleftrightarrow> d = c\<lparr>co_env := co_env d\<rparr> \<and> mset (co_env c) = mset (co_env d) \<and> distinct (map fst (co_env c))"

definition same_document :: "app_manifest \<Rightarrow> app_manifest \<Rightarrow> bool" where
  "same_document m m' \<longleftrightarrow> m' = m\<lparr>mf_containers := mf_containers m'\<rparr> \<and> list_all2 same_container (mf_containers m) (mf_containers m')"

lemma same_container_lines:
  assumes "same_container c d" and "m' = m\<lparr>mf_containers := cs\<rparr>"
  shows "container_lines np m' d = container_lines np m c \<and> image_lines m' d = image_lines m c \<and> good_container d = good_container c \<and>
     co_name d = co_name c \<and> co_primary d = co_primary c \<and> co_image d = co_image c"
proof -
  have d: "d = c\<lparr>co_env := co_env d\<rparr>" using assms(1) by (simp add: same_container_def)
  then have f: "co_name d = co_name c" "co_image d = co_image c" "co_mounts d = co_mounts c" "co_primary d = co_primary c"
    "co_port d = co_port c" "co_health d = co_health c" by (metis container.select_convs container.surjective container.update_convs)+
  have env: "sort_key fst (co_env d) = sort_key fst (co_env c)" "set (co_env d) = set (co_env c)"
    using assms(1) sort_key_unique [of "co_env c" "co_env d" fst] by (auto simp: same_container_def dest: mset_eq_setD)
  have vols: "apps_volumes np m' d = apps_volumes np m c" "apps_user m' d = apps_user m c"
    by (simp_all add: assms(2) f apps_volumes_def hass_volumes_def mosquitto_volumes_def files_volumes_def needs_app_dir_def wants_inbound_def apps_user_def)
  show ?thesis
    using f env vols
    by (simp add: assms(2) container_lines_def image_lines_def good_container_def mount_volume_def container_uses_tier_def)
qed

lemma same_containers_fold:
  assumes "list_all2 same_container cs ds" and "m' = m\<lparr>mf_containers := es\<rparr>"
  shows "foldl (\<lambda>r c. render_container np m' c r) r ds = foldl (\<lambda>r c. render_container np m c r) r cs \<and>
     ((\<forall>c\<in>set ds. good_container c) \<longleftrightarrow> (\<forall>c\<in>set cs. good_container c)) \<and> map co_name ds = map co_name cs \<and>
     length (filter co_primary ds) = length (filter co_primary cs)"
  using assms(1)
proof (induction arbitrary: r rule: list_all2_induct)
  case (Cons c cs d ds)
  note same = same_container_lines [OF Cons(1) assms(2), of np]
  have "render_container np m' d r = render_container np m c r"
    using same by (simp add: render_container_def assms(2))
  then show ?case using Cons.IH [of "render_container np m c r"] same by auto
qed simp

text \<open>
  C32: a manifest decoded twice renders the same bytes: the order in which Go iterates over the environment of a
  container, which differs between nodes and runs, decides neither whether the manifest is valid nor a
  byte of a unit, so nodes can compare their renderings.
\<close>

theorem rendering_does_not_depend_on_map_order:
  assumes "same_document m m'"
  shows "(validate_manifest m' = None \<longleftrightarrow> validate_manifest m = None) \<and>
     (validate_manifest m = None \<longrightarrow> render_app np m' addr = render_app np m addr)"
proof -
  have m': "m' = m\<lparr>mf_containers := mf_containers m'\<rparr>" and all: "list_all2 same_container (mf_containers m) (mf_containers m')"
    using assms by (auto simp: same_document_def)
  have f: "mf_name m' = mf_name m" "mf_version m' = mf_version m" "mf_network m' = mf_network m" "mf_ports m' = mf_ports m"
    "mf_size m' = mf_size m" "mf_installed m' = mf_installed m" "mf_memory m' = mf_memory m"
    by (subst m', simp)+
  note fold = same_containers_fold [OF all m', of np]
  have good: "good_manifest m' \<longleftrightarrow> good_manifest m"
    using fold unfolding good_manifest_def f host_network_def by simp
  have pod: "pod_lines m' addr = pod_lines m addr" by (simp add: pod_lines_def f host_network_def)
  show ?thesis
    using good fold unfolding validate_iff by (auto simp: render_app_def validate_iff [symmetric] f pod Let_def)
qed


section \<open>Examples\<close>

definition example_full :: app_manifest where
  "example_full =
     (example_manifest ''home-assistant'' ''ha'')\<lparr>mf_memory := 512, mf_size := 622000000, mf_installed := 2490000000,
        mf_containers := [(example_container ''ha'')\<lparr>co_mounts := [\<lparr>mt_tier = tier_data, mt_dir = ''config'', mt_path = ''/config''\<rparr>],
           co_env := [(''TZ'', ''Europe/Athens''), (''A'', ''100%'')]\<rparr>]\<rparr>"

lemma example_full_good: "validate_manifest example_full = None"
  by code_simp

lemma example_renders: "\<exists>r. render_app default_paths example_full ''10.88.0.2'' = Inr r"
  using example_full_good by (auto simp: render_app_def Let_def)

theorem no_line_is_smuggled_witness:
  "\<exists>ls. list_all plain_line ls \<and> split_on CHR 0x0A (join_lines (pod_lines example_full ''10.88.0.2'')) = ls @ [[]]"
proof -
  obtain r where r: "render_app default_paths example_full ''10.88.0.2'' = Inr r" using example_renders by blast
  have "(unit_prefix @ mf_name example_full @ ''.pod'', join_lines (pod_lines example_full ''10.88.0.2'')) \<in> set (re_files r)"
  proof -
    have "mf_containers example_full = [(example_container ''ha'')\<lparr>co_mounts := [\<lparr>mt_tier = tier_data, mt_dir = ''config'', mt_path = ''/config''\<rparr>],
           co_env := [(''TZ'', ''Europe/Athens''), (''A'', ''100%'')]\<rparr>]" by (simp add: example_full_def)
    then show ?thesis using r example_full_good
      by (auto simp: render_app_def Let_def render_container_def put_def container_name_def dest!: sym [of _ r])
  qed
  from no_line_is_smuggled [OF r this] show ?thesis
    by (auto simp: default_paths_def line_def)
qed

theorem volumes_stay_in_the_apps_areas_witness:
  "\<exists>rest. with_key ''Volume'' (container_lines default_paths example_full (hd (mf_containers example_full))) =
     ''Volume=/var/lib/briard/data/home-assistant/config:/config'' # rest \<and>
   with_key ''User'' (container_lines default_paths example_full (hd (mf_containers example_full))) = []"
proof -
  let ?c = "hd (mf_containers example_full)"
  have good: "good_manifest example_full" using example_full_good by (simp add: validate_iff)
  have c: "?c \<in> set (mf_containers example_full)" by (simp add: example_full_def)
  have "mf_name example_full \<noteq> ''files''" by (simp add: example_full_def example_manifest_def)
  moreover have "map (\<lambda>mt. ''Volume='' @ mount_volume example_full mt) (sort_key mt_path (co_mounts ?c)) =
      [''Volume=/var/lib/briard/data/home-assistant/config:/config'']" by code_simp
  ultimately show ?thesis
    using volumes_stay_in_the_apps_areas [OF good c, of default_paths] by simp
qed

theorem units_are_distinct_iff_witness:
  "\<exists>r. render_app default_paths (example_manifest ''a'' ''pod'') [] = Inr r \<and> \<not> distinct (re_units r @ re_image_units r)"
proof -
  have "validate_manifest (example_manifest ''a'' ''pod'') = None" by code_simp
  then obtain r where r: "render_app default_paths (example_manifest ''a'' ''pod'') [] = Inr r" by (auto simp: render_app_def Let_def)
  have "''pod'' \<in> co_name ` set (mf_containers (example_manifest ''a'' ''pod''))"
    by (simp add: example_manifest_def example_container_def)
  then show ?thesis using units_are_distinct_iff [OF r] r by blast
qed

theorem rendering_does_not_depend_on_map_order_witness:
  "render_app default_paths (example_full\<lparr>mf_containers := [(hd (mf_containers example_full))\<lparr>co_env := [(''A'', ''100%''), (''TZ'', ''Europe/Athens'')]\<rparr>]\<rparr>) [] =
   render_app default_paths example_full []"
proof -
  have "same_document example_full (example_full\<lparr>mf_containers := [(hd (mf_containers example_full))\<lparr>co_env := [(''A'', ''100%''), (''TZ'', ''Europe/Athens'')]\<rparr>]\<rparr>)"
    by (simp add: same_document_def same_container_def example_full_def)
  from rendering_does_not_depend_on_map_order [OF this] example_full_good show ?thesis by blast
qed

end
