(* ===== verification/Url.thy ===== *)
theory Url
  imports AppManifest
begin

text \<open>
  \<open>net/url\<close> of Go 1.25 as the routing table and the front door use it: \<open>url.Parse\<close> with its authority, escapes and
  ports, \<open>Hostname\<close> and \<open>Port\<close>, and \<open>net.JoinHostPort\<close>. Text is bytes; what no caller reads of an URL (the
  forced query, the raw forms of path and fragment) is left out.
\<close>


section \<open>Words\<close>

definition hex_digit :: "char \<Rightarrow> bool" where
  "hex_digit c \<longleftrightarrow> hex_lower c \<or> (65 \<le> (of_char c :: nat) \<and> (of_char c :: nat) \<le> 70)"

definition unhex :: "char \<Rightarrow> nat" where
  "unhex c = (if is_digit c then of_char c - 48 else if hex_lower c then of_char c - 87 else of_char c - 55)"

definition lower_char :: "char \<Rightarrow> char" where
  "lower_char c = (if 65 \<le> (of_char c :: nat) \<and> (of_char c :: nat) \<le> 90 then char_of ((of_char c :: nat) + 32) else c)"

definition to_lower :: "string \<Rightarrow> string" where "to_lower = map lower_char"

definition last_cut :: "char \<Rightarrow> string \<Rightarrow> (string \<times> string) option" where
  "last_cut sep s = map_option (\<lambda>(after, before). (rev before, rev after)) (cut sep (rev s))"

definition index_of :: "string \<Rightarrow> string \<Rightarrow> nat option" where
  "index_of w s = find (\<lambda>i. prefix w (drop i s)) [0..<Suc (length s)]"

text \<open>\<open>strings.Cut\<close> keeps the whole when the separator is not there.\<close>

definition before :: "char \<Rightarrow> string \<Rightarrow> string" where "before sep s = takeWhile (\<lambda>c. c \<noteq> sep) s"
definition after :: "char \<Rightarrow> string \<Rightarrow> string" where "after sep s = drop 1 (dropWhile (\<lambda>c. c \<noteq> sep) s)"


section \<open>Escapes\<close>

datatype url_mode = ModePath | ModeFragment | ModeUser | ModeHost | ModeZone

definition host_char :: "char \<Rightarrow> bool" where
  "host_char c \<longleftrightarrow> alnum c \<or> c \<in> set ''-_.~!$&'()*+,;=:[]<>'' \<or> c = CHR 0x22"

definition escape_allowed :: "url_mode \<Rightarrow> char \<Rightarrow> char \<Rightarrow> bool" where
  "escape_allowed md a b \<longleftrightarrow>
     (case md of
        ModeHost \<Rightarrow> 8 \<le> unhex a \<or> (a = CHR ''2'' \<and> b = CHR ''5'')
      | ModeZone \<Rightarrow> (a = CHR ''2'' \<and> b = CHR ''5'') \<or> 16 * unhex a + unhex b = 32 \<or> host_char (char_of (16 * unhex a + unhex b))
      | _ \<Rightarrow> True)"

definition refused_char :: "url_mode \<Rightarrow> char \<Rightarrow> bool" where
  "refused_char md c \<longleftrightarrow> (md = ModeHost \<or> md = ModeZone) \<and> (of_char c :: nat) < 128 \<and> \<not> host_char c"

fun unescape :: "url_mode \<Rightarrow> string \<Rightarrow> string option" where
  "unescape md [] = Some []"
| "unescape md (c # cs) =
     (if c = CHR ''%'' then
        (case cs of
           a # b # rest \<Rightarrow>
             if hex_digit a \<and> hex_digit b \<and> escape_allowed md a b
             then map_option (Cons (char_of (16 * unhex a + unhex b))) (unescape md rest) else None
         | _ \<Rightarrow> None)
      else if refused_char md c then None
      else map_option (Cons c) (unescape md cs))"


section \<open>Hosts and ports\<close>

fun valid_optional_port :: "string \<Rightarrow> bool" where
  "valid_optional_port [] = True"
| "valid_optional_port (c # cs) \<longleftrightarrow> c = CHR '':'' \<and> list_all is_digit cs"

definition split_host_port :: "string \<Rightarrow> string \<times> string" where
  "split_host_port hp =
     (let (h, p) = (case last_cut CHR '':'' hp of
                      None \<Rightarrow> (hp, [])
                    | Some (h, p) \<Rightarrow> if list_all is_digit p then (h, p) else (hp, []))
      in (if prefix ''['' h \<and> suffix '']'' h then butlast (tl h) else h, p))"

definition join_host_port :: "string \<Rightarrow> string \<Rightarrow> string" where
  "join_host_port h p = (if CHR '':'' \<in> set h then ''['' @ h @ '']:'' @ p else h @ '':'' @ p)"

definition parse_host :: "string \<Rightarrow> string option" where
  "parse_host host =
     (if prefix ''['' host then
        (case last_cut CHR '']'' host of
           None \<Rightarrow> None
         | Some (inside, colon_port) \<Rightarrow>
             if \<not> valid_optional_port colon_port then None
             else (case index_of ''%25'' inside of
                     None \<Rightarrow> unescape ModeHost host
                   | Some z \<Rightarrow>
                       (case (unescape ModeHost (take z inside), unescape ModeZone (drop z inside), unescape ModeHost ('']'' @ colon_port)) of
                          (Some h1, Some h2, Some h3) \<Rightarrow> Some (h1 @ h2 @ h3)
                        | _ \<Rightarrow> None)))
      else
        (case last_cut CHR '':'' host of
           None \<Rightarrow> unescape ModeHost host
         | Some (_, p) \<Rightarrow> if valid_optional_port (CHR '':'' # p) then unescape ModeHost host else None))"

definition user_char :: "char \<Rightarrow> bool" where
  "user_char c \<longleftrightarrow> alnum c \<or> c \<in> set ''-._:~!$&'()*+,;=%@''"

definition parse_user :: "string \<Rightarrow> (string \<times> string option) option" where
  "parse_user u =
     (if \<not> list_all user_char u then None
      else case cut CHR '':'' u of
             None \<Rightarrow> map_option (\<lambda>n. (n, None)) (unescape ModeUser u)
           | Some (n, pw) \<Rightarrow>
               (case (unescape ModeUser n, unescape ModeUser pw) of
                  (Some n', Some pw') \<Rightarrow> Some (n', Some pw')
                | _ \<Rightarrow> None))"

definition parse_authority :: "string \<Rightarrow> ((string \<times> string option) option \<times> string) option" where
  "parse_authority a =
     (case last_cut CHR ''@'' a of
        None \<Rightarrow> map_option (\<lambda>h. (None, h)) (parse_host a)
      | Some (u, host) \<Rightarrow>
          (case (parse_host host, parse_user u) of
             (Some h, Some user) \<Rightarrow> Some (Some user, h)
           | _ \<Rightarrow> None))"


section \<open>Parsing\<close>

record url =
  u_scheme :: string
  u_opaque :: string
  u_user :: "(string \<times> string option) option"
  u_host :: string
  u_path :: string
  u_query :: string
  u_fragment :: string

definition empty_url :: url where
  "empty_url = \<lparr>u_scheme = [], u_opaque = [], u_user = None, u_host = [], u_path = [], u_query = [], u_fragment = []\<rparr>"

definition ctl_char :: "char \<Rightarrow> bool" where "ctl_char c \<longleftrightarrow> (of_char c :: nat) < 32 \<or> (of_char c :: nat) = 127"

definition letter :: "char \<Rightarrow> bool" where "letter c \<longleftrightarrow> alnum c \<and> \<not> is_digit c"

text \<open>\<open>getScheme\<close>: an error, or the scheme and the rest.\<close>

fun scheme_at :: "string \<Rightarrow> string \<Rightarrow> string \<Rightarrow> (string \<times> string) option" where
  "scheme_at whole sofar [] = Some ([], whole)"
| "scheme_at whole sofar (c # cs) =
     (if letter c then scheme_at whole (c # sofar) cs
      else if is_digit c \<or> c \<in> set ''+-.'' then (if sofar = [] then Some ([], whole) else scheme_at whole (c # sofar) cs)
      else if c = CHR '':'' then (if sofar = [] then None else Some (rev sofar, cs))
      else Some ([], whole))"

definition get_scheme :: "string \<Rightarrow> (string \<times> string) option" where "get_scheme raw = scheme_at raw [] raw"

definition drop_query :: "string \<Rightarrow> string \<times> string" where
  "drop_query rest =
     (if suffix ''?'' rest \<and> length (filter (\<lambda>c. c = CHR ''?'') rest) = 1 then (butlast rest, [])
      else (before CHR ''?'' rest, after CHR ''?'' rest))"

definition with_path :: "string \<Rightarrow> url \<Rightarrow> url option" where
  "with_path p u = map_option (\<lambda>q. u\<lparr>u_path := q\<rparr>) (unescape ModePath p)"

definition parse_rest :: "string \<Rightarrow> string \<Rightarrow> url option" where
  "parse_rest scheme rest0 =
     (let (rest, query) = drop_query rest0; u = empty_url\<lparr>u_scheme := scheme, u_query := query\<rparr>
      in if \<not> prefix ''/'' rest \<and> scheme \<noteq> [] then Some (u\<lparr>u_opaque := rest\<rparr>)
         else if \<not> prefix ''/'' rest \<and> CHR '':'' \<in> set (before CHR ''/'' rest) then None
         else if (scheme \<noteq> [] \<or> \<not> prefix ''///'' rest) \<and> prefix ''//'' rest then
           (let a = before CHR ''/'' (drop 2 rest); p = drop (length a) (drop 2 rest)
            in case parse_authority a of
                 None \<Rightarrow> None
               | Some (user, h) \<Rightarrow> with_path p (u\<lparr>u_user := user, u_host := h\<rparr>))
         else with_path rest u)"

definition parse_url :: "string \<Rightarrow> url option" where
  "parse_url raw =
     (let main = before CHR ''#'' raw; frag = after CHR ''#'' raw
      in if list_ex ctl_char main then None
         else case (if main = ''*'' then Some (empty_url\<lparr>u_path := ''*''\<rparr>)
                    else case get_scheme main of
                           None \<Rightarrow> None
                         | Some (scheme, rest) \<Rightarrow> parse_rest (to_lower scheme) rest) of
                None \<Rightarrow> None
              | Some u \<Rightarrow> map_option (\<lambda>f. u\<lparr>u_fragment := f\<rparr>) (unescape ModeFragment frag))"

definition url_hostname :: "url \<Rightarrow> string" where "url_hostname u = fst (split_host_port (u_host u))"
definition url_port :: "url \<Rightarrow> string" where "url_port u = snd (split_host_port (u_host u))"


section \<open>Lower case\<close>

lemma lower_code:
  "(of_char (lower_char c) :: nat) = (if 65 \<le> (of_char c :: nat) \<and> (of_char c :: nat) \<le> 90 then of_char c + 32 else of_char c)"
  by (simp add: lower_char_def)

lemma lower_fixes: "lower_char c = d \<Longrightarrow> \<not> (97 \<le> (of_char d :: nat) \<and> (of_char d :: nat) \<le> 122) \<Longrightarrow> c = d"
proof (cases "65 \<le> (of_char c :: nat) \<and> (of_char c :: nat) \<le> 90")
  case True
  then show "lower_char c = d \<Longrightarrow> \<not> (97 \<le> (of_char d :: nat) \<and> (of_char d :: nat) \<le> 122) \<Longrightarrow> c = d" using lower_code [of c] by simp
qed (simp_all add: lower_char_def)

lemma lower_digit: "is_digit c \<Longrightarrow> lower_char c = c"
  by (simp add: is_digit_def lower_char_def)

lemma lower_digits: "list_all is_digit ds \<Longrightarrow> to_lower ds = ds"
  by (induction ds) (simp_all add: to_lower_def lower_digit)


section \<open>What is joined splits again\<close>

lemma last_cut_app: "sep \<notin> set b \<Longrightarrow> last_cut sep (a @ sep # b) = Some (a, b)"
  using cut_app [of sep "rev b" "rev a"] by (simp add: last_cut_def)

lemma last_cut_None: "sep \<notin> set a \<Longrightarrow> last_cut sep a = None"
  by (simp add: last_cut_def cut_None)

lemma digits_no_colon: "list_all is_digit p \<Longrightarrow> CHR '':'' \<notin> set p"
  by (auto simp: list_all_iff is_digit_def)

lemma split_join:
  assumes "list_all is_digit p" and "CHR ''['' \<notin> set h"
  shows "split_host_port (join_host_port h p) = (h, p)"
proof -
  have hd: "\<not> prefix ''['' h" using assms(2) by (cases h) auto
  have "CHR '':'' \<notin> set p" by (rule digits_no_colon [OF assms(1)])
  from last_cut_app [OF this, of h] last_cut_app [OF this, of "''['' @ h @ '']''"]
  show ?thesis using assms(1) hd
    by (simp add: join_host_port_def split_host_port_def suffix_def butlast_append)
qed

lemma url_port_digits: "list_all is_digit (url_port u)"
  by (auto simp: url_port_def split_host_port_def Let_def split: option.splits prod.splits)

end
