(* ===== verification/Routes.thy ===== *)
theory Routes
  imports Url
begin

text \<open>
  The routing table of the front door (\<open>shared/routes/routes.go\<close>): the document that converge writes and the
  reverse proxy reads, the names of apps and flocks, and the lookup of a request's host.

  JSON is a parameter of \<open>parse_table\<close>. Lower-casing and trimming are those of ASCII: a host header with other
  letters names no app of a table whose names are ASCII.
\<close>


section \<open>The table\<close>

record announcement =
  an_name :: string
  an_type :: string
  an_port :: int

record route =
  rt_listen :: string
  rt_to :: string

record app_entry =
  ap_name :: string
  ap_hosts :: "string list"
  ap_address :: string
  ap_health :: string
  ap_routes :: "route list"
  ap_ports :: "int list"
  ap_announce :: "announcement list"
  ap_gate :: string

type_synonym table = "app_entry list"

definition listen_name :: string where "listen_name = ''name''"
definition casa_zone :: string where "casa_zone = ''briard.casa''"


section \<open>Names\<close>

definition host_name :: "string \<Rightarrow> string \<Rightarrow> string" where
  "host_name flock app = (if flock = [] \<or> app = [] then [] else ''briard-'' @ flock @ ''-'' @ app @ ''.local'')"

definition bare_host_name :: "string \<Rightarrow> string" where
  "bare_host_name app = (if app = [] then [] else ''briard-'' @ app @ ''.local'')"

definition casa_host_name :: "string \<Rightarrow> string \<Rightarrow> string" where
  "casa_host_name flock app = (if flock = [] \<or> app = [] then [] else app @ ''.'' @ flock @ ''.'' @ casa_zone)"

definition host_names :: "string \<Rightarrow> string \<Rightarrow> string list" where
  "host_names flock app =
     (let h = host_name flock app in if h = [] then [] else [h, bare_host_name app, casa_host_name flock app])"

definition trim_suffix :: "string \<Rightarrow> string \<Rightarrow> string" where
  "trim_suffix w s = (if suffix w s then take (length s - length w) s else s)"

definition instance_name :: "string \<Rightarrow> string \<Rightarrow> string" where
  "instance_name flock app = trim_suffix ''.local'' (host_name flock app)"

definition flock_host_name :: "string \<Rightarrow> string" where
  "flock_host_name flock = (if flock = [] then [] else ''briard-'' @ flock @ ''.local'')"

definition bare_flock_host_name :: string where "bare_flock_host_name = ''briard.local''"


section \<open>Validation\<close>

datatype routes_error =
    AppUnnamed
  | SpecNotUrl string
  | SpecScheme string
  | SpecNamesHost string
  | SpecNoPort string
  | UnknownListener string
  | GateNotClean string
  | NoAddress string
  | AnnounceUnnamed
  | AnnounceSpace string
  | AnnounceType string
  | AnnouncePort int
  | AnnounceNoTarget
  | TableNotDecoded

definition check_spec :: "string \<Rightarrow> routes_error option" where
  "check_spec spec =
     (case parse_url spec of
        None \<Rightarrow> Some (SpecNotUrl spec)
      | Some u \<Rightarrow>
          first_error
            [refuse (u_scheme u \<noteq> ''http'') (SpecScheme spec),
             refuse (url_hostname u \<noteq> []) (SpecNamesHost spec),
             refuse (url_port u = []) (SpecNoPort spec)])"

text \<open>\<open>^_[a-z0-9]([a-z0-9-]{0,13}[a-z0-9])?\._(tcp|udp)$\<close>\<close>

definition service_label :: "string \<Rightarrow> bool" where
  "service_label l \<longleftrightarrow> l \<noteq> [] \<and> length l \<le> 15 \<and> lower_alnum (hd l) \<and> lower_alnum (last l) \<and> list_all slug_char l"

definition service_type :: "string \<Rightarrow> bool" where
  "service_type s \<longleftrightarrow> prefix ''_'' s \<and> (suffix ''._tcp'' s \<or> suffix ''._udp'' s) \<and> service_label (take (length s - 6) (tl s))"

definition check_announcement :: "app_entry \<Rightarrow> announcement \<Rightarrow> routes_error option" where
  "check_announcement s a =
     first_error
       [refuse (an_name a = []) AnnounceUnnamed,
        refuse (list_ex (\<lambda>c. c = CHR 0x09 \<or> c = CHR 0x0D \<or> c = CHR 0x0A) (an_name a)) (AnnounceSpace (an_name a)),
        refuse (\<not> service_type (an_type a)) (AnnounceType (an_type a)),
        refuse (an_port a < 1 \<or> 65535 < an_port a) (AnnouncePort (an_port a)),
        refuse (ap_hosts s = []) AnnounceNoTarget]"

definition check_route :: "route \<Rightarrow> routes_error option" where
  "check_route r = first_error [refuse (rt_listen r \<noteq> listen_name) (UnknownListener (rt_listen r)), check_spec (rt_to r)]"

definition check_app :: "app_entry \<Rightarrow> routes_error option" where
  "check_app s =
     first_error
       [refuse (ap_name s = []) AppUnnamed,
        if ap_health s \<noteq> [] then check_spec (ap_health s) else None,
        first_error (map check_route (ap_routes s)),
        refuse (ap_gate s \<noteq> [] \<and> (\<not> path_is_abs (ap_gate s) \<or> path_clean_abs (ap_gate s) \<noteq> ap_gate s)) (GateNotClean (ap_gate s)),
        refuse ((ap_health s \<noteq> [] \<or> ap_routes s \<noteq> []) \<and> ap_address s = []) (NoAddress (ap_name s)),
        first_error (map (check_announcement s) (ap_announce s))]"

definition validate_table :: "table \<Rightarrow> routes_error option" where
  "validate_table t = first_error (map check_app t)"

definition parse_table :: "(string \<Rightarrow> table option) \<Rightarrow> string \<Rightarrow> routes_error + table" where
  "parse_table decode raw =
     (case decode raw of
        None \<Rightarrow> Inl TableNotDecoded
      | Some t \<Rightarrow> (case validate_table t of None \<Rightarrow> Inr t | Some e \<Rightarrow> Inl e))"


section \<open>What readers ask of it\<close>

definition resolve_spec :: "app_entry \<Rightarrow> string \<Rightarrow> routes_error + url" where
  "resolve_spec s spec =
     (case parse_url spec of
        None \<Rightarrow> Inl (SpecNotUrl spec)
      | Some u \<Rightarrow>
          if ap_address s = [] then Inl (NoAddress (ap_name s))
          else if url_hostname u \<noteq> [] then Inl (SpecNamesHost spec)
          else Inr (u\<lparr>u_host := join_host_port (ap_address s) (url_port u)\<rparr>))"

definition route_of :: "app_entry \<Rightarrow> string \<Rightarrow> route option" where
  "route_of s listen = find (\<lambda>r. rt_listen r = listen) (ap_routes s)"

definition normalise :: "string \<Rightarrow> string" where
  "normalise host =
     (let h = to_lower (trim_space host);
          h' = (case last_cut CHR '']'' h of
                  Some (a, _) \<Rightarrow> a @ '']''
                | None \<Rightarrow> (case last_cut CHR '':'' h of
                            Some (a, _) \<Rightarrow> if CHR '':'' \<in> set a then h else a
                          | None \<Rightarrow> h))
      in trim_suffix ''.'' h')"

definition lookup_host :: "table \<Rightarrow> string \<Rightarrow> app_entry option" where
  "lookup_host t host =
     (let h = normalise host
      in if h = [] then None else find (\<lambda>s. list_ex (\<lambda>n. normalise n = h) (ap_hosts s)) t)"

definition get_app :: "table \<Rightarrow> string \<Rightarrow> app_entry option" where
  "get_app t name = find (\<lambda>s. ap_name s = name) t"


section \<open>Checks\<close>

lemma check_spec_None:
  "check_spec spec = None \<longleftrightarrow>
   (\<exists>u. parse_url spec = Some u \<and> u_scheme u = ''http'' \<and> url_hostname u = [] \<and> url_port u \<noteq> [])"
  by (auto simp: check_spec_def first_error_None split: option.split)

lemma check_app_None:
  "check_app s = None \<longleftrightarrow>
   ap_name s \<noteq> [] \<and> (ap_health s \<noteq> [] \<longrightarrow> check_spec (ap_health s) = None) \<and>
   (\<forall>r\<in>set (ap_routes s). rt_listen r = listen_name \<and> check_spec (rt_to r) = None) \<and>
   (ap_gate s \<noteq> [] \<longrightarrow> path_is_abs (ap_gate s) \<and> path_clean_abs (ap_gate s) = ap_gate s) \<and>
   (ap_health s \<noteq> [] \<or> ap_routes s \<noteq> [] \<longrightarrow> ap_address s \<noteq> []) \<and>
   (\<forall>a\<in>set (ap_announce s). check_announcement s a = None)"
  by (auto simp: check_app_def first_error_None check_route_def list_all_iff)

lemma validate_table_None: "validate_table t = None \<longleftrightarrow> (\<forall>s\<in>set t. check_app s = None)"
  by (auto simp: validate_table_def first_error_None list_all_iff)

text \<open>What the readers of an app's entry may dial.\<close>

definition specs :: "app_entry \<Rightarrow> string set" where
  "specs s = ({ap_health s} - {[]}) \<union> rt_to ` set (ap_routes s)"

lemma specs_checked:
  "check_app s = None \<Longrightarrow> spec \<in> specs s \<Longrightarrow> check_spec spec = None \<and> ap_address s \<noteq> []"
  by (auto simp: specs_def check_app_None)

text \<open>
  C38: no table can point the door at another machine: whatever was decoded, if it validates then each endpoint
  of each app is a URL that names a port, and resolves, to plain HTTP at the app's own address and that very port, with
  the endpoint's own path and query, whatever else its text holds. Unless the table's address holds an
  opening bracket, which no host name or address does, the host and the port that are read back from the resolved
  URL are that address and that port.
\<close>

theorem endpoints_stay_at_the_apps_address:
  assumes "parse_table decode raw = Inr t" and "s \<in> set t" and "spec \<in> specs s"
  shows "\<exists>u0 u. parse_url spec = Some u0 \<and> resolve_spec s spec = Inr u \<and> u_scheme u = ''http'' \<and>
     url_port u0 \<noteq> [] \<and> list_all is_digit (url_port u0) \<and>
     u_host u = join_host_port (ap_address s) (url_port u0) \<and> u_path u = u_path u0 \<and> u_query u = u_query u0 \<and>
     (CHR ''['' \<notin> set (ap_address s) \<longrightarrow> url_hostname u = ap_address s \<and> url_port u = url_port u0)"
proof -
  have "validate_table t = None"
    using assms(1) by (auto simp: parse_table_def split: option.splits)
  then have "check_app s = None" using assms(2) by (simp add: validate_table_None)
  note ok = specs_checked [OF this assms(3)]
  then obtain u where u: "parse_url spec = Some u" "u_scheme u = ''http''" "url_hostname u = []" "url_port u \<noteq> []"
    by (auto simp: check_spec_None)
  let ?u = "u\<lparr>u_host := join_host_port (ap_address s) (url_port u)\<rparr>"
  have "resolve_spec s spec = Inr ?u" using u ok by (simp add: resolve_spec_def)
  moreover have "CHR ''['' \<notin> set (ap_address s) \<longrightarrow> url_hostname ?u = ap_address s \<and> url_port ?u = url_port u"
    using split_join [OF url_port_digits] by (simp add: url_hostname_def url_port_def)
  ultimately show ?thesis using u(1,2,4) url_port_digits by (intro exI [of _ u] exI [of _ ?u]) simp
qed


section \<open>Hosts as they are typed\<close>

definition plain_char :: "char \<Rightarrow> bool" where
  "plain_char c \<longleftrightarrow> \<not> is_space c \<and> c \<noteq> CHR '':'' \<and> c \<noteq> CHR '']''"

lemma lower_plain: "plain_char (lower_char c) \<longleftrightarrow> plain_char c"
proof -
  have code: "plain_char d \<longleftrightarrow> (of_char d :: nat) \<notin> {32, 58, 93} \<and> \<not> (9 \<le> (of_char d :: nat) \<and> (of_char d :: nat) \<le> 13)" for d
  proof -
    have "d = CHR '' '' \<longleftrightarrow> (of_char d :: nat) = of_char CHR '' ''" "d = CHR '':'' \<longleftrightarrow> (of_char d :: nat) = of_char CHR '':''"
      "d = CHR '']'' \<longleftrightarrow> (of_char d :: nat) = of_char CHR '']''"
      by (simp_all only: of_char_eq_iff)
    then have "d = CHR '' '' \<longleftrightarrow> (of_char d :: nat) = 32" "d = CHR '':'' \<longleftrightarrow> (of_char d :: nat) = 58" "d = CHR '']'' \<longleftrightarrow> (of_char d :: nat) = 93"
      by simp_all
    then show ?thesis by (simp only: plain_char_def is_space_def insert_iff empty_iff) blast
  qed
  show ?thesis using lower_code [of c] by (auto simp: code split: if_splits)
qed

lemma trim_plain: "list_all (\<lambda>c. \<not> is_space c) s \<Longrightarrow> trim_space s = s"
proof -
  assume s: "list_all (\<lambda>c. \<not> is_space c) s"
  have keep: "list_all (\<lambda>c. \<not> is_space c) w \<Longrightarrow> dropWhile is_space w = w" for w by (cases w) auto
  show ?thesis using keep [OF s] keep [of "rev s"] s by (simp add: trim_space_def)
qed

lemma trim_outer: "list_all is_space a \<Longrightarrow> list_all is_space b \<Longrightarrow> list_all (\<lambda>c. \<not> is_space c) s \<Longrightarrow> trim_space (a @ s @ b) = s"
proof -
  assume a: "list_all is_space a" and b: "list_all is_space b" and s: "list_all (\<lambda>c. \<not> is_space c) s"
  have front: "dropWhile is_space (x @ y) = dropWhile is_space y" if "list_all is_space x" for x y
    using that by (induction x) auto
  have "rev (dropWhile is_space (rev (dropWhile is_space (s @ b)))) = s"
  proof (cases s)
    case Nil
    have "dropWhile is_space b = []" using b by (induction b) simp_all
    then show ?thesis unfolding Nil append_Nil by (simp only: rev.simps dropWhile.simps)
  next
    case (Cons c cs)
    then have "dropWhile is_space (s @ b) = s @ b" using s by simp
    moreover have "dropWhile is_space (rev s) = rev s" using trim_plain [OF s] s by (cases "rev s") (auto simp: list_all_iff dest: arg_cong [of _ _ set])
    ultimately show ?thesis using front [of "rev b" "rev s"] b by simp
  qed
  then show ?thesis using front [OF a] by (simp add: trim_space_def)
qed

lemma normalise_plain:
  assumes "list_all plain_char n" and "list_all is_space a" and "list_all is_space b" and "port = [] \<or> (\<exists>ds. port = CHR '':'' # ds \<and> list_all is_digit ds)"
  shows "normalise (a @ (n @ port) @ b) = trim_suffix ''.'' (to_lower n)"
proof -
  have ns: "list_all (\<lambda>c. \<not> is_space c) (n @ port)"
  proof -
    have "list_all (\<lambda>c. \<not> is_space c) n" using assms(1) by (simp add: list_all_iff plain_char_def)
    moreover have "\<not> is_space CHR '':''" by (simp add: is_space_def)
    ultimately show ?thesis using assms(4) digits_not_space by auto
  qed
  have low: "CHR '':'' \<notin> set (to_lower n)" "CHR '']'' \<notin> set (to_lower n)"
  proof -
    have "list_all plain_char (to_lower n)" using assms(1) by (simp add: to_lower_def list_all_iff lower_plain)
    moreover have "\<not> plain_char CHR '':''" "\<not> plain_char CHR '']''" by (simp_all add: plain_char_def)
    ultimately show "CHR '':'' \<notin> set (to_lower n)" "CHR '']'' \<notin> set (to_lower n)" by (auto simp: list_all_iff)
  qed
  have t: "trim_space (a @ (n @ port) @ b) = n @ port" by (rule trim_outer [OF assms(2,3) ns])
  show ?thesis
  proof (cases "port = []")
    case True
    then show ?thesis using t low by (simp add: normalise_def last_cut_None Let_def)
  next
    case False
    then obtain ds where ds: "port = CHR '':'' # ds" "list_all is_digit ds" using assms(4) by blast
    have "lower_char CHR '':'' = CHR '':''" by (simp add: lower_char_def)
    then have p: "to_lower (n @ port) = to_lower n @ CHR '':'' # ds"
      using lower_digits [OF ds(2)] by (simp add: ds(1) to_lower_def)
    have nd: "CHR '':'' \<notin> set ds" "CHR '']'' \<notin> set ds" using ds(2) by (auto simp: list_all_iff is_digit_def)
    have l1: "last_cut CHR '']'' (to_lower n @ CHR '':'' # ds) = None" using low nd by (intro last_cut_None) auto
    have l2: "last_cut CHR '':'' (to_lower n @ CHR '':'' # ds) = Some (to_lower n, ds)" by (rule last_cut_app [OF nd(1)])
    show ?thesis using t p l1 l2 low by (simp add: normalise_def Let_def)
  qed
qed

text \<open>
  A household finds an app however it types the name: in any case, as a fully qualified name with its dot,
  with a port, with white space around it, the lookup answers as it does for the plain name.
\<close>

lemma lookup_ignores_how_it_is_typed:
  assumes "list_all plain_char n" and "to_lower n' = to_lower n" and "n \<noteq> []" and "last n \<noteq> CHR ''.''"
    and "dot \<in> {[], ''.''}" and "port = [] \<or> (\<exists>ds. port = CHR '':'' # ds \<and> list_all is_digit ds)"
    and "list_all is_space a" and "list_all is_space b"
  shows "lookup_host t (a @ n' @ dot @ port @ b) = lookup_host t n"
proof -
  have low: "to_lower n \<noteq> []" "last (to_lower n) \<noteq> CHR ''.''"
  proof -
    show "to_lower n \<noteq> []" using assms(3) by (simp add: to_lower_def)
    have "lower_char (last n) \<noteq> CHR ''.''" using assms(4) lower_fixes [of "last n" "CHR ''.''"] by auto
    then show "last (to_lower n) \<noteq> CHR ''.''" using assms(3) by (simp add: to_lower_def last_map)
  qed
  have nosuf: "\<not> suffix ''.'' (to_lower n)"
    using low by (auto simp: suffix_def)
  have plain': "list_all plain_char n'"
  proof (unfold list_all_iff, rule ballI)
    fix c assume c: "c \<in> set n'"
    then have "lower_char c \<in> set (to_lower n)" using assms(2) by (auto simp: to_lower_def dest!: arg_cong [of _ _ set])
    then obtain d where "d \<in> set n" "lower_char c = lower_char d" by (auto simp: to_lower_def)
    then have "plain_char (lower_char c)" using assms(1) lower_plain by (auto simp: list_all_iff)
    then show "plain_char c" by (simp add: lower_plain)
  qed
  have "list_all plain_char (n' @ dot)" using plain' assms(5) by (auto simp: plain_char_def is_space_def)
  from normalise_plain [OF this assms(7,8,6)]
  have typed: "normalise (a @ n' @ dot @ port @ b) = trim_suffix ''.'' (to_lower n @ dot)"
    using assms(2,5) by (auto simp: to_lower_def lower_char_def)
  have "normalise n = trim_suffix ''.'' (to_lower n)"
    using normalise_plain [OF assms(1), of "[]" "[]" "[]"] by simp
  moreover have "trim_suffix ''.'' (to_lower n @ dot) = trim_suffix ''.'' (to_lower n)"
    using assms(5) nosuf by (auto simp: trim_suffix_def suffix_def)
  ultimately show ?thesis using typed by (simp add: lookup_host_def)
qed


section \<open>Whose name it is\<close>

lemma slug_plain: "slug_char c \<Longrightarrow> plain_char c \<and> lower_char c = c"
  by (auto simp: slug_char_def lower_alnum_def is_digit_def plain_char_def is_space_def lower_char_def)

lemma slug_chars_plain: "list_all slug_char w \<Longrightarrow> list_all plain_char w \<and> to_lower w = w"
  using slug_plain by (induction w) (auto simp: to_lower_def)

definition composed_word :: "string \<Rightarrow> bool" where "composed_word w \<longleftrightarrow> w \<noteq> [] \<and> list_all slug_char w"

lemma host_names_normal:
  assumes "composed_word flock" and "composed_word app" and "n \<in> set (host_names flock app)"
  shows "normalise n = n" and "n \<noteq> []"
proof -
  have words: "list_all plain_char w \<and> to_lower w = w" if "w \<in> {flock, app}" for w
    using that assms(1,2) slug_chars_plain by (auto simp: composed_word_def)
  have fixed: "list_all plain_char ''briard-''" "list_all plain_char ''-''" "list_all plain_char ''.local''" "list_all plain_char ''.briard.casa''" "list_all plain_char ''.''"
    "to_lower ''briard-'' = ''briard-''" "to_lower ''-'' = ''-''" "to_lower ''.local'' = ''.local''" "to_lower ''.briard.casa'' = ''.briard.casa''" "to_lower ''.'' = ''.''"
    by code_simp+
  have app: "to_lower (a @ b) = to_lower a @ to_lower b" for a b by (simp add: to_lower_def)
  have cases: "n = ''briard-'' @ flock @ ''-'' @ app @ ''.local'' \<or> n = ''briard-'' @ app @ ''.local'' \<or> n = app @ ''.'' @ flock @ ''.briard.casa''"
    using assms by (auto simp: host_names_def host_name_def bare_host_name_def casa_host_name_def casa_zone_def composed_word_def Let_def)
  have "list_all plain_char n \<and> to_lower n = n"
    using cases words [of flock] words [of app] fixed by (elim disjE) (simp_all only: app list_all_append insert_iff simp_thms)
  moreover have "\<not> suffix ''.'' n" using cases by (auto simp: suffix_def)
  ultimately show "normalise n = n" using normalise_plain [of n "[]" "[]" "[]"] by (simp add: trim_suffix_def)
  show "n \<noteq> []" using cases assms(2) by (auto simp: composed_word_def)
qed

lemma nine:
  "n \<in> {h, b, c} \<Longrightarrow> n \<in> {h', b', c'} \<Longrightarrow> \<not> (h = c' \<or> b = c' \<or> c = h' \<or> c = b') \<Longrightarrow>
   (h = h' \<Longrightarrow> Q) \<Longrightarrow> (b = b' \<Longrightarrow> Q) \<Longrightarrow> (c = c' \<Longrightarrow> Q) \<Longrightarrow> (h = b' \<Longrightarrow> Q) \<Longrightarrow> (b = h' \<Longrightarrow> Q) \<Longrightarrow> Q"
  by auto

text \<open>The names of one app of a flock are another's only where a slug starts with the flock's name.\<close>

lemma shared_names:
  assumes "flock \<noteq> []" and "a \<noteq> []" and "b \<noteq> []" and "n \<in> set (host_names flock a)" and "n \<in> set (host_names flock b)"
  shows "a = b \<or> a = flock @ ''-'' @ b \<or> b = flock @ ''-'' @ a"
proof -
  let ?H = "\<lambda>w. ''briard-'' @ flock @ ''-'' @ w @ ''.local''" and ?B = "\<lambda>w. ''briard-'' @ w @ ''.local''"
    and ?C = "\<lambda>w. w @ ''.'' @ flock @ ''.briard.casa''"
  have na: "n \<in> {?H a, ?B a, ?C a}" and nb: "n \<in> {?H b, ?B b, ?C b}"
    using assms by (auto simp: host_names_def host_name_def bare_host_name_def casa_host_name_def casa_zone_def Let_def)
  have ends: "last (?H w) = CHR ''l''" "last (?B w) = CHR ''l''" "last (?C w) = CHR ''a''" for w by simp_all
  have "?H a = ?C b \<or> ?B a = ?C b \<or> ?C a = ?H b \<or> ?C a = ?B b \<Longrightarrow> CHR ''l'' = CHR ''a''"
    using ends by (elim disjE) (drule arg_cong [where f = last], simp only: ends)+
  then have no: "\<not> (?H a = ?C b \<or> ?B a = ?C b \<or> ?C a = ?H b \<or> ?C a = ?B b)" by auto
  have same: "?H a = ?H b \<Longrightarrow> a = b" "?B a = ?B b \<Longrightarrow> a = b" "?C a = ?C b \<Longrightarrow> a = b" by simp_all
  have hb: "?H a = ?B b \<Longrightarrow> flock @ ''-'' @ a = b" using append_same_eq [of "flock @ ''-'' @ a" "''.local''" b] by simp
  have bh: "?B a = ?H b \<Longrightarrow> a = flock @ ''-'' @ b" using append_same_eq [of a "''.local''" "flock @ ''-'' @ b"] by simp
  show ?thesis
  proof (rule nine [OF na nb no])
    show ?thesis if e: "?H a = ?H b" by (rule disjI1, rule same(1), rule e)
    show ?thesis if e: "?B a = ?B b" by (rule disjI1, rule same(2), rule e)
    show ?thesis if e: "?C a = ?C b" by (rule disjI1, rule same(3), rule e)
    show ?thesis if e: "?H a = ?B b" by (rule disjI2, rule disjI2, rule sym, rule hb, rule e)
    show ?thesis if e: "?B a = ?H b" by (rule disjI2, rule disjI1, rule bh, rule e)
  qed
qed

lemma find_only:
  assumes "s \<in> set t" and "P s" and "\<forall>s'\<in>set t. P s' \<longrightarrow> s' = s"
  shows "find P t = Some s"
proof (cases "find P t")
  case None
  then show ?thesis using assms(1,2) by (simp add: find_None_iff)
next
  case (Some x)
  then have "P x" "x \<in> set t" by (auto simp: find_Some_iff)
  then have "x = s" using assms(3) by blast
  then show ?thesis using Some by (rule subst)
qed

lemma named_once: "distinct (map ap_name t) \<Longrightarrow> s \<in> set t \<Longrightarrow> s' \<in> set t \<Longrightarrow> ap_name s' = ap_name s \<Longrightarrow> s' = s"
  using inj_onD [of ap_name "set t" s' s] by (simp add: distinct_map)

text \<open>
  C39: in the table of a flock every name that is published for an app is answered by that app, unless an app is
  called by the flock's own name followed by the slug of another: the bare alias of the one is then the
  identity of the other, and the first in the table answers for both.
\<close>

theorem each_name_finds_its_app:
  assumes "\<forall>s\<in>set t. ap_hosts s = host_names flock (ap_name s) \<and> composed_word (ap_name s)"
    and "distinct (map ap_name t)" and "composed_word flock"
    and "\<forall>s\<in>set t. \<forall>s'\<in>set t. ap_name s' \<noteq> flock @ ''-'' @ ap_name s"
    and "s \<in> set t" and "n \<in> set (ap_hosts s)"
  shows "lookup_host t n = Some s"
proof -
  have normal: "normalise m = m \<and> m \<noteq> []" if "s' \<in> set t" "m \<in> set (ap_hosts s')" for s' m
    using host_names_normal [OF assms(3), of "ap_name s'" m] assms(1) that by auto
  have hits: "list_ex (\<lambda>m. normalise m = n) (ap_hosts s') \<longleftrightarrow> n \<in> set (ap_hosts s')" if "s' \<in> set t" for s'
    using normal that by (auto simp: list_ex_iff)
  have only: "s' = s" if "s' \<in> set t" "n \<in> set (ap_hosts s')" for s'
  proof -
    have "ap_name s = ap_name s' \<or> ap_name s = flock @ ''-'' @ ap_name s' \<or> ap_name s' = flock @ ''-'' @ ap_name s"
      using shared_names [of flock "ap_name s" "ap_name s'" n] assms(1,3,5,6) that by (auto simp: composed_word_def)
    then have "ap_name s' = ap_name s" using assms(4,5) that(1) by metis
    then show ?thesis using named_once [OF assms(2,5) that(1)] by simp
  qed
  have "find (\<lambda>s'. list_ex (\<lambda>m. normalise m = n) (ap_hosts s')) t = Some s"
  proof (rule find_only [OF assms(5)])
    show "list_ex (\<lambda>m. normalise m = n) (ap_hosts s)" by (simp only: hits [OF assms(5)] assms(6))
    show "\<forall>s'\<in>set t. list_ex (\<lambda>m. normalise m = n) (ap_hosts s') \<longrightarrow> s' = s" by (intro ballI impI only) (simp_all only: hits)
  qed
  then show ?thesis using normal [OF assms(5,6)] by (simp add: lookup_host_def)
qed


section \<open>Examples\<close>

definition example_entry :: "string \<Rightarrow> app_entry" where
  "example_entry app =
     \<lparr>ap_name = app, ap_hosts = host_names ''amber-otter'' app, ap_address = ''10.88.0.2'', ap_health = ''http://:8123/manifest.json?x=%41'',
      ap_routes = [\<lparr>rt_listen = listen_name, rt_to = ''http://:8123''\<rparr>], ap_ports = [], ap_announce = [], ap_gate = []\<rparr>"

lemma shadowed_name:
  "map_option ap_name (lookup_host [example_entry ''amber-otter-b'', example_entry ''b''] (hd (ap_hosts (example_entry ''b'')))) =
   Some ''amber-otter-b''"
  by code_simp

theorem endpoints_stay_at_the_apps_address_witness:
  "\<exists>u. resolve_spec (example_entry ''a'') ''http://:8123'' = Inr u \<and> url_hostname u = ''10.88.0.2'' \<and> url_port u = ''8123''"
proof -
  have "parse_table (\<lambda>_. Some [example_entry ''a'']) [] = Inr [example_entry ''a'']" by code_simp
  moreover have "''http://:8123'' \<in> specs (example_entry ''a'')" by (simp add: specs_def example_entry_def)
  moreover have "map_option url_port (parse_url ''http://:8123'') = Some ''8123''" by code_simp
  ultimately show ?thesis
    using endpoints_stay_at_the_apps_address [of "\<lambda>_. Some [example_entry ''a'']" "[]" "[example_entry ''a'']" "example_entry ''a''" "''http://:8123''"]
    by (auto simp: example_entry_def)
qed

theorem each_name_finds_its_app_witness:
  "lookup_host [example_entry ''a'', example_entry ''b''] ''b.amber-otter.briard.casa'' = Some (example_entry ''b'')"
proof (rule each_name_finds_its_app [where flock = "''amber-otter''"])
  show "\<forall>s\<in>set [example_entry ''a'', example_entry ''b'']. ap_hosts s = host_names ''amber-otter'' (ap_name s) \<and> composed_word (ap_name s)"
    by (simp add: example_entry_def composed_word_def slug_char_def lower_alnum_def)
  show "composed_word ''amber-otter''" by code_simp
  show "''b.amber-otter.briard.casa'' \<in> set (ap_hosts (example_entry ''b''))" by code_simp
qed (simp_all add: example_entry_def)

end
