(* ===== verification/Staging.thy ===== *)
theory Staging
  imports Quadlet Ring
begin

text \<open>
  Staged installs (\<open>agent/guestagent/staging.go\<close>) with the member, the restore and the stop of an app from
  \<open>agent/guestagent/guestagent.go\<close>: what an install writes to the replicated volume before its gate decides,
  and how it is read back.

  The files of the manifest directory are an association list by name. An app's data is the list of the
  manifests that have run on it, oldest first, so that a copy says which versions wrote what it holds. Every
  command is numbered; \<open>vi_out\<close> says how it ends: not done, done but reported as failed, or done. Reads can
  fail too: \<open>vi_names\<close> and \<open>vi_held\<close> say whether the listing of the manifests and that of the staged installs
  work, \<open>vi_reads\<close> whether a file can be read; the code takes a failed listing for an empty directory. The file
  system keeps the order of what was done, so a power cut or a lost host is a run whose later commands are
  all not done.
\<close>


section \<open>The volume and its commands\<close>

type_synonym files = "(string \<times> string) list"

record node =
  no_files :: files
  no_data :: "string \<Rightarrow> string list option"
  no_restoring :: "string \<Rightarrow> string list option"
  no_members :: "string \<Rightarrow> string list option"
  no_running :: "string \<Rightarrow> string option"
  no_cmds :: nat

record verb_io =
  vi_out :: "nat \<Rightarrow> write_outcome"
  vi_stops :: "nat \<Rightarrow> string \<Rightarrow> bool"
  vi_starts :: "nat \<Rightarrow> string \<Rightarrow> bool"
  vi_prepares :: "nat \<Rightarrow> string \<Rightarrow> bool"
  vi_names :: "nat \<Rightarrow> bool"
  vi_held :: "nat \<Rightarrow> bool"
  vi_reads :: "nat \<Rightarrow> string \<Rightarrow> bool"

type_synonym step = "node \<Rightarrow> node \<times> bool"

definition count_cmd :: "node \<Rightarrow> node" where "count_cmd s = s\<lparr>no_cmds := Suc (no_cmds s)\<rparr>"

text \<open>A command that can not be done fails by itself: its effect is None.\<close>

definition command :: "verb_io \<Rightarrow> (node \<Rightarrow> node option) \<Rightarrow> step" where
  "command io effect s =
     (case effect s of
        None \<Rightarrow> (count_cmd s, False)
      | Some s' \<Rightarrow>
          (case vi_out io (no_cmds s) of
             NotWritten \<Rightarrow> (count_cmd s, False)
           | Unflushed \<Rightarrow> (count_cmd s', False)
           | Written \<Rightarrow> (count_cmd s', True)))"

text \<open>Steps one after the other, up to the first that fails.\<close>

fun in_turn :: "step list \<Rightarrow> step" where
  "in_turn [] s = (s, True)"
| "in_turn (f # fs) s = (case f s of (s', ok) \<Rightarrow> if ok then in_turn fs s' else (s', False))"

text \<open>A verb of the control channel: its reply can be lost.\<close>

definition verb :: "verb_io \<Rightarrow> step \<Rightarrow> step" where
  "verb io f s = in_turn [f, command io Some] s"

definition del_key :: "string \<Rightarrow> files \<Rightarrow> files" where "del_key k fs = filter (\<lambda>(k', _). k' \<noteq> k) fs"

definition write_name :: "string \<Rightarrow> string \<Rightarrow> node \<Rightarrow> node option" where
  "write_name k v s = Some (s\<lparr>no_files := put k v (no_files s)\<rparr>)"

definition move_name :: "string \<Rightarrow> string \<Rightarrow> node \<Rightarrow> node option" where
  "move_name k k' s =
     (case map_of (no_files s) k of
        None \<Rightarrow> None
      | Some v \<Rightarrow> Some (s\<lparr>no_files := put k' v (del_key k (no_files s))\<rparr>))"

definition remove_name :: "string \<Rightarrow> node \<Rightarrow> node option" where
  "remove_name k s = Some (s\<lparr>no_files := del_key k (no_files s)\<rparr>)"


section \<open>Names\<close>

definition accepted_name :: "string \<Rightarrow> string" where "accepted_name n = n @ ''.json''"
definition staged_name :: "string \<Rightarrow> string" where "staged_name n = n @ ''.json.next''"
definition rollback_name :: "string \<Rightarrow> string" where "rollback_name n = n @ ''.rollback''"
definition clean_name :: "string \<Rightarrow> string" where "clean_name n = n @ ''.clean''"
definition tmp_name :: "string \<Rightarrow> string" where "tmp_name k = k @ ''.tmp''"

definition manifest_names :: "files \<Rightarrow> string list" where
  "manifest_names fs = sort (filter (suffix ''.json'') (map fst fs))"

definition staged_names :: "files \<Rightarrow> string list" where
  "staged_names fs =
     map (\<lambda>f. take (length f - 10) f) (filter (suffix ''.json.next'') (sort (map fst fs)))"


section \<open>The verbs\<close>

definition write_durably :: "verb_io \<Rightarrow> string \<Rightarrow> string \<Rightarrow> step list" where
  "write_durably io k body =
     [command io (write_name (tmp_name k) body), command io (move_name (tmp_name k) k), command io Some]"

definition ensure_app_data :: "string \<Rightarrow> node \<Rightarrow> node option" where
  "ensure_app_data n s =
     Some (s\<lparr>no_data := (no_data s)(n := Some (case no_data s n of None \<Rightarrow> [] | Some d \<Rightarrow> d))\<rparr>)"

definition note_app_stop :: "verb_io \<Rightarrow> string \<Rightarrow> step" where
  "note_app_stop io n = in_turn [command io (write_name (clean_name n) (''success'' @ [CHR 0x0A])), command io Some]"

record stage_request =
  sr_name :: string
  sr_data_dir :: string
  sr_manifest :: string
  sr_rollback :: string

definition rollback_steps :: "verb_io \<Rightarrow> stage_request \<Rightarrow> step list" where
  "rollback_steps io req =
     (if sr_rollback req \<noteq> [] then write_durably io (rollback_name (sr_name req)) (sr_rollback req @ [CHR 0x0A])
      else [command io (remove_name (rollback_name (sr_name req)))])"

definition stage_steps :: "verb_io \<Rightarrow> stage_request \<Rightarrow> step list" where
  "stage_steps io req =
     [command io (ensure_app_data (sr_name req))] @ rollback_steps io req @ write_durably io (staged_name (sr_name req)) (sr_manifest req)"

definition stage_refused :: "stage_request \<Rightarrow> bool" where
  "stage_refused req \<longleftrightarrow>
     sr_name req = [] \<or> sr_data_dir req = [] \<or> sr_manifest req = [] \<or> \<not> safe_unit_name (sr_name req) \<or> CHR 0x0A \<in> set (sr_rollback req)"

definition stage_app :: "verb_io \<Rightarrow> stage_request \<Rightarrow> step" where
  "stage_app io req s =
     (if stage_refused req then (s, False)
      else (case in_turn (stage_steps io req) s of
              (s1, ok) \<Rightarrow> if ok then (fst (note_app_stop io (sr_name req) s1), True) else (s1, False)))"

definition commit_app :: "verb_io \<Rightarrow> string \<Rightarrow> step" where
  "commit_app io n s =
     (if \<not> safe_unit_name n then (s, False)
      else in_turn
        [command io (move_name (staged_name n) (accepted_name n)), command io Some,
         command io (remove_name (rollback_name n)), command io Some] s)"

definition discard_app :: "verb_io \<Rightarrow> string \<Rightarrow> step" where
  "discard_app io n s =
     (if \<not> safe_unit_name n then (s, False)
      else in_turn
        [command io (remove_name (staged_name n)), command io Some,
         command io (remove_name (rollback_name n)), command io Some] s)"

record pending_install =
  pi_name :: string
  pi_staged :: string
  pi_accepted :: string
  pi_rollback :: string

text \<open>
  A staged manifest that can not be read is an error; an accepted manifest or a rollback point that can not be
  read is none at all, and a listing that fails is an empty one.
\<close>

definition read_file :: "verb_io \<Rightarrow> nat \<Rightarrow> files \<Rightarrow> string \<Rightarrow> string option" where
  "read_file io c fs k = (if vi_reads io c k then map_of fs k else None)"

definition or_empty :: "string option \<Rightarrow> string" where
  "or_empty v = (case v of None \<Rightarrow> [] | Some w \<Rightarrow> w)"

definition file_or_empty :: "files \<Rightarrow> string \<Rightarrow> string" where
  "file_or_empty fs k = or_empty (map_of fs k)"

definition pending_of :: "verb_io \<Rightarrow> nat \<Rightarrow> files \<Rightarrow> string \<Rightarrow> pending_install option" where
  "pending_of io c fs n =
     (case read_file io c fs (staged_name n) of
        None \<Rightarrow> None
      | Some staged \<Rightarrow>
          Some \<lparr>pi_name = n, pi_staged = staged, pi_accepted = or_empty (read_file io c fs (accepted_name n)),
            pi_rollback = trim_space (or_empty (read_file io c fs (rollback_name n)))\<rparr>)"

definition listed_stages :: "verb_io \<Rightarrow> nat \<Rightarrow> files \<Rightarrow> string list" where
  "listed_stages io c fs = (if vi_held io c then staged_names fs else [])"

text \<open>None when a staged manifest can not be read, or the answer does not arrive.\<close>

definition pending_installs :: "verb_io \<Rightarrow> node \<Rightarrow> node \<times> pending_install list option" where
  "pending_installs io s =
     (let c = no_cmds s; ps = map (pending_of io c (no_files s)) (listed_stages io c (no_files s))
      in case command io Some s of
           (s', ok) \<Rightarrow> (s', if ok \<and> None \<notin> set ps then Some (map the ps) else None))"

text \<open>A ring member, the restore of one and the stop of an app.\<close>

definition take_member_of :: "string \<Rightarrow> string \<Rightarrow> node \<Rightarrow> node option" where
  "take_member_of n member s =
     (if no_members s member \<noteq> None then None
      else case no_data s n of None \<Rightarrow> None | Some d \<Rightarrow> Some (s\<lparr>no_members := (no_members s)(member := Some d)\<rparr>))"

definition show_member :: "string \<Rightarrow> node \<Rightarrow> node option" where
  "show_member member s = (if no_members s member = None then None else Some s)"

definition clear_restoring :: "string \<Rightarrow> node \<Rightarrow> node option" where
  "clear_restoring n s = Some (s\<lparr>no_restoring := (no_restoring s)(n := None)\<rparr>)"

definition stage_copy :: "string \<Rightarrow> string \<Rightarrow> node \<Rightarrow> node option" where
  "stage_copy n member s =
     (case no_members s member of None \<Rightarrow> None | Some d \<Rightarrow> Some (s\<lparr>no_restoring := (no_restoring s)(n := Some d)\<rparr>))"

text \<open>A subvolume that is not there, or that a container holds, does not delete.\<close>

definition delete_data :: "string \<Rightarrow> node \<Rightarrow> node option" where
  "delete_data n s =
     (if no_data s n = None \<or> no_running s n \<noteq> None then None else Some (s\<lparr>no_data := (no_data s)(n := None)\<rparr>))"

definition swap_in :: "string \<Rightarrow> node \<Rightarrow> node option" where
  "swap_in n s =
     (case no_restoring s n of
        None \<Rightarrow> None
      | Some d \<Rightarrow> Some (s\<lparr>no_data := (no_data s)(n := Some d), no_restoring := (no_restoring s)(n := None)\<rparr>))"

definition restore_data :: "verb_io \<Rightarrow> string \<Rightarrow> string \<Rightarrow> step" where
  "restore_data io n member s =
     in_turn
       ([command io (show_member member), command io Some] @
        (if no_restoring s n \<noteq> None then [command io (clear_restoring n)] else []) @
        [command io Some, command io (stage_copy n member), command io Some,
         command io (delete_data n), command io (swap_in n)]) s"

definition quiesce_app :: "verb_io \<Rightarrow> string \<Rightarrow> node \<Rightarrow> node" where
  "quiesce_app io n s =
     count_cmd (if vi_stops io (no_cmds s) n then s\<lparr>no_running := (no_running s)(n := None)\<rparr> else s)"


section \<open>What converge makes of it\<close>

text \<open>
  The manifest an app runs from: the accepted one, the staged one of the live install, none for any other
  staged app. The two listings are separate commands: without the first no accepted app is rendered, without the
  second no app is known to be held.
\<close>

definition selected :: "verb_io \<Rightarrow> nat \<Rightarrow> files \<Rightarrow> string \<Rightarrow> string \<Rightarrow> string option" where
  "selected io c fs live n =
     (let held = (if vi_held io c then map_of fs (staged_name n) else None)
      in case held of
           Some t \<Rightarrow> if n = live then Some t else None
         | None \<Rightarrow> if vi_names io c then map_of fs (accepted_name n) else None)"

text \<open>
  One app under a converge, as \<open>Converge\<close> has it in detail: an app that can not be prepared is left as it is
  and named; a changed one is stopped and started; what is no longer rendered is stopped.
\<close>

definition converged_running :: "verb_io \<Rightarrow> nat \<Rightarrow> string option \<Rightarrow> string \<Rightarrow> string option \<Rightarrow> string option" where
  "converged_running io c target n now =
     (case target of
        None \<Rightarrow> if vi_stops io c n then None else now
      | Some t \<Rightarrow>
          if \<not> vi_prepares io c t \<or> now = Some t then now
          else if now \<noteq> None \<and> \<not> vi_stops io c n then now
          else if vi_starts io c n then Some t else None)"

definition opened :: "string option \<Rightarrow> string option \<Rightarrow> string list option \<Rightarrow> string list option" where
  "opened was now d =
     (case now of
        None \<Rightarrow> d
      | Some t \<Rightarrow> if was = now then d else Some (case d of None \<Rightarrow> [t] | Some l \<Rightarrow> l @ [t]))"

text \<open>None is an error; otherwise whether an app was skipped.\<close>

definition converge_node :: "verb_io \<Rightarrow> string \<Rightarrow> node \<Rightarrow> node \<times> (string \<Rightarrow> bool) option" where
  "converge_node io live s =
     (let c = no_cmds s;
          now = (\<lambda>n. converged_running io c (selected io c (no_files s) live n) n (no_running s n));
          s' = s\<lparr>no_running := now, no_data := (\<lambda>n. opened (no_running s n) (now n) (no_data s n))\<rparr>;
          skipped = (\<lambda>n. case selected io c (no_files s) live n of None \<Rightarrow> False | Some t \<Rightarrow> \<not> vi_prepares io c t)
      in case vi_out io c of
           NotWritten \<Rightarrow> (count_cmd s, None)
         | Unflushed \<Rightarrow> (count_cmd s', None)
         | Written \<Rightarrow> (count_cmd s', Some skipped))"


section \<open>Commands\<close>

lemma count_cmd_simps [simp]:
  "no_files (count_cmd s) = no_files s" "no_data (count_cmd s) = no_data s" "no_restoring (count_cmd s) = no_restoring s"
  "no_members (count_cmd s) = no_members s" "no_running (count_cmd s) = no_running s"
  by (simp_all add: count_cmd_def)

lemma command_True: "command io f s = (s', True) \<Longrightarrow> \<exists>t. f s = Some t \<and> s' = count_cmd t"
  by (auto simp: command_def split: option.splits write_outcome.splits)

lemma command_any: "command io f s = (s', ok) \<Longrightarrow> s' = count_cmd s \<or> (\<exists>t. f s = Some t \<and> s' = count_cmd t)"
  by (auto simp: command_def split: option.splits write_outcome.splits)

text \<open>What every command keeps, a run of them keeps.\<close>

definition keeps :: "(node \<Rightarrow> bool) \<Rightarrow> step \<Rightarrow> bool" where
  "keeps P f \<longleftrightarrow> (\<forall>s s' ok. P s \<longrightarrow> f s = (s', ok) \<longrightarrow> P s')"

lemma keepsI: "(\<And>s s' ok. P s \<Longrightarrow> f s = (s', ok) \<Longrightarrow> P s') \<Longrightarrow> keeps P f"
  by (auto simp: keeps_def)

lemma keepsD: "keeps P f \<Longrightarrow> P s \<Longrightarrow> f s = (s', ok) \<Longrightarrow> P s'"
  by (auto simp: keeps_def)

lemma in_turn_keeps: "in_turn fs s = (s', ok) \<Longrightarrow> \<forall>f\<in>set fs. keeps P f \<Longrightarrow> P s \<Longrightarrow> P s'"
proof (induction fs arbitrary: s)
  case (Cons f fs)
  obtain s1 k where f: "f s = (s1, k)" by fastforce
  have "P s1" using Cons.prems(2,3) f by (auto simp: keeps_def)
  then show ?case using Cons f by (cases k) auto
qed simp

lemma keeps_command: "(\<And>s t. P s \<Longrightarrow> f s = Some t \<Longrightarrow> P t) \<Longrightarrow> (\<And>s. P (count_cmd s) \<longleftrightarrow> P s) \<Longrightarrow> keeps P (command io f)"
  by (rule keepsI, drule command_any) blast

lemma in_turn_append:
  "in_turn (fs @ gs) s = (case in_turn fs s of (s', ok) \<Rightarrow> if ok then in_turn gs s' else (s', False))"
  by (induction fs arbitrary: s) (auto split: prod.splits)

lemma in_turn_Cons: "f s = (s1, k) \<Longrightarrow> in_turn (f # fs) s = (if k then in_turn fs s1 else (s1, False))"
  by simp


section \<open>What the files say of an app\<close>

abbreviation look_file :: "node \<Rightarrow> string \<Rightarrow> string option" where "look_file s k \<equiv> map_of (no_files s) k"

type_synonym app_view = "string option \<times> (string \<times> string) option"

definition view_of :: "files \<Rightarrow> string \<Rightarrow> app_view" where
  "view_of fs n =
     (map_of fs (accepted_name n),
      map_option (\<lambda>t. (t, trim_space (file_or_empty fs (rollback_name n)))) (map_of fs (staged_name n)))"

lemma map_of_put: "map_of (put k v fs) k' = (if k' = k then Some v else map_of fs k')"
proof -
  have "map_of (filter (\<lambda>(x, _). x \<noteq> k) fs) k' = (if k' = k then None else map_of fs k')" by (induction fs) auto
  then show ?thesis by (auto simp: put_def map_add_def split: option.split)
qed

lemma map_of_del: "map_of (del_key k fs) k' = (if k' = k then None else map_of fs k')"
  unfolding del_key_def by (induction fs) auto

lemma file_or_empty_map: "map_of fs k = map_of fs' k \<Longrightarrow> file_or_empty fs k = file_or_empty fs' k"
  by (simp add: file_or_empty_def or_empty_def)

lemma view_cong:
  assumes "map_of fs (accepted_name n) = map_of fs' (accepted_name n)" and "map_of fs (staged_name n) = map_of fs' (staged_name n)"
    and "map_of fs (staged_name n) \<noteq> None \<Longrightarrow> map_of fs (rollback_name n) = map_of fs' (rollback_name n)"
  shows "view_of fs n = view_of fs' n"
proof (cases "map_of fs (staged_name n)")
  case None
  then show ?thesis using assms(1,2) by (simp add: view_of_def)
next
  case (Some t)
  then have "map_of fs (rollback_name n) = map_of fs' (rollback_name n)" using assms(3) by simp
  then show ?thesis using assms(1,2) by (simp add: view_of_def file_or_empty_def or_empty_def)
qed

text \<open>The names of different apps and of different files differ.\<close>

lemma name_injective [simp]:
  "accepted_name m = accepted_name n \<longleftrightarrow> m = n" "staged_name m = staged_name n \<longleftrightarrow> m = n"
  "rollback_name m = rollback_name n \<longleftrightarrow> m = n" "clean_name m = clean_name n \<longleftrightarrow> m = n"
  by (simp_all add: accepted_name_def staged_name_def rollback_name_def clean_name_def)

lemma name_ends:
  "last (accepted_name n) = CHR ''n''" "last (staged_name n) = CHR ''t''" "last (rollback_name n) = CHR ''k''" "last (tmp_name k) = CHR ''p''"
  "last (clean_name n) = CHR ''n''" "last (butlast (accepted_name n)) = CHR ''o''" "last (butlast (clean_name n)) = CHR ''a''"
  by (simp_all add: accepted_name_def staged_name_def rollback_name_def clean_name_def tmp_name_def butlast_append)

lemma differ: "last a \<noteq> last b \<Longrightarrow> a \<noteq> b" "last (butlast a) \<noteq> last (butlast b) \<Longrightarrow> a \<noteq> b"
  by auto

lemma names_differ [simp]:
  "accepted_name m \<noteq> staged_name n" "accepted_name m \<noteq> rollback_name n" "accepted_name m \<noteq> tmp_name k" "accepted_name m \<noteq> clean_name n"
  "staged_name m \<noteq> accepted_name n" "staged_name m \<noteq> rollback_name n" "staged_name m \<noteq> tmp_name k" "staged_name m \<noteq> clean_name n"
  "rollback_name m \<noteq> accepted_name n" "rollback_name m \<noteq> staged_name n" "rollback_name m \<noteq> tmp_name k" "rollback_name m \<noteq> clean_name n"
  by (rule differ(1), simp add: name_ends; fail | rule differ(2), simp add: name_ends)+


section \<open>What the verbs leave\<close>

text \<open>The data, the members and what runs of an app, and its files.\<close>

definition same_app :: "string \<Rightarrow> node \<Rightarrow> node \<Rightarrow> bool" where
  "same_app n s t \<longleftrightarrow> view_of (no_files t) n = view_of (no_files s) n \<and> no_data t n = no_data s n \<and> no_running t n = no_running s n"

definition same_rest :: "node \<Rightarrow> node \<Rightarrow> bool" where
  "same_rest s t \<longleftrightarrow> no_data t = no_data s \<and> no_members t = no_members s \<and> no_running t = no_running s \<and> no_restoring t = no_restoring s"

lemma same_rest_simps: "same_rest s s" "same_rest s t \<Longrightarrow> same_rest t u \<Longrightarrow> same_rest s u" "same_rest s (count_cmd t) \<longleftrightarrow> same_rest s t"
  by (simp_all add: same_rest_def)

lemma write_durably_result:
  assumes "in_turn (write_durably io k body) s = (s', ok)"
  shows "look_file s' k \<in> {look_file s k, Some body}" and "ok \<Longrightarrow> look_file s' k = Some body"
    and "j \<noteq> k \<Longrightarrow> j \<noteq> tmp_name k \<Longrightarrow> look_file s' j = look_file s j" and "same_rest s s'"
proof -
  have "tmp_name k \<noteq> k" by (simp add: tmp_name_def)
  then have "(look_file s' k = look_file s k \<or> look_file s' k = Some body) \<and> (ok \<longrightarrow> look_file s' k = Some body) \<and>
      (\<forall>j. j \<noteq> k \<longrightarrow> j \<noteq> tmp_name k \<longrightarrow> look_file s' j = look_file s j) \<and> same_rest s s'"
    using assms
    by (auto simp: write_durably_def command_def write_name_def move_name_def map_of_put map_of_del same_rest_def
        split: write_outcome.splits option.splits)
  then show "look_file s' k \<in> {look_file s k, Some body}" "ok \<Longrightarrow> look_file s' k = Some body"
    "j \<noteq> k \<Longrightarrow> j \<noteq> tmp_name k \<Longrightarrow> look_file s' j = look_file s j" "same_rest s s'"
    by blast+
qed


lemma trim_end: "is_space c \<Longrightarrow> trim_space (w @ [c]) = trim_space w"
  by (cases "list_all is_space w") (auto simp: trim_space_def dropWhile_append list_all_iff dest: set_dropWhileD)

text \<open>Making sure that the data is there changes it only where there was none.\<close>

definition data_made :: "string \<Rightarrow> node \<Rightarrow> node \<Rightarrow> bool" where
  "data_made n s t \<longleftrightarrow> (\<forall>m. no_data t m = no_data s m \<or> (m = n \<and> no_data s m = None \<and> no_data t m = Some [])) \<and>
     no_members t = no_members s \<and> no_running t = no_running s \<and> no_restoring t = no_restoring s"

lemma data_made_rest: "data_made n s t \<Longrightarrow> same_rest t u \<Longrightarrow> data_made n s u"
  by (simp add: data_made_def same_rest_def)

lemma ensure_result:
  "command io (ensure_app_data n) s = (s', ok) \<Longrightarrow> data_made n s s' \<and> no_files s' = no_files s"
  by (drule command_any) (auto simp: ensure_app_data_def data_made_def split: option.splits if_splits)

lemma remove_result:
  assumes "command io (remove_name k) s = (s', ok)"
  shows "(ok \<longrightarrow> look_file s' k = None) \<and> (look_file s' k = look_file s k \<or> look_file s' k = None) \<and>
     (\<forall>j. j \<noteq> k \<longrightarrow> look_file s' j = look_file s j) \<and> same_rest s s'"
  using command_any [OF assms] command_True [of io "remove_name k" s s'] assms
  by (cases ok) (auto simp: remove_name_def map_of_del same_rest_def)

lemma rollback_steps_result:
  assumes "in_turn (rollback_steps io req) s = (s', ok)"
  shows "ok \<Longrightarrow> trim_space (file_or_empty (no_files s') (rollback_name (sr_name req))) = trim_space (sr_rollback req)"
    and "j \<noteq> rollback_name (sr_name req) \<Longrightarrow> j \<noteq> tmp_name (rollback_name (sr_name req)) \<Longrightarrow> look_file s' j = look_file s j"
    and "same_rest s s'"
proof -
  show "ok \<Longrightarrow> trim_space (file_or_empty (no_files s') (rollback_name (sr_name req))) = trim_space (sr_rollback req)"
  proof (cases "sr_rollback req = []")
    case True
    assume ok
    then show ?thesis using assms remove_result [of io "rollback_name (sr_name req)" s] True
      by (auto simp: rollback_steps_def file_or_empty_def or_empty_def split: prod.splits if_splits)
  next
    case False
    assume ok
    then show ?thesis using assms write_durably_result(2) False
      by (fastforce simp: rollback_steps_def file_or_empty_def or_empty_def trim_end)
  qed
  show "j \<noteq> rollback_name (sr_name req) \<Longrightarrow> j \<noteq> tmp_name (rollback_name (sr_name req)) \<Longrightarrow> look_file s' j = look_file s j"
    using assms write_durably_result(3) remove_result [of io "rollback_name (sr_name req)" s]
    by (auto simp: rollback_steps_def split: prod.splits if_splits)
  show "same_rest s s'"
    using assms write_durably_result(4) remove_result [of io "rollback_name (sr_name req)" s]
    by (auto simp: rollback_steps_def split: prod.splits if_splits)
qed

definition staged_view :: "stage_request \<Rightarrow> app_view \<Rightarrow> app_view" where
  "staged_view req v = (fst v, Some (sr_manifest req, trim_space (sr_rollback req)))"

text \<open>
  A stage of an app that has none pending, stopped or failed anywhere: nothing is pending, or all of it is.
\<close>

lemma stage_law:
  assumes "stage_app io req s = (s', ok)"
  shows "snd (view_of (no_files s) (sr_name req)) = None \<Longrightarrow> view_of (no_files s') (sr_name req) \<in> {view_of (no_files s) (sr_name req), staged_view req (view_of (no_files s) (sr_name req))}"
    and "ok \<Longrightarrow> view_of (no_files s') (sr_name req) = staged_view req (view_of (no_files s) (sr_name req))"
    and "m \<noteq> sr_name req \<Longrightarrow> view_of (no_files s') m = view_of (no_files s) m"
    and "data_made (sr_name req) s s'"
proof -
  let ?n = "sr_name req"
  let ?idle = "snd (view_of (no_files s) ?n) = None"
  have "(?idle \<longrightarrow> view_of (no_files s') ?n \<in> {view_of (no_files s) ?n, staged_view req (view_of (no_files s) ?n)}) \<and>
     (ok \<longrightarrow> view_of (no_files s') ?n = staged_view req (view_of (no_files s) ?n)) \<and>
     (\<forall>m. m \<noteq> ?n \<longrightarrow> view_of (no_files s') m = view_of (no_files s) m) \<and> data_made ?n s s'"
  proof (cases "stage_refused req")
    case True
    then show ?thesis using assms(1) by (simp add: stage_app_def data_made_def)
  next
    case False
    obtain a k1 where a: "command io (ensure_app_data ?n) s = (a, k1)" by fastforce
    obtain b k2 where b: "in_turn (rollback_steps io req) a = (b, k2)" by fastforce
    obtain c k3 where c: "in_turn (write_durably io (staged_name ?n) (sr_manifest req)) b = (c, k3)" by fastforce
    obtain d k4 where d: "note_app_stop io ?n c = (d, k4)" by fastforce
    have run: "(s', ok) = (if \<not> k1 then (a, False) else if \<not> k2 then (b, False) else if \<not> k3 then (c, False) else (d, True))"
      using False assms(1) a b c d by (auto simp: stage_app_def stage_steps_def in_turn_append split: if_splits)
    note ra = ensure_result [OF a]
    note rb = rollback_steps_result [OF b]
    note rc = write_durably_result [OF c]
    have rd: "same_rest c d \<and> (\<forall>j. j \<noteq> clean_name ?n \<longrightarrow> look_file d j = look_file c j)"
      using d by (auto simp: note_app_stop_def command_def write_name_def map_of_put same_rest_def split: write_outcome.splits prod.splits)
    have made: "data_made ?n s a" "data_made ?n s b" "data_made ?n s c" "data_made ?n s d"
      using ra rb(3) rc(4) rd data_made_rest by blast+
    have b_same: "look_file b j = look_file s j" if "j \<noteq> rollback_name ?n" "j \<noteq> tmp_name (rollback_name ?n)" for j
      using rb(2) [OF that] ra by simp
    have b_view: "view_of (no_files b) m = view_of (no_files s) m" if "m \<noteq> ?n" for m
      using b_same that by (intro view_cong) auto
    have b_own: "view_of (no_files b) ?n = view_of (no_files s) ?n" if ?idle
      using that b_same by (intro view_cong) (auto simp: view_of_def)
    have c_same: "look_file c j = look_file b j" if "j \<noteq> staged_name ?n" "j \<noteq> tmp_name (staged_name ?n)" for j
      using rc(3) [OF that] .
    have c_view: "view_of (no_files c) m = view_of (no_files b) m" if "m \<noteq> ?n" for m
      using that c_same by (intro view_cong) auto
    have c_new: "view_of (no_files c) ?n = staged_view req (view_of (no_files s) ?n)" if "look_file c (staged_name ?n) = Some (sr_manifest req)" "k2"
    proof -
      have "file_or_empty (no_files c) (rollback_name ?n) = file_or_empty (no_files b) (rollback_name ?n)"
        by (rule file_or_empty_map, rule c_same) auto
      moreover have "look_file c (accepted_name ?n) = look_file s (accepted_name ?n)" using b_same c_same by simp
      ultimately show ?thesis using that rb(1) by (simp add: view_of_def staged_view_def)
    qed
    have c_old: "view_of (no_files c) ?n = view_of (no_files s) ?n" if "look_file c (staged_name ?n) = None" ?idle
      using that b_same c_same by (intro view_cong) (auto simp: view_of_def)
    have d_view: "view_of (no_files d) m = view_of (no_files c) m" for m
      using rd by (intro view_cong) auto
    have c_case: "look_file c (staged_name ?n) = None \<or> look_file c (staged_name ?n) = Some (sr_manifest req)" if ?idle
      using rc(1) b_same [of "staged_name ?n"] that by (auto simp: view_of_def)
    show ?thesis
    proof (cases ?idle)
      case True
      then show ?thesis using run ra b_view b_own c_view c_new c_old d_view c_case rc(2) made by (auto split: if_splits)
    next
      case False
      then show ?thesis using run ra b_view c_view c_new d_view rc(2) made by (auto split: if_splits)
    qed
  qed
  then show "?idle \<Longrightarrow> view_of (no_files s') ?n \<in> {view_of (no_files s) ?n, staged_view req (view_of (no_files s) ?n)}"
    "ok \<Longrightarrow> view_of (no_files s') ?n = staged_view req (view_of (no_files s) ?n)"
    "m \<noteq> ?n \<Longrightarrow> view_of (no_files s') m = view_of (no_files s) m" "data_made ?n s s'"
    by blast+
qed


text \<open>The rollback point of an app that is not pending is nobody's: dropping it changes no view.\<close>

definition rest_of_app :: "string \<Rightarrow> app_view \<Rightarrow> (string \<Rightarrow> app_view) \<Rightarrow> node \<Rightarrow> node \<Rightarrow> bool" where
  "rest_of_app n v others s t \<longleftrightarrow>
     snd v = None \<and> view_of (no_files t) n = v \<and> (\<forall>m. m \<noteq> n \<longrightarrow> view_of (no_files t) m = others m) \<and> same_rest s t"

lemma rest_of_app_step:
  "keeps (rest_of_app n v others s) (command io (remove_name (rollback_name n)))"
  "keeps (rest_of_app n v others s) (command io Some)"
proof -
  have drop: "rest_of_app n v others s u" if "rest_of_app n v others s t" "remove_name (rollback_name n) t = Some u" for t u
  proof -
    have files: "look_file u k = (if k = rollback_name n then None else look_file t k)" for k
      using that(2) by (auto simp: remove_name_def map_of_del)
    have "look_file t (staged_name n) = None" using that(1) by (auto simp: rest_of_app_def view_of_def)
    then have "view_of (no_files u) n = view_of (no_files t) n" using files by (intro view_cong) auto
    moreover have "view_of (no_files u) m = view_of (no_files t) m" if "m \<noteq> n" for m using files that by (intro view_cong) auto
    moreover have "same_rest t u" using that(2) by (auto simp: remove_name_def same_rest_def)
    ultimately show ?thesis using that(1) same_rest_simps(2) unfolding rest_of_app_def by metis
  qed
  have count: "rest_of_app n v others s (count_cmd t) \<longleftrightarrow> rest_of_app n v others s t" for t
    by (simp add: rest_of_app_def same_rest_simps)
  show "keeps (rest_of_app n v others s) (command io (remove_name (rollback_name n)))" using drop count by (intro keeps_command) blast+
  show "keeps (rest_of_app n v others s) (command io Some)" using count by (intro keeps_command) auto
qed

lemma then_dropped:
  assumes "in_turn [f, command io Some, command io (remove_name (rollback_name n)), command io Some] s = (s', ok)"
  obtains s1 k where "f s = (s1, k)" and "ok \<Longrightarrow> k"
    and "\<And>v others. k \<Longrightarrow> rest_of_app n v others s s1 \<Longrightarrow> rest_of_app n v others s s'" and "\<not> k \<Longrightarrow> s' = s1"
proof -
  obtain s1 k where f: "f s = (s1, k)" by fastforce
  have "rest_of_app n v others s s'" if "k" "rest_of_app n v others s s1" for v others
  proof (rule in_turn_keeps [where P = "rest_of_app n v others s", OF _ _ that(2)])
    show "in_turn [command io Some, command io (remove_name (rollback_name n)), command io Some] s1 = (s', ok)"
      using assms in_turn_Cons [where f = f, OF f] that(1) by (simp del: in_turn.simps)
  qed (use rest_of_app_step in simp)
  then show thesis using that f assms by (auto split: prod.splits if_splits)
qed

lemma commit_law:
  assumes "commit_app io n s = (s', ok)"
  shows "view_of (no_files s') n = view_of (no_files s) n \<or>
      (\<exists>t r. snd (view_of (no_files s) n) = Some (t, r) \<and> view_of (no_files s') n = (Some t, None))"
    and "ok \<Longrightarrow> \<exists>t r. snd (view_of (no_files s) n) = Some (t, r) \<and> view_of (no_files s') n = (Some t, None)"
    and "m \<noteq> n \<Longrightarrow> view_of (no_files s') m = view_of (no_files s) m" and "same_rest s s'"
proof -
  have "(view_of (no_files s') n = view_of (no_files s) n \<or>
      (\<exists>t r. snd (view_of (no_files s) n) = Some (t, r) \<and> view_of (no_files s') n = (Some t, None))) \<and>
     (ok \<longrightarrow> (\<exists>t r. snd (view_of (no_files s) n) = Some (t, r) \<and> view_of (no_files s') n = (Some t, None))) \<and>
     (\<forall>m. m \<noteq> n \<longrightarrow> view_of (no_files s') m = view_of (no_files s) m) \<and> same_rest s s'"
  proof (cases "safe_unit_name n")
    case True
    then have run: "in_turn [command io (move_name (staged_name n) (accepted_name n)), command io Some,
        command io (remove_name (rollback_name n)), command io Some] s = (s', ok)" using assms by (simp add: commit_app_def)
    from then_dropped [OF run] obtain s1 k where k: "command io (move_name (staged_name n) (accepted_name n)) s = (s1, k)" "ok \<Longrightarrow> k"
      "\<And>v others. k \<Longrightarrow> rest_of_app n v others s s1 \<Longrightarrow> rest_of_app n v others s s'" "\<not> k \<Longrightarrow> s' = s1" by blast
    have moved: "\<exists>t r. snd (view_of (no_files s) n) = Some (t, r) \<and> rest_of_app n (Some t, None) (view_of (no_files s)) s (count_cmd u)"
      if mv: "move_name (staged_name n) (accepted_name n) s = Some u" for u
    proof -
      obtain t where t: "look_file s (staged_name n) = Some t" "u = s\<lparr>no_files := put (accepted_name n) t (del_key (staged_name n) (no_files s))\<rparr>"
        using mv by (auto simp: move_name_def split: option.splits)
      have files: "look_file u j = (if j = accepted_name n then Some t else if j = staged_name n then None else look_file s j)" for j
        by (simp add: t(2) map_of_put map_of_del)
      have "view_of (no_files u) m = view_of (no_files s) m" if "m \<noteq> n" for m using files that by (intro view_cong) auto
      moreover have "view_of (no_files u) n = (Some t, None)" using files by (simp add: view_of_def)
      ultimately show ?thesis using t by (auto simp: rest_of_app_def same_rest_def view_of_def)
    qed
    show ?thesis
    proof (cases k)
      case True
      then have "command io (move_name (staged_name n) (accepted_name n)) s = (s1, True)" using k(1) by simp
      from command_True [OF this] obtain u where "move_name (staged_name n) (accepted_name n) s = Some u" "s1 = count_cmd u" by blast
      then show ?thesis using moved k(3) True by (fastforce simp: rest_of_app_def)
    next
      case False
      then show ?thesis using k(2,4) command_any [OF k(1)] moved by (auto simp: rest_of_app_def same_rest_simps)
    qed
  qed (use assms in \<open>auto simp: commit_app_def same_rest_simps\<close>)
  then show "view_of (no_files s') n = view_of (no_files s) n \<or>
      (\<exists>t r. snd (view_of (no_files s) n) = Some (t, r) \<and> view_of (no_files s') n = (Some t, None))"
    "ok \<Longrightarrow> \<exists>t r. snd (view_of (no_files s) n) = Some (t, r) \<and> view_of (no_files s') n = (Some t, None)"
    "m \<noteq> n \<Longrightarrow> view_of (no_files s') m = view_of (no_files s) m" "same_rest s s'" by blast+
qed

lemma discard_law:
  assumes "discard_app io n s = (s', ok)"
  shows "view_of (no_files s') n \<in> {view_of (no_files s) n, (fst (view_of (no_files s) n), None)}"
    and "ok \<Longrightarrow> view_of (no_files s') n = (fst (view_of (no_files s) n), None)"
    and "m \<noteq> n \<Longrightarrow> view_of (no_files s') m = view_of (no_files s) m" and "same_rest s s'"
proof -
  have "view_of (no_files s') n \<in> {view_of (no_files s) n, (fst (view_of (no_files s) n), None)} \<and>
     (ok \<longrightarrow> view_of (no_files s') n = (fst (view_of (no_files s) n), None)) \<and>
     (\<forall>m. m \<noteq> n \<longrightarrow> view_of (no_files s') m = view_of (no_files s) m) \<and> same_rest s s'"
  proof (cases "safe_unit_name n")
    case True
    then have run: "in_turn [command io (remove_name (staged_name n)), command io Some,
        command io (remove_name (rollback_name n)), command io Some] s = (s', ok)" using assms by (simp add: discard_app_def)
    from then_dropped [OF run] obtain s1 k where k: "command io (remove_name (staged_name n)) s = (s1, k)" "ok \<Longrightarrow> k"
      "\<And>v others. k \<Longrightarrow> rest_of_app n v others s s1 \<Longrightarrow> rest_of_app n v others s s'" "\<not> k \<Longrightarrow> s' = s1" by blast
    have gone: "rest_of_app n (fst (view_of (no_files s) n), None) (view_of (no_files s)) s (count_cmd u)"
      if "remove_name (staged_name n) s = Some u" for u
    proof -
      have files: "look_file u j = (if j = staged_name n then None else look_file s j)" for j
        using that by (auto simp: remove_name_def map_of_del)
      have "view_of (no_files u) m = view_of (no_files s) m" if "m \<noteq> n" for m using files that by (intro view_cong) auto
      moreover have "view_of (no_files u) n = (fst (view_of (no_files s) n), None)" using files by (simp add: view_of_def)
      moreover have "same_rest s u" using that by (auto simp: remove_name_def same_rest_def)
      ultimately show ?thesis by (auto simp: rest_of_app_def same_rest_simps)
    qed
    show ?thesis
    proof (cases k)
      case True
      then have "command io (remove_name (staged_name n)) s = (s1, True)" using k(1) by simp
      from command_True [OF this] obtain u where "remove_name (staged_name n) s = Some u" "s1 = count_cmd u" by blast
      then show ?thesis using gone k(3) True by (fastforce simp: rest_of_app_def)
    next
      case False
      then show ?thesis using k(2,4) command_any [OF k(1)] gone by (auto simp: rest_of_app_def same_rest_simps)
    qed
  qed (use assms in \<open>auto simp: discard_app_def same_rest_simps safe_unit_name_def\<close>)
  then show "view_of (no_files s') n \<in> {view_of (no_files s) n, (fst (view_of (no_files s) n), None)}"
    "ok \<Longrightarrow> view_of (no_files s') n = (fst (view_of (no_files s) n), None)"
    "m \<noteq> n \<Longrightarrow> view_of (no_files s') m = view_of (no_files s) m" "same_rest s s'" by blast+
qed


lemma suffix_take: "suffix w f \<Longrightarrow> take (length f - length w) f @ w = f"
  by (auto simp: suffix_def)

lemma staged_names_iff: "n \<in> set (staged_names fs) \<longleftrightarrow> map_of fs (staged_name n) \<noteq> None"
proof -
  have "n \<in> set (staged_names fs) \<longleftrightarrow> (\<exists>f\<in>fst ` set fs. suffix ''.json.next'' f \<and> n = take (length f - 10) f)"
    by (auto simp: staged_names_def)
  also have "\<dots> \<longleftrightarrow> staged_name n \<in> fst ` set fs"
  proof
    assume "\<exists>f\<in>fst ` set fs. suffix ''.json.next'' f \<and> n = take (length f - 10) f"
    then obtain f where f: "f \<in> fst ` set fs" "suffix ''.json.next'' f" "n = take (length f - 10) f" by blast
    have ten: "length ''.json.next'' = 10" by simp
    have "n @ ''.json.next'' = f" unfolding f(3) by (rule suffix_take [OF f(2), unfolded ten])
    then show "staged_name n \<in> fst ` set fs" using f(1) by (simp only: staged_name_def)
  next
    assume key: "staged_name n \<in> fst ` set fs"
    have "suffix ''.json.next'' (staged_name n)" "n = take (length (staged_name n) - 10) (staged_name n)"
      by (simp_all add: staged_name_def suffix_def)
    then show "\<exists>f\<in>fst ` set fs. suffix ''.json.next'' f \<and> n = take (length f - 10) f" using key by blast
  qed
  finally show ?thesis by (simp add: map_of_eq_None_iff)
qed

text \<open>
  Where the staged installs are listed and the rollback points are read, what is reported as pending is what the
  view says.
\<close>

definition reports_stages :: "verb_io \<Rightarrow> bool" where
  "reports_stages io \<longleftrightarrow> (\<forall>c. vi_held io c) \<and> (\<forall>c n. vi_reads io c (rollback_name n))"

lemma pending_of_Some:
  "pending_of io c fs n = Some p \<Longrightarrow> pi_name p = n \<and> map_of fs (staged_name n) = Some (pi_staged p) \<and>
     (vi_reads io c (rollback_name n) \<longrightarrow> pi_rollback p = trim_space (file_or_empty fs (rollback_name n)))"
  by (auto simp: pending_of_def read_file_def file_or_empty_def or_empty_def split: option.splits if_splits)

lemma pending_law:
  assumes "pending_installs io s = (s', answer)"
  shows "no_files s' = no_files s" and "same_rest s s'"
    and "reports_stages io \<Longrightarrow> answer = Some ps \<Longrightarrow> map pi_name ps = staged_names (no_files s)"
    and "reports_stages io \<Longrightarrow> answer = Some ps \<Longrightarrow> p \<in> set ps \<Longrightarrow>
      snd (view_of (no_files s) (pi_name p)) = Some (pi_staged p, pi_rollback p)"
proof -
  let ?ps = "map (pending_of io (no_cmds s) (no_files s)) (listed_stages io (no_cmds s) (no_files s))"
  show "no_files s' = no_files s" "same_rest s s'"
    using assms by (auto simp: pending_installs_def same_rest_def Let_def split: prod.splits dest!: command_any)
  have all: "None \<notin> set ?ps" "ps = map the ?ps" "listed_stages io (no_cmds s) (no_files s) = staged_names (no_files s)"
    if "reports_stages io" "answer = Some ps"
    using assms that by (auto simp: pending_installs_def Let_def listed_stages_def reports_stages_def split: prod.splits if_splits)
  have each: "\<exists>p. pending_of io (no_cmds s) (no_files s) n = Some p" if "reports_stages io" "answer = Some ps" "n \<in> set (staged_names (no_files s))" for n
    using all(1,3) [OF that(1,2)] that(3) by (metis image_eqI list.set_map not_None_eq)
  show "map pi_name ps = staged_names (no_files s)" if "reports_stages io" "answer = Some ps"
  proof -
    have "map (\<lambda>n. pi_name (the (pending_of io (no_cmds s) (no_files s) n))) (staged_names (no_files s)) = map (\<lambda>n. n) (staged_names (no_files s))"
      using each [OF that] pending_of_Some by (intro map_cong) fastforce+
    then show ?thesis using all(2,3) [OF that] by (simp add: comp_def)
  qed
  show "snd (view_of (no_files s) (pi_name p)) = Some (pi_staged p, pi_rollback p)"
    if h: "reports_stages io" "answer = Some ps" "p \<in> set ps"
  proof -
    obtain n where n: "n \<in> set (staged_names (no_files s))" "p = the (pending_of io (no_cmds s) (no_files s) n)"
      using all(2,3) [OF h(1,2)] h(3) by auto
    then have "pending_of io (no_cmds s) (no_files s) n = Some p" using each [OF h(1,2) n(1)] by auto
    from pending_of_Some [OF this] show ?thesis using h(1) by (auto simp: view_of_def reports_stages_def)
  qed
qed

lemma none_pending: "n \<notin> set (staged_names fs) \<Longrightarrow> snd (view_of fs n) = None"
  by (auto simp: view_of_def staged_names_iff)


section \<open>Data and members\<close>

lemma take_member_law:
  assumes "command io (take_member_of n member) s = (s', ok)"
  shows "no_files s' = no_files s \<and> no_data s' = no_data s \<and> no_running s' = no_running s \<and>
     (\<forall>k d. no_members s k = Some d \<longrightarrow> no_members s' k = Some d) \<and>
     (ok \<longrightarrow> no_members s' member = no_data s n \<and> no_data s n \<noteq> None)"
  using command_any [OF assms] command_True [of io "take_member_of n member" s s'] assms
  by (cases ok) (auto simp: take_member_of_def split: if_splits option.splits)

text \<open>A restore ends with the data as it was, gone, or as the member has it; only nothing running lets it go.\<close>

definition restoring_app :: "string \<Rightarrow> node \<Rightarrow> node \<Rightarrow> bool" where
  "restoring_app n s t \<longleftrightarrow> no_files t = no_files s \<and> no_running t = no_running s \<and> no_members t = no_members s \<and>
     (\<forall>m. m \<noteq> n \<longrightarrow> no_data t m = no_data s m)"

lemma restoring_app_steps:
  "keeps (restoring_app n s) (command io (show_member member))" "keeps (restoring_app n s) (command io Some)"
  "keeps (restoring_app n s) (command io (clear_restoring n))" "keeps (restoring_app n s) (command io (stage_copy n member))"
  "keeps (restoring_app n s) (command io (delete_data n))" "keeps (restoring_app n s) (command io (swap_in n))"
  by (intro keeps_command;
      auto simp: restoring_app_def show_member_def clear_restoring_def stage_copy_def delete_data_def swap_in_def split: if_splits option.splits)+

lemma restore_law:
  assumes "restore_data io n member s = (s', ok)"
  shows "restoring_app n s s'"
    and "ok \<Longrightarrow> no_running s n = None \<and> no_data s n \<noteq> None \<and> no_data s' n = no_members s member \<and> no_members s member \<noteq> None"
    and "no_running s n \<noteq> None \<Longrightarrow> no_data s' n = no_data s n"
proof -
  let ?pre = "[command io (show_member member), command io Some] @ (if no_restoring s n \<noteq> None then [command io (clear_restoring n)] else []) @ [command io Some]"
  let ?rest = "[command io (stage_copy n member), command io Some, command io (delete_data n), command io (swap_in n)]"
  have run: "in_turn (?pre @ ?rest) s = (s', ok)" using assms by (simp add: restore_data_def del: in_turn.simps)
  show "restoring_app n s s'"
  proof (rule in_turn_keeps [where P = "restoring_app n s", OF run])
    show "\<forall>f\<in>set (?pre @ ?rest). keeps (restoring_app n s) f" using restoring_app_steps by auto
  qed (simp add: restoring_app_def)
  obtain a k where a: "in_turn ?pre s = (a, k)" by fastforce
  let ?P = "\<lambda>t. no_data t n = no_data s n \<and> no_running t n = no_running s n \<and> no_members t = no_members s"
  have "?P a"
  proof (rule in_turn_keeps [where P = ?P, OF a])
    have "keeps ?P (command io (show_member member))" "keeps ?P (command io Some)" "keeps ?P (command io (clear_restoring n))"
      by (intro keeps_command; auto simp: show_member_def clear_restoring_def split: if_splits)+
    then show "\<forall>f\<in>set ?pre. keeps ?P f" by auto
  qed simp
  moreover have "(s', ok) = (if k then in_turn ?rest a else (a, False))" using run [unfolded in_turn_append [of ?pre ?rest]] a by (simp only: prod.case)
  ultimately have "(ok \<longrightarrow> no_running s n = None \<and> no_data s n \<noteq> None \<and> no_data s' n = no_members s member \<and> no_members s member \<noteq> None) \<and>
      (no_running s n \<noteq> None \<longrightarrow> no_data s' n = no_data s n)"
    by (cases k) (auto simp: command_def stage_copy_def delete_data_def swap_in_def split: option.splits write_outcome.splits if_splits)
  then show "ok \<Longrightarrow> no_running s n = None \<and> no_data s n \<noteq> None \<and> no_data s' n = no_members s member \<and> no_members s member \<noteq> None"
    "no_running s n \<noteq> None \<Longrightarrow> no_data s' n = no_data s n" by blast+
qed


section \<open>A record in two phases\<close>

text \<open>
  What the host relies on: the verbs that end a staged install either do nothing to what the record says of an
  app, or do all of it, and touch no other app. Then whatever is called, in whatever order and however it
  fails, the record names the old version, the pending one, or the new one.
\<close>

datatype 'n ending = Commit 'n | Discard 'n

locale two_phase =
  fixes view :: "'s \<Rightarrow> 'n \<Rightarrow> 'v option \<times> ('v \<times> 'b) option"
    and commit :: "'io \<Rightarrow> 'n \<Rightarrow> 's \<Rightarrow> 's \<times> bool"
    and discard :: "'io \<Rightarrow> 'n \<Rightarrow> 's \<Rightarrow> 's \<times> bool"
  assumes commit_view: "commit io n s = (s', ok) \<Longrightarrow>
      view s' n = view s n \<or> (\<exists>v b. snd (view s n) = Some (v, b) \<and> view s' n = (Some v, None))"
    and discard_view: "discard io n s = (s', ok) \<Longrightarrow> view s' n = view s n \<or> view s' n = (fst (view s n), None)"
    and commit_frame: "commit io n s = (s', ok) \<Longrightarrow> m \<noteq> n \<Longrightarrow> view s' m = view s m"
    and discard_frame: "discard io n s = (s', ok) \<Longrightarrow> m \<noteq> n \<Longrightarrow> view s' m = view s m"
begin

definition ended :: "'s \<Rightarrow> ('io \<times> 'n ending) list \<Rightarrow> 's" where
  "ended = foldl (\<lambda>s (io, e). fst (case e of Commit n \<Rightarrow> commit io n s | Discard n \<Rightarrow> discard io n s))"

lemma ended_Cons: "ended s ((io, e) # es) = ended (fst (case e of Commit n \<Rightarrow> commit io n s | Discard n \<Rightarrow> discard io n s)) es"
  by (simp add: ended_def)

lemma one_ending:
  assumes "t = fst (case e of Commit n \<Rightarrow> commit io n s | Discard n \<Rightarrow> discard io n s)"
  shows "view t m = view s m \<or> view t m = (fst (view s m), None) \<or> (\<exists>v b. snd (view s m) = Some (v, b) \<and> view t m = (Some v, None))"
proof (cases e)
  case (Commit n)
  then show ?thesis using assms commit_view [of io n s t] commit_frame [of io n s t _ m] by (cases "m = n") (metis eq_fst_iff ending.simps(5))+
next
  case (Discard n)
  then show ?thesis using assms discard_view [of io n s t] discard_frame [of io n s t _ m] by (cases "m = n") (metis eq_fst_iff ending.simps(6))+
qed

lemma settled_stays: "view s m = (a, None) \<Longrightarrow> view (ended s es) m = (a, None)"
proof (induction es arbitrary: s)
  case (Cons x es)
  obtain io e where x: "x = (io, e)" by fastforce
  from one_ending [where e = e and io = io and s = s and m = m, OF refl] Cons show ?case unfolding x ended_Cons by simp
qed (simp add: ended_def)

lemma old_pending_or_new:
  "view s m = (a, Some (v, b)) \<Longrightarrow> view (ended s es) m \<in> {(a, Some (v, b)), (a, None), (Some v, None)}"
proof (induction es arbitrary: s)
  case (Cons x es)
  obtain io e where x: "x = (io, e)" by fastforce
  let ?t = "fst (case e of Commit n \<Rightarrow> commit io n s | Discard n \<Rightarrow> discard io n s)"
  from one_ending [where e = e and io = io and s = s and m = m, OF refl] Cons.prems
  consider "view ?t m = (a, Some (v, b))" | "view ?t m = (a, None)" | "view ?t m = (Some v, None)" by fastforce
  then show ?case
  proof cases
    case 1
    then show ?thesis unfolding x ended_Cons by (rule Cons.IH)
  qed (use settled_stays x ended_Cons in simp_all)
qed (simp add: ended_def)

end

interpretation book: two_phase "\<lambda>s. view_of (no_files s)" commit_app discard_app
proof
  show "commit_app io n s = (s', ok) \<Longrightarrow> view_of (no_files s') n = view_of (no_files s) n \<or>
      (\<exists>v b. snd (view_of (no_files s) n) = Some (v, b) \<and> view_of (no_files s') n = (Some v, None))" for io n s s' ok
    by (rule commit_law(1))
  show "discard_app io n s = (s', ok) \<Longrightarrow> view_of (no_files s') n = view_of (no_files s) n \<or>
      view_of (no_files s') n = (fst (view_of (no_files s) n), None)" for io n s s' ok
    using discard_law(1) by blast
qed (use commit_law(3) discard_law(3) in blast)+

text \<open>Any sequence of the verbs that end installs, of any app, each failing or cut as it may.\<close>

definition end_installs :: "node \<Rightarrow> (verb_io \<times> string ending) list \<Rightarrow> node" where
  "end_installs = foldl (\<lambda>s (io, e). fst (case e of Commit n \<Rightarrow> commit_app io n s | Discard n \<Rightarrow> discard_app io n s))"

text \<open>
  C37: an install is recorded whole or not at all: staging an app that has nothing pending, and then any
  sequence of commits and discards of any apps, each of whose commands may fail, be reported as failed though
  done, or be cut by a power failure, leaves the volume naming the old version with nothing pending, the old
  version with the new one pending together with exactly the rollback point of this install, or the new
  version; a stage that reports success has recorded all of it, and touches no other app.
\<close>

theorem installs_are_recorded_whole_or_not_at_all:
  assumes "view_of (no_files s) (sr_name req) = (old, None)" and "stage_app io req s = (t, ok)"
  shows "view_of (no_files (end_installs t ends)) (sr_name req) \<in>
        {(old, None), (old, Some (sr_manifest req, trim_space (sr_rollback req))), (Some (sr_manifest req), None)} \<and>
     (ok \<longrightarrow> view_of (no_files t) (sr_name req) = (old, Some (sr_manifest req, trim_space (sr_rollback req)))) \<and>
     (\<forall>m. m \<noteq> sr_name req \<longrightarrow> view_of (no_files t) m = view_of (no_files s) m)"
proof -
  let ?pending = "(old, Some (sr_manifest req, trim_space (sr_rollback req)))"
  have ends: "end_installs = book.ended" by (simp add: end_installs_def book.ended_def)
  note law = stage_law [OF assms(2)]
  have idle: "snd (view_of (no_files s) (sr_name req)) = None" using assms(1) by simp
  have "view_of (no_files t) (sr_name req) = (old, None) \<or> view_of (no_files t) (sr_name req) = ?pending"
    using law(1) [OF idle] assms(1) by (auto simp: staged_view_def)
  then have "view_of (no_files (end_installs t ends)) (sr_name req) \<in> {(old, None), ?pending, (Some (sr_manifest req), None)}"
    unfolding ends
  proof
    assume "view_of (no_files t) (sr_name req) = (old, None)"
    from book.settled_stays [OF this] show "view_of (no_files (book.ended t ends)) (sr_name req) \<in> {(old, None), ?pending, (Some (sr_manifest req), None)}" by simp
  next
    assume "view_of (no_files t) (sr_name req) = ?pending"
    from book.old_pending_or_new [OF this, of ends] show "view_of (no_files (book.ended t ends)) (sr_name req) \<in> {(old, None), ?pending, (Some (sr_manifest req), None)}" by blast
  qed
  moreover have "ok \<longrightarrow> view_of (no_files t) (sr_name req) = ?pending"
    using law(2) assms(1) by (simp add: staged_view_def)
  ultimately show ?thesis using law(3) by blast
qed

definition example_volume :: node where
  "example_volume =
     \<lparr>no_files = [(''x.json'', ''1'')], no_data = (\<lambda>_. None), no_restoring = (\<lambda>_. None), no_members = (\<lambda>_. None),
      no_running = (\<lambda>_. None), no_cmds = 0\<rparr>"

definition example_request :: stage_request where
  "example_request = \<lparr>sr_name = ''x'', sr_data_dir = ''/data'', sr_manifest = ''2'', sr_rollback = ''m''\<rparr>"

text \<open>The seventh command is cut, which is the move of the staged manifest into its place.\<close>

definition example_verbs :: verb_io where
  "example_verbs =
     \<lparr>vi_out = (\<lambda>i. if i = 8 then Unflushed else Written), vi_stops = (\<lambda>_ _. True), vi_starts = (\<lambda>_ _. True), vi_prepares = (\<lambda>_ _. True),
      vi_names = (\<lambda>_. True), vi_held = (\<lambda>_. True), vi_reads = (\<lambda>_ _. True)\<rparr>"

theorem installs_are_recorded_whole_or_not_at_all_witness:
  "view_of (no_files (end_installs (fst (stage_app example_verbs example_request example_volume)) [(example_verbs, Commit ''x'')])) ''x''
     \<in> {(Some ''1'', None), (Some ''1'', Some (''2'', ''m'')), (Some ''2'', None)}"
proof -
  have old: "view_of (no_files example_volume) (sr_name example_request) = (Some ''1'', None)" by code_simp
  obtain t ok where t: "stage_app example_verbs example_request example_volume = (t, ok)" by fastforce
  have trim: "trim_space (sr_rollback example_request) = ''m''" by code_simp
  have req: "sr_name example_request = ''x''" "sr_manifest example_request = ''2''" by (simp_all add: example_request_def)
  show ?thesis
    using conjunct1 [OF installs_are_recorded_whole_or_not_at_all [OF old t, of "[(example_verbs, Commit ''x'')]"]]
    unfolding req trim t fst_conv .
qed

end
