(* ===== verification/Install.thy ===== *)
theory Install
  imports Staging
begin

text \<open>
  Installing and upgrading an app on the host, with its gates and its undo (\<open>agent/host/app.go\<close>), composed with
  the guest's staged record, its samples and its converge (\<open>Staging\<close>). Fetching, the machine's room and memory,
  the pull, the health of the app and the judge of its readiness are answers of an environment.
\<close>


section \<open>The gate and the prior version\<close>

text \<open>The looks at the app's health, each with whether the deadline had passed; the list ends with the act's budget.\<close>

fun await_healthy :: "(app_health option \<times> bool) list \<Rightarrow> bool" where
  "await_healthy [] = False"
| "await_healthy ((h, late) # looks) =
     (if h = Some Healthy then True
      else if late then h = Some HealthUnknown
      else await_healthy looks)"

definition files_to_remove :: "(string \<times> string) list \<Rightarrow> (string \<times> string) list \<Rightarrow> string list" where
  "files_to_remove have want = sort (filter (\<lambda>k. k \<notin> fst ` set want) (map fst have))"

record install_env =
  ie_installed :: bool
  ie_converge :: bool
  ie_member :: bool
  ie_fetch :: "(app_manifest \<times> string) option"
  ie_room :: bool
  ie_memory :: bool
  ie_active :: "bool option"
  ie_read :: bool
  ie_parse :: "string \<Rightarrow> app_manifest option"
  ie_paths :: node_paths
  ie_render :: "(string \<times> string) list \<Rightarrow> string list \<Rightarrow> bool"
  ie_warm :: "string \<Rightarrow> bool"
  ie_serving :: "bool option"
  ie_now :: time
  ie_undo_now :: time
  ie_looks :: "(app_health option \<times> bool) list"
  ie_judge :: bool

text \<open>The manifest on the volume that an undo goes back to, with its rendering.\<close>

definition prior_app :: "install_env \<Rightarrow> node \<Rightarrow> string \<Rightarrow> string \<Rightarrow> (rendered \<times> string) option" where
  "prior_app env s n incoming =
     (if \<not> ie_read env then None
      else let raw = file_or_empty (no_files s) (accepted_name n)
           in if raw = [] \<or> raw = incoming then None
              else case ie_parse env raw of
                     None \<Rightarrow> None
                   | Some pm \<Rightarrow> (case render_app (ie_paths env) pm [] of Inl _ \<Rightarrow> None | Inr r \<Rightarrow> Some (r, raw)))"

text \<open>\<open>containerUnits\<close> names no units for what does not parse or render.\<close>

definition has_units :: "install_env \<Rightarrow> string \<Rightarrow> bool" where
  "has_units env raw =
     (case ie_parse env raw of
        None \<Rightarrow> False
      | Some m \<Rightarrow> (case render_app (ie_paths env) m [] of Inl _ \<Rightarrow> False | Inr r \<Rightarrow> re_container_units r \<noteq> []))"


section \<open>The undo\<close>

definition undo_quiesced :: "verb_io \<Rightarrow> install_env \<Rightarrow> pending_install \<Rightarrow> node \<Rightarrow> node" where
  "undo_quiesced io env p s =
     (if has_units env (pi_staged p) \<or> has_units env (pi_accepted p) then quiesce_app io (pi_name p) s else s)"

text \<open>The failed version's data is kept as a sample, if it can be, before the rollback point is put back.\<close>

definition undo_data :: "verb_io \<Rightarrow> install_env \<Rightarrow> pending_install \<Rightarrow> step" where
  "undo_data io env p s =
     (if pi_rollback p = [] then (s, True)
      else let n = pi_name p;
               kept = fst (verb io (command io (take_member_of n (snapshot_member n TriggerAppUndoBefore (ie_undo_now env)))) s)
           in verb io (restore_data io n (pi_rollback p)) kept)"

definition undo_staged :: "verb_io \<Rightarrow> install_env \<Rightarrow> pending_install \<Rightarrow> step" where
  "undo_staged io env p s =
     (case undo_data io env p (undo_quiesced io env p s) of
        (s2, restored) \<Rightarrow>
          if \<not> restored then (s2, False)
          else case verb io (discard_app io (pi_name p)) s2 of
                 (s3, discarded) \<Rightarrow>
                   if \<not> discarded then (s3, False)
                   else (case converge_node io [] s3 of (s4, r) \<Rightarrow> (s4, r \<noteq> None)))"

definition undo_install :: "verb_io \<Rightarrow> install_env \<Rightarrow> string \<Rightarrow> step" where
  "undo_install io env n s =
     (case pending_installs io s of
        (s1, None) \<Rightarrow> (s1, False)
      | (s1, Some ps) \<Rightarrow>
          (case find (\<lambda>p. pi_name p = n) ps of
             Some p \<Rightarrow> undo_staged io env p s1
           | None \<Rightarrow> (case converge_node io [] s1 of (s2, r) \<Rightarrow> (s2, r \<noteq> None))))"

text \<open>
  What a node that starts to serve undoes. The second component says whether the promotion's check is settled;
  \<open>busy\<close> is an act in progress.
\<close>

definition undo_pending :: "verb_io \<Rightarrow> install_env \<Rightarrow> bool \<Rightarrow> step" where
  "undo_pending io env busy s =
     (if busy then (s, False)
      else case pending_installs io s of
             (s1, None) \<Rightarrow> (s1, False)
           | (s1, Some ps) \<Rightarrow> (foldl (\<lambda>t p. fst (undo_staged io env p t)) s1 ps, True))"


section \<open>The install\<close>

datatype install_outcome =
    NoAppNamed
  | GuestTooOld
  | NotFetched
  | NoRoom
  | NoMemory
  | NotRendered
  | PromoterPaused
  | UnitsNotWritten
  | NotWarmed
  | StatusUnknown
  | UnitsRendered
  | StoppedFailed bool
  | RolledBack
  | RevertFailed
  | Installed

definition revert_install :: "verb_io \<Rightarrow> install_env \<Rightarrow> string \<Rightarrow> node \<Rightarrow> node \<times> install_outcome" where
  "revert_install io env n s =
     (case undo_install io env n s of (s', ok) \<Rightarrow> (s', if ok then RolledBack else RevertFailed))"

text \<open>From the stage on every failure is the undo.\<close>

definition stage_and_gate :: "verb_io \<Rightarrow> install_env \<Rightarrow> string \<Rightarrow> string \<Rightarrow> string \<Rightarrow> node \<Rightarrow> node \<times> install_outcome" where
  "stage_and_gate io env n raw snap s =
     (case verb io (stage_app io \<lparr>sr_name = n, sr_data_dir = data_root n, sr_manifest = raw, sr_rollback = snap\<rparr>) s of
        (s1, staged) \<Rightarrow>
          if \<not> staged then revert_install io env n s1
          else (case converge_node io n s1 of
                  (s2, None) \<Rightarrow> revert_install io env n s2
                | (s2, Some skipped) \<Rightarrow>
                    if skipped n then revert_install io env n s2
                    else if \<not> await_healthy (ie_looks env) then revert_install io env n s2
                    else if \<not> ie_judge env then revert_install io env n s2
                    else (case verb io (commit_app io n) s2 of
                            (s3, committed) \<Rightarrow> if \<not> committed then revert_install io env n s3 else (s3, Installed))))"

definition install_serving :: "verb_io \<Rightarrow> install_env \<Rightarrow> string \<Rightarrow> string \<Rightarrow> (rendered \<times> string) option \<Rightarrow> node \<Rightarrow> node \<times> install_outcome" where
  "install_serving io env n raw prior s =
     (case prior of
        None \<Rightarrow> stage_and_gate io env n raw [] s
      | Some _ \<Rightarrow>
          (let snap = snapshot_member n TriggerAppUpdateBefore (ie_now env)
           in case verb io (command io (take_member_of n snap)) (quiesce_app io n s) of
                (s1, taken) \<Rightarrow>
                  if \<not> taken then (case converge_node io [] s1 of (s2, r) \<Rightarrow> (s2, StoppedFailed (r \<noteq> None)))
                  else stage_and_gate io env n raw snap s1))"

definition apply_one_install :: "verb_io \<Rightarrow> install_env \<Rightarrow> string \<Rightarrow> node \<Rightarrow> node \<times> install_outcome" where
  "apply_one_install io env payload s =
     (if payload = [] then (s, NoAppNamed)
      else if \<not> ie_installed env \<or> \<not> ie_converge env \<or> \<not> ie_member env then (s, GuestTooOld)
      else case ie_fetch env of
             None \<Rightarrow> (s, NotFetched)
           | Some (m, raw) \<Rightarrow>
               if \<not> ie_room env then (s, NoRoom)
               else if \<not> ie_memory env then (s, NoMemory)
               else case render_app (ie_paths env) m [] of
                      Inl _ \<Rightarrow> (s, NotRendered)
                    | Inr r \<Rightarrow>
                        if ie_active env \<noteq> Some True then (s, PromoterPaused)
                        else let prior = prior_app env s (mf_name m) raw;
                                 stale = (case prior of None \<Rightarrow> [] | Some (pr, _) \<Rightarrow> files_to_remove (re_files pr) (re_files r))
                             in if \<not> ie_render env (re_files r) stale then (s, UnitsNotWritten)
                                else if \<not> list_all (ie_warm env) (re_image_units r) then (s, NotWarmed)
                                else case ie_serving env of
                                       None \<Rightarrow> (s, StatusUnknown)
                                     | Some False \<Rightarrow> (s, UnitsRendered)
                                     | Some True \<Rightarrow> install_serving io env (mf_name m) raw prior s)"

text \<open>Several apps, in the order named, up to the first that does not end installed.\<close>

fun install_each :: "(string \<Rightarrow> verb_io \<times> install_env) \<Rightarrow> string list \<Rightarrow> node \<Rightarrow> node \<times> string list \<times> install_outcome" where
  "install_each envs [] s = (s, [], Installed)"
| "install_each envs (n # ns) s =
     (case apply_one_install (fst (envs n)) (snd (envs n)) n s of
        (s', o1) \<Rightarrow>
          if o1 \<noteq> Installed \<and> o1 \<noteq> UnitsRendered then (s', [], o1)
          else (case install_each envs ns s' of (s2, ns', o2) \<Rightarrow> (s2, n # ns', o2)))"

definition apply_app_install :: "(string \<Rightarrow> verb_io \<times> install_env) \<Rightarrow> string \<Rightarrow> node \<Rightarrow> node \<times> string list \<times> install_outcome" where
  "apply_app_install envs payload s =
     (let names = rev (remdups (rev (str_fields payload)))
      in if length names \<le> 1
         then (case apply_one_install (fst (envs payload)) (snd (envs payload)) payload s of (s', o1) \<Rightarrow> (s', [], o1))
         else install_each envs names s)"


section \<open>One name per file\<close>

definition tidy :: "node \<Rightarrow> bool" where "tidy s \<longleftrightarrow> distinct (map fst (no_files s))"

lemma tidy_put: "distinct (map fst fs) \<Longrightarrow> distinct (map fst (put k v fs))"
  by (auto simp: put_def distinct_map_filter)

lemma tidy_del: "distinct (map fst fs) \<Longrightarrow> distinct (map fst (del_key k fs))"
  by (simp add: del_key_def distinct_map_filter)

lemma tidy_count [simp]: "tidy (count_cmd s) = tidy s"
  by (simp add: tidy_def)

lemma tidy_commands:
  "keeps tidy (command io (write_name k v))" "keeps tidy (command io (move_name k k'))" "keeps tidy (command io (remove_name k))"
  "keeps tidy (command io Some)" "keeps tidy (command io (ensure_app_data n))"
  by (intro keeps_command; auto simp: tidy_def write_name_def move_name_def remove_name_def ensure_app_data_def tidy_put tidy_del
      split: option.splits)+

lemma tidy_in_turn: "in_turn fs s = (s', ok) \<Longrightarrow> \<forall>f\<in>set fs. keeps tidy f \<Longrightarrow> tidy s \<Longrightarrow> tidy s'"
  by (rule in_turn_keeps [where P = tidy])

lemma tidy_stage: "stage_app io req s = (s', ok) \<Longrightarrow> tidy s \<Longrightarrow> tidy s'"
proof -
  assume run: "stage_app io req s = (s', ok)" and s: "tidy s"
  have all: "\<forall>f\<in>set (stage_steps io req). keeps tidy f"
    by (auto simp: stage_steps_def rollback_steps_def write_durably_def tidy_commands)
  obtain a k where a: "in_turn (stage_steps io req) s = (a, k)" by fastforce
  have ta: "tidy a" by (rule tidy_in_turn [OF a all s])
  obtain b k' where b: "note_app_stop io (sr_name req) a = (b, k')" by fastforce
  have "tidy b"
    by (rule tidy_in_turn [OF b [unfolded note_app_stop_def] _ ta]) (simp add: tidy_commands)
  then show "tidy s'" using run a b ta s by (auto simp: stage_app_def split: if_splits)
qed

lemma tidy_endings: "commit_app io n s = (s', ok) \<Longrightarrow> tidy s \<Longrightarrow> tidy s'" "discard_app io n s = (t, ok') \<Longrightarrow> tidy s \<Longrightarrow> tidy t"
proof -
  show "tidy s'" if "commit_app io n s = (s', ok)" "tidy s"
  proof (cases "safe_unit_name n")
    case True
    then show ?thesis using that by (intro tidy_in_turn [of _ s s' ok]) (auto simp: commit_app_def tidy_commands simp del: in_turn.simps)
  qed (use that in \<open>simp add: commit_app_def\<close>)
  show "tidy t" if "discard_app io n s = (t, ok')" "tidy s"
  proof (cases "safe_unit_name n")
    case True
    then show ?thesis using that by (intro tidy_in_turn [of _ s t ok']) (auto simp: discard_app_def tidy_commands simp del: in_turn.simps)
  qed (use that in \<open>simp add: discard_app_def\<close>)
qed

lemma staged_names_distinct: "tidy s \<Longrightarrow> distinct (staged_names (no_files s))"
proof -
  assume "tidy s"
  then have keys: "distinct (filter (suffix ''.json.next'') (sort (map fst (no_files s))))" by (simp add: tidy_def)
  have "inj_on (\<lambda>f. take (length f - 10) f) {f. suffix ''.json.next'' f}"
  proof (rule inj_onI)
    fix f g :: string assume fg: "f \<in> {f. suffix ''.json.next'' f}" "g \<in> {f. suffix ''.json.next'' f}" "take (length f - 10) f = take (length g - 10) g"
    have ten: "length ''.json.next'' = 10" by simp
    have "take (length f - 10) f @ ''.json.next'' = f" "take (length g - 10) g @ ''.json.next'' = g"
      using fg(1,2) suffix_take [of "''.json.next''", unfolded ten] by auto
    then show "f = g" using fg(3) by metis
  qed
  then show ?thesis using keys unfolding staged_names_def distinct_map by (auto intro: inj_on_subset)
qed


section \<open>Verbs with their replies\<close>

lemma verb_result:
  assumes "verb io f s = (s', ok)"
  obtains t k where "f s = (t, k)" and "s' = t \<or> s' = count_cmd t" and "ok \<Longrightarrow> k"
proof -
  obtain t k where f: "f s = (t, k)" by fastforce
  have "(s' = t \<or> s' = count_cmd t) \<and> (ok \<longrightarrow> k)"
    using assms f by (cases k) (auto simp: verb_def split: prod.splits if_splits dest: command_any)
  then show thesis using that f by blast
qed


section \<open>What an upgrade may pass through\<close>

text \<open>
  \<open>a\<close> is the accepted version of app \<open>n\<close>, \<open>v\<close> the one installed over it, \<open>l0\<close> what had run on the data when the
  install began and \<open>snap\<close> the rollback point. Data is the prior version's when nothing but it has run since.
\<close>

definition prior_data :: "string \<Rightarrow> string list \<Rightarrow> string list option \<Rightarrow> bool" where
  "prior_data a l0 d \<longleftrightarrow> (\<exists>k. d = Some (l0 @ replicate k a))"

definition has_point :: "string \<Rightarrow> string list \<Rightarrow> string \<Rightarrow> node \<Rightarrow> bool" where
  "has_point a l0 snap s \<longleftrightarrow> prior_data a l0 (no_members s snap)"

definition upgrade_state :: "string \<Rightarrow> string \<Rightarrow> string \<Rightarrow> string list \<Rightarrow> string \<Rightarrow> node \<Rightarrow> bool" where
  "upgrade_state n a v l0 snap s \<longleftrightarrow>
     tidy s \<and> no_running s n \<in> {None, Some a, Some v} \<and>
     (no_running s n = Some a \<longrightarrow> prior_data a l0 (no_data s n)) \<and>
     (view_of (no_files s) n = (Some a, None) \<and> prior_data a l0 (no_data s n) \<and> no_running s n \<noteq> Some v \<or>
      view_of (no_files s) n = (Some a, Some (v, snap)) \<and> has_point a l0 snap s \<or>
      view_of (no_files s) n = (Some v, None))"

lemma upgrade_count [simp]:
  "upgrade_state n a v l0 snap (count_cmd s) = upgrade_state n a v l0 snap s" "has_point a l0 snap (count_cmd s) = has_point a l0 snap s"
  by (simp_all add: upgrade_state_def has_point_def)

lemma prior_data_more: "prior_data a l0 (Some l) \<Longrightarrow> prior_data a l0 (Some (l @ [a]))"
proof -
  assume "prior_data a l0 (Some l)"
  then obtain k where "l = l0 @ replicate k a" by (auto simp: prior_data_def)
  then have "l @ [a] = l0 @ replicate (Suc k) a" by (simp add: replicate_append_same)
  then show ?thesis unfolding prior_data_def by blast
qed

text \<open>A step that leaves the app alone, and no member behind.\<close>

definition leaves :: "string \<Rightarrow> node \<Rightarrow> node \<Rightarrow> bool" where
  "leaves n s t \<longleftrightarrow> view_of (no_files t) n = view_of (no_files s) n \<and> no_data t n = no_data s n \<and> no_running t n = no_running s n \<and>
     (\<forall>k d. no_members s k = Some d \<longrightarrow> no_members t k = Some d) \<and> (tidy s \<longrightarrow> tidy t)"

lemma point_kept: "has_point a l0 snap s \<Longrightarrow> (\<forall>k d. no_members s k = Some d \<longrightarrow> no_members t k = Some d) \<Longrightarrow> has_point a l0 snap t"
  by (auto simp: has_point_def prior_data_def)

lemma upgrade_left: "upgrade_state n a v l0 snap s \<Longrightarrow> leaves n s t \<Longrightarrow> upgrade_state n a v l0 snap t"
  using point_kept [of a l0 snap s t] by (auto simp: upgrade_state_def leaves_def)

lemma leaves_simps: "leaves n s s" "leaves n s t \<Longrightarrow> leaves n t u \<Longrightarrow> leaves n s u" "leaves n s (count_cmd t) = leaves n s t"
  by (auto simp: leaves_def)

lemma converge_members: "converge_node io live s = (t, r) \<Longrightarrow> no_members t = no_members s \<and> no_files t = no_files s"
  by (auto simp: converge_node_def Let_def split: write_outcome.splits)

lemma quiesce_upgrade: "upgrade_state n a v l0 snap s \<Longrightarrow> upgrade_state n a v l0 snap (quiesce_app io m s)"
  by (auto simp: quiesce_app_def upgrade_state_def has_point_def tidy_def)

lemma quiesce_simps [simp]: "no_members (quiesce_app io m s) = no_members s" "no_files (quiesce_app io m s) = no_files s"
  "no_data (quiesce_app io m s) = no_data s"
  by (simp_all add: quiesce_app_def)

lemma take_leaves: "command io (take_member_of m member) s = (t, ok) \<Longrightarrow> leaves n s t"
  using take_member_law [of io m member s t ok] by (auto simp: leaves_def tidy_def)

lemma verb_leaves: "verb io f s = (t, ok) \<Longrightarrow> (\<And>u k. f s = (u, k) \<Longrightarrow> leaves n s u) \<Longrightarrow> leaves n s t"
  by (erule verb_result) (auto simp: leaves_simps)


lemma restoring_leaves: "m \<noteq> n \<Longrightarrow> restoring_app m s t \<Longrightarrow> leaves n s t"
  by (auto simp: restoring_app_def leaves_def tidy_def)

lemma discard_leaves: "m \<noteq> n \<Longrightarrow> discard_app io m s = (t, ok) \<Longrightarrow> leaves n s t"
  using discard_law(3,4) [of io m s t ok] tidy_endings(2) [of io m s t ok] by (auto simp: leaves_def same_rest_def)

lemma undo_quiesced_upgrade:
  "upgrade_state n a v l0 snap s \<Longrightarrow> upgrade_state n a v l0 snap (undo_quiesced io env p s)"
  "no_members (undo_quiesced io env p s) = no_members s" "no_files (undo_quiesced io env p s) = no_files s"
  by (auto simp: undo_quiesced_def quiesce_upgrade)

lemma trim_ends: "w \<noteq> [] \<Longrightarrow> \<not> is_space (hd w) \<Longrightarrow> \<not> is_space (last w) \<Longrightarrow> trim_space w = w"
proof -
  assume w: "w \<noteq> []" "\<not> is_space (hd w)" "\<not> is_space (last w)"
  have "dropWhile is_space w = w" using w(1,2) by (cases w) simp_all
  moreover have "dropWhile is_space (rev w) = rev w" using w(1,3) by (cases w rule: rev_cases) simp_all
  ultimately show ?thesis by (simp add: trim_space_def)
qed

lemma member_name: "snapshot_member app t at \<noteq> []" "trim_space (snapshot_member app t at) = snapshot_member app t at"
proof -
  have ne: "format_stamp at \<noteq> []" and z: "last (format_stamp at) = CHR ''Z''"
    by (auto simp: format_stamp_def Let_def split: prod.splits)
  show "snapshot_member app t at \<noteq> []" by (simp add: snapshot_member_def)
  have "hd (snapshot_member app t at) = CHR ''/''" by (simp add: snapshot_member_def snapshots_dir_def)
  moreover have "last (snapshot_member app t at) = CHR ''Z''" using ne z by (simp add: snapshot_member_def)
  ultimately show "trim_space (snapshot_member app t at) = snapshot_member app t at"
    by (intro trim_ends) (simp_all add: snapshot_member_def is_space_def)
qed

lemma prior_app_Some: "prior_app env s n v = Some pr \<Longrightarrow> view_of (no_files s) n = (Some a, x) \<Longrightarrow> a \<noteq> v"
  by (auto simp: prior_app_def view_of_def file_or_empty_def or_empty_def split: if_splits option.splits)


text \<open>
  What the rest relies on of the guest's reports: the staged installs are listed, and the rollback points can be
  read. The lemmas that need it are those of the locale; it holds where commands work, and the theorem has it as a
  hypothesis on every run.
\<close>

locale truthful_reports =
  fixes io :: verb_io
  assumes reports: "reports_stages io"
begin

lemma converge_upgrade:
  assumes "upgrade_state n a v l0 snap s" and "a \<noteq> v" and "converge_node io live s = (t, r)"
  shows "upgrade_state n a v l0 snap t"
proof -
  let ?sel = "selected io (no_cmds s) (no_files s) live n"
  let ?now = "converged_running io (no_cmds s) ?sel n (no_running s n)"
  have t: "no_files t = no_files s" "no_members t = no_members s" "tidy t = tidy s"
    using converge_members [OF assms(3)] by (simp_all add: tidy_def)
  have cases: "(no_running t n = no_running s n \<and> no_data t n = no_data s n) \<or>
      (no_running t n = ?now \<and> no_data t n = opened (no_running s n) ?now (no_data s n))"
    using assms(3) by (auto simp: converge_node_def Let_def split: write_outcome.splits)
  have selected_view: "?sel = Some w \<Longrightarrow>
      (case view_of (no_files s) n of (acc, None) \<Rightarrow> acc | (acc, Some (w, _)) \<Rightarrow> if n = live then Some w else None) = Some w" for w
    using reports by (auto simp: selected_def view_of_def reports_stages_def split: option.splits if_splits)
  have now: "?now = no_running s n \<or> ?now = None \<or> (\<exists>w. ?sel = Some w \<and> ?now = Some w)"
    by (auto simp: converged_running_def split: option.split)
  show ?thesis
  proof (cases "no_running t n = no_running s n \<and> no_data t n = no_data s n")
    case True
    then show ?thesis using assms(1) t by (simp add: upgrade_state_def has_point_def)
  next
    case False
    then have run: "no_running t n = ?now" "no_data t n = opened (no_running s n) ?now (no_data s n)" using cases by auto
    consider "?now = no_running s n" | "?now = None" | w where "?sel = Some w" "?now = Some w" "?now \<noteq> no_running s n"
    proof (cases "?now = no_running s n")
      case False
      then show thesis using now that(2,3) by fast
    qed (use that(1) in simp)
    then show ?thesis
    proof cases
      case 1
      then have "no_data t n = no_data s n" using run by (auto simp: opened_def split: option.split)
      then show ?thesis using False run 1 by simp
    next
      case 2
      then have "no_data t n = no_data s n" "no_running t n = None" using run by (simp_all add: opened_def)
      then show ?thesis using assms(1) t by (auto simp: upgrade_state_def has_point_def)
    next
      case 3
      then have opens: "no_data t n = Some (case no_data s n of None \<Rightarrow> [w] | Some l \<Rightarrow> l @ [w])" "no_running t n = Some w"
        using run by (simp_all add: opened_def)
      consider "view_of (no_files s) n = (Some a, None)" "prior_data a l0 (no_data s n)" "w = a"
        | "view_of (no_files s) n = (Some a, Some (v, snap))" "has_point a l0 snap s" "w = v" | "view_of (no_files s) n = (Some v, None)" "w = v"
        using assms(1) selected_view [OF 3(1)] by (auto simp: upgrade_state_def split: if_splits)
      then show ?thesis
      proof cases
        case 1
        then obtain l where l: "no_data s n = Some l" by (auto simp: prior_data_def)
        then have "prior_data a l0 (no_data t n)" using opens 1 prior_data_more by simp
        then show ?thesis using assms(1,2) t opens 1 by (simp add: upgrade_state_def)
      qed (use assms(1,2) t opens in \<open>auto simp: upgrade_state_def has_point_def\<close>)
    qed
  qed
qed

section \<open>Undoing keeps to it\<close>

lemma undo_data_other:
  assumes "pi_name p \<noteq> n" and "undo_data io env p s = (t, ok)"
  shows "leaves n s t"
proof (cases "pi_rollback p = []")
  case False
  obtain u k where u: "verb io (command io (take_member_of (pi_name p) (snapshot_member (pi_name p) TriggerAppUndoBefore (ie_undo_now env)))) s = (u, k)" by fastforce
  have "leaves n s u" by (rule verb_leaves [OF u]) (rule take_leaves)
  moreover have "verb io (restore_data io (pi_name p) (pi_rollback p)) u = (t, ok)" using assms(2) False u by (simp add: undo_data_def)
  then have "leaves n u t" by (rule verb_leaves) (rule restoring_leaves [OF assms(1) restore_law(1)])
  ultimately show ?thesis by (rule leaves_simps(2))
qed (use assms in \<open>simp add: undo_data_def leaves_simps\<close>)

lemma undo_other:
  assumes "upgrade_state n a v l0 snap s" and "a \<noteq> v" and "pi_name p \<noteq> n" and "undo_staged io env p s = (t, ok)"
  shows "upgrade_state n a v l0 snap t \<and> (\<forall>k d. no_members s k = Some d \<longrightarrow> no_members t k = Some d) \<and>
     view_of (no_files t) n = view_of (no_files s) n"
proof -
  define K where "K u \<longleftrightarrow> upgrade_state n a v l0 snap u \<and> (\<forall>k d. no_members s k = Some d \<longrightarrow> no_members u k = Some d) \<and>
     view_of (no_files u) n = view_of (no_files s) n" for u
  have step: "K w" if "K u" "leaves n u w" for u w
  proof -
    have "upgrade_state n a v l0 snap u" using that(1) by (simp add: K_def)
    then have "upgrade_state n a v l0 snap w" using that(2) by (rule upgrade_left)
    then show ?thesis using that unfolding K_def leaves_def by simp
  qed
  obtain s2 restored where s2: "undo_data io env p (undo_quiesced io env p s) = (s2, restored)" by fastforce
  obtain s3 d where s3: "verb io (discard_app io (pi_name p)) s2 = (s3, d)" by fastforce
  obtain s4 r where s4: "converge_node io [] s3 = (s4, r)" by fastforce
  have "K (undo_quiesced io env p s)" using undo_quiesced_upgrade(1) [OF assms(1)] undo_quiesced_upgrade(2,3) by (simp add: K_def)
  then have k2: "K s2" by (rule step) (rule undo_data_other [OF assms(3) s2])
  then have k3: "K s3" by (rule step) (rule verb_leaves [OF s3], rule discard_leaves [OF assms(3)])
  then have "K s4" using converge_upgrade [OF _ assms(2) s4] converge_members [OF s4] by (simp add: K_def)
  then have "K t" using assms(4) s2 s3 s4 k2 k3 by (auto simp: undo_staged_def split: if_splits)
  then show ?thesis by (simp add: K_def)
qed

lemma undo_data_own:
  assumes "upgrade_state n a v l0 snap s" and "view_of (no_files s) n = (Some a, Some (v, snap))"
    and "pi_name p = n" and "pi_rollback p = snap" and "snap \<noteq> []" and "undo_data io env p s = (t, ok)"
  shows "upgrade_state n a v l0 snap t" and "view_of (no_files t) n = (Some a, Some (v, snap))" and "has_point a l0 snap t"
    and "ok \<Longrightarrow> prior_data a l0 (no_data t n) \<and> no_running t n = None"
proof -
  have point: "has_point a l0 snap s" using assms(1,2) by (auto simp: upgrade_state_def)
  obtain u k where u: "verb io (command io (take_member_of n (snapshot_member n TriggerAppUndoBefore (ie_undo_now env)))) s = (u, k)" by fastforce
  have restore: "verb io (restore_data io n snap) u = (t, ok)" using assms(3-6) u by (simp add: undo_data_def)
  have lu: "leaves n s u" by (rule verb_leaves [OF u]) (rule take_leaves)
  have up: "upgrade_state n a v l0 snap u" by (rule upgrade_left [OF assms(1) lu])
  have vu: "view_of (no_files u) n = (Some a, Some (v, snap))" "has_point a l0 snap u"
    using lu assms(2) point_kept [OF point] by (auto simp: leaves_def)
  obtain w j where w: "restore_data io n snap u = (w, j)" "t = w \<or> t = count_cmd w" "ok \<Longrightarrow> j" using verb_result [OF restore] by metis
  note law = restore_law [OF w(1)]
  have t: "no_files t = no_files u" "no_running t = no_running u" "no_members t = no_members u" "no_data t = no_data w" "tidy t = tidy u"
    using law(1) w(2) by (auto simp: restoring_app_def tidy_def)
  show "upgrade_state n a v l0 snap t"
    using up vu t law(3) by (auto simp: upgrade_state_def has_point_def)
  show "view_of (no_files t) n = (Some a, Some (v, snap))" "has_point a l0 snap t" using vu t by (simp_all add: has_point_def)
  show "ok \<Longrightarrow> prior_data a l0 (no_data t n) \<and> no_running t n = None"
    using law(2) w(3) t vu(2) by (simp add: has_point_def)
qed

lemma discard_own:
  assumes "upgrade_state n a v l0 snap s" and "view_of (no_files s) n = (Some a, Some (v, snap))"
    and "prior_data a l0 (no_data s n)" and "no_running s n = None" and "verb io (discard_app io n) s = (t, ok)"
  shows "upgrade_state n a v l0 snap t" and "ok \<Longrightarrow> view_of (no_files t) n = (Some a, None)"
proof -
  obtain x i where x: "discard_app io n s = (x, i)" "t = x \<or> t = count_cmd x" "ok \<Longrightarrow> i" using verb_result [OF assms(5)] by metis
  note law = discard_law [OF x(1)]
  have files: "no_files t = no_files x" using x(2) by auto
  have view: "view_of (no_files t) n = (Some a, Some (v, snap)) \<or> view_of (no_files t) n = (Some a, None)"
    using law(1) assms(2) files by auto
  have rest: "no_running t = no_running s" "no_data t = no_data s" "no_members t = no_members s" "tidy s \<longrightarrow> tidy t"
    using law(4) x(2) tidy_endings(2) [OF x(1)] by (auto simp: same_rest_def)
  show "upgrade_state n a v l0 snap t"
    using assms(1-4) view rest by (auto simp: upgrade_state_def has_point_def)
  show "ok \<Longrightarrow> view_of (no_files t) n = (Some a, None)" using law(2) x(3) assms(2) files by simp
qed

lemma undo_own:
  assumes "upgrade_state n a v l0 snap s" and "a \<noteq> v" and "view_of (no_files s) n = (Some a, Some (v, snap))"
    and "pi_name p = n" and "pi_rollback p = snap" and "snap \<noteq> []" and "undo_staged io env p s = (t, ok)"
  shows "upgrade_state n a v l0 snap t" and "ok \<Longrightarrow> view_of (no_files t) n = (Some a, None)"
proof -
  have q: "upgrade_state n a v l0 snap (undo_quiesced io env p s)" "view_of (no_files (undo_quiesced io env p s)) n = (Some a, Some (v, snap))"
    using undo_quiesced_upgrade(1) [OF assms(1)] undo_quiesced_upgrade(3) assms(3) by simp_all
  obtain s2 restored where s2: "undo_data io env p (undo_quiesced io env p s) = (s2, restored)" by fastforce
  obtain s3 d where s3: "verb io (discard_app io n) s2 = (s3, d)" by fastforce
  obtain s4 r where s4: "converge_node io [] s3 = (s4, r)" by fastforce
  note own = undo_data_own [OF q assms(4,5,6) s2]
  have run: "(t, ok) = (if \<not> restored then (s2, False) else if \<not> d then (s3, False) else (s4, r \<noteq> None))"
    using assms(4,7) s2 s3 s4 by (simp add: undo_staged_def split: if_splits)
  have "upgrade_state n a v l0 snap t \<and> (ok \<longrightarrow> view_of (no_files t) n = (Some a, None))"
  proof (cases restored)
    case True
    note dis = discard_own [OF own(1,2) conjunct1 [OF own(4) [OF True]] conjunct2 [OF own(4) [OF True]] s3]
    show ?thesis using run True dis converge_upgrade [OF dis(1) assms(2) s4] converge_members [OF s4] by (auto split: if_splits)
  qed (use run own(1) in simp)
  then show "upgrade_state n a v l0 snap t" "ok \<Longrightarrow> view_of (no_files t) n = (Some a, None)" by blast+
qed


lemma pending_upgrade:
  assumes "upgrade_state n a v l0 snap s" and "pending_installs io s = (t, answer)"
  shows "upgrade_state n a v l0 snap t" and "no_files t = no_files s"
    and "answer = Some ps \<Longrightarrow> p \<in> set ps \<Longrightarrow> pi_name p = n \<Longrightarrow> view_of (no_files s) n = (Some a, Some (v, snap)) \<and> pi_rollback p = snap"
    and "answer = Some ps \<Longrightarrow> distinct (map pi_name ps)"
    and "answer = Some ps \<Longrightarrow> n \<notin> pi_name ` set ps \<Longrightarrow> snd (view_of (no_files s) n) = None"
proof -
  note law = pending_law [OF assms(2)]
  show files: "no_files t = no_files s" by (rule law(1))
  show "upgrade_state n a v l0 snap t"
    using assms(1) law(1,2) by (auto simp: upgrade_state_def has_point_def same_rest_def tidy_def)
  note named = law(3) [OF reports] and shown = law(4) [OF reports]
  show "answer = Some ps \<Longrightarrow> p \<in> set ps \<Longrightarrow> pi_name p = n \<Longrightarrow> view_of (no_files s) n = (Some a, Some (v, snap)) \<and> pi_rollback p = snap"
    using shown [of ps p] assms(1) by (auto simp: upgrade_state_def)
  show "answer = Some ps \<Longrightarrow> distinct (map pi_name ps)"
    using named [of ps] staged_names_distinct [of s] assms(1) by (simp add: upgrade_state_def)
  show "answer = Some ps \<Longrightarrow> n \<notin> pi_name ` set ps \<Longrightarrow> snd (view_of (no_files s) n) = None"
    using named [of ps] none_pending [of n "no_files s"] by (metis list.set_map)
qed

lemma undo_others_fold:
  assumes "upgrade_state n a v l0 snap s" and "a \<noteq> v" and "n \<notin> pi_name ` set ps"
  shows "upgrade_state n a v l0 snap (foldl (\<lambda>t p. fst (undo_staged io env p t)) s ps) \<and>
     view_of (no_files (foldl (\<lambda>t p. fst (undo_staged io env p t)) s ps)) n = view_of (no_files s) n"
  using assms(1,3)
proof (induction ps arbitrary: s)
  case (Cons p ps)
  obtain t ok where t: "undo_staged io env p s = (t, ok)" by fastforce
  have "pi_name p \<noteq> n" using Cons.prems(2) by auto
  from undo_other [OF Cons.prems(1) assms(2) this t] Cons.IH [of t] Cons.prems(2) show ?case by (simp add: t)
qed simp

lemma undo_fold:
  assumes "upgrade_state n a v l0 snap s" and "a \<noteq> v" and "snap \<noteq> []" and "distinct (map pi_name ps)"
    and "\<forall>p\<in>set ps. pi_name p = n \<longrightarrow> view_of (no_files s) n = (Some a, Some (v, snap)) \<and> pi_rollback p = snap"
  shows "upgrade_state n a v l0 snap (foldl (\<lambda>t p. fst (undo_staged io env p t)) s ps)"
  using assms(1,4,5)
proof (induction ps arbitrary: s)
  case (Cons p ps)
  obtain t ok where t: "undo_staged io env p s = (t, ok)" by fastforce
  show ?case
  proof (cases "pi_name p = n")
    case True
    then have "view_of (no_files s) n = (Some a, Some (v, snap))" "pi_rollback p = snap" using Cons.prems(3) by auto
    from undo_own(1) [OF Cons.prems(1) assms(2) this(1) True this(2) assms(3) t]
    have "upgrade_state n a v l0 snap t" .
    moreover have "n \<notin> pi_name ` set ps" using Cons.prems(2) True by auto
    ultimately show ?thesis using undo_others_fold [OF _ assms(2)] t by simp
  next
    case False
    note other = undo_other [OF Cons.prems(1) assms(2) False t]
    have "upgrade_state n a v l0 snap (foldl (\<lambda>t p. fst (undo_staged io env p t)) t ps)"
      by (rule Cons.IH) (use other Cons.prems in auto)
    then show ?thesis by (simp add: t)
  qed
qed simp

lemma undo_pending_upgrade:
  assumes "upgrade_state n a v l0 snap s" and "a \<noteq> v" and "snap \<noteq> []" and "undo_pending io env busy s = (t, checked)"
  shows "upgrade_state n a v l0 snap t" and "snd (view_of (no_files s) n) = None \<Longrightarrow> view_of (no_files t) n = view_of (no_files s) n"
proof -
  obtain s1 answer where s1: "pending_installs io s = (s1, answer)" by fastforce
  note pend = pending_upgrade [OF assms(1) s1]
  have "upgrade_state n a v l0 snap t \<and> (snd (view_of (no_files s) n) = None \<longrightarrow> view_of (no_files t) n = view_of (no_files s) n)"
  proof (cases "busy \<or> answer = None")
    case True
    then show ?thesis using assms(1,4) s1 pend(1,2) by (auto simp: undo_pending_def split: if_splits)
  next
    case False
    then obtain ps where ps: "answer = Some ps" by blast
    have t: "t = foldl (\<lambda>t p. fst (undo_staged io env p t)) s1 ps" using assms(4) s1 ps False by (simp add: undo_pending_def)
    have all: "\<forall>p\<in>set ps. pi_name p = n \<longrightarrow> view_of (no_files s1) n = (Some a, Some (v, snap)) \<and> pi_rollback p = snap"
      using pend(3) [OF ps] pend(2) by simp
    have "snd (view_of (no_files s) n) = None \<Longrightarrow> n \<notin> pi_name ` set ps" using pend(3) [OF ps] by auto
    then show ?thesis
      using undo_fold [OF pend(1) assms(2,3) pend(4) [OF ps] all] undo_others_fold [OF pend(1) assms(2), of ps] pend(2) t by auto
  qed
  then show "upgrade_state n a v l0 snap t" "snd (view_of (no_files s) n) = None \<Longrightarrow> view_of (no_files t) n = view_of (no_files s) n" by blast+
qed

lemma undo_install_upgrade:
  assumes "upgrade_state n a v l0 snap s" and "a \<noteq> v" and "snap \<noteq> []" and "undo_install io env n s = (t, ok)"
  shows "upgrade_state n a v l0 snap t" and "ok \<Longrightarrow> snd (view_of (no_files t) n) = None"
proof -
  obtain s1 answer where s1: "pending_installs io s = (s1, answer)" by fastforce
  note pend = pending_upgrade [OF assms(1) s1]
  have "upgrade_state n a v l0 snap t \<and> (ok \<longrightarrow> snd (view_of (no_files t) n) = None)"
  proof (cases answer)
    case None
    then show ?thesis using assms(4) s1 pend(1) by (simp add: undo_install_def)
  next
    case (Some ps)
    show ?thesis
    proof (cases "find (\<lambda>p. pi_name p = n) ps")
      case None
      then have "n \<notin> pi_name ` set ps" by (auto simp: find_None_iff)
      then have idle: "snd (view_of (no_files s1) n) = None" using pend(2,5) Some by simp
      obtain s2 r where s2: "converge_node io [] s1 = (s2, r)" by fastforce
      show ?thesis using converge_upgrade [OF pend(1) assms(2) s2] converge_members [OF s2] idle assms(4) s1 Some None s2
        by (simp add: undo_install_def)
    next
      case found: (Some p)
      then have p: "p \<in> set ps" "pi_name p = n" by (auto simp: find_Some_iff)
      have v: "view_of (no_files s1) n = (Some a, Some (v, snap))" "pi_rollback p = snap" using pend(2) pend(3) [OF Some p] by simp_all
      have run: "undo_staged io env p s1 = (t, ok)" using assms(4) s1 Some found by (simp add: undo_install_def)
      show ?thesis using undo_own [OF pend(1) assms(2) v(1) p(2) v(2) assms(3) run] by auto
    qed
  qed
  then show "upgrade_state n a v l0 snap t" "ok \<Longrightarrow> snd (view_of (no_files t) n) = None" by blast+
qed


section \<open>The install keeps to it\<close>

lemma revert_upgrade:
  assumes "upgrade_state n a v l0 snap s" and "a \<noteq> v" and "snap \<noteq> []" and "revert_install io env n s = (t, outcome)"
  shows "upgrade_state n a v l0 snap t" and "outcome \<noteq> Installed"
proof -
  obtain u ok where "undo_install io env n s = (u, ok)" by fastforce
  then show "upgrade_state n a v l0 snap t" "outcome \<noteq> Installed"
    using undo_install_upgrade(1) [OF assms(1,2,3)] assms(4) by (auto simp: revert_install_def split: if_splits)
qed

lemma stage_upgrade:
  assumes "upgrade_state n a v l0 snap s" and "view_of (no_files s) n = (Some a, None)" and "has_point a l0 snap s"
    and "trim_space snap = snap" and "a \<noteq> v"
    and "stage_app io \<lparr>sr_name = n, sr_data_dir = d, sr_manifest = v, sr_rollback = snap\<rparr> s = (t, ok)"
  shows "upgrade_state n a v l0 snap t" and "ok \<Longrightarrow> view_of (no_files t) n = (Some a, Some (v, snap))"
proof -
  have idle: "snd (view_of (no_files s) (sr_name \<lparr>sr_name = n, sr_data_dir = d, sr_manifest = v, sr_rollback = snap\<rparr>)) = None"
    using assms(2) by simp
  note law = stage_law [OF assms(6)]
  have view: "view_of (no_files t) n = (Some a, None) \<or> view_of (no_files t) n = (Some a, Some (v, snap))"
    using law(1) [OF idle] assms(2,4) by (simp add: staged_view_def)
  have "no_data s n \<noteq> None" using assms(1,2,5) by (auto simp: upgrade_state_def prior_data_def)
  then have rest: "no_data t n = no_data s n" "no_running t = no_running s" "no_members t = no_members s"
    using law(4) by (auto simp: data_made_def)
  have "tidy t" using tidy_stage [OF assms(6)] assms(1) by (simp add: upgrade_state_def)
  then show "upgrade_state n a v l0 snap t"
    using assms(1-3,5) view rest by (auto simp: upgrade_state_def has_point_def)
  show "ok \<Longrightarrow> view_of (no_files t) n = (Some a, Some (v, snap))"
    using law(2) assms(2,4) by (simp add: staged_view_def)
qed

lemma commit_upgrade:
  assumes "upgrade_state n a v l0 snap s" and "view_of (no_files s) n = (Some a, Some (v, snap))" and "commit_app io n s = (t, ok)"
  shows "upgrade_state n a v l0 snap t" and "ok \<Longrightarrow> view_of (no_files t) n = (Some v, None)"
proof -
  note law = commit_law [OF assms(3)]
  have "view_of (no_files t) n = (Some a, Some (v, snap)) \<or> view_of (no_files t) n = (Some v, None)"
    using law(1) assms(2) by auto
  moreover have "no_running t = no_running s" "no_data t = no_data s" "no_members t = no_members s"
    using law(4) by (simp_all add: same_rest_def)
  moreover have "tidy t" using tidy_endings(1) [OF assms(3)] assms(1) by (simp add: upgrade_state_def)
  ultimately show "upgrade_state n a v l0 snap t"
    using assms(1,2) by (auto simp: upgrade_state_def has_point_def)
  show "ok \<Longrightarrow> view_of (no_files t) n = (Some v, None)" using law(2) assms(2) by auto
qed

lemma stage_and_gate_upgrade:
  assumes "upgrade_state n a v l0 snap s" and "view_of (no_files s) n = (Some a, None)" and "has_point a l0 snap s"
    and "trim_space snap = snap" and "snap \<noteq> []" and "a \<noteq> v" and "stage_and_gate io env n v snap s = (t, outcome)"
  shows "upgrade_state n a v l0 snap t" and "outcome = Installed \<Longrightarrow> view_of (no_files t) n = (Some v, None)"
proof -
  obtain s1 staged where s1: "verb io (stage_app io \<lparr>sr_name = n, sr_data_dir = data_root n, sr_manifest = v, sr_rollback = snap\<rparr>) s = (s1, staged)" by fastforce
  obtain s2 r where s2: "converge_node io n s1 = (s2, r)" by fastforce
  obtain s3 committed where s3: "verb io (commit_app io n) s2 = (s3, committed)" by fastforce
  obtain x i where x: "stage_app io \<lparr>sr_name = n, sr_data_dir = data_root n, sr_manifest = v, sr_rollback = snap\<rparr> s = (x, i)" "s1 = x \<or> s1 = count_cmd x" "staged \<Longrightarrow> i"
    using verb_result [OF s1] by metis
  note st = stage_upgrade [OF assms(1,2,3,4,6) x(1)]
  have u1: "upgrade_state n a v l0 snap s1" using st(1) x(2) by auto
  have u2: "upgrade_state n a v l0 snap s2" by (rule converge_upgrade [OF u1 assms(6) s2])
  have v2: "view_of (no_files s2) n = (Some a, Some (v, snap))" if staged
    using st(2) x(2,3) that converge_members [OF s2] by auto
  have c: "upgrade_state n a v l0 snap s3 \<and> (committed \<longrightarrow> view_of (no_files s3) n = (Some v, None))" if staged
  proof -
    obtain y j where y: "commit_app io n s2 = (y, j)" "s3 = y \<or> s3 = count_cmd y" "committed \<Longrightarrow> j" using verb_result [OF s3] by metis
    show ?thesis using commit_upgrade [OF u2 v2 [OF that] y(1)] y(2,3) by auto
  qed
  have run: "(t, outcome) = (if \<not> staged then revert_install io env n s1
      else case r of None \<Rightarrow> revert_install io env n s2
        | Some skipped \<Rightarrow> if skipped n \<or> \<not> await_healthy (ie_looks env) \<or> \<not> ie_judge env then revert_install io env n s2
            else if \<not> committed then revert_install io env n s3 else (s3, Installed))"
    using assms(7) s1 s2 s3 by (auto simp: stage_and_gate_def split: option.splits if_splits)
  have rev: "upgrade_state n a v l0 snap t \<and> outcome \<noteq> Installed" if "upgrade_state n a v l0 snap u" "(t, outcome) = revert_install io env n u" for u
    using revert_upgrade [OF that(1) assms(6,5)] that(2) by metis
  have "upgrade_state n a v l0 snap t \<and> (outcome = Installed \<longrightarrow> view_of (no_files t) n = (Some v, None))"
  proof (cases "staged \<and> r \<noteq> None")
    case True
    then obtain skipped where "r = Some skipped" staged by blast
    then show ?thesis using run rev u2 c by (auto split: if_splits)
  next
    case False
    then show ?thesis using run rev u1 u2 by (auto split: if_splits)
  qed
  then show "upgrade_state n a v l0 snap t" "outcome = Installed \<Longrightarrow> view_of (no_files t) n = (Some v, None)" by blast+
qed


lemma install_serving_upgrade:
  assumes "tidy s" and "view_of (no_files s) n = (Some a, None)" and "no_data s n = Some l0" and "no_running s n \<in> {None, Some a}"
    and "a \<noteq> v" and "install_serving io env n v (Some prior) s = (t, outcome)"
  shows "upgrade_state n a v l0 (snapshot_member n TriggerAppUpdateBefore (ie_now env)) t"
    and "outcome = Installed \<Longrightarrow> view_of (no_files t) n = (Some v, None)"
proof -
  let ?snap = "snapshot_member n TriggerAppUpdateBefore (ie_now env)"
  have prior: "prior_data a l0 (Some l0)" unfolding prior_data_def by (rule exI [of _ 0]) simp
  have u0: "upgrade_state n a v l0 ?snap s" using assms(1-5) prior by (auto simp: upgrade_state_def)
  obtain s1 taken where s1: "verb io (command io (take_member_of n ?snap)) (quiesce_app io n s) = (s1, taken)" by fastforce
  obtain x k where x: "command io (take_member_of n ?snap) (quiesce_app io n s) = (x, k)" "s1 = x \<or> s1 = count_cmd x" "taken \<Longrightarrow> k"
    using verb_result [OF s1] by metis
  have "leaves n (quiesce_app io n s) x" by (rule take_leaves [OF x(1)])
  then have ux: "upgrade_state n a v l0 ?snap x" using upgrade_left quiesce_upgrade [OF u0] by blast
  have u1: "upgrade_state n a v l0 ?snap s1" using ux x(2) by auto
  have v1: "view_of (no_files s1) n = (Some a, None)" using take_member_law [OF x(1)] x(2) assms(2) by auto
  have p1: "has_point a l0 ?snap s1" if taken
    using take_member_law [OF x(1)] x(2,3) that assms(3) prior by (auto simp: has_point_def)
  obtain s2 r where s2: "converge_node io [] s1 = (s2, r)" by fastforce
  have "upgrade_state n a v l0 ?snap t \<and> (outcome = Installed \<longrightarrow> view_of (no_files t) n = (Some v, None))"
  proof (cases taken)
    case True
    then have "stage_and_gate io env n v ?snap s1 = (t, outcome)" using assms(6) s1 by (simp add: install_serving_def Let_def)
    from stage_and_gate_upgrade [OF u1 v1 p1 [OF True] member_name(2,1) assms(5) this] show ?thesis by blast
  next
    case False
    then have "t = s2" "outcome \<noteq> Installed" using assms(6) s1 s2 by (auto simp: install_serving_def Let_def)
    then show ?thesis using converge_upgrade [OF u1 assms(5) s2] by simp
  qed
  then show "upgrade_state n a v l0 ?snap t" "outcome = Installed \<Longrightarrow> view_of (no_files t) n = (Some v, None)" by blast+
qed

end


section \<open>The node afterwards\<close>

text \<open>
  What may happen to the node afterwards, any number of times: a promotion that undoes what is pending, an undo
  asked for, a converge, a reboot of the guest; the guest lists its staged installs and reads its rollback points.
\<close>

inductive node_step :: "string \<Rightarrow> node \<Rightarrow> node \<Rightarrow> bool" for n where
  promoted: "reports_stages io \<Longrightarrow> undo_pending io env busy s = (t, checked) \<Longrightarrow> node_step n s t"
| reverted: "reports_stages io \<Longrightarrow> undo_install io env n s = (t, ok) \<Longrightarrow> node_step n s t"
| converged: "reports_stages io \<Longrightarrow> converge_node io [] s = (t, r) \<Longrightarrow> node_step n s t"
| rebooted: "node_step n s (s\<lparr>no_running := (\<lambda>_. None)\<rparr>)"

lemma node_step_upgrade:
  assumes "node_step n s t" and "upgrade_state n a v l0 snap s" and "a \<noteq> v" and "snap \<noteq> []"
  shows "upgrade_state n a v l0 snap t \<and> (snd (view_of (no_files s) n) = None \<longrightarrow> view_of (no_files t) n = view_of (no_files s) n)"
  using assms(1)
proof cases
  case (promoted io env busy checked)
  have t: "truthful_reports io" using promoted(1) by (rule truthful_reports.intro)
  show ?thesis using truthful_reports.undo_pending_upgrade [OF t assms(2-4) promoted(2)] by blast
next
  case (reverted io env ok)
  have tr: "truthful_reports io" using reverted(1) by (rule truthful_reports.intro)
  obtain s1 answer where s1: "pending_installs io s = (s1, answer)" by fastforce
  note pend = truthful_reports.pending_upgrade [OF tr assms(2) s1]
  have "view_of (no_files t) n = view_of (no_files s) n" if idle: "snd (view_of (no_files s) n) = None"
  proof (cases answer)
    case None
    then show ?thesis using reverted(2) s1 pend(2) by (simp add: undo_install_def)
  next
    case (Some ps)
    have "find (\<lambda>p. pi_name p = n) ps = None" using pend(3) [OF Some] idle by (auto simp: find_None_iff)
    moreover obtain s2 r where s2: "converge_node io [] s1 = (s2, r)" by fastforce
    ultimately show ?thesis using reverted(2) s1 Some pend(2) converge_members [OF s2] by (simp add: undo_install_def)
  qed
  then show ?thesis using truthful_reports.undo_install_upgrade(1) [OF tr assms(2-4) reverted(2)] by blast
next
  case (converged io r)
  have tr: "truthful_reports io" using converged(1) by (rule truthful_reports.intro)
  show ?thesis using truthful_reports.converge_upgrade [OF tr assms(2,3) converged(2)] converge_members [OF converged(2)] by simp
next
  case rebooted
  then show ?thesis using assms(2) by (auto simp: upgrade_state_def has_point_def tidy_def)
qed

lemma node_steps_upgrade:
  assumes "(node_step n)\<^sup>*\<^sup>* s t" and "upgrade_state n a v l0 snap s" and "a \<noteq> v" and "snap \<noteq> []"
  shows "upgrade_state n a v l0 snap t \<and> (snd (view_of (no_files s) n) = None \<longrightarrow> view_of (no_files t) n = view_of (no_files s) n)"
  using assms(1)
proof (induction rule: rtranclp_induct)
  case (step t u)
  then show ?case using node_step_upgrade [OF step(2) _ assms(3,4)] by auto
qed (use assms in simp)

text \<open>
  C35: an upgrade never leaves the old version on data the new one has opened. Given an upgrade that finds the
  old version on the volume with nothing pending, reads and renders it, and runs on an app that is stopped or runs
  that version; and given that the guest lists the staged installs and reads the rollback points whenever
  it converges or reports them. Then whatever else fails, is reported wrongly or is cut during the install, and
  however often the node then undoes, converges or reboots: while the old version runs, nothing but it has opened
  the data since the install began, and once nothing is pending the volume names the new version, or the old one
  with such data; an install that is reported as done stays done. Without the two reads it is false: see the
  findings.
\<close>

theorem old_version_never_opens_the_new_ones_data:
  assumes "tidy s" and "view_of (no_files s) (mf_name m) = (Some old, None)" and "no_data s (mf_name m) = Some l0"
    and "no_running s (mf_name m) \<in> {None, Some old}" and "ie_fetch env = Some (m, new)" and "prior_app env s (mf_name m) new \<noteq> None"
    and "apply_one_install io env payload s = (s1, outcome)" and "(node_step (mf_name m))\<^sup>*\<^sup>* s1 t"
    and "reports_stages io"
  shows "(no_running t (mf_name m) = Some old \<longrightarrow> (\<exists>k. no_data t (mf_name m) = Some (l0 @ replicate k old))) \<and>
     (snd (view_of (no_files t) (mf_name m)) = None \<longrightarrow> view_of (no_files t) (mf_name m) = (Some new, None) \<or>
        view_of (no_files t) (mf_name m) = (Some old, None) \<and> (\<exists>k. no_data t (mf_name m) = Some (l0 @ replicate k old))) \<and>
     (outcome = Installed \<longrightarrow> view_of (no_files t) (mf_name m) = (Some new, None))"
proof -
  let ?n = "mf_name m" and ?snap = "snapshot_member (mf_name m) TriggerAppUpdateBefore (ie_now env)"
  obtain prior where prior: "prior_app env s ?n new = Some prior" using assms(6) by blast
  have ne: "old \<noteq> new" using prior_app_Some [OF prior assms(2)] .
  have "prior_data old l0 (Some l0)" unfolding prior_data_def by (rule exI [of _ 0]) simp
  then have u0: "upgrade_state ?n old new l0 ?snap s" using assms(1-4) ne by (auto simp: upgrade_state_def)
  consider "s1 = s" "outcome \<noteq> Installed" | "install_serving io env ?n new (Some prior) s = (s1, outcome)"
    using assms(5,7) prior by (auto simp: apply_one_install_def Let_def split: if_splits sum.splits option.splits bool.splits)
  then have "upgrade_state ?n old new l0 ?snap s1 \<and> (outcome = Installed \<longrightarrow> view_of (no_files s1) ?n = (Some new, None))"
  proof cases
    case 1
    then show ?thesis using u0 by simp
  next
    case 2
    have "truthful_reports io" using assms(9) by (rule truthful_reports.intro)
    from truthful_reports.install_serving_upgrade [OF this assms(1-4) ne 2] show ?thesis by blast
  qed
  then have "upgrade_state ?n old new l0 ?snap t \<and> (outcome = Installed \<longrightarrow> view_of (no_files t) ?n = (Some new, None))"
    using node_steps_upgrade [OF assms(8) _ ne member_name(1)] by auto
  then show ?thesis by (auto simp: upgrade_state_def prior_data_def)
qed


section \<open>Examples\<close>

text \<open>A crash between the delete of the data and the rename of its replacement: no later restore succeeds.\<close>

lemma gone_data_is_never_restored: "no_data s n = None \<Longrightarrow> \<not> snd (restore_data io n member s)"
  using restore_law(2) [of io n member s] by (cases "restore_data io n member s") auto


section \<open>Where commands work\<close>

definition all_work :: verb_io where
  "all_work = \<lparr>vi_out = (\<lambda>_. Written), vi_stops = (\<lambda>_ _. True), vi_starts = (\<lambda>_ _. True), vi_prepares = (\<lambda>_ _. True),
     vi_names = (\<lambda>_. True), vi_held = (\<lambda>_. True), vi_reads = (\<lambda>_ _. True)\<rparr>"

interpretation working: truthful_reports all_work
  by unfold_locales (simp add: reports_stages_def all_work_def)

definition selected_version :: "files \<Rightarrow> string \<Rightarrow> string \<Rightarrow> string option" where
  "selected_version fs live n =
     (case map_of fs (staged_name n) of None \<Rightarrow> map_of fs (accepted_name n) | Some t \<Rightarrow> if n = live then Some t else None)"

lemma selected_works: "selected all_work c fs live n = selected_version fs live n"
  by (simp add: selected_def selected_version_def all_work_def split: option.split)

text \<open>What is reported of one app where reads work.\<close>

definition pending_shown :: "files \<Rightarrow> string \<Rightarrow> pending_install" where
  "pending_shown fs n =
     \<lparr>pi_name = n, pi_staged = file_or_empty fs (staged_name n), pi_accepted = file_or_empty fs (accepted_name n),
      pi_rollback = trim_space (file_or_empty fs (rollback_name n))\<rparr>"

lemma shown_view:
  assumes "p \<in> set (map (pending_shown fs) (staged_names fs))"
  shows "snd (view_of fs (pi_name p)) = Some (pi_staged p, pi_rollback p)"
    and "pi_accepted p = or_empty (fst (view_of fs (pi_name p)))"
  using assms by (auto simp: pending_shown_def view_of_def file_or_empty_def or_empty_def staged_names_iff)

lemma command_works: "command all_work f s = (case f s of None \<Rightarrow> (count_cmd s, False) | Some t \<Rightarrow> (count_cmd t, True))"
  by (simp add: command_def all_work_def split: option.split)

lemma pending_works:
  "pending_installs all_work s = (count_cmd s, Some (map (pending_shown (no_files s)) (staged_names (no_files s))))"
proof -
  let ?fs = "no_files s"
  have each: "pending_of all_work (no_cmds s) ?fs n = Some (pending_shown ?fs n)" if "n \<in> set (staged_names ?fs)" for n
    using that by (auto simp: pending_of_def read_file_def all_work_def pending_shown_def file_or_empty_def or_empty_def staged_names_iff)
  then have "None \<notin> set (map (pending_of all_work (no_cmds s) ?fs) (staged_names ?fs))"
    and "map the (map (pending_of all_work (no_cmds s) ?fs) (staged_names ?fs)) = map (pending_shown ?fs) (staged_names ?fs)" by auto
  moreover have "listed_stages all_work (no_cmds s) ?fs = staged_names ?fs" by (simp add: listed_stages_def all_work_def)
  ultimately show ?thesis by (simp add: pending_installs_def command_works Let_def)
qed

lemma verb_works: "f s = (t, True) \<Longrightarrow> verb all_work f s = (count_cmd t, True)"
  by (simp add: verb_def command_works)

lemma durably_works: "in_turn (write_durably all_work k v) s = (t, ok) \<Longrightarrow> ok"
  by (auto simp: write_durably_def command_works write_name_def move_name_def map_of_put)

lemma stage_works: "\<not> stage_refused req \<Longrightarrow> \<exists>t. stage_app all_work req s = (t, True)"
proof -
  assume "\<not> stage_refused req"
  moreover obtain t ok where t: "in_turn (stage_steps all_work req) s = (t, ok)" by fastforce
  moreover have ok
  proof -
    obtain s1 where s1: "command all_work (ensure_app_data (sr_name req)) s = (s1, True)" by (simp add: command_works ensure_app_data_def)
    obtain s2 k2 where s2: "in_turn (rollback_steps all_work req) s1 = (s2, k2)" by fastforce
    have k2 using s2 durably_works by (auto simp: rollback_steps_def command_works remove_name_def split: if_splits)
    then show ok using t s1 s2 durably_works by (auto simp: stage_steps_def in_turn_append split: prod.splits)
  qed
  ultimately show ?thesis by (simp add: stage_app_def)
qed

lemma endings_work:
  assumes "safe_unit_name n"
  shows "snd (view_of (no_files s) n) \<noteq> None \<Longrightarrow> \<exists>t. commit_app all_work n s = (t, True)" and "\<exists>t. discard_app all_work n s = (t, True)"
  using assms by (auto simp: commit_app_def discard_app_def command_works move_name_def remove_name_def view_of_def)

lemma restore_works:
  assumes "no_members s member \<noteq> None" and "no_data s n \<noteq> None" and "no_running s n = None"
  shows "\<exists>t. restore_data all_work n member s = (t, True)"
  using assms by (auto simp: restore_data_def command_works show_member_def clear_restoring_def stage_copy_def delete_data_def swap_in_def)

lemma converge_works:
  assumes "converge_node all_work live s = (t, r)"
  shows "r = Some (\<lambda>_. False)" and "no_running t n = selected_version (no_files s) live n"
    and "no_data t n = opened (no_running s n) (selected_version (no_files s) live n) (no_data s n)" and "no_files t = no_files s" and "no_members t = no_members s"
  using assms unfolding converge_node_def selected_works
  by (auto simp: all_work_def converged_running_def Let_def split: option.splits)

lemma has_prior_units: "prior_app env s n v = Some pr \<Longrightarrow> look_file s (accepted_name n) = Some a \<Longrightarrow> has_units env a"
proof -
  assume pr: "prior_app env s n v = Some pr" and acc: "look_file s (accepted_name n) = Some a"
  then obtain pm r where pm: "ie_parse env a = Some pm" "render_app (ie_paths env) pm [] = Inr r"
    by (auto simp: prior_app_def file_or_empty_def or_empty_def Let_def split: if_splits option.splits sum.splits)
  have "length (filter co_primary (mf_containers pm)) = 1" using render_units(5) [OF pm(2)] by (simp add: good_manifest_def)
  then have "mf_containers pm \<noteq> []" by auto
  then have "re_container_units r \<noteq> []" using render_units(2) [OF pm(2)] by simp
  then show ?thesis using pm by (simp add: has_units_def)
qed

lemma undo_works:
  assumes "view_of (no_files s) n = (Some a, Some (v, snap))" and "no_members s snap = Some d" and "no_data s n \<noteq> None"
    and "snap \<noteq> []" and "safe_unit_name n" and "has_units env a"
  shows "\<exists>t. undo_install all_work env n s = (t, True) \<and> view_of (no_files t) n = (Some a, None) \<and> no_running t n = Some a \<and> no_data t n = Some (d @ [a])"
proof -
  obtain s1 answer where s1: "pending_installs all_work s = (s1, answer)" by fastforce
  have ps: "answer = Some (map (pending_shown (no_files s)) (staged_names (no_files s)))" "no_files s1 = no_files s" "same_rest s s1"
    using s1 pending_law(1,2) [OF s1] by (auto simp: pending_works)
  have "n \<in> set (staged_names (no_files s))" using assms(1) by (auto simp: staged_names_iff view_of_def)
  then obtain p where p: "find (\<lambda>p. pi_name p = n) (map (pending_shown (no_files s)) (staged_names (no_files s))) = Some p"
    by (cases "find (\<lambda>p. pi_name p = n) (map (pending_shown (no_files s)) (staged_names (no_files s)))") (auto simp: find_None_iff pending_shown_def)
  then have mem: "p \<in> set (map (pending_shown (no_files s)) (staged_names (no_files s)))" and name: "pi_name p = n" by (auto simp: find_Some_iff)
  have facts: "pi_rollback p = snap" "pi_accepted p = a" using shown_view [OF mem] name assms(1) by (auto simp: or_empty_def)
  let ?q = "undo_quiesced all_work env p s1"
  have q: "no_running ?q n = None" "no_data ?q = no_data s" "no_members ?q = no_members s" "no_files ?q = no_files s"
    using assms(6) facts(2) ps(2,3) name by (simp_all add: undo_quiesced_def quiesce_app_def all_work_def same_rest_def)
  obtain u k where u: "verb all_work (command all_work (take_member_of n (snapshot_member n TriggerAppUndoBefore (ie_undo_now env)))) ?q = (u, k)" by fastforce
  obtain y i where y: "command all_work (take_member_of n (snapshot_member n TriggerAppUndoBefore (ie_undo_now env))) ?q = (y, i)" "u = y \<or> u = count_cmd y"
    using verb_result [OF u] by metis
  have uq: "no_running u n = None" "no_data u = no_data s" "no_members u snap = Some d" "no_files u = no_files s"
    using take_member_law [OF y(1)] y(2) q assms(2) by auto
  obtain w where w: "restore_data all_work n snap u = (w, True)" using restore_works [of u snap n] uq assms(3) by auto
  note rl = restore_law [OF w]
  have s2: "undo_data all_work env p ?q = (count_cmd w, True)"
    using facts(1) name assms(4) u verb_works [where f = "restore_data all_work n snap", OF w] by (simp add: undo_data_def Let_def)
  have wf: "no_running w n = None" "no_data w n = Some d" "no_files w = no_files s" using rl uq by (auto simp: restoring_app_def)
  obtain x where x: "discard_app all_work n (count_cmd w) = (x, True)" using endings_work(2) [OF assms(5)] by blast
  have xf: "view_of (no_files x) n = (Some a, None)" "no_running x n = None" "no_data x n = Some d"
    using discard_law [OF x] assms(1) wf by (auto simp: same_rest_def)
  obtain t r where t: "converge_node all_work [] (count_cmd x) = (t, r)" by fastforce
  note conv = converge_works [OF t]
  have sel: "selected_version (no_files x) [] n = Some a" using xf(1) by (auto simp: selected_version_def view_of_def)
  have "undo_install all_work env n s = (t, True)"
    using s1 ps(1) p name s2 verb_works [where f = "discard_app all_work n", OF x] t conv(1) by (simp add: undo_install_def undo_staged_def)
  then show ?thesis using conv(2,3) [of n] conv(4) sel xf by (auto simp: opened_def)
qed

lemma upgrade_settles:
  assumes "view_of (no_files s) n = (Some old, None)" and "no_data s n = Some l0" and "no_running s n \<in> {None, Some old}"
    and "prior_app env s n new = Some prior" and "no_members s (snapshot_member n TriggerAppUpdateBefore (ie_now env)) = None"
    and "\<not> stage_refused \<lparr>sr_name = n, sr_data_dir = data_root n, sr_manifest = new, sr_rollback = snapshot_member n TriggerAppUpdateBefore (ie_now env)\<rparr>"
  shows "\<exists>t. install_serving all_work env n new (Some prior) s = (t, if await_healthy (ie_looks env) \<and> ie_judge env then Installed else RolledBack) \<and>
     (let serves = (if await_healthy (ie_looks env) \<and> ie_judge env then new else old)
      in view_of (no_files t) n = (Some serves, None) \<and> no_running t n = Some serves \<and> no_data t n = Some (l0 @ [serves]))"
proof -
  let ?snap = "snapshot_member n TriggerAppUpdateBefore (ie_now env)"
    and ?req = "\<lparr>sr_name = n, sr_data_dir = data_root n, sr_manifest = new, sr_rollback = snapshot_member n TriggerAppUpdateBefore (ie_now env)\<rparr>"
  have safe: "safe_unit_name n" using assms(6) by (simp add: stage_refused_def)
  let ?q = "quiesce_app all_work n s"
  have q: "no_running ?q n = None" by (simp add: quiesce_app_def all_work_def)
  obtain m1 where m1: "command all_work (take_member_of n ?snap) ?q = (m1, True)"
    using assms(2,5) by (simp add: command_works take_member_of_def)
  note tl = take_member_law [OF m1]
  have m: "view_of (no_files m1) n = (Some old, None)" "no_running m1 n = None" "no_data m1 n = Some l0" "no_members m1 ?snap = Some l0"
    using tl q assms(1,2) by auto
  obtain g where g: "stage_app all_work ?req (count_cmd m1) = (g, True)" using stage_works [OF assms(6)] by blast
  note sl = stage_law [OF g]
  have st: "view_of (no_files g) n = (Some old, Some (new, ?snap))" "no_running g n = None" "no_data g n = Some l0" "no_members g ?snap = Some l0"
    using sl(2,4) m member_name(2) by (auto simp: staged_view_def data_made_def dest!: spec [of _ n])
  obtain c r where c: "converge_node all_work n (count_cmd g) = (c, r)" by fastforce
  note cl = converge_works [OF c]
  have sel: "selected_version (no_files g) n n = Some new" using st(1) by (auto simp: selected_version_def view_of_def split: option.split)
  have cv: "view_of (no_files c) n = (Some old, Some (new, ?snap))" "no_running c n = Some new" "no_data c n = Some (l0 @ [new])" "no_members c ?snap = Some l0"
    using cl(2,3) [of n] cl(4,5) sel st by (auto simp: opened_def)
  have units: "has_units env old"
    using has_prior_units [OF assms(4), of old] assms(1) by (auto simp: view_of_def)
  obtain t where undo: "undo_install all_work env n c = (t, True)" "view_of (no_files t) n = (Some old, None)" "no_running t n = Some old" "no_data t n = Some (l0 @ [old])"
    using undo_works [OF cv(1,4) _ member_name(1) safe units] cv(3) by auto
  obtain k where k: "commit_app all_work n c = (k, True)" using endings_work(1) [OF safe, of c] cv(1) by auto
  note kl = commit_law(2,4) [OF k]
  have run: "install_serving all_work env n new (Some prior) s = stage_and_gate all_work env n new ?snap (count_cmd m1)"
    using verb_works [where f = "command all_work (take_member_of n ?snap)", OF m1] by (simp add: install_serving_def Let_def)
  have gate: "stage_and_gate all_work env n new ?snap (count_cmd m1) =
      (if await_healthy (ie_looks env) \<and> ie_judge env then (count_cmd k, Installed) else (t, RolledBack))"
    using verb_works [where f = "stage_app all_work ?req", OF g] c cl(1) verb_works [where f = "commit_app all_work n", OF k] undo(1)
    by (simp add: stage_and_gate_def revert_install_def)
  show ?thesis unfolding run gate using undo kl cv by (auto simp: same_rest_def Let_def)
qed


text \<open>
  C36: where commands work an upgrade ends at once on one of two states: the gate passed and the new version
  serves on the data it found, or it did not and the old version serves on the data as it was when the
  install stopped it, with nothing pending either way.
\<close>

theorem upgrade_ends_serving:
  assumes "view_of (no_files s) n = (Some old, None)" and "no_data s n = Some l0" and "no_running s n \<in> {None, Some old}"
    and "prior_app env s n new = Some prior" and "no_members s (snapshot_member n TriggerAppUpdateBefore (ie_now env)) = None"
    and "\<not> stage_refused \<lparr>sr_name = n, sr_data_dir = data_root n, sr_manifest = new, sr_rollback = snapshot_member n TriggerAppUpdateBefore (ie_now env)\<rparr>"
  shows "\<exists>t. install_serving all_work env n new (Some prior) s = (t, if await_healthy (ie_looks env) \<and> ie_judge env then Installed else RolledBack) \<and>
     (let serves = (if await_healthy (ie_looks env) \<and> ie_judge env then new else old)
      in view_of (no_files t) n = (Some serves, None) \<and> no_running t n = Some serves \<and> no_data t n = Some (l0 @ [serves]))"
  by (rule upgrade_settles [OF assms])


section \<open>Where the record is not enough\<close>

text \<open>A commit whose rename is done and whose flush fails is reported as rolled back, and the new version serves.\<close>

lemma reported_rolled_back_but_installed:
  assumes "view_of (no_files s) n = (Some a, Some (v, snap))" and "safe_unit_name n"
  shows "\<exists>io t u. commit_app io n s = (t, False) \<and> revert_install all_work env n t = (u, RolledBack) \<and>
     view_of (no_files u) n = (Some v, None) \<and> no_running u n = Some v"
proof -
  define io where "io = all_work\<lparr>vi_out := (\<lambda>k. if k = no_cmds s then Unflushed else Written)\<rparr>"
  obtain f where staged: "look_file s (staged_name n) = Some f" "f = v" using assms(1) by (auto simp: view_of_def)
  obtain t where t: "commit_app io n s = (t, False)" "view_of (no_files t) n = (Some v, None)"
  proof -
    have "\<exists>w. move_name (staged_name n) (accepted_name n) s = Some w \<and> view_of (no_files w) n = (Some v, None)"
      using staged by (simp add: move_name_def view_of_def map_of_put map_of_del)
    then obtain w where w: "move_name (staged_name n) (accepted_name n) s = Some w" "view_of (no_files w) n = (Some v, None)" by blast
    have "commit_app io n s = (count_cmd w, False)" using assms(2) w(1) by (simp add: commit_app_def command_def io_def)
    then show thesis using that w(2) by simp
  qed
  obtain s1 answer where s1: "pending_installs all_work t = (s1, answer)" by fastforce
  have ps: "answer = Some (map (pending_shown (no_files t)) (staged_names (no_files t)))" "no_files s1 = no_files t"
    using s1 pending_law(1,2) [OF s1] by (auto simp: pending_works)
  have "n \<notin> set (staged_names (no_files t))" using t(2) by (auto simp: staged_names_iff view_of_def)
  then have none: "find (\<lambda>p. pi_name p = n) (map (pending_shown (no_files t)) (staged_names (no_files t))) = None"
    by (auto simp: find_None_iff pending_shown_def)
  obtain u r where u: "converge_node all_work [] s1 = (u, r)" by fastforce
  note conv = converge_works [OF u]
  have "selected_version (no_files s1) [] n = Some v" using t(2) ps(2) by (auto simp: selected_version_def view_of_def)
  then have "revert_install all_work env n t = (u, RolledBack) \<and> view_of (no_files u) n = (Some v, None) \<and> no_running u n = Some v"
    using s1 ps none u conv(1,2,4) t(2) by (simp add: revert_install_def undo_install_def)
  then show ?thesis using t(1) by blast
qed

text \<open>
  An install does not look for one that is pending, as after an undo that failed: its rollback point is a copy of
  the data the failed version had opened, and it takes the place of the one that was good.
\<close>

lemma second_install_forgets_the_good_point:
  assumes "view_of (no_files s) n = (Some old, Some (failed, good))" and "no_data s n = Some spoilt" and "no_running s n = None"
    and "prior_app env s n new = Some prior" and "no_members s (snapshot_member n TriggerAppUpdateBefore (ie_now env)) = None"
    and "\<not> stage_refused \<lparr>sr_name = n, sr_data_dir = data_root n, sr_manifest = new, sr_rollback = snapshot_member n TriggerAppUpdateBefore (ie_now env)\<rparr>"
    and "\<not> await_healthy (ie_looks env)"
  shows "\<exists>t. install_serving all_work env n new (Some prior) s = (t, RolledBack) \<and> no_running t n = Some old \<and> no_data t n = Some (spoilt @ [old])"
proof -
  let ?snap = "snapshot_member n TriggerAppUpdateBefore (ie_now env)"
    and ?req = "\<lparr>sr_name = n, sr_data_dir = data_root n, sr_manifest = new, sr_rollback = snapshot_member n TriggerAppUpdateBefore (ie_now env)\<rparr>"
  have safe: "safe_unit_name n" using assms(6) by (simp add: stage_refused_def)
  let ?q = "quiesce_app all_work n s"
  obtain m1 where m1: "command all_work (take_member_of n ?snap) ?q = (m1, True)"
    using assms(2,5) by (simp add: command_works take_member_of_def)
  note tl = take_member_law [OF m1]
  have m: "view_of (no_files m1) n = (Some old, Some (failed, good))" "no_running m1 n = None" "no_data m1 n = Some spoilt" "no_members m1 ?snap = Some spoilt"
    using tl assms(1-3) by (auto simp: quiesce_app_def)
  obtain g where g: "stage_app all_work ?req (count_cmd m1) = (g, True)" using stage_works [OF assms(6)] by blast
  note sl = stage_law [OF g]
  have st: "view_of (no_files g) n = (Some old, Some (new, ?snap))" "no_running g n = None" "no_data g n = Some spoilt" "no_members g ?snap = Some spoilt"
    using sl(2,4) m member_name(2) by (auto simp: staged_view_def data_made_def dest!: spec [of _ n])
  obtain c r where c: "converge_node all_work n (count_cmd g) = (c, r)" by fastforce
  note cl = converge_works [OF c]
  have sel: "selected_version (no_files g) n n = Some new" using st(1) by (auto simp: selected_version_def view_of_def split: option.split)
  have cv: "view_of (no_files c) n = (Some old, Some (new, ?snap))" "no_data c n \<noteq> None" "no_members c ?snap = Some spoilt"
    using cl(2,3) [of n] cl(4,5) sel st by (auto simp: opened_def)
  have units: "has_units env old"
    using has_prior_units [OF assms(4), of old] assms(1) by (auto simp: view_of_def)
  obtain t where undo: "undo_install all_work env n c = (t, True)" "no_running t n = Some old" "no_data t n = Some (spoilt @ [old])"
    using undo_works [OF cv(1,3,2) member_name(1) safe units] by auto
  have "install_serving all_work env n new (Some prior) s = stage_and_gate all_work env n new ?snap (count_cmd m1)"
    using verb_works [where f = "command all_work (take_member_of n ?snap)", OF m1] by (simp add: install_serving_def Let_def)
  also have "\<dots> = (t, RolledBack)"
    using verb_works [where f = "stage_app all_work ?req", OF g] c cl(1) assms(7) undo(1)
    by (simp add: stage_and_gate_def revert_install_def)
  finally show ?thesis using undo by blast
qed

text \<open>A restore that is cut between the delete of the data and the rename of its copy leaves none, and no later restore succeeds.\<close>

lemma cut_restore_loses_the_data:
  assumes "no_members s member \<noteq> None" and "no_data s n \<noteq> None" and "no_running s n = None" and "no_restoring s n = None"
  shows "\<exists>io t. restore_data io n member s = (t, False) \<and> no_data t n = None \<and> (\<forall>io' member'. \<not> snd (restore_data io' n member' t))"
proof -
  define io where "io = all_work\<lparr>vi_out := (\<lambda>k. if k < no_cmds s + 6 then Written else NotWritten)\<rparr>"
  obtain t where "restore_data io n member s = (t, False)" "no_data t n = None"
    using assms
    by (auto simp: restore_data_def command_def show_member_def stage_copy_def delete_data_def swap_in_def io_def count_cmd_def)
  then show ?thesis using restore_law(2) by (metis prod.collapse)
qed


text \<open>
  A rollback point that can not be read is taken for none: the undo restores nothing, removes the record of the
  point with the stage, reports that it worked, and starts the old version on the data the new one has opened.
\<close>

lemma unread_rollback_point_is_dropped:
  assumes "view_of (no_files s) n = (Some old, Some (new, snap))" and "no_data s n = Some opened_data"
    and "safe_unit_name n" and "has_units env old"
  shows "\<exists>io t. vi_out io = (\<lambda>_. Written) \<and> (\<forall>c. vi_held io c \<and> vi_names io c) \<and>
     undo_install io env n s = (t, True) \<and> no_running t n = Some old \<and> no_data t n = Some (opened_data @ [old]) \<and>
     view_of (no_files t) n = (Some old, None)"
proof -
  define io where "io = all_work\<lparr>vi_reads := (\<lambda>c k. k \<noteq> rollback_name n)\<rparr>"
  have same: "vi_out io = vi_out all_work" "vi_stops io = vi_stops all_work" "vi_starts io = vi_starts all_work"
    "vi_prepares io = vi_prepares all_work" "vi_names io = vi_names all_work" "vi_held io = vi_held all_work"
    by (simp_all add: io_def)
  have command: "command io = command all_work" by (intro ext) (simp only: command_def same)
  have quiesce: "quiesce_app io n s' = quiesce_app all_work n s'" for s' by (simp only: quiesce_app_def same)
  have conv: "converge_node io [] s' = converge_node all_work [] s'" for s'
    by (simp only: converge_node_def converged_running_def selected_def same)
  have discard: "discard_app io n s' = discard_app all_work n s'" for s' by (simp only: discard_app_def command)
  let ?fs = "no_files s"
  have listed: "listed_stages io c ?fs = staged_names ?fs" for c by (simp add: listed_stages_def io_def all_work_def)
  have n: "n \<in> set (staged_names ?fs)" using assms(1) by (auto simp: staged_names_iff view_of_def)
  have each: "\<exists>p. pending_of io c ?fs k = Some p \<and> pi_name p = k \<and> (k = n \<longrightarrow> pi_rollback p = [] \<and> pi_accepted p = old)"
    if k: "k \<in> set (staged_names ?fs)" for k c
    using that assms(1)
    by (auto simp: pending_of_def read_file_def io_def all_work_def staged_names_iff view_of_def or_empty_def trim_space_def)
  let ?ps = "map the (map (pending_of io (no_cmds s) ?fs) (staged_names ?fs))"
  have "None \<notin> set (map (pending_of io (no_cmds s) ?fs) (staged_names ?fs))"
  proof
    assume "None \<in> set (map (pending_of io (no_cmds s) ?fs) (staged_names ?fs))"
    then obtain k where "k \<in> set (staged_names ?fs)" "pending_of io (no_cmds s) ?fs k = None" by auto
    then show False using each [of k "no_cmds s"] by simp
  qed
  then have pend: "pending_installs io s = (count_cmd s, Some ?ps)"
    by (simp add: pending_installs_def listed command command_works Let_def)
  obtain p where p: "find (\<lambda>p. pi_name p = n) ?ps = Some p"
  proof (cases "find (\<lambda>p. pi_name p = n) ?ps")
    case None
    obtain p' where "pending_of io (no_cmds s) ?fs n = Some p'" "pi_name p' = n" using each [OF n, of "no_cmds s"] by blast
    then have "p' \<in> set ?ps" using n by (metis image_eqI list.set_map option.sel)
    then show thesis using None \<open>pi_name p' = n\<close> by (simp only: find_None_iff) blast
  qed (use that in blast)
  then have mem: "p \<in> set ?ps" and name: "pi_name p = n" by (auto simp: find_Some_iff)
  obtain k where k: "k \<in> set (staged_names ?fs)" "p = the (pending_of io (no_cmds s) ?fs k)" using mem by auto
  obtain p' where p': "pending_of io (no_cmds s) ?fs k = Some p'" "pi_name p' = k" "k = n \<longrightarrow> pi_rollback p' = [] \<and> pi_accepted p' = old"
    using each [OF k(1), of "no_cmds s"] by blast
  then have facts: "pi_rollback p = []" "pi_accepted p = old" using k(2) name by auto
  let ?q = "undo_quiesced io env p (count_cmd s)"
  have q: "no_running ?q n = None" "no_data ?q = no_data s" "no_files ?q = no_files s"
    using assms(4) facts(2) name by (simp_all add: undo_quiesced_def quiesce_app_def same all_work_def)
  obtain x where x: "discard_app all_work n ?q = (x, True)" using endings_work(2) [OF assms(3)] by blast
  have xf: "view_of (no_files x) n = (Some old, None)" "no_running x n = None" "no_data x n = Some opened_data"
    using discard_law [OF x] assms(1,2) q by (auto simp: same_rest_def)
  have v: "verb io (discard_app io n) ?q = (count_cmd x, True)"
    using x by (simp add: verb_def discard command command_works)
  obtain t r where t: "converge_node all_work [] (count_cmd x) = (t, r)" by fastforce
  note cw = converge_works [OF t]
  have sel: "selected_version (no_files x) [] n = Some old" using xf(1) by (auto simp: selected_version_def view_of_def split: option.splits)
  have "undo_install io env n s = (t, True)"
    using pend p name facts(1) v t cw(1) by (simp add: undo_install_def undo_staged_def undo_data_def conv)
  moreover have "no_running t n = Some old" "no_data t n = Some (opened_data @ [old])" "view_of (no_files t) n = (Some old, None)"
    using cw(2,3) [of n] cw(4) sel xf by (auto simp: opened_def)
  moreover have "vi_out io = (\<lambda>_. Written)" "vi_held io c \<and> vi_names io c" for c by (simp_all add: io_def all_work_def)
  ultimately show ?thesis by blast
qed

text \<open>
  A listing of the staged installs that fails is taken for an empty one: a converge starts the old version of an
  app that is held back because the new one has opened its data.
\<close>

lemma unlisted_stage_is_not_held:
  assumes "view_of (no_files s) n = (Some old, Some (new, snap))" and "no_data s n = Some opened_data" and "no_running s n = None"
  shows "\<exists>io t. vi_out io = (\<lambda>_. Written) \<and> converge_node io [] s = (t, Some (\<lambda>_. False)) \<and>
     no_running t n = Some old \<and> no_data t n = Some (opened_data @ [old])"
proof -
  define io where "io = all_work\<lparr>vi_held := (\<lambda>_. False)\<rparr>"
  have "selected io c (no_files s) [] n = Some old" for c
    using assms(1) by (auto simp: selected_def view_of_def io_def all_work_def)
  moreover obtain t r where t: "converge_node io [] s = (t, r)" by fastforce
  moreover have "vi_out io = (\<lambda>_. Written)" by (simp add: io_def all_work_def)
  moreover have "r = Some (\<lambda>_. False)"
    using t by (auto simp: converge_node_def io_def all_work_def Let_def split: option.splits)
  moreover have "no_running t n = converged_running io (no_cmds s) (selected io (no_cmds s) (no_files s) [] n) n None"
    "no_data t n = opened None (no_running t n) (Some opened_data)"
    using t assms(2,3) \<open>vi_out io = (\<lambda>_. Written)\<close> by (auto simp: converge_node_def Let_def)
  ultimately show ?thesis
    by (intro exI [of _ io] exI [of _ t]) (simp add: converged_running_def opened_def io_def all_work_def)
qed


section \<open>Examples\<close>

definition example_env :: "bool \<Rightarrow> install_env" where
  "example_env healthy =
     \<lparr>ie_installed = True, ie_converge = True, ie_member = True, ie_fetch = Some (example_manifest ''x'' ''c'', ''new''), ie_room = True,
      ie_memory = True, ie_active = Some True, ie_read = True, ie_parse = (\<lambda>_. Some (example_manifest ''x'' ''c'')), ie_paths = default_paths,
      ie_render = (\<lambda>_ _. True), ie_warm = (\<lambda>_. True), ie_serving = Some True, ie_now = 0, ie_undo_now = 0,
      ie_looks = [(Some (if healthy then Healthy else Unhealthy), True)], ie_judge = True\<rparr>"

definition example_node :: node where
  "example_node =
     \<lparr>no_files = [(''x.json'', ''old'')], no_data = (\<lambda>n. if n = ''x'' then Some [''old''] else None), no_restoring = (\<lambda>_. None),
      no_members = (\<lambda>_. None), no_running = (\<lambda>n. if n = ''x'' then Some ''old'' else None), no_cmds = 0\<rparr>"

lemma example_renders_x: "\<exists>r. render_app default_paths (example_manifest ''x'' ''c'') [] = Inr r"
proof -
  have "validate_manifest (example_manifest ''x'' ''c'') = None" by code_simp
  then show ?thesis by (auto simp: render_app_def Let_def)
qed

lemma example_view: "view_of (no_files example_node) ''x'' = (Some ''old'', None)"
  by (simp add: example_node_def view_of_def accepted_name_def staged_name_def)

lemma example_prior: "\<exists>p. prior_app (example_env h) example_node ''x'' ''new'' = Some p"
  using example_renders_x by (auto simp: prior_app_def example_env_def example_node_def file_or_empty_def or_empty_def accepted_name_def Let_def)

lemma example_stages:
  "\<not> stage_refused \<lparr>sr_name = ''x'', sr_data_dir = data_root ''x'', sr_manifest = ''new'', sr_rollback = snapshot_member ''x'' TriggerAppUpdateBefore (ie_now (example_env h))\<rparr>"
proof -
  have "CHR 0x0A \<notin> set (snapshot_member ''x'' TriggerAppUpdateBefore 0)" by code_simp
  moreover have "safe_unit_name ''x''" by code_simp
  ultimately show ?thesis by (simp add: stage_refused_def data_root_def example_env_def)
qed

theorem upgrade_ends_serving_witness:
  "\<exists>p t. install_serving all_work (example_env True) ''x'' ''new'' (Some p) example_node = (t, Installed) \<and> no_data t ''x'' = Some [''old'', ''new'']"
proof -
  obtain p where p: "prior_app (example_env True) example_node ''x'' ''new'' = Some p" using example_prior by blast
  have "no_data example_node ''x'' = Some [''old'']" "no_running example_node ''x'' \<in> {None, Some ''old''}"
    "no_members example_node (snapshot_member ''x'' TriggerAppUpdateBefore (ie_now (example_env True))) = None"
    by (simp_all add: example_node_def)
  from upgrade_ends_serving [OF example_view this(1,2) p this(3) example_stages]
  obtain t where t: "install_serving all_work (example_env True) ''x'' ''new'' (Some p) example_node =
      (t, if await_healthy (ie_looks (example_env True)) \<and> ie_judge (example_env True) then Installed else RolledBack)"
    "let serves = (if await_healthy (ie_looks (example_env True)) \<and> ie_judge (example_env True) then ''new'' else ''old'')
      in view_of (no_files t) ''x'' = (Some serves, None) \<and> no_running t ''x'' = Some serves \<and> no_data t ''x'' = Some ([''old''] @ [serves])" by blast
  have "await_healthy (ie_looks (example_env True)) \<and> ie_judge (example_env True)" by (simp add: example_env_def)
  then show ?thesis using t by (intro exI [of _ p] exI [of _ t]) (simp add: Let_def)
qed

theorem old_version_never_opens_the_new_ones_data_witness:
  "\<exists>s1. apply_one_install all_work (example_env True) ''x'' example_node = (s1, Installed) \<and> view_of (no_files s1) ''x'' = (Some ''new'', None)"
proof -
  obtain p where p: "prior_app (example_env True) example_node ''x'' ''new'' = Some p" using example_prior by blast
  have start: "no_data example_node ''x'' = Some [''old'']" "no_running example_node ''x'' \<in> {None, Some ''old''}"
    "no_members example_node (snapshot_member ''x'' TriggerAppUpdateBefore (ie_now (example_env True))) = None"
    by (simp_all add: example_node_def)
  obtain t where t: "install_serving all_work (example_env True) ''x'' ''new'' (Some p) example_node = (t, Installed)"
    using upgrade_settles [OF example_view start(1,2) p start(3) example_stages] by (auto simp: example_env_def)
  have name: "mf_name (example_manifest ''x'' ''c'') = ''x''" by (simp add: example_manifest_def)
  obtain r where r: "render_app default_paths (example_manifest ''x'' ''c'') [] = Inr r" using example_renders_x by blast
  have "list_all (\<lambda>_. True) (re_image_units r)" by (simp add: list_all_iff)
  then have run: "apply_one_install all_work (example_env True) ''x'' example_node = (t, Installed)"
    using p t r name by (simp add: apply_one_install_def example_env_def Let_def)
  have "tidy example_node" by (simp add: tidy_def example_node_def)
  from old_version_never_opens_the_new_ones_data [OF this, of "example_manifest ''x'' ''c''", unfolded name, OF example_view start(1,2) _ _ run rtranclp.rtrancl_refl working.reports]
  have "view_of (no_files t) ''x'' = (Some ''new'', None)" using p by (simp add: example_env_def)
  then show ?thesis using run by blast
qed

end
