(* ===== verification/Spec2Isabelle.thy ===== *)
theory Spec2Isabelle
  imports Prelude Deadman GateProbe GuestRecovery Drbd Subnet SelfUpdate Channel Update AlertStore
    EntryGate HealthGate OsUpgrade Dhcp Lease Stamp RingNames History
    Utf8 HassChanges DbCheck Ring RingHistory Recorder ClockSample
    AppManifest Quadlet Url Routes Staging Install
begin

text \<open>
  A verification development for Briard: a small flock of home machines, each a host agent
  (\<open>agent/host\<close>, Go, privileged) that boots one guest virtual machine carrying the household's apps,
  with the data replicated between the guests by DRBD and the role moved by drbd-reactor.

  The parts and how they interact.

  The guest and the host watch each other. The guest's deadman (\<open>Deadman\<close>) reboots the guest when its
  host has been silent too long, and publishes a gate document that says whether a power cycle of this
  guest would be safe for the flock; the host reads that document (\<open>GateProbe\<close>) before its recovery
  ladder (\<open>GuestRecovery\<close>) relaunches or power-cycles a guest that has gone silent. Both decide from the
  DRBD status (\<open>Drbd\<close>), whose decoded form is the node's view of who holds a copy and who could take
  over. The host draws the subnets of the flock (\<open>Subnet\<close>), updates itself from the signed channel
  (\<open>Channel\<close>, \<open>Update\<close>, on the layout of \<open>SelfUpdate\<close>), moves the guest's image (\<open>OsUpgrade\<close>, behind the
  gates of \<open>HealthGate\<close>), judges app upgrades (\<open>EntryGate\<close>) and tells the owner what is wrong
  (\<open>AlertStore\<close>).

  The theories, with the code each models and what its lemmas show.

  \<^item> \<open>Prelude\<close>: Go's times and durations with the saturating \<open>Time.Sub\<close>, 64-bit wrap-around, the string
    functions of the standard library and decimal text, shared by all.
  \<^item> \<open>Deadman\<close>: \<open>agent/guestagent/deadman\<close>. \<open>decide\<close> is \<open>Decide\<close>, \<open>evaluate\<close> one tick of the monitor with its
    effects in order, \<open>run\<close> a series of ticks. Reboots need a majority of reachable voters, keep the
    cadence, and never lose the record of the episode.
  \<^item> \<open>GateProbe\<close>: \<open>agent/host/gateprobe.go\<close>. A locale for a channel that reads what was published,
    interpreted on the guest's \<open>render\<close> and the host's \<open>parse_gate\<close>; the document round-trips.
  \<^item> \<open>GuestRecovery\<close>: \<open>agent/host/guestrecover.go\<close>. \<open>next_step\<close> is the ladder, \<open>recover\<close> the loop. Actions
    are spaced, a refusal at the gate withholds the power cycle, an incident alerts once, and the ladder
    never stops trying.
  \<^item> \<open>Drbd\<close>: \<open>agent/drbd\<close>, \<open>shared/model\<close>. \<open>parse_cluster\<close> decodes the status; \<open>config\<close> writes the resource
    file. Taking over needs a connected, current copy; a reader of the file
    finds each node's disk and address, and for every pair the link with both its addresses.
  \<^item> \<open>Subnet\<close>: \<open>agent/subnet\<close>. Prefixes are \<open>32 word\<close>s with a length; a locale for a pool of candidates is
    interpreted on the three draws. \<open>observe\<close> reads the interfaces and the routing table, and a draw
    collides with no address and no route the host can see there; its record round-trips.
  \<^item> \<open>SelfUpdate\<close>: \<open>agent/selfupdate/layout.go\<close>. A directory of entries moved by rename steps that can stop
    anywhere; \<open>reached\<close> is the inductive set of directories that updates, reverts and power cuts give.
  \<^item> \<open>Channel\<close>: \<open>agent/install/fetch.go\<close>, \<open>agent/selfupdate/verify.go\<close>. What a fetch accepts is signed and whole.
  \<^item> \<open>Update\<close>: \<open>agent/install/update.go\<close>. The decision with its floors and a whole run, which ends on one
    release whatever fails on the way.
  \<^item> \<open>AlertStore\<close>: \<open>agent/host/alertstore.go\<close>, \<open>agent/host/alert.go\<close>, \<open>shared/notify\<close>. The store refines an
    abstract transition rule on open titles; a locale for emitters of conditions is interpreted on the
    three emitters.
  \<^item> \<open>EntryGate\<close>: \<open>agent/guest/entrygate\<close>, \<open>agent/host/readiness.go\<close>, \<open>Gate\<close> of \<open>agent/guest/guest.go\<close>.
    The loop that polls an app is a terminating function of what each turn reads, composed with both assessors,
    so that a revert is traced to the turns that made it.
  \<^item> \<open>HealthGate\<close>: \<open>Manager\<close> of \<open>agent/guest/guest.go\<close>, \<open>systemRunning\<close> of \<open>agent/host/osupgrade.go\<close>.
  \<^item> \<open>OsUpgrade\<close>: \<open>agent/host/osupgrade.go\<close>, \<open>agent/host/guestupdate.go\<close>. The image upgrade is proved to end
    on one image, and the directive to run only what the keyring signed.
  \<^item> \<open>Dhcp\<close>: \<open>agent/nic/dhcp.go\<close>. Messages are lists of \<open>8 word\<close>s; the loop over the options of a reply is a
    partial function proved to end and to agree with a structural reader. A locale for a source of leases
    is interpreted on the exchange.
  \<^item> \<open>Lease\<close>: \<open>agent/host/lease.go\<close>. The leaser with every operation, and \<open>lease_run\<close>, the histories of one
    host and its guest with renewals, relaunches and restarts of the agent. A DISCOVER is only sent in
    silence, the address given is on disk, the router is asked at a measured pace; the lemmas after them
    show what a restart forgets.
  \<^item> \<open>Stamp\<close>, \<open>RingNames\<close>: the names of the samples of an app (\<open>agent/quadlet/render.go\<close>), with Go's formatting
    and parsing of a time over the Gregorian calendar. A name reads back to its app, trigger and second.
  \<^item> \<open>History\<close>: \<open>agent/quadlet/history.go\<close>. Events, quiet points, retention and the rows a household reads. The
    prune is proved equal to a description without positions, and not to disturb what quiet time says.
  \<^item> \<open>Utf8\<close>: text as runes, as Go's \<open>range\<close> and \<open>WriteRune\<close> see it; what is written reads back.
  \<^item> \<open>HassChanges\<close>: \<open>agent/hass/changes.go\<close>. The signals of a copy of Home Assistant's configuration, the
    changes and resets between two of them and their words. A row is empty exactly when a reference
    description, which reads the copies on its own, sees no change, and what reaches a terminal holds no
    control character.
  \<^item> \<open>DbCheck\<close>: \<open>agent/hass/dbcheck.go\<close>. The holds on samples, a night's check with its search, the gate of a
    restore and the restore of the files. Only a sound copy is named, of the samples older
    than the newest quiesced one, and the databases a restore puts back are those of the copy, the listing
    being read from the disk.
  \<^item> \<open>Ring\<close>, \<open>RingHistory\<close>: \<open>agent/guestagent/inbound.go\<close>, with what \<open>agent/apps/apps.go\<close> answers for Home
    Assistant. The disk of a guest with numbered commands that can each fail; takes, evaluations, replaced
    starts, prunes, the clean-stop marker and the channel a container asks through. A request is
    served only to the installed app whose token it carries, a history only grows, nothing a
    replaced start knew is lost, and where commands work the ring keeps its invariant.
  \<^item> \<open>Recorder\<close>: \<open>agent/guestagent/dbcheck.go\<close>. The background check as an inductive step relation, and the
    restore through a staged copy that is exchanged with the live data: all or nothing on every path.
  \<^item> \<open>ClockSample\<close>: \<open>agent/host/clocksample.go\<close>. The hourly sample, the nightly check with its restore and alerts,
    the files tier's tick. A locale for a job that is paced is interpreted on the samples and on the tick; the
    check is run over the sessions of a host, each with a checker of its own, and composed with the alert store.
  \<^item> \<open>AppManifest\<close>: \<open>shared/manifest/manifest.go\<close>. The document of an app with its validation, proved equal to
    a schema without an order of checks.
  \<^item> \<open>Quadlet\<close>: \<open>agent/quadlet/render.go\<close>, the binds of \<open>agent/apps/apps.go\<close> with \<open>agent/hass\<close>, \<open>agent/mosquitto\<close>
    and \<open>agent/files\<close>. From a manifest to unit files: no value of a manifest adds a line, no volume leaves the
    areas of the app, and the bytes do not depend on the order of a Go map.
  \<^item> \<open>Url\<close>, \<open>Routes\<close>: \<open>shared/routes/routes.go\<close>, on Go's \<open>net/url\<close>. The table of the front door with its names,
    its validation and its lookup: a validated endpoint stays at its app's own address, and a name finds its app.
  \<^item> \<open>Staging\<close>: \<open>agent/guestagent/staging.go\<close>, with the sample, the restore and the converge of an app as an
    install sees them. Commands can fail, be reported as failed though done, or be cut, and the reads of the accepted
    manifest, of the rollback point and of the staged names can fail on their own, which the code takes for
    nothing there; a locale for a record in two phases is interpreted on the verbs. An install
    is recorded whole or not at all.
  \<^item> \<open>Install\<close>: the install, upgrade and undo of \<open>agent/host/app.go\<close> over \<open>Staging\<close>, and what a node may go through
    afterwards as an inductive step relation: where the reads of the staged names and rollback points are
    truthful (locale \<open>truthful_reports\<close>) the old version never opens data the new one has opened; lemmas show
    what a read that fails costs; and where
    commands work an upgrade ends at once on one of two states.

  Conventions. What the code reads from the outside (clocks, processes, the network, the verbs of the
  control channel, cryptography, decoders of JSON and archives) is an argument or a field of an
  environment record; every failure of such a call is a value of it. Errors are values of a sum, an
  option or a datatype with one constructor per return. A power cut is a prefix of the list of steps. A
  poll that waits for the world is a function of the list of its looks, total, with no value when the
  list ends before the code would return; the lemmas \<open>await_ready_returns\<close> and \<open>system_running_returns\<close> say
  that one look at which the budget is over is enough. No other fuel is used. Log lines and the words of
  alert bodies are left out.

  Not modelled: the orchestration of goroutines and of the control channel in \<open>agent/host/host.go\<close>, the frames of
  that channel, the in-guest verbs that only drive external commands (addresses, storage and units in
  \<open>agent/guestagent\<close>), re-parenting of the network, backups, the quotas of the files tier, pairing and handover,
  the HTTP and mDNS front door (\<open>reverse-proxy\<close>), the dashboard, the installers and the per-OS arms.
\<close>

end
